(* ===== verification/Prelude.thy ===== *)
theory Prelude
  imports Main "HOL-Library.Word"
begin

unbundle bit_operations_syntax

text \<open>
  Shared vocabulary of the development: the machine integers of the C sources as words of
  their width, C's conversions between them, contiguous memory as lists with explicit
  bounds, and the generic lemmas the component theories use.

  \<^item> \<open>u8\<close>, \<open>u16\<close>, \<open>u32\<close>, \<open>u64\<close> are the unsigned C types of those widths (LP64: \<open>unsigned int\<close>
    has 32 bits, \<open>unsigned long\<close> and \<open>size_t\<close> have 64); arithmetic on them wraps as in C.
    Signed C integers are \<open>int\<close>; \<open>c_int\<close> is the conversion of an unsigned value to the
    32-bit type \<open>int\<close>.
  \<^item> An operation whose C code could read or write outside an array returns an \<open>option\<close>,
    and \<open>None\<close> is that undefined behaviour; the component theories prove when it cannot
    happen.
\<close>

named_theorems word_nat_simps \<open>unfolding of word operations into nat arithmetic\<close>
named_theorems mem_simps \<open>rewriting of contiguous memory reads and writes\<close>

section \<open>Machine integers\<close>

type_synonym u8 = "8 word"
type_synonym u16 = "16 word"
type_synonym u32 = "32 word"
type_synonym u64 = "64 word"
type_synonym byte = "8 word"

definition c_int :: "'a::len word \<Rightarrow> int" where
  "c_int w = sint (ucast w :: 32 word)"

abbreviation u32_u64 :: "u32 \<Rightarrow> u64" where
  "u32_u64 w \<equiv> ucast w"

declare of_nat_unat [simp del]

lemma unat_ucast_mod: "unat (ucast (w :: 'a::len word) :: 'b::len word) = unat w mod 2 ^ LENGTH('b)"
  by transfer (simp add: take_bit_eq_mod nat_mod_distrib nat_power_eq)

lemma unat_ucast_up_u32_u64 [simp]: "unat (ucast (w :: u32) :: u64) = unat w"
  by transfer (simp add: take_bit_eq_mod)

lemma unat_ucast_u8_u32 [simp]: "unat (ucast (w :: u8) :: u32) = unat w"
  by transfer (simp add: take_bit_eq_mod)

lemma unat_ucast_u8_u64 [simp]: "unat (ucast (w :: u8) :: u64) = unat w"
  by transfer (simp add: take_bit_eq_mod)

lemma unat_less_power2: "unat (w :: 'a::len word) < 2 ^ LENGTH('a)"
  by transfer (simp add: take_bit_eq_mod nat_less_iff)

lemma unat_lt_size [simp]: "unat (w :: u32) < 4294967296" "unat (v :: u64) < 18446744073709551616"
  "unat (b :: u8) < 256" "unat (h :: u16) < 65536"
  using unat_less_power2 [of w] unat_less_power2 [of v] unat_less_power2 [of b] unat_less_power2 [of h] by simp_all

lemma unat_add_no_wrap:
  "unat (a :: 'a::len word) + unat b < 2 ^ LENGTH('a) \<Longrightarrow> unat (a + b) = unat a + unat b"
  by (simp add: unat_add_lem [symmetric])

lemma unat_sub_no_wrap: "unat (b :: 'a::len word) \<le> unat a \<Longrightarrow> unat (a - b) = unat a - unat b"
  by (simp add: unat_sub word_le_nat_alt)

lemma unat_word_of_int:
  "0 \<le> i \<Longrightarrow> i < 2 ^ LENGTH('a) \<Longrightarrow> unat (word_of_int i :: 'a::len word) = nat i"
  by transfer (simp add: take_bit_int_eq_self)

text \<open>The conversion to \<open>int\<close> keeps every value that fits.\<close>

lemma c_int_small:
  fixes w :: "'a::len word"
  assumes "unat w < 2 ^ 31"
  shows "c_int w = int (unat w)"
proof -
  have "unat (ucast w :: 32 word) = unat w"
    using assms by (simp add: unat_ucast_mod)
  then have u: "uint (ucast w :: 32 word) = int (unat w)"
    by (metis uint_nat)
  have "sint (ucast w :: 32 word) = uint (ucast w :: 32 word)"
    unfolding sint_uint using assms
    by (intro signed_take_bit_int_eq_self) (simp_all add: u)
  with u show ?thesis by (simp add: c_int_def)
qed

lemmas [word_nat_simps] = word_less_nat_alt word_le_nat_alt unat_ucast_mod

section \<open>Flag words\<close>

text \<open>The C idioms \<open>s & f\<close> as a test, \<open>s |= f\<close> and \<open>s &= ~f\<close>.\<close>

definition has_flag :: "'a::len word \<Rightarrow> 'a word \<Rightarrow> bool" where
  "has_flag s f \<longleftrightarrow> s AND f \<noteq> 0"

definition set_flag :: "'a::len word \<Rightarrow> 'a word \<Rightarrow> 'a word" where
  "set_flag s f = s OR f"

definition clear_flag :: "'a::len word \<Rightarrow> 'a word \<Rightarrow> 'a word" where
  "clear_flag s f = s AND NOT f"

lemma or_zero_iff: "(a :: 'a::len word) OR b = 0 \<longleftrightarrow> a = 0 \<and> b = 0"
  by (auto simp: bit_eq_iff bit_simps)

lemma has_flag_set_flag [simp]: "has_flag (set_flag s f) g \<longleftrightarrow> has_flag s g \<or> has_flag f g"
  by (auto simp: has_flag_def set_flag_def bit.conj_disj_distrib2 or_zero_iff)

lemma has_flag_of_set_flag [simp]: "has_flag s (set_flag f g) \<longleftrightarrow> has_flag s f \<or> has_flag s g"
  by (auto simp: has_flag_def set_flag_def bit.conj_disj_distrib or_zero_iff)

lemma has_flag_clear_same [simp]: "\<not> has_flag (clear_flag s f) f"
  by (simp add: has_flag_def clear_flag_def and.assoc)

lemma has_flag_clear_other [simp]: "f AND g = 0 \<Longrightarrow> has_flag (clear_flag s f) g = has_flag s g"
proof -
  assume "f AND g = 0"
  then have "NOT f AND g = g"
    by (metis and.commute bit.conj_cancel_right bit.conj_disj_distrib bit.disj_cancel_right bit.conj_one_right or.left_neutral)
  then show ?thesis by (simp add: has_flag_def clear_flag_def and.assoc)
qed

lemma has_flag_0 [simp]: "\<not> has_flag 0 f"
  by (simp add: has_flag_def)

lemma has_flag_numeral [simp]:
  "has_flag (numeral a :: 'a::len word) (numeral b) \<longleftrightarrow> (numeral a :: 'a word) AND numeral b \<noteq> 0"
  "has_flag (1 :: 'a::len word) (numeral b) \<longleftrightarrow> (1 :: 'a word) AND numeral b \<noteq> 0"
  "has_flag (numeral a :: 'a::len word) 1 \<longleftrightarrow> (numeral a :: 'a word) AND 1 \<noteq> 0"
  "has_flag (1 :: 'a::len word) 1"
  by (simp_all add: has_flag_def)

section \<open>Contiguous memory\<close>

text \<open>The bytes \<open>[a, b)\<close> of a buffer, and a write at an offset with its bounds check.\<close>

definition seg :: "nat \<Rightarrow> nat \<Rightarrow> 'a list \<Rightarrow> 'a list" where
  "seg a b xs = take (b - a) (drop a xs)"

definition memcpy_at :: "'a list \<Rightarrow> nat \<Rightarrow> 'a list \<Rightarrow> 'a list option" where
  "memcpy_at buf pos src =
     (if pos + length src \<le> length buf
      then Some (take pos buf @ src @ drop (pos + length src) buf) else None)"

lemma length_seg [simp]: "length (seg a b xs) = min (b - a) (length xs - a)"
  by (simp add: seg_def)

lemma seg_empty [simp]: "b \<le> a \<Longrightarrow> seg a b xs = []"
  by (simp add: seg_def)

lemma seg_append:
  assumes "a \<le> b" "b \<le> c"
  shows "seg a b xs @ seg b c xs = seg a c xs"
proof -
  have "seg a c xs = take ((b - a) + (c - b)) (drop a xs)"
    using assms by (simp add: seg_def)
  also have "\<dots> = seg a b xs @ take (c - b) (drop (b - a) (drop a xs))"
    by (simp add: take_add seg_def)
  also have "drop (b - a) (drop a xs) = drop b xs"
    using assms by simp
  finally show ?thesis by (simp add: seg_def)
qed

lemma take_seg: "n \<le> b - a \<Longrightarrow> take n (seg a b xs) = seg a (a + n) xs"
  by (simp add: seg_def min_def)

lemma drop_seg: "drop n (seg a b xs) = seg (a + n) b xs"
  by (simp add: seg_def drop_take add.commute)

lemma seg_0: "seg 0 b xs = take b xs"
  by (simp add: seg_def)

lemma memcpy_at_fits: "pos + length src \<le> length buf \<Longrightarrow> \<exists>buf'. memcpy_at buf pos src = Some buf'"
  by (simp add: memcpy_at_def)

lemma memcpy_at_length: "memcpy_at buf pos src = Some buf' \<Longrightarrow> length buf' = length buf"
  by (auto simp: memcpy_at_def split: if_splits)

lemma memcpy_at_seg_same:
  "memcpy_at buf pos src = Some buf' \<Longrightarrow> seg pos (pos + length src) buf' = src"
  by (auto simp: memcpy_at_def seg_def split: if_splits)

lemma memcpy_at_seg_before:
  "memcpy_at buf pos src = Some buf' \<Longrightarrow> b \<le> pos \<Longrightarrow> seg a b buf' = seg a b buf"
  by (auto simp: memcpy_at_def seg_def drop_append take_drop min_def split: if_splits)

lemma memcpy_at_seg_after:
  assumes "memcpy_at buf pos src = Some buf'" "pos + length src \<le> a"
  shows "seg a b buf' = seg a b buf"
proof -
  have "drop a buf' = drop a buf"
    using assms by (auto simp: memcpy_at_def min_def split: if_splits)
  then show ?thesis by (simp add: seg_def)
qed

lemmas [mem_simps] = memcpy_at_length memcpy_at_seg_same memcpy_at_seg_before memcpy_at_seg_after

end
