(* ===== verification/Bipbuffer.thy ===== *)
theory Bipbuffer
  imports Prelude
begin

text \<open>
  The bip buffer of \<open>src/mem/bipbuffer.c\<close>: a byte queue in one fixed array with two regions,
  \<open>A = [a_start, a_end)\<close> and, when \<open>b_inuse\<close> is set, \<open>B = [0, b_end)\<close>. The logger and the
  asynchronous LRU bumps are its clients. Pointers into the array are offsets; a write
  outside it is \<open>None\<close>. The invariant, the refinement to a byte queue and the interface the
  clients rely on (locale \<open>byte_queue\<close>) are below.
\<close>

section \<open>The buffer and its operations\<close>

record bipbuf =
  bb_size :: u64
  a_start :: u32
  a_end :: u32
  b_end :: u32
  b_inuse :: int
  bb_data :: "byte list"

definition bipbuf_unused :: "bipbuf \<Rightarrow> int" where
  "bipbuf_unused me =
     (if b_inuse me = 1 then c_int (a_start me - b_end me)
      else c_int (bb_size me - u32_u64 (a_end me)))"

definition bipbuf_size :: "bipbuf \<Rightarrow> int" where
  "bipbuf_size me = c_int (bb_size me)"

definition bipbuf_used :: "bipbuf \<Rightarrow> int" where
  "bipbuf_used me = c_int ((a_end me - a_start me) + b_end me)"

definition bipbuf_init :: "bipbuf \<Rightarrow> u32 \<Rightarrow> bipbuf" where
  "bipbuf_init me sz =
     me\<lparr>a_start := 0, a_end := 0, b_end := 0, bb_size := u32_u64 sz, b_inuse := 0\<rparr>"

text \<open>\<open>mem\<close> is the block \<open>malloc\<close> returned for the data, \<open>None\<close> when it failed.\<close>

definition bipbuf_new :: "byte list option \<Rightarrow> u32 \<Rightarrow> bipbuf option" where
  "bipbuf_new mem sz =
     (case mem of None \<Rightarrow> None
      | Some block \<Rightarrow> Some (bipbuf_init
          \<lparr>bb_size = 0, a_start = 0, a_end = 0, b_end = 0, b_inuse = 0, bb_data = block\<rparr> sz))"

definition bipbuf_is_empty :: "bipbuf \<Rightarrow> bool" where
  "bipbuf_is_empty me \<longleftrightarrow> a_start me = a_end me"

definition check_for_switch_to_b :: "bipbuf \<Rightarrow> bipbuf" where
  "check_for_switch_to_b me =
     (if bb_size me - u32_u64 (a_end me) < u32_u64 (a_start me - b_end me)
      then me\<lparr>b_inuse := 1\<rparr> else me)"

definition bipbuf_request :: "bipbuf \<Rightarrow> int \<Rightarrow> u32 option" where
  "bipbuf_request me sz =
     (if bipbuf_unused me < sz then None
      else if b_inuse me = 1 then Some (b_end me)
      else Some (a_end me))"

definition bipbuf_push :: "bipbuf \<Rightarrow> int \<Rightarrow> int \<times> bipbuf" where
  "bipbuf_push me sz =
     (if bipbuf_unused me < sz then (0, me)
      else
        let me' = (if b_inuse me = 1 then me\<lparr>b_end := b_end me + word_of_int sz\<rparr>
                   else me\<lparr>a_end := a_end me + word_of_int sz\<rparr>)
        in (sz, check_for_switch_to_b me'))"

text \<open>
  \<open>bipbuf_offer\<close> copies \<open>sz\<close> bytes of \<open>data\<close>; \<open>None\<close> when the copy would leave either
  array (a negative \<open>sz\<close> is a huge \<open>size_t\<close>).
\<close>

definition bipbuf_offer :: "bipbuf \<Rightarrow> byte list \<Rightarrow> int \<Rightarrow> (int \<times> bipbuf) option" where
  "bipbuf_offer me data sz =
     (if bipbuf_unused me < sz then Some (0, me)
      else if sz < 0 \<or> int (length data) < sz then None
      else if b_inuse me = 1 then
        (case memcpy_at (bb_data me) (unat (b_end me)) (take (nat sz) data) of
           None \<Rightarrow> None
         | Some d \<Rightarrow> Some (sz, check_for_switch_to_b
             (me\<lparr>bb_data := d, b_end := b_end me + word_of_int sz\<rparr>)))
      else
        (case memcpy_at (bb_data me) (unat (a_end me)) (take (nat sz) data) of
           None \<Rightarrow> None
         | Some d \<Rightarrow> Some (sz, check_for_switch_to_b
             (me\<lparr>bb_data := d, a_end := a_end me + word_of_int sz\<rparr>))))"

definition bipbuf_peek :: "bipbuf \<Rightarrow> u32 \<Rightarrow> u32 option" where
  "bipbuf_peek me sz =
     (if bb_size me < u32_u64 (a_start me + sz) then None
      else if bipbuf_is_empty me then None
      else Some (a_start me))"

definition bipbuf_peek_all :: "bipbuf \<Rightarrow> (u32 \<times> u32) option" where
  "bipbuf_peek_all me =
     (if bipbuf_is_empty me then None
      else Some (a_start me, a_end me - a_start me))"

definition bipbuf_poll :: "bipbuf \<Rightarrow> u32 \<Rightarrow> u32 option \<times> bipbuf" where
  "bipbuf_poll me sz =
     (if bipbuf_is_empty me then (None, me)
      else if bb_size me < u32_u64 (a_start me + sz) then (None, me)
      else
        let me1 = me\<lparr>a_start := a_start me + sz\<rparr>;
            me2 = (if a_start me1 = a_end me1 then
                     (if b_inuse me1 = 1
                      then me1\<lparr>a_start := 0, a_end := b_end me1, b_end := 0, b_inuse := 0\<rparr>
                      else me1\<lparr>a_start := 0, a_end := 0\<rparr>)
                   else me1)
        in (Some (a_start me), check_for_switch_to_b me2))"

section \<open>The invariant and the queue it represents\<close>

definition bip_inv :: "bipbuf \<Rightarrow> bool" where
  "bip_inv me \<longleftrightarrow>
     unat (bb_size me) < 2 ^ 31 \<and> length (bb_data me) = unat (bb_size me) \<and>
     unat (a_start me) \<le> unat (a_end me) \<and> unat (a_end me) \<le> unat (bb_size me) \<and>
     (b_inuse me = 0 \<and> b_end me = 0 \<or> b_inuse me = 1 \<and> unat (b_end me) \<le> unat (a_start me)) \<and>
     (a_start me = a_end me \<longrightarrow> a_end me = 0 \<and> b_inuse me = 0)"

definition bip_bytes :: "bipbuf \<Rightarrow> byte list" where
  "bip_bytes me =
     seg (unat (a_start me)) (unat (a_end me)) (bb_data me) @ seg 0 (unat (b_end me)) (bb_data me)"

lemma bip_inv_bounds:
  assumes "bip_inv me"
  shows "unat (a_start me) < 2 ^ 31" "unat (a_end me) < 2 ^ 31" "unat (b_end me) < 2 ^ 31"
    "unat (b_end me) \<le> unat (a_start me)"
  using assms by (auto simp: bip_inv_def)

text \<open>What \<open>bipbuf_unused\<close> promises, as a number.\<close>

definition bip_room :: "bipbuf \<Rightarrow> nat" where
  "bip_room me = (if b_inuse me = 1 then unat (a_start me) - unat (b_end me)
                  else unat (bb_size me) - unat (a_end me))"

lemma bipbuf_unused_room:
  assumes "bip_inv me"
  shows "bipbuf_unused me = int (bip_room me)"
proof (cases "b_inuse me = 1")
  case True
  with assms have "unat (a_start me - b_end me) = unat (a_start me) - unat (b_end me)"
    by (intro unat_sub_no_wrap) (auto simp: bip_inv_def)
  moreover have "unat (a_start me) - unat (b_end me) < 2 ^ 31"
    using bip_inv_bounds [OF assms] by linarith
  ultimately show ?thesis using True by (simp add: bipbuf_unused_def bip_room_def c_int_small)
next
  case False
  with assms have "unat (bb_size me - u32_u64 (a_end me)) = unat (bb_size me) - unat (a_end me)"
    by (subst unat_sub_no_wrap) (auto simp: bip_inv_def)
  moreover have "unat (bb_size me) - unat (a_end me) < 2 ^ 31"
    using assms by (auto simp: bip_inv_def)
  ultimately show ?thesis using False by (simp add: bipbuf_unused_def bip_room_def c_int_small)
qed

lemma bipbuf_used_bytes:
  assumes "bip_inv me"
  shows "bipbuf_used me = int (length (bip_bytes me))"
proof -
  have d: "unat (a_end me - a_start me) = unat (a_end me) - unat (a_start me)"
    using assms by (intro unat_sub_no_wrap) (simp add: bip_inv_def)
  have "unat ((a_end me - a_start me) + b_end me)
        = unat (a_end me) - unat (a_start me) + unat (b_end me)"
    using assms bip_inv_bounds [OF assms] d by (subst unat_add_no_wrap) (auto simp: bip_inv_def)
  moreover have "unat (a_end me) - unat (a_start me) + unat (b_end me) < 2 ^ 31"
    using bip_inv_bounds [OF assms] by linarith
  moreover have "length (bip_bytes me) = unat (a_end me) - unat (a_start me) + unat (b_end me)"
    using assms by (auto simp: bip_bytes_def bip_inv_def)
  ultimately show ?thesis by (simp add: bipbuf_used_def c_int_small)
qed

text \<open>Turning on region B changes neither the invariant nor the bytes.\<close>

lemma switch_bytes [simp]: "bip_bytes (check_for_switch_to_b me) = bip_bytes me"
  by (simp add: bip_bytes_def check_for_switch_to_b_def)

lemma switch_inv: "bip_inv me \<Longrightarrow> bip_inv (check_for_switch_to_b me)"
  by (auto simp: bip_inv_def check_for_switch_to_b_def word_less_nat_alt)


section \<open>Correctness of the operations\<close>

lemma bip_inv_init:
  assumes "length block = unat sz" "unat sz < 2 ^ 31" "bipbuf_new (Some block) sz = Some me"
  shows "bip_inv me \<and> bip_bytes me = []"
  using assms by (auto simp: bipbuf_new_def bipbuf_init_def bip_inv_def bip_bytes_def)

lemma word_of_int_unat: "0 \<le> i \<Longrightarrow> i < 2 ^ 31 \<Longrightarrow> unat (word_of_int i :: u32) = nat i"
  by (subst unat_word_of_int) auto

lemma advance_unat:
  assumes "unat (x :: u32) + nat i < 2 ^ 31" "0 \<le> i"
  shows "unat (x + word_of_int i) = unat x + nat i"
proof -
  have "unat (word_of_int i :: u32) = nat i"
    using assms by (intro word_of_int_unat) auto
  then show ?thesis using assms(1) by (subst unat_add_no_wrap) auto
qed

lemma offer_cases:
  assumes "bip_inv me" "0 \<le> sz" "sz \<le> int (length d)"
  obtains (full) "int (bip_room me) < sz" "bipbuf_offer me d sz = Some (0, me)"
  | (region_b) d' where "sz \<le> int (bip_room me)" "b_inuse me = 1"
      "memcpy_at (bb_data me) (unat (b_end me)) (take (nat sz) d) = Some d'"
      "bipbuf_offer me d sz = Some (sz, check_for_switch_to_b
         (me\<lparr>bb_data := d', b_end := b_end me + word_of_int sz\<rparr>))"
  | (region_a) d' where "sz \<le> int (bip_room me)" "b_inuse me = 0" "b_end me = 0"
      "memcpy_at (bb_data me) (unat (a_end me)) (take (nat sz) d) = Some d'"
      "bipbuf_offer me d sz = Some (sz, check_for_switch_to_b
         (me\<lparr>bb_data := d', a_end := a_end me + word_of_int sz\<rparr>))"
proof (cases "int (bip_room me) < sz")
  case True
  then show ?thesis using assms full by (simp add: bipbuf_offer_def bipbuf_unused_room)
next
  case False
  have len: "length (take (nat sz) d) = nat sz" using assms by (simp add: nat_le_iff)
  show ?thesis
  proof (cases "b_inuse me = 1")
    case True
    then obtain d' where "memcpy_at (bb_data me) (unat (b_end me)) (take (nat sz) d) = Some d'"
      using False assms(1) len memcpy_at_fits [of "unat (b_end me)" "take (nat sz) d" "bb_data me"]
      by (fastforce simp: bip_room_def bip_inv_def)
    with True False assms show ?thesis
      by (intro region_b) (auto simp: bipbuf_offer_def bipbuf_unused_room)
  next
    case nb: False
    then obtain d' where "memcpy_at (bb_data me) (unat (a_end me)) (take (nat sz) d) = Some d'"
      using False assms(1) len memcpy_at_fits [of "unat (a_end me)" "take (nat sz) d" "bb_data me"]
      by (fastforce simp: bip_room_def bip_inv_def)
    with nb False assms show ?thesis
      by (intro region_a) (auto simp: bipbuf_offer_def bipbuf_unused_room bip_inv_def)
  qed
qed

lemma grow_b:
  assumes "bip_inv me" "b_inuse me = 1" "0 \<le> sz" "sz \<le> int (bip_room me)"
    "memcpy_at (bb_data me) (unat (b_end me)) src = Some d'" "length src = nat sz"
  shows "bip_inv (me\<lparr>bb_data := d', b_end := b_end me + word_of_int sz\<rparr>)"
    "bip_bytes (me\<lparr>bb_data := d', b_end := b_end me + word_of_int sz\<rparr>) = bip_bytes me @ src"
proof -
  have adv: "unat (b_end me + word_of_int sz) = unat (b_end me) + nat sz"
    using assms bip_inv_bounds [OF assms(1)] by (intro advance_unat) (auto simp: bip_room_def)
  have fit: "unat (b_end me) + nat sz \<le> unat (a_start me)"
    using assms(2-4) bip_inv_bounds(4) [OF assms(1)] by (simp add: bip_room_def)
  show "bip_inv (me\<lparr>bb_data := d', b_end := b_end me + word_of_int sz\<rparr>)"
    using assms(1,2) adv fit memcpy_at_length [OF assms(5)] by (auto simp: bip_inv_def)
  have "seg 0 (unat (b_end me) + nat sz) d' = seg 0 (unat (b_end me)) d'
          @ seg (unat (b_end me)) (unat (b_end me) + nat sz) d'"
    by (simp add: seg_append)
  then show "bip_bytes (me\<lparr>bb_data := d', b_end := b_end me + word_of_int sz\<rparr>) = bip_bytes me @ src"
    using memcpy_at_seg_before [OF assms(5)] memcpy_at_seg_same [OF assms(5)]
      memcpy_at_seg_after [OF assms(5)] fit assms(6) by (simp add: bip_bytes_def adv)
qed

lemma grow_a:
  assumes "bip_inv me" "b_inuse me = 0" "b_end me = 0" "0 \<le> sz" "sz \<le> int (bip_room me)"
    "memcpy_at (bb_data me) (unat (a_end me)) src = Some d'" "length src = nat sz"
  shows "bip_inv (me\<lparr>bb_data := d', a_end := a_end me + word_of_int sz\<rparr>)"
    "bip_bytes (me\<lparr>bb_data := d', a_end := a_end me + word_of_int sz\<rparr>) = bip_bytes me @ src"
proof -
  have le: "unat (a_end me) \<le> unat (bb_size me)" "unat (bb_size me) < 2 ^ 31"
    using assms(1) by (auto simp: bip_inv_def)
  then have adv: "unat (a_end me + word_of_int sz) = unat (a_end me) + nat sz"
    using assms(2-5) by (intro advance_unat) (auto simp: bip_room_def)
  have fit: "unat (a_end me) + nat sz \<le> unat (bb_size me)"
    using assms(2-5) le by (simp add: bip_room_def)
  have grown: "a_start me = a_end me + word_of_int sz \<longrightarrow> a_end me + word_of_int sz = 0"
  proof
    assume eq: "a_start me = a_end me + word_of_int sz"
    then have "unat (a_start me) = unat (a_end me) + nat sz" using adv by simp
    then have "a_start me = a_end me" using assms(1) by (simp add: bip_inv_def word_unat_eq_iff)
    with assms(1) eq show "a_end me + word_of_int sz = 0" by (auto simp: bip_inv_def)
  qed
  show "bip_inv (me\<lparr>bb_data := d', a_end := a_end me + word_of_int sz\<rparr>)"
    using assms(1-3) adv fit grown memcpy_at_length [OF assms(6)] by (auto simp: bip_inv_def)
  have "seg (unat (a_start me)) (unat (a_end me) + nat sz) d' = seg (unat (a_start me)) (unat (a_end me)) d'
          @ seg (unat (a_end me)) (unat (a_end me) + nat sz) d'"
    using assms(1) by (simp add: seg_append bip_inv_def)
  then show "bip_bytes (me\<lparr>bb_data := d', a_end := a_end me + word_of_int sz\<rparr>) = bip_bytes me @ src"
    using memcpy_at_seg_before [OF assms(6)] memcpy_at_seg_same [OF assms(6)] assms(3,7)
    by (simp add: bip_bytes_def adv)
qed

lemma offer_spec:
  assumes "bip_inv me" "0 \<le> sz" "sz \<le> int (length d)"
  shows "\<exists>r me'. bipbuf_offer me d sz = Some (r, me') \<and> bip_inv me' \<and>
     (if int (bip_room me) < sz then r = 0 \<and> me' = me
      else r = sz \<and> bip_bytes me' = bip_bytes me @ take (nat sz) d)"
  using assms
proof (cases rule: offer_cases)
  case full
  with assms show ?thesis by simp
next
  case (region_b d')
  have "length (take (nat sz) d) = nat sz" using assms(2,3) by (simp add: nat_le_iff)
  from grow_b [OF assms(1) region_b(2) assms(2) region_b(1,3) this] region_b(1,4) show ?thesis
    by (simp add: switch_inv)
next
  case (region_a d')
  have "length (take (nat sz) d) = nat sz" using assms(2,3) by (simp add: nat_le_iff)
  from grow_a [OF assms(1) region_a(2,3) assms(2) region_a(1,4) this] region_a(1,5) show ?thesis
    by (simp add: switch_inv)
qed

lemma push_spec:
  assumes "bip_inv me" "0 \<le> sz" "sz \<le> int (bip_room me)" "bipbuf_request me sz = Some off"
    "memcpy_at (bb_data me) (unat off) src = Some d'" "length src = nat sz"
  shows "bipbuf_offer me src sz = Some (bipbuf_push (me\<lparr>bb_data := d'\<rparr>) sz)"
  using assms
  by (auto simp: bipbuf_offer_def bipbuf_push_def bipbuf_request_def bipbuf_unused_room
      bipbuf_unused_def Let_def split: if_splits)

lemma length_region_a:
  "bip_inv me \<Longrightarrow> length (seg (unat (a_start me)) (unat (a_end me)) (bb_data me))
     = unat (a_end me) - unat (a_start me)"
  by (auto simp: bip_inv_def)

lemma take_region_a:
  "bip_inv me \<Longrightarrow> n \<le> unat (a_end me) - unat (a_start me) \<Longrightarrow>
     take n (bip_bytes me) = seg (unat (a_start me)) (unat (a_start me) + n) (bb_data me)"
  using length_region_a [of me] by (simp add: bip_bytes_def take_seg del: length_seg)

lemma drop_region_a:
  "bip_inv me \<Longrightarrow> n \<le> unat (a_end me) - unat (a_start me) \<Longrightarrow>
     drop n (bip_bytes me) = seg (unat (a_start me) + n) (unat (a_end me)) (bb_data me)
       @ seg 0 (unat (b_end me)) (bb_data me)"
  using length_region_a [of me] by (simp add: bip_bytes_def drop_seg del: length_seg)

lemma peek_all_spec:
  assumes "bip_inv me"
  shows "bipbuf_peek_all me = None \<longleftrightarrow> bip_bytes me = []"
    "bipbuf_peek_all me = Some (off, n) \<Longrightarrow>
       off = a_start me \<and> unat n = unat (a_end me) - unat (a_start me) \<and> 0 < unat n \<and>
       seg (unat off) (unat off + unat n) (bb_data me) = take (unat n) (bip_bytes me)"
proof -
  show "bipbuf_peek_all me = None \<longleftrightarrow> bip_bytes me = []"
    using assms
    by (auto simp: bipbuf_peek_all_def bipbuf_is_empty_def bip_bytes_def bip_inv_def seg_def
        word_unat_eq_iff)
  assume p: "bipbuf_peek_all me = Some (off, n)"
  have "unat (a_end me - a_start me) = unat (a_end me) - unat (a_start me)"
    using assms by (intro unat_sub_no_wrap) (simp add: bip_inv_def)
  with p have n: "off = a_start me" "unat n = unat (a_end me) - unat (a_start me)"
    "a_start me \<noteq> a_end me"
    by (auto simp: bipbuf_peek_all_def bipbuf_is_empty_def split: if_splits)
  moreover have "0 < unat n" using n assms by (auto simp: bip_inv_def word_unat_eq_iff)
  moreover have "seg (unat off) (unat off + unat n) (bb_data me) = take (unat n) (bip_bytes me)"
    using n assms by (simp add: take_region_a)
  ultimately show "off = a_start me \<and> unat n = unat (a_end me) - unat (a_start me) \<and> 0 < unat n \<and>
       seg (unat off) (unat off + unat n) (bb_data me) = take (unat n) (bip_bytes me)"
    by blast
qed

lemma poll_spec:
  assumes "bip_inv me" "a_start me \<noteq> a_end me" "unat n \<le> unat (a_end me) - unat (a_start me)"
  shows "\<exists>me'. bipbuf_poll me n = (Some (a_start me), me') \<and> bip_inv me' \<and>
     bip_bytes me' = drop (unat n) (bip_bytes me)"
proof -
  have b: "unat (a_start me) < unat (a_end me)" "unat (a_end me) \<le> unat (bb_size me)"
    "unat (bb_size me) < 2 ^ 31"
    using assms(1,2) by (auto simp: bip_inv_def word_unat_eq_iff)
  have adv: "unat (a_start me + n) = unat (a_start me) + unat n"
    using assms(3) b by (subst unat_add_no_wrap) auto
  have ok: "\<not> bb_size me < u32_u64 (a_start me + n)"
    using assms(3) b adv by (simp add: word_less_nat_alt)
  let ?me1 = "me\<lparr>a_start := a_start me + n\<rparr>"
  let ?me2 = "if a_start ?me1 = a_end ?me1 then
       (if b_inuse ?me1 = 1 then ?me1\<lparr>a_start := 0, a_end := b_end ?me1, b_end := 0, b_inuse := 0\<rparr>
        else ?me1\<lparr>a_start := 0, a_end := 0\<rparr>) else ?me1"
  have poll: "bipbuf_poll me n = (Some (a_start me), check_for_switch_to_b ?me2)"
    using assms(2) ok by (simp add: bipbuf_poll_def bipbuf_is_empty_def Let_def)
  have bytes: "drop (unat n) (bip_bytes me) =
      seg (unat (a_start me) + unat n) (unat (a_end me)) (bb_data me) @ seg 0 (unat (b_end me)) (bb_data me)"
    using assms(1,3) by (simp add: drop_region_a)
  have "bip_inv ?me2 \<and> bip_bytes ?me2 = drop (unat n) (bip_bytes me)"
    using assms adv b unfolding bytes
    by (auto simp: bip_inv_def bip_bytes_def seg_0 word_unat_eq_iff split: if_splits)
  then show ?thesis by (simp add: poll switch_inv)
qed

section \<open>The queue interface\<close>

text \<open>
  A producer offers records; the consumer looks at the front region, works on a copy of it
  without holding the buffer's lock, and later polls exactly the size it looked at
  (\<open>lru_maintainer_bumps\<close> in \<open>items.c\<close> and \<open>logger_thread_read\<close> in \<open>logger.c\<close> do this).
  Offers may come between the look and the poll. \<open>queue_run\<close> is that protocol over any
  queue: its state is the queue, the bytes being worked on, the bytes consumed and the bytes
  accepted so far.
\<close>

datatype queue_op = Offer "byte list" | Look | Poll

type_synonym 'q queue_state = "'q \<times> byte list option \<times> byte list \<times> byte list"

fun queue_step ::
  "('q \<Rightarrow> byte list \<Rightarrow> (int \<times> 'q) option) \<Rightarrow> ('q \<Rightarrow> byte list option) \<Rightarrow> ('q \<Rightarrow> nat \<Rightarrow> 'q) \<Rightarrow>
     queue_op \<Rightarrow> 'q queue_state \<Rightarrow> 'q queue_state option"
where
  "queue_step offer front poll (Offer d) (q, pend, cons, acc) =
     (case offer q d of None \<Rightarrow> None
      | Some (r, q') \<Rightarrow> Some (q', pend, cons, if r = 0 then acc else acc @ d))"
| "queue_step offer front poll Look (q, pend, cons, acc) =
     Some (q, (case pend of None \<Rightarrow> front q | Some bs \<Rightarrow> Some bs), cons, acc)"
| "queue_step offer front poll Poll (q, pend, cons, acc) =
     (case pend of None \<Rightarrow> Some (q, None, cons, acc)
      | Some bs \<Rightarrow> Some (poll q (length bs), None, cons @ bs, acc))"

fun queue_run where
  "queue_run offer front poll [] st = Some st"
| "queue_run offer front poll (op # ops) st =
     (case queue_step offer front poll op st of None \<Rightarrow> None
      | Some st' \<Rightarrow> queue_run offer front poll ops st')"

locale byte_queue =
  fixes inv :: "'q \<Rightarrow> bool" and bytes :: "'q \<Rightarrow> byte list" and front_len :: "'q \<Rightarrow> nat"
    and offer :: "'q \<Rightarrow> byte list \<Rightarrow> (int \<times> 'q) option"
    and front :: "'q \<Rightarrow> byte list option" and poll :: "'q \<Rightarrow> nat \<Rightarrow> 'q"
  assumes offer_law: "inv q \<Longrightarrow> \<exists>r q'. offer q d = Some (r, q') \<and> inv q' \<and> front_len q \<le> front_len q' \<and>
      (r = 0 \<and> bytes q' = bytes q \<or> r \<noteq> 0 \<and> bytes q' = bytes q @ d)"
    and front_law: "inv q \<Longrightarrow> front q = (if bytes q = [] then None else Some (take (front_len q) (bytes q)))"
    and front_len_law: "inv q \<Longrightarrow> front_len q \<le> length (bytes q)"
    and poll_law: "inv q \<Longrightarrow> 0 < n \<Longrightarrow> n \<le> front_len q \<Longrightarrow>
      inv (poll q n) \<and> bytes (poll q n) = drop n (bytes q)"
    and front_len_pos: "inv q \<Longrightarrow> bytes q \<noteq> [] \<Longrightarrow> 0 < front_len q"
begin

text \<open>Consumed bytes, followed by what is still queued, are the accepted bytes in order.\<close>

definition run_inv :: "'q queue_state \<Rightarrow> bool" where
  "run_inv st \<longleftrightarrow> (case st of (q, pend, cons, acc) \<Rightarrow>
     inv q \<and> cons @ bytes q = acc \<and>
     (\<forall>bs. pend = Some bs \<longrightarrow> bs \<noteq> [] \<and> length bs \<le> front_len q \<and> bs = take (length bs) (bytes q)))"

lemma step_inv:
  assumes "run_inv st"
  shows "\<exists>st'. queue_step offer front poll op st = Some st' \<and> run_inv st'"
proof -
  obtain q pend cons acc where st: "st = (q, pend, cons, acc)" by (cases st)
  have i: "inv q" "cons @ bytes q = acc" using assms by (auto simp: st run_inv_def)
  show ?thesis
  proof (cases op)
    case (Offer d)
    obtain r q' where "offer q d = Some (r, q')" "inv q'" "front_len q \<le> front_len q'"
      "r = 0 \<and> bytes q' = bytes q \<or> r \<noteq> 0 \<and> bytes q' = bytes q @ d"
      using offer_law [OF i(1)] by blast
    with assms Offer i front_len_law [OF i(1)] show ?thesis
      by (fastforce simp: st run_inv_def)
  next
    case Look
    with assms i show ?thesis
      using front_law [OF i(1)] front_len_law [OF i(1)] front_len_pos [OF i(1)]
      by (auto simp: st run_inv_def split: option.splits if_splits)
  next
    case Poll
    with assms i show ?thesis
      using poll_law [OF i(1)]
      by (cases pend) (auto simp: st run_inv_def, metis append_assoc append_take_drop_id length_greater_0_conv)
  qed
qed

lemma run_inv_run:
  "run_inv st \<Longrightarrow> \<exists>st'. queue_run offer front poll ops st = Some st' \<and> run_inv st'"
proof (induction ops arbitrary: st)
  case (Cons op ops)
  obtain st' where "queue_step offer front poll op st = Some st'" "run_inv st'"
    using step_inv [OF Cons.prems] by blast
  with Cons.IH show ?case by auto
qed simp

lemma stream:
  assumes "inv q" "bytes q = []"
  shows "\<exists>q' pend cons acc. queue_run offer front poll ops (q, None, [], []) = Some (q', pend, cons, acc)
    \<and> inv q' \<and> cons @ bytes q' = acc"
proof -
  have "run_inv (q, None, [], [])" using assms by (simp add: run_inv_def)
  from run_inv_run [OF this, of ops] show ?thesis by (auto simp: run_inv_def)
qed

end

text \<open>The bip buffer provides that interface.\<close>

definition bip_front :: "bipbuf \<Rightarrow> byte list option" where
  "bip_front me =
     (case bipbuf_peek_all me of None \<Rightarrow> None
      | Some (off, n) \<Rightarrow> Some (seg (unat off) (unat off + unat n) (bb_data me)))"

definition bip_front_len :: "bipbuf \<Rightarrow> nat" where
  "bip_front_len me = unat (a_end me) - unat (a_start me)"

definition bip_offer_all :: "bipbuf \<Rightarrow> byte list \<Rightarrow> (int \<times> bipbuf) option" where
  "bip_offer_all me d = bipbuf_offer me d (int (length d))"

definition bip_poll_n :: "bipbuf \<Rightarrow> nat \<Rightarrow> bipbuf" where
  "bip_poll_n me n = snd (bipbuf_poll me (of_nat n))"

lemma offer_front_len:
  assumes "bip_inv me" "bipbuf_offer me d (int (length d)) = Some (r, me')"
  shows "bip_front_len me \<le> bip_front_len me'"
proof -
  have "(0::int) \<le> int (length d)" "int (length d) \<le> int (length d)" by simp_all
  with assms(1) show ?thesis
  proof (cases rule: offer_cases)
    case full
    with assms show ?thesis by simp
  next
    case (region_b d')
    with assms show ?thesis by (auto simp: bip_front_len_def check_for_switch_to_b_def)
  next
    case (region_a d')
    then have "unat (a_end me + word_of_int (int (length d))) = unat (a_end me) + length d"
      using assms(1) by (subst advance_unat) (auto simp: bip_room_def bip_inv_def)
    with region_a assms(2) show ?thesis
      by (auto simp: bip_front_len_def check_for_switch_to_b_def)
  qed
qed

lemma front_len_bytes: "bip_inv me \<Longrightarrow> bip_front_len me \<le> length (bip_bytes me)"
  by (auto simp: bip_front_len_def bip_bytes_def bip_inv_def)

lemma front_spec:
  assumes "bip_inv me"
  shows "bip_front me =
    (if bip_bytes me = [] then None else Some (take (bip_front_len me) (bip_bytes me)))"
  using peek_all_spec [OF assms]
  by (auto simp: bip_front_def bip_front_len_def split: option.splits)

lemma poll_n_spec:
  assumes "bip_inv me" "0 < n" "n \<le> bip_front_len me"
  shows "bip_inv (bip_poll_n me n) \<and> bip_bytes (bip_poll_n me n) = drop n (bip_bytes me)"
proof -
  have "n < 2 ^ 31" using assms bip_inv_bounds(2) [OF assms(1)] by (simp add: bip_front_len_def)
  then have n: "unat (of_nat n :: u32) = n" by (simp add: unat_of_nat)
  have "a_start me \<noteq> a_end me" using assms(2,3) by (auto simp: bip_front_len_def)
  with poll_spec [OF assms(1), of "of_nat n"] assms(3) show ?thesis
    by (auto simp: n bip_front_len_def bip_poll_n_def)
qed

interpretation bip: byte_queue bip_inv bip_bytes bip_front_len bip_offer_all bip_front bip_poll_n
proof (unfold_locales, goal_cases)
  case (1 q d)
  then obtain r q' where o: "bipbuf_offer q d (int (length d)) = Some (r, q')" "bip_inv q'"
    "if int (bip_room q) < int (length d) then r = 0 \<and> q' = q
     else r = int (length d) \<and> bip_bytes q' = bip_bytes q @ take (nat (int (length d))) d"
    using offer_spec [of q "int (length d)" d] by auto
  with offer_front_len [OF 1 o(1)] show ?case
    by (auto simp: bip_offer_all_def split: if_splits)
next
  case (2 q)
  then show ?case by (rule front_spec)
next
  case (3 q)
  then show ?case by (rule front_len_bytes)
next
  case (4 q n)
  then show ?case by (rule poll_n_spec)
next
  case (5 q)
  then show ?case
    by (auto simp: bip_front_len_def bip_bytes_def bip_inv_def word_unat_eq_iff)
qed

section \<open>Properties\<close>

text \<open>
  C13. Offering data to a well-formed buffer never writes outside it, keeps it well formed, and
  either leaves it unchanged and returns 0 (exactly when the data does not fit in the room
  \<open>bipbuf_unused\<close> reports) or appends exactly the offered bytes.
\<close>

theorem bipbuf_offer_refines_append:
  assumes "bip_inv me" "0 \<le> sz" "sz \<le> int (length d)"
  shows "\<exists>r me'. bipbuf_offer me d sz = Some (r, me') \<and> bip_inv me' \<and>
     (if bipbuf_unused me < sz then r = 0 \<and> me' = me
      else r = sz \<and> bip_bytes me' = bip_bytes me @ take (nat sz) d)"
  using offer_spec [OF assms] bipbuf_unused_room [OF assms(1)] by simp

theorem bipbuf_offer_refines_append_witness:
  "\<exists>r me'. bipbuf_offer (bipbuf_init \<lparr>bb_size = 0, a_start = 0, a_end = 0, b_end = 0, b_inuse = 0,
       bb_data = replicate 4 0\<rparr> 4) [7, 9] 2 = Some (r, me') \<and> r = 2 \<and> bip_bytes me' = [7, 9]"
proof -
  let ?me = "bipbuf_init \<lparr>bb_size = 0, a_start = 0, a_end = 0, b_end = 0, b_inuse = 0,
       bb_data = replicate 4 0\<rparr> 4"
  have "bip_inv ?me" "bipbuf_unused ?me = 4" "bip_bytes ?me = []"
    by (simp_all add: bip_inv_def bipbuf_init_def bipbuf_unused_def c_int_small bip_bytes_def)
  then show ?thesis using bipbuf_offer_refines_append [of ?me 2 "[7, 9]"] by auto
qed

text \<open>
  Asking for space, writing the bytes at the returned offset and pushing them (the
  protocol of \<open>lru_bump_async\<close> and the logger) is the same as offering them in one call.
\<close>

theorem bipbuf_request_push_is_offer:
  assumes "bip_inv me" "0 \<le> sz" "bipbuf_request me sz = Some off" "length src = nat sz"
  shows "\<exists>d'. memcpy_at (bb_data me) (unat off) src = Some d' \<and>
     bipbuf_offer me src sz = Some (bipbuf_push (me\<lparr>bb_data := d'\<rparr>) sz) \<and>
     bip_inv (snd (bipbuf_push (me\<lparr>bb_data := d'\<rparr>) sz)) \<and>
     bip_bytes (snd (bipbuf_push (me\<lparr>bb_data := d'\<rparr>) sz)) = bip_bytes me @ src"
proof -
  have room: "sz \<le> int (bip_room me)"
    using assms(1,3) by (auto simp: bipbuf_request_def bipbuf_unused_room split: if_splits)
  have "unat off + length src \<le> length (bb_data me)"
    using assms room by (auto simp: bipbuf_request_def bip_room_def bip_inv_def split: if_splits)
  then obtain d' where d': "memcpy_at (bb_data me) (unat off) src = Some d'"
    using memcpy_at_fits by blast
  with push_spec [OF assms(1,2) room assms(3) d' assms(4)] offer_spec [of me sz src] assms room
  show ?thesis by auto
qed

theorem bipbuf_request_push_is_offer_witness:
  "\<exists>d'. memcpy_at (replicate 4 0) 0 [7, 9 :: byte] = Some d' \<and>
     bip_bytes (snd (bipbuf_push (bipbuf_init \<lparr>bb_size = 0, a_start = 0, a_end = 0, b_end = 0,
       b_inuse = 0, bb_data = d'\<rparr> 4) 2)) = [7, 9]"
proof -
  let ?me = "bipbuf_init \<lparr>bb_size = 0, a_start = 0, a_end = 0, b_end = 0, b_inuse = 0,
       bb_data = replicate 4 0\<rparr> 4"
  have "bip_inv ?me" "bipbuf_unused ?me = 4" "bip_bytes ?me = []"
    by (simp_all add: bip_inv_def bipbuf_init_def bipbuf_unused_def c_int_small bip_bytes_def)
  moreover from this have "bipbuf_request ?me 2 = Some 0"
    by (simp add: bipbuf_request_def) (simp add: bipbuf_init_def)
  ultimately show ?thesis
    using bipbuf_request_push_is_offer [of ?me 2 0 "[7, 9]"]
    by (auto simp: bipbuf_init_def)
qed

text \<open>
  C9. First in, first out under every interleaving: whatever mix of offers, looks at the
  front and polls of the looked-at size runs on a fresh buffer, no step goes outside the
  array, and the consumed bytes followed by the queued ones are exactly the accepted bytes.
\<close>

theorem bipbuf_stream:
  assumes "bipbuf_new (Some block) sz = Some me" "length block = unat sz" "unat sz < 2 ^ 31"
  shows "\<exists>me' pend cons acc.
     queue_run bip_offer_all bip_front bip_poll_n ops (me, None, [], []) = Some (me', pend, cons, acc)
     \<and> bip_inv me' \<and> cons @ bip_bytes me' = acc"
  using bip.stream [of me ops] bip_inv_init [OF assms(2,3,1)] by blast

theorem bipbuf_stream_witness:
  "\<exists>me me' pend cons acc. bipbuf_new (Some (replicate 4 0)) 4 = Some me \<and>
     queue_run bip_offer_all bip_front bip_poll_n
       [Offer [1, 2, 3], Look, Offer [4], Poll, Offer [5, 6], Look, Poll] (me, None, [], [])
       = Some (me', pend, cons, acc) \<and> cons @ bip_bytes me' = acc"
proof -
  obtain me where "bipbuf_new (Some (replicate 4 0)) 4 = Some me" by (simp add: bipbuf_new_def)
  from bipbuf_stream [OF this, of "[Offer [1, 2, 3], Look, Offer [4], Poll, Offer [5, 6], Look, Poll]"]
    this show ?thesis by auto
qed

text \<open>
  \<open>bipbuf_poll\<close> checks the requested size against the end of the array, not against the
  data it holds: polling more than region A succeeds, and the buffer is no longer well
  formed (\<open>a_start\<close> has passed \<open>a_end\<close>), although the header promises \<open>NULL\<close> there.
\<close>

theorem bipbuf_poll_past_data:
  "\<exists>me. bip_inv me \<and> length (bip_bytes me) = 1 \<and> fst (bipbuf_poll me 3) = Some 0 \<and>
     \<not> bip_inv (snd (bipbuf_poll me 3))"
proof -
  let ?me = "\<lparr>bb_size = 4, a_start = 0, a_end = 1, b_end = 0, b_inuse = 0,
     bb_data = [7, 0, 0, 0]\<rparr>"
  have "bip_inv ?me" "length (bip_bytes ?me) = 1" by (simp_all add: bip_inv_def bip_bytes_def)
  moreover have "fst (bipbuf_poll ?me 3) = Some 0" "\<not> bip_inv (snd (bipbuf_poll ?me 3))"
    by (simp_all add: bipbuf_poll_def bipbuf_is_empty_def Let_def check_for_switch_to_b_def bip_inv_def)
  ultimately show ?thesis by blast
qed

end
