(* ===== verification/Hashing.thy ===== *)
theory Hashing
  imports Prelude
begin

unbundle bit_operations_syntax

text \<open>
  The key hash functions: \<open>src/mem/jenkins_hash.c\<close> (little- and big-endian builds),
  \<open>src/mem/murmur3_hash.c\<close> and the selection in \<open>src/mem/hash.c\<close>. A key is a range of memory,
  \<open>mem\<close> giving the byte at each address, so that the alignment-dependent read paths and the
  reads past the end of the key that the code masks off are visible. The interface the
  server relies on (locale \<open>key_hash\<close>) is that the hash is a function of the key's bytes alone.
\<close>

type_synonym memory = "nat \<Rightarrow> byte"

text \<open>Reads of 8, 16 and 32 bits, zero-extended to \<open>uint32_t\<close>, for both byte orders.\<close>

definition rd8 :: "memory \<Rightarrow> nat \<Rightarrow> u32" where
  "rd8 mem p = of_nat (unat (mem p))"

definition rd16 :: "memory \<Rightarrow> nat \<Rightarrow> u32" where
  "rd16 mem p = of_nat (unat (mem p) + 2 ^ 8 * unat (mem (p + 1)))"

definition rd32 :: "memory \<Rightarrow> nat \<Rightarrow> u32" where
  "rd32 mem p = of_nat (unat (mem p) + 2 ^ 8 * unat (mem (p + 1)) + 2 ^ 16 * unat (mem (p + 2))
     + 2 ^ 24 * unat (mem (p + 3)))"

definition rd32be :: "memory \<Rightarrow> nat \<Rightarrow> u32" where
  "rd32be mem p = of_nat (2 ^ 24 * unat (mem p) + 2 ^ 16 * unat (mem (p + 1))
     + 2 ^ 8 * unat (mem (p + 2)) + unat (mem (p + 3)))"

section \<open>Jenkins hash\<close>

type_synonym abc = "u32 \<times> u32 \<times> u32"

definition rot :: "u32 \<Rightarrow> nat \<Rightarrow> u32" where
  "rot x k = push_bit k x XOR drop_bit (32 - k) x"

definition mix :: "abc \<Rightarrow> abc" where
  "mix abc = (case abc of (a, b, c) \<Rightarrow>
     let a = a - c; a = a XOR rot c 4; c = c + b;
         b = b - a; b = b XOR rot a 6; a = a + c;
         c = c - b; c = c XOR rot b 8; b = b + a;
         a = a - c; a = a XOR rot c 16; c = c + b;
         b = b - a; b = b XOR rot a 19; a = a + c;
         c = c - b; c = c XOR rot b 4; b = b + a
     in (a, b, c))"

definition final :: "abc \<Rightarrow> abc" where
  "final abc = (case abc of (a, b, c) \<Rightarrow>
     let c = c XOR b; c = c - rot b 14;
         a = a XOR c; a = a - rot c 11;
         b = b XOR a; b = b - rot a 25;
         c = c XOR b; c = c - rot b 16;
         a = a XOR c; a = a - rot c 4;
         b = b XOR a; b = b - rot a 14;
         c = c XOR b; c = c - rot b 24
     in (a, b, c))"

text \<open>
  The loop over full 12-byte blocks, for a way of reading the three words of a block: it
  returns the address and length of the rest and the internal state.
\<close>

fun jenkins_blocks :: "(nat \<Rightarrow> abc) \<Rightarrow> nat \<Rightarrow> nat \<Rightarrow> abc \<Rightarrow> nat \<times> nat \<times> abc" where
  "jenkins_blocks rd k len (a, b, c) =
     (if len > 12 then
        (case rd k of (ka, kb, kc) \<Rightarrow>
           jenkins_blocks rd (k + 12) (len - 12) (mix (a + ka, b + kb, c + kc)))
      else (k, len, (a, b, c)))"

declare jenkins_blocks.simps [simp del]

text \<open>
  Each read path returns \<open>Inl c\<close> for the early \<open>return c\<close> of a zero length, and the state
  before \<open>final\<close> otherwise.
\<close>

definition jenkins_aligned32 :: "memory \<Rightarrow> nat \<Rightarrow> nat \<Rightarrow> abc \<Rightarrow> u32 + abc" where
  "jenkins_aligned32 mem key len st =
     (case jenkins_blocks (\<lambda>k. (rd32 mem k, rd32 mem (k + 4), rd32 mem (k + 8))) key len st of
        (k, n, (a, b, c)) \<Rightarrow>
          let k0 = rd32 mem k; k1 = rd32 mem (k + 4); k2 = rd32 mem (k + 8)
          in if n = 12 then Inr (a + k0, b + k1, c + k2)
             else if n = 11 then Inr (a + k0, b + k1, c + (k2 AND 0xffffff))
             else if n = 10 then Inr (a + k0, b + k1, c + (k2 AND 0xffff))
             else if n = 9 then Inr (a + k0, b + k1, c + (k2 AND 0xff))
             else if n = 8 then Inr (a + k0, b + k1, c)
             else if n = 7 then Inr (a + k0, b + (k1 AND 0xffffff), c)
             else if n = 6 then Inr (a + k0, b + (k1 AND 0xffff), c)
             else if n = 5 then Inr (a + k0, b + (k1 AND 0xff), c)
             else if n = 4 then Inr (a + k0, b, c)
             else if n = 3 then Inr (a + (k0 AND 0xffffff), b, c)
             else if n = 2 then Inr (a + (k0 AND 0xffff), b, c)
             else if n = 1 then Inr (a + (k0 AND 0xff), b, c)
             else if n = 0 then Inl c
             else Inr (a, b, c))"

definition jenkins_aligned16 :: "memory \<Rightarrow> nat \<Rightarrow> nat \<Rightarrow> abc \<Rightarrow> u32 + abc" where
  "jenkins_aligned16 mem key len st =
     (case jenkins_blocks (\<lambda>k. (rd16 mem k + push_bit 16 (rd16 mem (k + 2)),
                                rd16 mem (k + 4) + push_bit 16 (rd16 mem (k + 6)),
                                rd16 mem (k + 8) + push_bit 16 (rd16 mem (k + 10)))) key len st of
        (k, n, (a, b, c)) \<Rightarrow>
          let w0 = rd16 mem k + push_bit 16 (rd16 mem (k + 2));
              w1 = rd16 mem (k + 4) + push_bit 16 (rd16 mem (k + 6));
              w2 = rd16 mem (k + 8) + push_bit 16 (rd16 mem (k + 10))
          in if n = 12 then Inr (a + w0, b + w1, c + w2)
             else if n = 11 then Inr (a + w0, b + w1, c + push_bit 16 (rd8 mem (k + 10)) + rd16 mem (k + 8))
             else if n = 10 then Inr (a + w0, b + w1, c + rd16 mem (k + 8))
             else if n = 9 then Inr (a + w0, b + w1, c + rd8 mem (k + 8))
             else if n = 8 then Inr (a + w0, b + w1, c)
             else if n = 7 then Inr (a + w0, b + push_bit 16 (rd8 mem (k + 6)) + rd16 mem (k + 4), c)
             else if n = 6 then Inr (a + w0, b + rd16 mem (k + 4), c)
             else if n = 5 then Inr (a + w0, b + rd8 mem (k + 4), c)
             else if n = 4 then Inr (a + w0, b, c)
             else if n = 3 then Inr (a + push_bit 16 (rd8 mem (k + 2)) + rd16 mem k, b, c)
             else if n = 2 then Inr (a + rd16 mem k, b, c)
             else if n = 1 then Inr (a + rd8 mem k, b, c)
             else if n = 0 then Inl c
             else Inr (a, b, c))"

definition jenkins_bytewise :: "memory \<Rightarrow> nat \<Rightarrow> nat \<Rightarrow> abc \<Rightarrow> u32 + abc" where
  "jenkins_bytewise mem key len st =
     (case jenkins_blocks (\<lambda>k. (rd8 mem k + push_bit 8 (rd8 mem (k + 1)) + push_bit 16 (rd8 mem (k + 2))
                                  + push_bit 24 (rd8 mem (k + 3)),
                                rd8 mem (k + 4) + push_bit 8 (rd8 mem (k + 5)) + push_bit 16 (rd8 mem (k + 6))
                                  + push_bit 24 (rd8 mem (k + 7)),
                                rd8 mem (k + 8) + push_bit 8 (rd8 mem (k + 9)) + push_bit 16 (rd8 mem (k + 10))
                                  + push_bit 24 (rd8 mem (k + 11)))) key len st of
        (k, n, (a, b, c)) \<Rightarrow>
          if n = 0 then Inl c
          else if n > 12 then Inr (a, b, c)
          else
            let c = (if n \<ge> 12 then c + push_bit 24 (rd8 mem (k + 11)) else c);
                c = (if n \<ge> 11 then c + push_bit 16 (rd8 mem (k + 10)) else c);
                c = (if n \<ge> 10 then c + push_bit 8 (rd8 mem (k + 9)) else c);
                c = (if n \<ge> 9 then c + rd8 mem (k + 8) else c);
                b = (if n \<ge> 8 then b + push_bit 24 (rd8 mem (k + 7)) else b);
                b = (if n \<ge> 7 then b + push_bit 16 (rd8 mem (k + 6)) else b);
                b = (if n \<ge> 6 then b + push_bit 8 (rd8 mem (k + 5)) else b);
                b = (if n \<ge> 5 then b + rd8 mem (k + 4) else b);
                a = (if n \<ge> 4 then a + push_bit 24 (rd8 mem (k + 3)) else a);
                a = (if n \<ge> 3 then a + push_bit 16 (rd8 mem (k + 2)) else a);
                a = (if n \<ge> 2 then a + push_bit 8 (rd8 mem (k + 1)) else a);
                a = a + rd8 mem k
            in Inr (a, b, c))"

definition jenkins_hash :: "memory \<Rightarrow> nat \<Rightarrow> u64 \<Rightarrow> u32" where
  "jenkins_hash mem key len =
     (let init = 0xdeadbeef + ucast len + 0; st = (init, init, init); n = unat len;
          r = (if key mod 4 = 0 then jenkins_aligned32 mem key n st
               else if key mod 2 = 0 then jenkins_aligned16 mem key n st
               else jenkins_bytewise mem key n st)
      in case r of Inl c \<Rightarrow> c | Inr abc \<Rightarrow> (case final abc of (a, b, c) \<Rightarrow> c))"

text \<open>The big-endian build has two read paths.\<close>

definition jenkins_be_aligned32 :: "memory \<Rightarrow> nat \<Rightarrow> nat \<Rightarrow> abc \<Rightarrow> u32 + abc" where
  "jenkins_be_aligned32 mem key len st =
     (case jenkins_blocks (\<lambda>k. (rd32be mem k, rd32be mem (k + 4), rd32be mem (k + 8))) key len st of
        (k, n, (a, b, c)) \<Rightarrow>
          let k0 = rd32be mem k; k1 = rd32be mem (k + 4); k2 = rd32be mem (k + 8)
          in if n = 12 then Inr (a + k0, b + k1, c + k2)
             else if n = 11 then Inr (a + k0, b + k1, c + (k2 AND 0xffffff00))
             else if n = 10 then Inr (a + k0, b + k1, c + (k2 AND 0xffff0000))
             else if n = 9 then Inr (a + k0, b + k1, c + (k2 AND 0xff000000))
             else if n = 8 then Inr (a + k0, b + k1, c)
             else if n = 7 then Inr (a + k0, b + (k1 AND 0xffffff00), c)
             else if n = 6 then Inr (a + k0, b + (k1 AND 0xffff0000), c)
             else if n = 5 then Inr (a + k0, b + (k1 AND 0xff000000), c)
             else if n = 4 then Inr (a + k0, b, c)
             else if n = 3 then Inr (a + (k0 AND 0xffffff00), b, c)
             else if n = 2 then Inr (a + (k0 AND 0xffff0000), b, c)
             else if n = 1 then Inr (a + (k0 AND 0xff000000), b, c)
             else if n = 0 then Inl c
             else Inr (a, b, c))"

definition jenkins_be_bytewise :: "memory \<Rightarrow> nat \<Rightarrow> nat \<Rightarrow> abc \<Rightarrow> u32 + abc" where
  "jenkins_be_bytewise mem key len st =
     (case jenkins_blocks (\<lambda>k. (push_bit 24 (rd8 mem k) + push_bit 16 (rd8 mem (k + 1))
                                  + push_bit 8 (rd8 mem (k + 2)) + rd8 mem (k + 3),
                                push_bit 24 (rd8 mem (k + 4)) + push_bit 16 (rd8 mem (k + 5))
                                  + push_bit 8 (rd8 mem (k + 6)) + rd8 mem (k + 7),
                                push_bit 24 (rd8 mem (k + 8)) + push_bit 16 (rd8 mem (k + 9))
                                  + push_bit 8 (rd8 mem (k + 10)) + rd8 mem (k + 11))) key len st of
        (k, n, (a, b, c)) \<Rightarrow>
          if n = 0 then Inl c
          else if n > 12 then Inr (a, b, c)
          else
            let c = (if n \<ge> 12 then c + rd8 mem (k + 11) else c);
                c = (if n \<ge> 11 then c + push_bit 8 (rd8 mem (k + 10)) else c);
                c = (if n \<ge> 10 then c + push_bit 16 (rd8 mem (k + 9)) else c);
                c = (if n \<ge> 9 then c + push_bit 24 (rd8 mem (k + 8)) else c);
                b = (if n \<ge> 8 then b + rd8 mem (k + 7) else b);
                b = (if n \<ge> 7 then b + push_bit 8 (rd8 mem (k + 6)) else b);
                b = (if n \<ge> 6 then b + push_bit 16 (rd8 mem (k + 5)) else b);
                b = (if n \<ge> 5 then b + push_bit 24 (rd8 mem (k + 4)) else b);
                a = (if n \<ge> 4 then a + rd8 mem (k + 3) else a);
                a = (if n \<ge> 3 then a + push_bit 8 (rd8 mem (k + 2)) else a);
                a = (if n \<ge> 2 then a + push_bit 16 (rd8 mem (k + 1)) else a);
                a = a + push_bit 24 (rd8 mem k)
            in Inr (a, b, c))"

definition jenkins_hash_be :: "memory \<Rightarrow> nat \<Rightarrow> u64 \<Rightarrow> u32" where
  "jenkins_hash_be mem key len =
     (let init = 0xdeadbeef + ucast len + 0; st = (init, init, init); n = unat len;
          r = (if key mod 4 = 0 then jenkins_be_aligned32 mem key n st
               else jenkins_be_bytewise mem key n st)
      in case r of Inl c \<Rightarrow> c | Inr abc \<Rightarrow> (case final abc of (a, b, c) \<Rightarrow> c))"

section \<open>MurmurHash3\<close>

definition rotl32 :: "u32 \<Rightarrow> nat \<Rightarrow> u32" where
  "rotl32 x r = push_bit r x OR drop_bit (32 - r) x"

text \<open>\<open>p[i]\<close> for a byte address \<open>p\<close> and an \<open>int\<close> index that is negative in the loop.\<close>

definition getblock32 :: "memory \<Rightarrow> nat \<Rightarrow> int \<Rightarrow> u32" where
  "getblock32 mem p i = rd32 mem (nat (int p + 4 * i))"

definition fmix32 :: "u32 \<Rightarrow> u32" where
  "fmix32 h =
     (let h = h XOR drop_bit 16 h; h = h * 0x85ebca6b;
          h = h XOR drop_bit 13 h; h = h * 0xc2b2ae35;
          h = h XOR drop_bit 16 h
      in h)"

definition murmur_scramble :: "u32 \<Rightarrow> u32" where
  "murmur_scramble k1 = rotl32 (k1 * 0xcc9e2d51) 15 * 0x1b873593"

function murmur_body :: "memory \<Rightarrow> nat \<Rightarrow> int \<Rightarrow> u32 \<Rightarrow> u32" where
  "murmur_body mem blocks i h1 =
     (if i < 0
      then let k1 = getblock32 mem blocks i; h1 = h1 XOR murmur_scramble k1; h1 = rotl32 h1 13
           in murmur_body mem blocks (i + 1) (h1 * 5 + 0xe6546b64)
      else h1)"
  by pat_completeness auto
termination by (relation "measure (\<lambda>(mem, blocks, i, h1). nat (- i))") auto

declare murmur_body.simps [simp del]

definition murmur_tail :: "memory \<Rightarrow> nat \<Rightarrow> nat \<Rightarrow> u32 \<Rightarrow> u32" where
  "murmur_tail mem tail n h1 =
     (if n = 0 then h1
      else let k1 = 0;
               k1 = (if n \<ge> 3 then k1 XOR push_bit 16 (rd8 mem (tail + 2)) else k1);
               k1 = (if n \<ge> 2 then k1 XOR push_bit 8 (rd8 mem (tail + 1)) else k1);
               k1 = k1 XOR rd8 mem tail
           in h1 XOR murmur_scramble k1)"

text \<open>
  \<open>nblocks\<close> is an \<open>int\<close>: the result is \<open>None\<close> where the conversion makes it negative (the
  loop counter would run up to \<open>INT_MAX\<close> and overflow) or \<open>nblocks * 4\<close> overflows.
\<close>

definition MurmurHash3_x86_32 :: "memory \<Rightarrow> nat \<Rightarrow> u64 \<Rightarrow> u32 option" where
  "MurmurHash3_x86_32 mem data len =
     (let nblocks = c_int (len div 4)
      in if nblocks < 0 \<or> nblocks * 4 \<ge> 2 ^ 31 then None
         else let blocks = data + nat (nblocks * 4);
                  h1 = murmur_body mem blocks (- nblocks) 0;
                  h1 = murmur_tail mem blocks (unat (len AND 3)) h1;
                  h1 = h1 XOR ucast len
              in Some (fmix32 h1))"

section \<open>Selection of the hash function\<close>

datatype hashfunc_type = JENKINS_HASH | MURMUR3_HASH | OTHER_HASH int

record hash_settings =
  hash_fn :: "memory \<Rightarrow> nat \<Rightarrow> u64 \<Rightarrow> u32 option"
  hash_algorithm :: string

definition hash_init :: "hashfunc_type \<Rightarrow> hash_settings \<Rightarrow> int \<times> hash_settings" where
  "hash_init type s =
     (case type of
        JENKINS_HASH \<Rightarrow>
          (0, s\<lparr>hash_fn := (\<lambda>mem key len. Some (jenkins_hash mem key len)), hash_algorithm := ''jenkins''\<rparr>)
      | MURMUR3_HASH \<Rightarrow> (0, s\<lparr>hash_fn := MurmurHash3_x86_32, hash_algorithm := ''murmur3''\<rparr>)
      | OTHER_HASH _ \<Rightarrow> (-1, s))"

section \<open>The read paths agree\<close>

lemma push_bit_of_nat_word: "push_bit k (of_nat n :: 'a::len word) = of_nat (2 ^ k * n)"
  by (simp add: push_bit_eq_mult mult.commute)

lemma rd32_bytes:
  "rd32 mem p = rd8 mem p + push_bit 8 (rd8 mem (p + 1)) + push_bit 16 (rd8 mem (p + 2))
     + push_bit 24 (rd8 mem (p + 3))"
  by (simp only: rd32_def rd8_def push_bit_of_nat_word of_nat_add [symmetric])

lemma rd16_bytes: "rd16 mem p = rd8 mem p + push_bit 8 (rd8 mem (p + 1))"
  by (simp only: rd16_def rd8_def push_bit_of_nat_word of_nat_add [symmetric])

lemma rd16_pair: "rd16 mem p + push_bit 16 (rd16 mem (p + 2)) = rd32 mem p"
  unfolding rd32_def rd16_def push_bit_of_nat_word of_nat_add [symmetric]
  by (rule arg_cong [of _ _ of_nat]) (simp add: numeral_3_eq_3)

lemma rd32be_bytes:
  "rd32be mem p = push_bit 24 (rd8 mem p) + push_bit 16 (rd8 mem (p + 1)) + push_bit 8 (rd8 mem (p + 2))
     + rd8 mem (p + 3)"
  by (simp only: rd32be_def rd8_def push_bit_of_nat_word of_nat_add [symmetric])

lemma of_nat_and_mask: "(of_nat n :: 'a::len word) AND mask k = of_nat (n mod 2 ^ k)"
  by (simp add: take_bit_eq_mask [symmetric] take_bit_of_nat take_bit_eq_mod [symmetric])

lemma and_not_mask: "(w :: 'a::len word) AND NOT (mask k) = w - (w AND mask k)"
proof -
  have "push_bit k (drop_bit k w) + take_bit k w = w" by (rule bits_ident)
  moreover have "push_bit k (drop_bit k w) = w AND NOT (mask k)"
    by (rule bit_word_eqI) (auto simp: bit_simps)
  ultimately show ?thesis by (simp add: take_bit_eq_mask eq_diff_eq)
qed

lemma mod_low_part: "x < m \<Longrightarrow> (x + m * y) mod m = (x :: nat)"
  by simp

lemma low_bytes_mod:
  fixes b0 b1 b2 b3 :: byte
  shows "(unat b0 + 2 ^ 8 * unat b1 + 2 ^ 16 * unat b2 + 2 ^ 24 * unat b3) mod 2 ^ 8 = unat b0"
    "(unat b0 + 2 ^ 8 * unat b1 + 2 ^ 16 * unat b2 + 2 ^ 24 * unat b3) mod 2 ^ 16
       = unat b0 + 2 ^ 8 * unat b1"
    "(unat b0 + 2 ^ 8 * unat b1 + 2 ^ 16 * unat b2 + 2 ^ 24 * unat b3) mod 2 ^ 24
       = unat b0 + 2 ^ 8 * unat b1 + 2 ^ 16 * unat b2"
proof -
  have b: "unat b0 < 256" "unat b1 < 256" "unat b2 < 256" by simp_all
  show "(unat b0 + 2 ^ 8 * unat b1 + 2 ^ 16 * unat b2 + 2 ^ 24 * unat b3) mod 2 ^ 8 = unat b0"
    using mod_low_part [of "unat b0" "2 ^ 8" "unat b1 + 2 ^ 8 * unat b2 + 2 ^ 16 * unat b3"] b
    by (simp add: algebra_simps)
  show "(unat b0 + 2 ^ 8 * unat b1 + 2 ^ 16 * unat b2 + 2 ^ 24 * unat b3) mod 2 ^ 16
       = unat b0 + 2 ^ 8 * unat b1"
    using mod_low_part [of "unat b0 + 2 ^ 8 * unat b1" "2 ^ 16" "unat b2 + 2 ^ 8 * unat b3"] b
    by (simp add: algebra_simps)
  show "(unat b0 + 2 ^ 8 * unat b1 + 2 ^ 16 * unat b2 + 2 ^ 24 * unat b3) mod 2 ^ 24
       = unat b0 + 2 ^ 8 * unat b1 + 2 ^ 16 * unat b2"
    using mod_low_part [of "unat b0 + 2 ^ 8 * unat b1 + 2 ^ 16 * unat b2" "2 ^ 24" "unat b3"] b
    by (simp add: algebra_simps)
qed

lemma mask_literals:
  "(0xff :: u32) = mask 8" "(0xffff :: u32) = mask 16" "(0xffffff :: u32) = mask 24"
  "(0xffffff00 :: u32) = NOT (mask 8)" "(0xffff0000 :: u32) = NOT (mask 16)"
  "(0xff000000 :: u32) = NOT (mask 24)"
  by (simp_all add: mask_eq_exp_minus_1)

lemma rd32_masks:
  "rd32 mem p AND 0xff = rd8 mem p" "rd32 mem p AND 0xffff = rd16 mem p"
  "rd32 mem p AND 0xffffff = rd16 mem p + push_bit 16 (rd8 mem (p + 2))"
  unfolding mask_literals rd32_def rd16_def rd8_def of_nat_and_mask low_bytes_mod push_bit_of_nat_word
  by (simp_all only: of_nat_add [symmetric])

lemma rd32be_low: 
  "rd32be mem p AND mask 8 = rd8 mem (p + 3)"
  "rd32be mem p AND mask 16 = rd8 mem (p + 3) + push_bit 8 (rd8 mem (p + 2))"
  "rd32be mem p AND mask 24 = rd8 mem (p + 3) + push_bit 8 (rd8 mem (p + 2)) + push_bit 16 (rd8 mem (p + 1))"
proof -
  have e: "rd32be mem p = of_nat (unat (mem (p + 3)) + 2 ^ 8 * unat (mem (p + 2))
      + 2 ^ 16 * unat (mem (p + 1)) + 2 ^ 24 * unat (mem p))"
    unfolding rd32be_def by (rule arg_cong [of _ _ of_nat]) simp
  show "rd32be mem p AND mask 8 = rd8 mem (p + 3)"
    "rd32be mem p AND mask 16 = rd8 mem (p + 3) + push_bit 8 (rd8 mem (p + 2))"
    "rd32be mem p AND mask 24 = rd8 mem (p + 3) + push_bit 8 (rd8 mem (p + 2)) + push_bit 16 (rd8 mem (p + 1))"
    unfolding e rd8_def of_nat_and_mask low_bytes_mod push_bit_of_nat_word
    by (simp_all only: of_nat_add [symmetric])
qed

lemma rd32be_masks:
  "rd32be mem p AND 0xffffff00 = push_bit 24 (rd8 mem p) + push_bit 16 (rd8 mem (p + 1)) + push_bit 8 (rd8 mem (p + 2))"
  "rd32be mem p AND 0xffff0000 = push_bit 24 (rd8 mem p) + push_bit 16 (rd8 mem (p + 1))"
  "rd32be mem p AND 0xff000000 = push_bit 24 (rd8 mem p)"
  unfolding mask_literals and_not_mask rd32be_low by (simp_all add: rd32be_bytes)

lemma jenkins_blocks_rest: "fst (snd (jenkins_blocks rd k len st)) \<le> 12"
proof (induction rd k len st rule: jenkins_blocks.induct)
  case (1 rd k len a b c)
  then show ?case by (subst jenkins_blocks.simps) (auto split: prod.splits)
qed

lemma le12_cases:
  fixes n :: nat
  assumes "n \<le> 12"
  obtains "n = 12" | "n = 11" | "n = 10" | "n = 9" | "n = 8" | "n = 7" | "n = 6" | "n = 5" | "n = 4"
    | "n = 3" | "n = 2" | "n = 1" | "n = 0"
proof -
  consider "8 < n" | "4 < n" "n \<le> 8" | "n \<le> 4" by linarith
  then show thesis
  proof cases
    case 1
    with assms have "n \<in> {12, 11, 10, 9}" by auto
    with that show thesis by blast
  next
    case 2
    then have "n \<in> {8, 7, 6, 5}" by auto
    with that show thesis by blast
  next
    case 3
    then have "n \<in> {4, 3, 2, 1, 0}" by auto
    with that show thesis by blast
  qed
qed

text \<open>The reads of a 12-byte block, in bytes.\<close>

lemma rd32_block:
  "rd32 mem (k + 4) = rd8 mem (k + 4) + push_bit 8 (rd8 mem (k + 5)) + push_bit 16 (rd8 mem (k + 6))
     + push_bit 24 (rd8 mem (k + 7))"
  "rd32 mem (k + 8) = rd8 mem (k + 8) + push_bit 8 (rd8 mem (k + 9)) + push_bit 16 (rd8 mem (k + 10))
     + push_bit 24 (rd8 mem (k + 11))"
  using rd32_bytes [of mem "k + 4"] rd32_bytes [of mem "k + 8"] by (simp_all add: eval_nat_numeral)

lemma rd16_block:
  "rd16 mem (k + 2) = rd8 mem (k + 2) + push_bit 8 (rd8 mem (k + 3))"
  "rd16 mem (k + 4) = rd8 mem (k + 4) + push_bit 8 (rd8 mem (k + 5))"
  "rd16 mem (k + 6) = rd8 mem (k + 6) + push_bit 8 (rd8 mem (k + 7))"
  "rd16 mem (k + 8) = rd8 mem (k + 8) + push_bit 8 (rd8 mem (k + 9))"
  "rd16 mem (k + 10) = rd8 mem (k + 10) + push_bit 8 (rd8 mem (k + 11))"
  using rd16_bytes [of mem "k + 2"] rd16_bytes [of mem "k + 4"] rd16_bytes [of mem "k + 6"]
    rd16_bytes [of mem "k + 8"] rd16_bytes [of mem "k + 10"] by (simp_all add: eval_nat_numeral)

lemma rd32be_block:
  "rd32be mem (k + 4) = push_bit 24 (rd8 mem (k + 4)) + push_bit 16 (rd8 mem (k + 5))
     + push_bit 8 (rd8 mem (k + 6)) + rd8 mem (k + 7)"
  "rd32be mem (k + 8) = push_bit 24 (rd8 mem (k + 8)) + push_bit 16 (rd8 mem (k + 9))
     + push_bit 8 (rd8 mem (k + 10)) + rd8 mem (k + 11)"
  using rd32be_bytes [of mem "k + 4"] rd32be_bytes [of mem "k + 8"] by (simp_all add: eval_nat_numeral)

lemma rd16_pairs:
  "rd16 mem k + push_bit 16 (rd16 mem (k + 2)) = rd32 mem k"
  "rd16 mem (k + 4) + push_bit 16 (rd16 mem (k + 6)) = rd32 mem (k + 4)"
  "rd16 mem (k + 8) + push_bit 16 (rd16 mem (k + 10)) = rd32 mem (k + 8)"
  using rd16_pair [of mem k] rd16_pair [of mem "k + 4"] rd16_pair [of mem "k + 8"]
  by (simp_all add: eval_nat_numeral)

lemma rd32_masks_block:
  "rd32 mem (k + 4) AND 0xffffff = rd16 mem (k + 4) + push_bit 16 (rd8 mem (k + 6))"
  "rd32 mem (k + 8) AND 0xffffff = rd16 mem (k + 8) + push_bit 16 (rd8 mem (k + 10))"
  using rd32_masks(3) [of mem "k + 4"] rd32_masks(3) [of mem "k + 8"] by (simp_all add: eval_nat_numeral)

lemma rd32be_masks_block:
  "rd32be mem (k + 4) AND 0xffffff00
     = push_bit 24 (rd8 mem (k + 4)) + push_bit 16 (rd8 mem (k + 5)) + push_bit 8 (rd8 mem (k + 6))"
  "rd32be mem (k + 8) AND 0xffffff00
     = push_bit 24 (rd8 mem (k + 8)) + push_bit 16 (rd8 mem (k + 9)) + push_bit 8 (rd8 mem (k + 10))"
  "rd32be mem (k + 4) AND 0xffff0000 = push_bit 24 (rd8 mem (k + 4)) + push_bit 16 (rd8 mem (k + 5))"
  "rd32be mem (k + 8) AND 0xffff0000 = push_bit 24 (rd8 mem (k + 8)) + push_bit 16 (rd8 mem (k + 9))"
  using rd32be_masks [of mem "k + 4"] rd32be_masks [of mem "k + 8"] by (simp_all add: eval_nat_numeral)

lemma rd16_pairs_reads:
  "(\<lambda>k. (rd16 mem k + push_bit 16 (rd16 mem (k + 2)),
         rd16 mem (k + 4) + push_bit 16 (rd16 mem (k + 6)),
         rd16 mem (k + 8) + push_bit 16 (rd16 mem (k + 10))))
   = (\<lambda>k. (rd32 mem k, rd32 mem (k + 4), rd32 mem (k + 8)))"
  by (simp only: rd16_pairs)

lemma bytewise_reads:
  "(\<lambda>k. (rd8 mem k + push_bit 8 (rd8 mem (k + 1)) + push_bit 16 (rd8 mem (k + 2))
           + push_bit 24 (rd8 mem (k + 3)),
         rd8 mem (k + 4) + push_bit 8 (rd8 mem (k + 5)) + push_bit 16 (rd8 mem (k + 6))
           + push_bit 24 (rd8 mem (k + 7)),
         rd8 mem (k + 8) + push_bit 8 (rd8 mem (k + 9)) + push_bit 16 (rd8 mem (k + 10))
           + push_bit 24 (rd8 mem (k + 11))))
   = (\<lambda>k. (rd32 mem k, rd32 mem (k + 4), rd32 mem (k + 8)))"
  by (simp only: rd32_bytes [of mem "k" for k] rd32_block)

lemma be_bytewise_reads:
  "(\<lambda>k. (push_bit 24 (rd8 mem k) + push_bit 16 (rd8 mem (k + 1))
           + push_bit 8 (rd8 mem (k + 2)) + rd8 mem (k + 3),
         push_bit 24 (rd8 mem (k + 4)) + push_bit 16 (rd8 mem (k + 5))
           + push_bit 8 (rd8 mem (k + 6)) + rd8 mem (k + 7),
         push_bit 24 (rd8 mem (k + 8)) + push_bit 16 (rd8 mem (k + 9))
           + push_bit 8 (rd8 mem (k + 10)) + rd8 mem (k + 11)))
   = (\<lambda>k. (rd32be mem k, rd32be mem (k + 4), rd32be mem (k + 8)))"
  by (simp only: rd32be_bytes [of mem "k" for k] rd32be_block)

lemma blocks_cases:
  obtains k n a b c where "jenkins_blocks rd key len st = (k, n, (a, b, c))" "n \<le> 12"
  using jenkins_blocks_rest [of rd key len st] by (cases "jenkins_blocks rd key len st") auto

lemma aligned32_bytewise: "jenkins_aligned32 mem key len st = jenkins_bytewise mem key len st"
proof -
  obtain k n a b c where r:
    "jenkins_blocks (\<lambda>k. (rd32 mem k, rd32 mem (k + 4), rd32 mem (k + 8))) key len st = (k, n, (a, b, c))"
    and n: "n \<le> 12" by (rule blocks_cases)
  show ?thesis
    unfolding jenkins_aligned32_def jenkins_bytewise_def bytewise_reads r
    using n by (cases rule: le12_cases)
      (simp_all add: Let_def rd32_masks(1,2) rd32_masks(3) [of mem k] rd32_masks_block,
       simp_all add: rd32_bytes [of mem k] rd16_bytes [of mem k] rd32_block rd16_block)
qed

lemma aligned16_bytewise: "jenkins_aligned16 mem key len st = jenkins_bytewise mem key len st"
proof -
  obtain k n a b c where r:
    "jenkins_blocks (\<lambda>k. (rd32 mem k, rd32 mem (k + 4), rd32 mem (k + 8))) key len st = (k, n, (a, b, c))"
    and n: "n \<le> 12" by (rule blocks_cases)
  show ?thesis
    unfolding jenkins_aligned16_def jenkins_bytewise_def bytewise_reads rd16_pairs_reads r rd16_pairs
    using n by (cases rule: le12_cases)
      (simp_all add: Let_def rd32_bytes [of mem k] rd16_bytes [of mem k] rd32_block rd16_block)
qed

lemma be_aligned32_bytewise: "jenkins_be_aligned32 mem key len st = jenkins_be_bytewise mem key len st"
proof -
  obtain k n a b c where r:
    "jenkins_blocks (\<lambda>k. (rd32be mem k, rd32be mem (k + 4), rd32be mem (k + 8))) key len st = (k, n, (a, b, c))"
    and n: "n \<le> 12" by (rule blocks_cases)
  show ?thesis
    unfolding jenkins_be_aligned32_def jenkins_be_bytewise_def be_bytewise_reads r
    using n by (cases rule: le12_cases)
      (simp_all add: Let_def rd32be_masks(3) rd32be_masks(1,2) [of mem k] rd32be_masks_block,
       simp_all add: rd32be_bytes [of mem k] rd32be_block)
qed

section \<open>The hash is a function of the key's bytes\<close>

definition same_key :: "memory \<Rightarrow> nat \<Rightarrow> memory \<Rightarrow> nat \<Rightarrow> nat \<Rightarrow> bool" where
  "same_key m1 a1 m2 a2 n \<longleftrightarrow> map (\<lambda>i. m1 (a1 + i)) [0..<n] = map (\<lambda>i. m2 (a2 + i)) [0..<n]"

lemma same_key_iff: "same_key m1 a1 m2 a2 n \<longleftrightarrow> (\<forall>i<n. m1 (a1 + i) = m2 (a2 + i))"
  by (auto simp: same_key_def)

lemma same_key_drop: "same_key m1 a1 m2 a2 n \<Longrightarrow> same_key m1 (a1 + k) m2 (a2 + k) (n - k)"
  by (simp add: same_key_iff add.assoc)

lemma same_key_rd8: "same_key m1 a1 m2 a2 n \<Longrightarrow> i < n \<Longrightarrow> rd8 m1 (a1 + i) = rd8 m2 (a2 + i)"
  by (simp add: same_key_iff rd8_def)

lemma same_key_rd8_0: "same_key m1 a1 m2 a2 n \<Longrightarrow> 0 < n \<Longrightarrow> rd8 m1 a1 = rd8 m2 a2"
  using same_key_rd8 [of m1 a1 m2 a2 n 0] by simp

lemma same_key_rd32:
  assumes "same_key m1 a1 m2 a2 n" "i + 3 < n"
  shows "rd32 m1 (a1 + i) = rd32 m2 (a2 + i)"
  using assms same_key_rd8 [OF assms(1), of i] same_key_rd8 [OF assms(1), of "i + 1"]
    same_key_rd8 [OF assms(1), of "i + 2"] same_key_rd8 [OF assms(1), of "i + 3"]
  by (simp add: rd32_bytes add.assoc)

lemma same_key_rd32_0: "same_key m1 a1 m2 a2 n \<Longrightarrow> 3 < n \<Longrightarrow> rd32 m1 a1 = rd32 m2 a2"
  using same_key_rd32 [of m1 a1 m2 a2 n 0] by simp

lemma jenkins_blocks_same_key:
  assumes "same_key m1 k1 m2 k2 len"
    and "\<And>i. i + 12 \<le> len \<Longrightarrow> rd1 (k1 + i) = rd2 (k2 + i)"
  shows "\<exists>d n s. jenkins_blocks rd1 k1 len st = (k1 + d, n, s)
    \<and> jenkins_blocks rd2 k2 len st = (k2 + d, n, s) \<and> same_key m1 (k1 + d) m2 (k2 + d) n"
  using assms
proof (induction rd1 k1 len st arbitrary: k2 rule: jenkins_blocks.induct)
  case (1 rd1 k1 len a b c)
  show ?case
  proof (cases "len > 12")
    case False
    with 1(2) show ?thesis
      by - (rule exI [of _ 0], simp add: jenkins_blocks.simps)
  next
    case True
    obtain ka kb kc where k: "rd1 k1 = (ka, kb, kc)" by (cases "rd1 k1")
    have k2: "rd2 k2 = (ka, kb, kc)" using 1(3) [of 0] True k by simp
    have sk: "same_key m1 (k1 + 12) m2 (k2 + 12) (len - 12)" by (rule same_key_drop [OF 1(2)])
    have rd: "rd1 (k1 + 12 + i) = rd2 (k2 + 12 + i)" if "i + 12 \<le> len - 12" for i
      using 1(3) [of "12 + i"] that by (simp add: add.assoc)
    obtain d n s where
      "jenkins_blocks rd1 (k1 + 12) (len - 12) (mix (a + ka, b + kb, c + kc)) = (k1 + 12 + d, n, s)"
      "jenkins_blocks rd2 (k2 + 12) (len - 12) (mix (a + ka, b + kb, c + kc)) = (k2 + 12 + d, n, s)"
      "same_key m1 (k1 + 12 + d) m2 (k2 + 12 + d) n"
      using 1(1) [OF True k [symmetric] refl sk rd] by blast
    then show ?thesis
      using True k k2 by - (rule exI [of _ "12 + d"], simp add: jenkins_blocks.simps add.assoc)
  qed
qed

lemma jenkins_bytewise_same_key:
  assumes sk: "same_key m1 a1 m2 a2 len"
  shows "jenkins_bytewise m1 a1 len st = jenkins_bytewise m2 a2 len st"
proof -
  let ?rd = "\<lambda>m k. (rd32 m k, rd32 m (k + 4), rd32 m (k + 8))"
  have "?rd m1 (a1 + i) = ?rd m2 (a2 + i)" if "i + 12 \<le> len" for i
    using that same_key_rd32 [OF sk, of i] same_key_rd32 [OF sk, of "i + 4"] same_key_rd32 [OF sk, of "i + 8"]
    by (simp add: add.assoc)
  then obtain d n s where r: "jenkins_blocks (?rd m1) a1 len st = (a1 + d, n, s)"
    "jenkins_blocks (?rd m2) a2 len st = (a2 + d, n, s)" and sk': "same_key m1 (a1 + d) m2 (a2 + d) n"
    using jenkins_blocks_same_key [OF sk, of "?rd m1" "?rd m2" st] by blast
  obtain a b c where s: "s = (a, b, c)" by (cases s)
  have i: "rd8 m1 (a1 + d + i) = rd8 m2 (a2 + d + i)" if "i < n" for i
    using same_key_rd8 [OF sk' that] .
  show ?thesis
    unfolding jenkins_bytewise_def bytewise_reads r s prod.case
    by (simp add: i i [of 1, simplified] i [of 2, simplified] Let_def same_key_rd8_0 [OF sk'] cong: if_cong)
qed

lemma jenkins_be_bytewise_same_key:
  assumes sk: "same_key m1 a1 m2 a2 len"
  shows "jenkins_be_bytewise m1 a1 len st = jenkins_be_bytewise m2 a2 len st"
proof -
  let ?rd = "\<lambda>m k. (rd32be m k, rd32be m (k + 4), rd32be m (k + 8))"
  have "rd32be m1 (a1 + i) = rd32be m2 (a2 + i)" if "i + 3 < len" for i
    using that same_key_rd8 [OF sk, of i] same_key_rd8 [OF sk, of "i + 1"] same_key_rd8 [OF sk, of "i + 2"]
      same_key_rd8 [OF sk, of "i + 3"] by (simp add: rd32be_bytes add.assoc)
  note w = this
  have "?rd m1 (a1 + i) = ?rd m2 (a2 + i)" if "i + 12 \<le> len" for i
    using that w [of i] w [of "i + 4"] w [of "i + 8"] by (simp add: add.assoc)
  then obtain d n s where r: "jenkins_blocks (?rd m1) a1 len st = (a1 + d, n, s)"
    "jenkins_blocks (?rd m2) a2 len st = (a2 + d, n, s)" and sk': "same_key m1 (a1 + d) m2 (a2 + d) n"
    using jenkins_blocks_same_key [OF sk, of "?rd m1" "?rd m2" st] by blast
  obtain a b c where s: "s = (a, b, c)" by (cases s)
  have i: "rd8 m1 (a1 + d + i) = rd8 m2 (a2 + d + i)" if "i < n" for i
    using same_key_rd8 [OF sk' that] .
  show ?thesis
    unfolding jenkins_be_bytewise_def be_bytewise_reads r s prod.case
    by (simp add: i i [of 1, simplified] i [of 2, simplified] Let_def same_key_rd8_0 [OF sk'] cong: if_cong)
qed

lemma jenkins_hash_bytewise:
  "jenkins_hash mem key len =
     (let init = 0xdeadbeef + ucast len
      in case jenkins_bytewise mem key (unat len) (init, init, init) of
           Inl c \<Rightarrow> c | Inr abc \<Rightarrow> snd (snd (final abc)))"
  unfolding jenkins_hash_def aligned32_bytewise aligned16_bytewise
  by (simp add: Let_def split: sum.splits prod.splits)

lemma jenkins_hash_be_bytewise:
  "jenkins_hash_be mem key len =
     (let init = 0xdeadbeef + ucast len
      in case jenkins_be_bytewise mem key (unat len) (init, init, init) of
           Inl c \<Rightarrow> c | Inr abc \<Rightarrow> snd (snd (final abc)))"
  unfolding jenkins_hash_be_def be_aligned32_bytewise
  by (simp add: Let_def split: sum.splits prod.splits)

lemma jenkins_hash_same_key:
  "same_key m1 a1 m2 a2 (unat len) \<Longrightarrow> jenkins_hash m1 a1 len = jenkins_hash m2 a2 len"
  using jenkins_bytewise_same_key by (simp add: jenkins_hash_bytewise Let_def)

lemma jenkins_hash_be_same_key:
  "same_key m1 a1 m2 a2 (unat len) \<Longrightarrow> jenkins_hash_be m1 a1 len = jenkins_hash_be m2 a2 len"
  using jenkins_be_bytewise_same_key by (simp add: jenkins_hash_be_bytewise Let_def)

text \<open>MurmurHash3 reads words at arbitrary alignment, then the tail.\<close>

lemma murmur_body_same_key:
  assumes "\<And>j. i \<le> j \<Longrightarrow> j < 0 \<Longrightarrow> getblock32 m1 b1 j = getblock32 m2 b2 j"
  shows "murmur_body m1 b1 i h = murmur_body m2 b2 i h"
  using assms
proof (induction m1 b1 i h rule: murmur_body.induct)
  case (1 m1 b1 i h)
  show ?case
  proof (cases "i < 0")
    case True
    have "getblock32 m1 b1 i = getblock32 m2 b2 i" using 1(2) True by simp
    with True 1 show ?thesis
      by (subst (1 2) murmur_body.simps) (simp add: Let_def)
  qed (simp add: murmur_body.simps)
qed

lemma murmur_tail_same_key:
  "same_key m1 a1 m2 a2 n \<Longrightarrow> murmur_tail m1 a1 n h = murmur_tail m2 a2 n h"
  using same_key_rd8 [of m1 a1 m2 a2 n 1] same_key_rd8 [of m1 a1 m2 a2 n 2] same_key_rd8_0 [of m1 a1 m2 a2 n]
  by (simp add: murmur_tail_def Let_def)

lemma and_3_mod: "unat (len AND 3 :: u64) = unat len mod 4"
proof -
  have "len AND 3 = take_bit 2 len" by (simp add: take_bit_eq_mask mask_eq_exp_minus_1)
  then show ?thesis by (simp add: take_bit_eq_mod unat_mod)
qed

lemma c_int_nblocks:
  assumes "unat (len :: u64) < 2 ^ 31"
  shows "c_int (len div 4) = int (unat len div 4)"
proof -
  have "unat (len div 4) = unat len div 4" by (simp add: unat_div)
  with assms show ?thesis by (simp add: c_int_small)
qed

lemma MurmurHash3_defined:
  assumes "unat len < 2 ^ 31"
  shows "MurmurHash3_x86_32 mem data len =
    (let blocks = data + 4 * (unat len div 4);
         h1 = murmur_body mem blocks (- int (unat len div 4)) 0;
         h1 = murmur_tail mem blocks (unat len mod 4) h1
     in Some (fmix32 (h1 XOR ucast len)))"
proof -
  have "nat (int (unat len div 4) * 4) = 4 * (unat len div 4)" by simp
  with assms show ?thesis
    by (simp add: MurmurHash3_x86_32_def c_int_nblocks and_3_mod Let_def del: nat_mult_distrib)
qed

lemma MurmurHash3_same_key:
  assumes sk: "same_key m1 a1 m2 a2 (unat len)" and len: "unat len < 2 ^ 31"
  shows "MurmurHash3_x86_32 m1 a1 len = MurmurHash3_x86_32 m2 a2 len"
proof -
  let ?n = "unat len div 4"
  have "getblock32 m1 (a1 + 4 * ?n) j = getblock32 m2 (a2 + 4 * ?n) j" if "- int ?n \<le> j" "j < 0" for j
  proof -
    let ?i = "4 * nat (int ?n + j)"
    have p: "nat (int (a + 4 * ?n) + 4 * j) = a + ?i" for a
      using that by (simp add: nat_add_distrib nat_mult_distrib)
    have "?i + 3 < unat len" using that by linarith
    then show ?thesis using same_key_rd32 [OF sk] by (simp only: getblock32_def p)
  qed
  then have "murmur_body m1 (a1 + 4 * ?n) (- int ?n) h = murmur_body m2 (a2 + 4 * ?n) (- int ?n) h" for h
    by (rule murmur_body_same_key)
  moreover have "unat len - 4 * ?n = unat len mod 4" by (simp add: minus_mult_div_eq_mod)
  then have "same_key m1 (a1 + 4 * ?n) m2 (a2 + 4 * ?n) (unat len mod 4)"
    using same_key_drop [OF sk, of "4 * ?n"] by simp
  ultimately show ?thesis
    using murmur_tail_same_key by (simp add: MurmurHash3_defined [OF len] Let_def)
qed

section \<open>The interface of a key hash\<close>

text \<open>
  What the hash table, the item locks and the LRU rely on: for keys shorter than a bound the
  function returns, and equal keys hash alike wherever they lie in memory. The client's
  consequence is that the bucket of a key (the hash masked to the table size) is a function
  of the key as a byte string.
\<close>

definition poke :: "byte list \<Rightarrow> memory" where
  "poke bs p = (if p < length bs then bs ! p else 0)"

locale key_hash =
  fixes hash :: "memory \<Rightarrow> nat \<Rightarrow> u64 \<Rightarrow> u32 option" and bound :: nat
  assumes defined: "unat n < bound \<Longrightarrow> hash m a n \<noteq> None"
    and bytes_only: "unat n < bound \<Longrightarrow> same_key m1 a1 m2 a2 (unat n) \<Longrightarrow> hash m1 a1 n = hash m2 a2 n"
begin

definition of_bytes :: "byte list \<Rightarrow> u32" where
  "of_bytes bs = the (hash (poke bs) 0 (of_nat (length bs)))"

lemma hash_of_bytes:
  assumes "unat n < bound"
  shows "hash m a n = Some (of_bytes (map (\<lambda>i. m (a + i)) [0..<unat n]))"
proof -
  let ?bs = "map (\<lambda>i. m (a + i)) [0..<unat n]"
  have "same_key m a (poke ?bs) 0 (unat n)" by (simp add: same_key_iff poke_def)
  then have "hash m a n = hash (poke ?bs) 0 n" by (rule bytes_only [OF assms])
  moreover have "(of_nat (length ?bs) :: u64) = n" by (simp add: of_nat_unat)
  ultimately show ?thesis using defined [OF assms, of m a] by (auto simp: of_bytes_def)
qed

end

interpretation jenkins: key_hash "\<lambda>m a n. Some (jenkins_hash m a n)" "2 ^ 64"
  by unfold_locales (simp_all add: jenkins_hash_same_key)

interpretation jenkins_be: key_hash "\<lambda>m a n. Some (jenkins_hash_be m a n)" "2 ^ 64"
  by unfold_locales (simp_all add: jenkins_hash_be_same_key)

interpretation murmur: key_hash MurmurHash3_x86_32 "2 ^ 31"
  by unfold_locales (simp_all add: MurmurHash3_same_key MurmurHash3_defined Let_def)

text \<open>
  C25. After a successful \<open>hash_init\<close>, whichever function was selected, hashing a key of
  fewer than \<open>2 ^ 31\<close> bytes returns, and the value depends on the bytes of the key alone: not
  on its address or alignment (Jenkins reads the key by words, half words or bytes, and
  reads past its end, masking the excess) nor on the memory around it.
\<close>
theorem hash_init_key_hash:
  assumes "hash_init type s = (0, s')" and "unat len < 2 ^ 31"
    and "map (\<lambda>i. m1 (a1 + i)) [0..<unat len] = map (\<lambda>i. m2 (a2 + i)) [0..<unat len]"
  shows "\<exists>h. hash_fn s' m1 a1 len = Some h \<and> hash_fn s' m2 a2 len = Some h"
proof -
  have sk: "same_key m1 a1 m2 a2 (unat len)" using assms(3) by (simp only: same_key_def)
  consider "hash_fn s' = (\<lambda>m a n. Some (jenkins_hash m a n))" | "hash_fn s' = MurmurHash3_x86_32"
    using assms(1) by (auto simp: hash_init_def split: hashfunc_type.splits)
  then show ?thesis
  proof cases
    case 1
    then show ?thesis using jenkins_hash_same_key [OF sk] by simp
  next
    case 2
    then show ?thesis
      using murmur.bytes_only [OF assms(2) sk] murmur.defined [OF assms(2), of m2 a2] by auto
  qed
qed

theorem hash_init_key_hash_witness:
  "\<exists>h. hash_fn (snd (hash_init JENKINS_HASH \<lparr>hash_fn = \<lambda>m a n. None, hash_algorithm = []\<rparr>))
         (\<lambda>p. of_nat p) 5 3 = Some h
     \<and> hash_fn (snd (hash_init JENKINS_HASH \<lparr>hash_fn = \<lambda>m a n. None, hash_algorithm = []\<rparr>))
         (\<lambda>p. of_nat (p - 3)) 8 3 = Some h"
  by (rule hash_init_key_hash [of JENKINS_HASH "\<lparr>hash_fn = \<lambda>m a n. None, hash_algorithm = []\<rparr>"])
    (simp_all add: hash_init_def upt_rec)

text \<open>
  The big-endian build of the Jenkins hash has the same property for its two read paths.
\<close>
theorem jenkins_be_key_hash:
  assumes "map (\<lambda>i. m1 (a1 + i)) [0..<unat len] = map (\<lambda>i. m2 (a2 + i)) [0..<unat len]"
  shows "jenkins_hash_be m1 a1 len = jenkins_hash_be m2 a2 len"
  using assms jenkins_be.bytes_only [of len m1 a1 m2 a2] by (simp add: same_key_def)

theorem jenkins_be_key_hash_witness:
  "jenkins_hash_be (\<lambda>p. of_nat p) 4 3 = jenkins_hash_be (\<lambda>p. of_nat (p - 3)) 7 3"
  by (rule jenkins_be_key_hash) (simp add: upt_rec)

section \<open>The mixing steps lose nothing\<close>

definition mix_step :: "nat \<Rightarrow> abc \<Rightarrow> abc" where
  "mix_step k abc = (case abc of (a, b, c) \<Rightarrow> (b, c + b, (a - c) XOR rot c k))"

definition unmix_step :: "nat \<Rightarrow> abc \<Rightarrow> abc" where
  "unmix_step k bca = (case bca of (b, c, a) \<Rightarrow> ((a XOR rot (c - b) k) + (c - b), b, c - b))"

lemma unmix_step_mix_step: "unmix_step k (mix_step k abc) = abc"
  by (cases abc) (simp add: mix_step_def unmix_step_def xor.assoc)

lemma mix_steps:
  "mix abc = mix_step 4 (mix_step 19 (mix_step 16 (mix_step 8 (mix_step 6 (mix_step 4 abc)))))"
  by (cases abc) (simp only: mix_def mix_step_def Let_def prod.case)

text \<open>
  \<open>mix\<close> is reversible, as the comment above it claims: the internal state before a block
  is recovered from the state after it, so no information about the key is lost.
\<close>
theorem mix_reversible:
  "unmix_step 4 (unmix_step 6 (unmix_step 8 (unmix_step 16 (unmix_step 19 (unmix_step 4 (mix abc)))))) = abc"
  by (simp add: mix_steps unmix_step_mix_step)

definition unfmix32 :: "u32 \<Rightarrow> u32" where
  "unfmix32 h =
     (let h = h XOR drop_bit 16 h; h = h * 0x7ed1b41d;
          h = h XOR drop_bit 13 h XOR drop_bit 26 h; h = h * 0xa5cb9243
      in h XOR drop_bit 16 h)"

lemma unxorshift:
  "(h XOR drop_bit 16 h) XOR drop_bit 16 (h XOR drop_bit 16 h) = (h :: u32)"
  "(h XOR drop_bit 13 h) XOR drop_bit 13 (h XOR drop_bit 13 h) XOR drop_bit 26 (h XOR drop_bit 13 h) = h"
  by (rule bit_word_eqI; auto simp: bit_simps)+

lemma unmul: "(h :: u32) * 0x85ebca6b * 0xa5cb9243 = h" "(h :: u32) * 0xc2b2ae35 * 0x7ed1b41d = h"
proof -
  have "(0x85ebca6b :: u32) * 0xa5cb9243 = 1" "(0xc2b2ae35 :: u32) * 0x7ed1b41d = 1" by simp_all
  then show "h * 0x85ebca6b * 0xa5cb9243 = h" "h * 0xc2b2ae35 * 0x7ed1b41d = h"
    by (simp_all only: mult.assoc mult_1_right)
qed

text \<open>
  \<open>fmix32\<close> is a bijection of the 32-bit words, so the finalisation of MurmurHash3 adds
  no collisions.
\<close>
theorem fmix32_bij: "unfmix32 (fmix32 h) = h \<and> bij fmix32"
proof -
  have inv: "unfmix32 (fmix32 h) = h" for h
    by (simp only: unfmix32_def fmix32_def Let_def unxorshift unmul)
  then have "inj fmix32" by (metis injI)
  then have "bij fmix32" by (simp add: bij_def finite_UNIV_inj_surj)
  with inv show ?thesis by blast
qed

end
