(* ===== verification/Evcompat.thy ===== *)
theory Evcompat
  imports Prelude
begin

unbundle bit_operations_syntax

text \<open>
  The libevent compatibility layer \<open>src/evcompat\<close> (\<open>event.c\<close>, \<open>event.h\<close>, \<open>internal.h\<close>): events
  on FreeBSD kqueues, handled by any number of threads that run \<open>event_base_loop\<close> on shared
  event bases.

  The state (\<open>world\<close>) holds the \<open>struct event\<close> and \<open>struct event_base\<close> objects by address, the
  timer counter, the threads' \<open>errno\<close> and the state of the kernel. The kernel is not part of the
  repository: its \<open>kevent\<close> calls are the parameter \<open>kernel\<close>, and the behaviour of kqueue(2) the
  code relies on is the predicate \<open>kqueue_spec\<close>. Every API function is one definition; the
  loop is cut at the points where its thread takes a lock or runs a callback, so that other
  threads can act in between (\<open>loop_step\<close>), and \<open>sys_step\<close> interleaves the threads.
  An outcome \<open>AssertFail\<close> is a failing \<open>assert\<close>, \<open>Wait\<close> is a mutex or condition variable the
  thread has to wait for (the operation happens when the wait is over), and \<open>Undef\<close> is undefined
  behaviour of C (an uninitialised \<open>struct kevent\<close>, overflow of \<open>epoch\<close>, an array overrun).
\<close>

section \<open>Data\<close>

record event_init_config =
  eb_flags :: u32
  kq_rshare :: int
  kq_freq :: int
  conf_data :: int

record event_base =
  eb_kqfd :: int
  eb_conf :: event_init_config

record event =
  lk :: "nat option"
  ev_base :: "nat option"
  cv_init :: u32
  owner :: "nat option"
  ev_fd :: int
  ev_type :: u16
  ev_fn :: nat
  ev_arg :: nat
  ev_state :: u32
  epoch :: int

abbreviation (input) EV_READ :: u16 where "EV_READ \<equiv> 0x1"
abbreviation (input) EV_WRITE :: u16 where "EV_WRITE \<equiv> 0x2"
abbreviation (input) EV_TIMEOUT :: u16 where "EV_TIMEOUT \<equiv> 0x4"
abbreviation (input) EV_PERSIST :: u16 where "EV_PERSIST \<equiv> 0x8"
abbreviation (input) EV_RUNTIME :: u16 where "EV_RUNTIME \<equiv> 0x10"

abbreviation (input) EVB_MULTI :: u32 where "EVB_MULTI \<equiv> 1"
abbreviation (input) EVS_ACTIVE :: u32 where "EVS_ACTIVE \<equiv> 0x1"
abbreviation (input) EVS_PENDING :: u32 where "EVS_PENDING \<equiv> 0x2"
abbreviation (input) EVLOOP_ONCE :: u32 where "EVLOOP_ONCE \<equiv> 0x1"
abbreviation (input) CV_INIT_MAGIC :: u32 where "CV_INIT_MAGIC \<equiv> 0xdeedb33f"
abbreviation (input) NEVENT :: nat where "NEVENT \<equiv> 128"
abbreviation (input) CS_OK :: int where "CS_OK \<equiv> 0"
abbreviation (input) CS_ERR :: int where "CS_ERR \<equiv> -1"

datatype del_flags = EVENT_DEL_BLOCK | EVENT_DEL_NOBLOCK

text \<open>From the system headers: filters, kevent flags and error numbers of FreeBSD.\<close>

datatype filt = EVFILT_READ | EVFILT_WRITE | EVFILT_TIMER

abbreviation (input) EV_ADD :: u32 where "EV_ADD \<equiv> 0x1"
abbreviation (input) EV_DELETE :: u32 where "EV_DELETE \<equiv> 0x2"
abbreviation (input) EV_ENABLE :: u32 where "EV_ENABLE \<equiv> 0x4"
abbreviation (input) EV_DISPATCH :: u32 where "EV_DISPATCH \<equiv> 0x80"
abbreviation (input) NOTE_USECONDS :: u32 where "NOTE_USECONDS \<equiv> 0x4"
abbreviation (input) EINTR :: int where "EINTR \<equiv> 4"
abbreviation (input) EBUSY :: int where "EBUSY \<equiv> 16"
abbreviation (input) EINVAL :: int where "EINVAL \<equiv> 22"

record kevent =
  ident :: int
  kfilter :: filt
  kflags :: u32
  fflags :: u32
  kdata :: u64
  udata :: nat

record timeval =
  tv_sec :: int
  tv_usec :: int

text \<open>
  Build configuration: \<open>MULT_KQ\<close> when the kernel headers define \<open>FKQMULTI\<close>, with the value of
  \<open>EV_REALTIME\<close> they give (0 otherwise).
\<close>

record kqconf =
  MULT_KQ :: bool
  EV_REALTIME :: u32

text \<open>
  The system calls: \<open>kqueue()\<close>, \<open>kevent\<close> with a change list, \<open>kevent\<close> with an event list of
  \<open>NEVENT\<close> entries (result, \<open>errno\<close> and the events), the \<open>ioctl\<close>s of the multi-queue kernel
  (which request and value), \<open>close\<close>.
\<close>

datatype kq_ioctl = FKQMULTI int | FKQTUNE_RTSHARE int | FKQTUNE_FREQ int

record 'k kernel =
  k_kqueue :: "'k \<Rightarrow> int \<times> 'k"
  k_change :: "'k \<Rightarrow> int \<Rightarrow> kevent list \<Rightarrow> int \<times> 'k"
  k_wait :: "'k \<Rightarrow> int \<Rightarrow> (int \<times> int \<times> kevent list) \<times> 'k"
  k_ioctl :: "'k \<Rightarrow> int \<Rightarrow> kq_ioctl \<Rightarrow> int \<times> 'k"
  k_close :: "'k \<Rightarrow> int \<Rightarrow> int \<times> 'k"

record 'k world =
  evs :: "nat \<Rightarrow> event"
  bases :: "nat \<Rightarrow> event_base option"
  timer_base :: u32
  errno :: "nat \<Rightarrow> int"
  kern :: 'k

datatype 'a outcome = Ret 'a | Wait | AssertFail | Undef | Exit int

definition set_ev :: "nat \<Rightarrow> event \<Rightarrow> 'k world \<Rightarrow> 'k world" where
  "set_ev e ev w = w\<lparr>evs := (evs w)(e := ev)\<rparr>"

definition set_errno :: "nat \<Rightarrow> int \<Rightarrow> 'k world \<Rightarrow> 'k world" where
  "set_errno self n w = w\<lparr>errno := (errno w)(self := n)\<rparr>"

section \<open>API functions\<close>

definition ev_lock :: "nat \<Rightarrow> nat \<Rightarrow> 'k world \<Rightarrow> 'k world outcome" where
  "ev_lock self e w =
     (if lk (evs w e) = None then Ret (set_ev e ((evs w e)\<lparr>lk := Some self\<rparr>) w) else Wait)"

definition ev_unlock :: "nat \<Rightarrow> 'k world \<Rightarrow> 'k world" where
  "ev_unlock e w = set_ev e ((evs w e)\<lparr>lk := None\<rparr>) w"

definition next_timer_fd :: "'k world \<Rightarrow> int \<times> 'k world" where
  "next_timer_fd w = (sint (timer_base w), w\<lparr>timer_base := timer_base w - 1\<rparr>)"

text \<open>The filter \<open>init_kevent\<close> chooses; \<open>None\<close> is \<open>EINVAL\<close>.\<close>

definition type_filter :: "u16 \<Rightarrow> filt option" where
  "type_filter ty =
     (if ty AND EV_READ = EV_READ then Some EVFILT_READ
      else if ty AND EV_WRITE = EV_WRITE then Some EVFILT_WRITE
      else if ty AND EV_TIMEOUT = EV_TIMEOUT then Some EVFILT_TIMER
      else None)"

definition init_kevent :: "kqconf \<Rightarrow> nat \<Rightarrow> event \<Rightarrow> u32 \<Rightarrow> timeval option \<Rightarrow> (int + kevent) outcome" where
  "init_kevent cf e ev flags timeout =
     (case type_filter (ev_type ev) of
        None \<Rightarrow> Ret (Inl EINVAL)
      | Some f \<Rightarrow>
          if f = EVFILT_TIMER \<and> timeout = None \<and> flags AND EV_DELETE \<noteq> EV_DELETE then AssertFail
          else
            let ff = (if f = EVFILT_TIMER then NOTE_USECONDS else 0);
                d = (case timeout of
                       Some tv \<Rightarrow> if f = EVFILT_TIMER then word_of_int (tv_usec tv) + word_of_int (tv_sec tv) * 1000000 else 0
                     | None \<Rightarrow> 0);
                flags = (if ev_type ev AND EV_RUNTIME = EV_RUNTIME then flags OR EV_REALTIME cf else flags)
            in Ret (Inr \<lparr>ident = ev_fd ev, kfilter = f, kflags = flags, fflags = ff, kdata = d, udata = e\<rparr>))"

definition event_config_init :: "event_init_config \<Rightarrow> event_init_config" where
  "event_config_init conf = conf\<lparr>conf_data := 0, eb_flags := 0, kq_freq := 0, kq_rshare := 100\<rparr>"

text \<open>
  \<open>event_init_flags\<close> at the address \<open>b\<close> that \<open>malloc\<close> returned; with no configuration \<open>eb_conf\<close>
  stays what the memory held (\<open>junk\<close>).
\<close>

definition event_init_flags ::
    "kqconf \<Rightarrow> 'k kernel \<Rightarrow> nat option \<Rightarrow> event_init_config \<Rightarrow> event_init_config option \<Rightarrow> 'k world \<Rightarrow> (nat \<times> 'k world) outcome" where
  "event_init_flags cf kr malloc junk config w =
     (case malloc of None \<Rightarrow> AssertFail | Some b \<Rightarrow>
        (case k_kqueue kr (kern w) of (kq, k) \<Rightarrow>
           if kq \<le> 0 then AssertFail
           else case config of
               None \<Rightarrow> Ret (b, w\<lparr>kern := k, bases := (bases w)(b \<mapsto> \<lparr>eb_kqfd = kq, eb_conf = junk\<rparr>)\<rparr>)
             | Some c \<Rightarrow>
                 let w = w\<lparr>bases := (bases w)(b \<mapsto> \<lparr>eb_kqfd = kq, eb_conf = c\<rparr>)\<rparr>
                 in if MULT_KQ cf \<and> eb_flags c AND EVB_MULTI = EVB_MULTI
                    then case k_ioctl kr k kq (FKQMULTI (conf_data c)) of (r, k) \<Rightarrow>
                         if r = -1 then Exit 1
                         else case k_ioctl kr k kq (FKQTUNE_RTSHARE (kq_rshare c)) of (r, k) \<Rightarrow>
                              if r = -1 then Exit 1
                              else case k_ioctl kr k kq (FKQTUNE_FREQ (kq_freq c)) of (r, k) \<Rightarrow>
                                   if r = -1 then Exit 1 else Ret (b, w\<lparr>kern := k\<rparr>)
                    else Ret (b, w\<lparr>kern := k\<rparr>)))"

definition event_base_free :: "'k kernel \<Rightarrow> nat \<Rightarrow> 'k world \<Rightarrow> 'k world outcome" where
  "event_base_free kr b w =
     (case bases w b of None \<Rightarrow> Undef
      | Some base \<Rightarrow> (case k_close kr (kern w) (eb_kqfd base) of (r, k) \<Rightarrow>
                        Ret (w\<lparr>kern := k, bases := (bases w)(b := None)\<rparr>)))"

definition event_base_set :: "nat \<Rightarrow> nat \<Rightarrow> 'k world \<Rightarrow> int \<times> 'k world" where
  "event_base_set b e w =
     (let ev = evs w e
      in if has_flag (ev_state ev) (set_flag EVS_ACTIVE EVS_PENDING) then (CS_ERR, w)
         else (CS_OK, set_ev e (ev\<lparr>ev_base := Some b\<rparr>) w))"

text \<open>
  The tail that \<open>event_add\<close> and \<open>event_del_flags\<close> share: an active event that was changed
  becomes inactive and starts a new epoch. \<open>epoch\<close> is a 32-bit \<open>int\<close>.
\<close>

definition deactivate_changed :: "event \<Rightarrow> event outcome" where
  "deactivate_changed ev =
     (if has_flag (ev_state ev) EVS_ACTIVE
      then if epoch ev \<ge> 2 ^ 31 - 1 then Undef
           else Ret (ev\<lparr>ev_state := clear_flag (ev_state ev) EVS_ACTIVE, owner := None, epoch := epoch ev + 1\<rparr>)
      else Ret ev)"

definition event_del_flags :: "kqconf \<Rightarrow> 'k kernel \<Rightarrow> nat \<Rightarrow> nat \<Rightarrow> del_flags \<Rightarrow> 'k world \<Rightarrow> (int \<times> 'k world) outcome" where
  "event_del_flags cf kr self e flags w =
     (let ev = evs w e
      in case ev_base ev of None \<Rightarrow> AssertFail | Some b \<Rightarrow>
        (case init_kevent cf e ev EV_DELETE None of
           Ret kev \<Rightarrow>
             if \<not> has_flag (ev_state ev) EVS_PENDING then Ret (CS_ERR, set_errno self EINVAL w)
             else if has_flag (ev_state ev) EVS_ACTIVE \<and> owner ev \<noteq> Some self
             then (case flags of EVENT_DEL_NOBLOCK \<Rightarrow> Ret (CS_ERR, set_errno self EBUSY w) | EVENT_DEL_BLOCK \<Rightarrow> Wait)
             else (case (kev, bases w b) of
                 (Inr kev, Some base) \<Rightarrow>
                   (case k_change kr (kern w) (eb_kqfd base) [kev] of (r, k) \<Rightarrow>
                      let w = w\<lparr>kern := k\<rparr>
                      in if r \<noteq> 0 then Ret (CS_ERR, set_errno self r w)
                         else case deactivate_changed (ev\<lparr>ev_state := clear_flag (ev_state ev) EVS_PENDING\<rparr>) of
                                Ret ev \<Rightarrow> Ret (CS_OK, set_ev e ev w)
                              | _ \<Rightarrow> Undef)
               | _ \<Rightarrow> Undef)
         | _ \<Rightarrow> AssertFail))"

definition event_del :: "kqconf \<Rightarrow> 'k kernel \<Rightarrow> nat \<Rightarrow> nat \<Rightarrow> 'k world \<Rightarrow> (int \<times> 'k world) outcome" where
  "event_del cf kr self e w =
     (case ev_lock self e w of
        Ret w \<Rightarrow> (case event_del_flags cf kr self e EVENT_DEL_BLOCK w of
                   Ret (r, w) \<Rightarrow> Ret (r, ev_unlock e w) | x \<Rightarrow> x)
      | _ \<Rightarrow> Wait)"

definition event_add :: "kqconf \<Rightarrow> 'k kernel \<Rightarrow> nat \<Rightarrow> nat \<Rightarrow> timeval option \<Rightarrow> 'k world \<Rightarrow> (int \<times> 'k world) outcome" where
  "event_add cf kr self e timeout w =
     (case ev_base (evs w e) of None \<Rightarrow> AssertFail | Some b \<Rightarrow>
        if has_flag (ev_state (evs w e)) EVS_PENDING then Ret (CS_ERR, set_errno self EINVAL w)
        else
          let w = (if has_flag (ev_type (evs w e)) EV_TIMEOUT
                   then case next_timer_fd w of (fd, w) \<Rightarrow> set_ev e ((evs w e)\<lparr>ev_fd := fd\<rparr>) w
                   else w)
          in case init_kevent cf e (evs w e) (EV_ADD OR (if MULT_KQ cf then 0 else EV_DISPATCH)) timeout of
               Ret (Inl err) \<Rightarrow> Ret (CS_ERR, set_errno self err w)
             | Ret (Inr kev) \<Rightarrow>
                 (case ev_lock self e w of
                    Ret w \<Rightarrow>
                      (case bases w b of None \<Rightarrow> Undef | Some base \<Rightarrow>
                         (case k_change kr (kern w) (eb_kqfd base) [kev] of (r, k) \<Rightarrow>
                            let w = w\<lparr>kern := k\<rparr>
                            in if r \<noteq> 0 then Ret (CS_ERR, ev_unlock e w)
                               else case deactivate_changed ((evs w e)\<lparr>ev_state := set_flag (ev_state (evs w e)) EVS_PENDING\<rparr>) of
                                      Ret ev \<Rightarrow> Ret (CS_OK, ev_unlock e (set_ev e ev w))
                                    | _ \<Rightarrow> Undef))
                  | _ \<Rightarrow> Wait)
             | _ \<Rightarrow> AssertFail)"

text \<open>First use of the \<open>struct event\<close> is recognised by a magic number.\<close>

definition event_set :: "nat \<Rightarrow> nat \<Rightarrow> int \<Rightarrow> u16 \<Rightarrow> nat \<Rightarrow> nat \<Rightarrow> 'k world \<Rightarrow> 'k world outcome" where
  "event_set self e fd ty fn arg w =
     (let ev = evs w e;
          ev = (if cv_init ev \<noteq> CV_INIT_MAGIC
                then ev\<lparr>cv_init := CV_INIT_MAGIC, ev_state := 0, epoch := 0, ev_base := None, owner := None, lk := None\<rparr>
                else ev)
      in case ev_lock self e (set_ev e ev w) of
           Ret w \<Rightarrow>
             let ev = evs w e
             in if has_flag (ev_state ev) EVS_ACTIVE \<and> has_flag (ev_state ev) EVS_PENDING \<and> ty \<noteq> ev_type ev
                then AssertFail
                else if has_flag (ev_state ev) EVS_ACTIVE \<and> \<not> has_flag (ev_type ev) EV_TIMEOUT \<and> fd \<noteq> ev_fd ev
                then AssertFail
                else Ret (ev_unlock e (set_ev e (ev\<lparr>ev_fd := fd, ev_type := ty, ev_fn := fn, ev_arg := arg\<rparr>) w))
         | _ \<Rightarrow> Wait)"

definition evtimer_set :: "nat \<Rightarrow> nat \<Rightarrow> nat \<Rightarrow> nat \<Rightarrow> 'k world \<Rightarrow> 'k world outcome" where
  "evtimer_set self e cb arg w = event_set self e (-1) EV_TIMEOUT cb arg w"

definition event_cleanup :: "nat \<Rightarrow> 'k world \<Rightarrow> 'k world outcome" where
  "event_cleanup e w = (if lk (evs w e) = None then Ret w else Undef)"

section \<open>The event loop\<close>

text \<open>
  The local variables of a thread in \<open>event_base_loop\<close>: the arrays \<open>active\<close> and \<open>epochs\<close> are one
  list of pairs, \<open>idx\<close> is the index of the current \<open>for\<close> loop. A callback is running while the
  program counter is \<open>InHandler\<close>.
\<close>

datatype loop_pc = Start | Marking | Dispatch | InHandler | Complete | Reenable | Unlock | Ended

record loop_state =
  pc :: loop_pc
  lbase :: nat
  lflags :: u32
  lret :: int
  evlist :: "kevent list"
  active :: "(nat \<times> int) list"
  enlist :: "kevent list"
  idx :: nat

definition loop_enter :: "nat \<Rightarrow> u32 \<Rightarrow> loop_state" where
  "loop_enter b flags = \<lparr>pc = Start, lbase = b, lflags = flags, lret = 0, evlist = [], active = [], enlist = [], idx = 0\<rparr>"

definition loop_poll :: "'k kernel \<Rightarrow> nat \<Rightarrow> 'k world \<Rightarrow> loop_state \<Rightarrow> ('k world \<times> loop_state) outcome" where
  "loop_poll kr self w l =
     (case bases w (lbase l) of None \<Rightarrow> Undef
      | Some base \<Rightarrow>
          (case k_wait kr (kern w) (eb_kqfd base) of ((r, err, kevs), k) \<Rightarrow>
             let w = (if r < 0 then set_errno self err (w\<lparr>kern := k\<rparr>) else w\<lparr>kern := k\<rparr>);
                 l = l\<lparr>lret := r, active := [], enlist := [], idx := 0\<rparr>
             in if r < 0 \<and> err \<noteq> EINTR then Ret (w, l\<lparr>pc := Ended\<rparr>)
                else if r > int NEVENT then Undef
                else Ret (w, l\<lparr>pc := Marking, evlist := take (nat r) kevs\<rparr>)))"

definition loop_collect :: "nat \<Rightarrow> 'k world \<Rightarrow> loop_state \<Rightarrow> ('k world \<times> loop_state) outcome" where
  "loop_collect self w l =
     (if idx l < length (evlist l) then
        let kev = evlist l ! idx l; e = udata kev
        in case ev_lock self e w of
             Ret w \<Rightarrow>
               let ev = evs w e
               in if ev_fd ev \<noteq> ident kev \<or> ev_base ev \<noteq> Some (lbase l) \<or> has_flag (ev_state ev) EVS_ACTIVE
                  then AssertFail
                  else Ret (ev_unlock e (set_ev e (ev\<lparr>ev_state := set_flag (ev_state ev) EVS_ACTIVE, owner := Some self\<rparr>) w),
                            l\<lparr>active := active l @ [(e, epoch ev)], idx := idx l + 1\<rparr>)
           | _ \<Rightarrow> Wait
      else Ret (w, l\<lparr>pc := Dispatch, idx := 0\<rparr>))"

definition loop_dispatch :: "'k world \<Rightarrow> loop_state \<Rightarrow> ('k world \<times> loop_state) outcome" where
  "loop_dispatch w l =
     (if idx l < length (active l) then Ret (w, l\<lparr>pc := InHandler\<rparr>)
      else Ret (w, l\<lparr>pc := Complete, idx := 0\<rparr>))"

definition loop_complete :: "kqconf \<Rightarrow> 'k kernel \<Rightarrow> nat \<Rightarrow> 'k world \<Rightarrow> loop_state \<Rightarrow> ('k world \<times> loop_state) outcome" where
  "loop_complete cf kr self w l =
     (if idx l < length (active l) then
        (case active l ! idx l of (e, ep) \<Rightarrow>
           (case ev_lock self e w of
              Ret w \<Rightarrow>
                let ev = evs w e; l = l\<lparr>idx := idx l + 1\<rparr>
                in if epoch ev = ep then
                     let w = set_ev e (ev\<lparr>ev_state := clear_flag (ev_state ev) EVS_ACTIVE, owner := None\<rparr>) w
                     in if \<not> has_flag (ev_type ev) EV_PERSIST
                        then (case event_del_flags cf kr self e EVENT_DEL_NOBLOCK w of
                                Ret (r, w) \<Rightarrow> if r = CS_OK then Ret (w, l\<lparr>lret := r\<rparr>) else AssertFail
                              | AssertFail \<Rightarrow> AssertFail | Wait \<Rightarrow> Wait | _ \<Rightarrow> Undef)
                        else if \<not> MULT_KQ cf
                        then Ret (w, l\<lparr>enlist := enlist l @ [(evlist l ! (idx l - 1))\<lparr>kflags := EV_ENABLE\<rparr>]\<rparr>)
                        else Ret (w, l)
                   else Ret (w, l)
            | _ \<Rightarrow> Wait))
      else Ret (w, l\<lparr>pc := Reenable\<rparr>))"

definition loop_reenable :: "kqconf \<Rightarrow> 'k kernel \<Rightarrow> 'k world \<Rightarrow> loop_state \<Rightarrow> ('k world \<times> loop_state) outcome" where
  "loop_reenable cf kr w l =
     (if enlist l \<noteq> [] \<and> \<not> MULT_KQ cf then
        (case bases w (lbase l) of None \<Rightarrow> Undef
         | Some base \<Rightarrow>
             (case k_change kr (kern w) (eb_kqfd base) (enlist l) of (r, k) \<Rightarrow>
                if r = 0 then Ret (w\<lparr>kern := k\<rparr>, l\<lparr>pc := Unlock, lret := r\<rparr>) else AssertFail))
      else Ret (w, l\<lparr>pc := Unlock\<rparr>))"

definition loop_unlock :: "'k world \<Rightarrow> loop_state \<Rightarrow> ('k world \<times> loop_state) outcome" where
  "loop_unlock w l =
     Ret (fold ev_unlock (map fst (active l)) w,
          l\<lparr>pc := (if \<not> has_flag (lflags l) EVLOOP_ONCE then Start else Ended)\<rparr>)"

definition loop_step :: "kqconf \<Rightarrow> 'k kernel \<Rightarrow> nat \<Rightarrow> 'k world \<Rightarrow> loop_state \<Rightarrow> ('k world \<times> loop_state) outcome" where
  "loop_step cf kr self w l =
     (case pc l of
        Start \<Rightarrow> loop_poll kr self w l
      | Marking \<Rightarrow> loop_collect self w l
      | Dispatch \<Rightarrow> loop_dispatch w l
      | InHandler \<Rightarrow> Ret (w, l\<lparr>pc := Dispatch, idx := idx l + 1\<rparr>)
      | Complete \<Rightarrow> loop_complete cf kr self w l
      | Reenable \<Rightarrow> loop_reenable cf kr w l
      | Unlock \<Rightarrow> loop_unlock w l
      | Ended \<Rightarrow> Ret (w, l))"

section \<open>The threaded system\<close>

record 'k sys =
  sw :: "'k world"
  loops :: "nat \<Rightarrow> loop_state"

datatype client_op =
    OpAdd nat "timeval option"
  | OpDel nat
  | OpSet nat int u16 nat nat
  | OpBaseSet nat nat

definition client_exec :: "kqconf \<Rightarrow> 'k kernel \<Rightarrow> nat \<Rightarrow> client_op \<Rightarrow> 'k world \<Rightarrow> 'k world outcome" where
  "client_exec cf kr self opn w =
     (case opn of
        OpAdd e to \<Rightarrow> (case event_add cf kr self e to w of Ret (r, w) \<Rightarrow> Ret w | Wait \<Rightarrow> Wait | AssertFail \<Rightarrow> AssertFail | _ \<Rightarrow> Undef)
      | OpDel e \<Rightarrow> (case event_del cf kr self e w of Ret (r, w) \<Rightarrow> Ret w | Wait \<Rightarrow> Wait | AssertFail \<Rightarrow> AssertFail | _ \<Rightarrow> Undef)
      | OpSet e fd ty fn arg \<Rightarrow> event_set self e fd ty fn arg w
      | OpBaseSet b e \<Rightarrow> Ret (snd (event_base_set b e w)))"

definition magic :: "event \<Rightarrow> bool" where
  "magic ev \<longleftrightarrow> cv_init ev = CV_INIT_MAGIC"

definition pend :: "event \<Rightarrow> bool" where
  "pend ev \<longleftrightarrow> magic ev \<and> has_flag (ev_state ev) EVS_PENDING"

definition act :: "event \<Rightarrow> bool" where
  "act ev \<longleftrightarrow> magic ev \<and> has_flag (ev_state ev) EVS_ACTIVE"

text \<open>
  A knote of the kernel is named by its queue, identifier and filter. \<open>ev_key\<close> is the knote an
  event uses, \<open>kev_key\<close> the one a \<open>struct kevent\<close> is about.
\<close>

type_synonym knote = "int \<times> int \<times> filt"

definition ev_key :: "(nat \<Rightarrow> event_base option) \<Rightarrow> event \<Rightarrow> knote option" where
  "ev_key B ev =
     (case ev_base ev of None \<Rightarrow> None | Some b \<Rightarrow>
        (case B b of None \<Rightarrow> None | Some base \<Rightarrow>
           (case type_filter (ev_type ev) of None \<Rightarrow> None | Some f \<Rightarrow> Some (eb_kqfd base, ev_fd ev, f))))"

definition kev_key :: "int \<Rightarrow> kevent \<Rightarrow> knote" where
  "kev_key kq kev = (kq, ident kev, kfilter kev)"

text \<open>
  What kqueue(2) documents for knotes added with \<open>EV_ADD | EV_DISPATCH\<close>, over a view \<open>knotes\<close>
  of the kernel's state giving the \<open>udata\<close> of a registered knote and whether it is enabled:
  an \<open>EV_ADD\<close> that succeeds registers and enables (one that fails changes nothing); deleting
  or enabling registered knotes succeeds; waiting returns at most \<open>NEVENT\<close> distinct enabled
  knotes with their \<open>udata\<close> and, since they are \<open>EV_DISPATCH\<close>, disables them.
\<close>

type_synonym 'k view = "'k \<Rightarrow> knote \<Rightarrow> (nat \<times> bool) option"

definition set_enabled :: "bool \<Rightarrow> knote set \<Rightarrow> (knote \<Rightarrow> (nat \<times> bool) option) \<Rightarrow> knote \<Rightarrow> (nat \<times> bool) option" where
  "set_enabled en K N x = (if x \<in> K then map_option (\<lambda>(u, b). (u, en)) (N x) else N x)"

definition spec_add :: "'k kernel \<Rightarrow> 'k view \<Rightarrow> bool" where
  "spec_add kr knotes \<longleftrightarrow>
     (\<forall>k kq kev r k'. kflags kev = EV_ADD OR EV_DISPATCH \<longrightarrow> k_change kr k kq [kev] = (r, k') \<longrightarrow>
        knotes k' = (if r = 0 then (knotes k)(kev_key kq kev \<mapsto> (udata kev, True)) else knotes k))"

definition spec_del :: "'k kernel \<Rightarrow> 'k view \<Rightarrow> bool" where
  "spec_del kr knotes \<longleftrightarrow>
     (\<forall>k kq kev r k'. kflags kev = EV_DELETE \<longrightarrow> knotes k (kev_key kq kev) \<noteq> None \<longrightarrow>
        k_change kr k kq [kev] = (r, k') \<longrightarrow> r = 0 \<and> knotes k' = (knotes k)(kev_key kq kev := None))"

definition spec_enable :: "'k kernel \<Rightarrow> 'k view \<Rightarrow> bool" where
  "spec_enable kr knotes \<longleftrightarrow>
     (\<forall>k kq kevs r k'. (\<forall>kev\<in>set kevs. kflags kev = EV_ENABLE \<and> (\<exists>b. knotes k (kev_key kq kev) = Some (udata kev, b))) \<longrightarrow>
        k_change kr k kq kevs = (r, k') \<longrightarrow>
        r = 0 \<and> knotes k' = set_enabled True (kev_key kq ` set kevs) (knotes k))"

definition spec_wait :: "'k kernel \<Rightarrow> 'k view \<Rightarrow> bool" where
  "spec_wait kr knotes \<longleftrightarrow>
     (\<forall>k kq r err kevs k'. k_wait kr k kq = ((r, err, kevs), k') \<longrightarrow>
        r \<le> int NEVENT \<and> (r < 0 \<longrightarrow> knotes k' = knotes k)
      \<and> (r \<ge> 0 \<longrightarrow> length kevs = nat r \<and> distinct (map (kev_key kq) kevs)
           \<and> (\<forall>kev\<in>set kevs. knotes k (kev_key kq kev) = Some (udata kev, True))
           \<and> knotes k' = set_enabled False (kev_key kq ` set kevs) (knotes k)))"

definition kqueue_spec :: "'k kernel \<Rightarrow> 'k view \<Rightarrow> bool" where
  "kqueue_spec kr knotes \<longleftrightarrow> spec_add kr knotes \<and> spec_del kr knotes \<and> spec_enable kr knotes \<and> spec_wait kr knotes"

text \<open>
  Where an event can be in a thread's loop: returned by the kernel and not yet marked active;
  being handled in its current epoch; handled and waiting to be enabled again.
\<close>

definition queued :: "loop_state \<Rightarrow> nat set" where
  "queued l = (if pc l = Marking then {udata (evlist l ! j) | j. idx l \<le> j \<and> j < length (evlist l)} else {})"

definition handling :: "loop_pc \<Rightarrow> bool" where
  "handling p \<longleftrightarrow> p \<in> {Marking, Dispatch, InHandler, Complete}"

definition live :: "(nat \<Rightarrow> event) \<Rightarrow> loop_state \<Rightarrow> nat set" where
  "live E l =
     (if handling (pc l)
      then {fst (active l ! j) | j. j < length (active l) \<and> (pc l = Complete \<longrightarrow> idx l \<le> j)
              \<and> snd (active l ! j) = epoch (E (fst (active l ! j)))}
      else {})"

definition relist :: "loop_state \<Rightarrow> nat set" where
  "relist l = (if pc l \<in> {Complete, Reenable} then udata ` set (enlist l) else {})"

definition held :: "(nat \<Rightarrow> event) \<Rightarrow> loop_state \<Rightarrow> nat set" where
  "held E l = queued l \<union> live E l \<union> relist l"

text \<open>
  The discipline for callers. The comments in \<open>event.c\<close> ask that no two threads manipulate the
  same event; precisely: events are initialised by \<open>event_set\<close> before use and given a base; an
  event the kernel has just returned to a loop is not added or deleted before that loop has
  marked it; a pending event keeps its descriptor and type; and no two pending events share
  a knote.
\<close>

definition allowed :: "client_op \<Rightarrow> 'k sys \<Rightarrow> bool" where
  "allowed opn s =
     (let w = sw s; E = evs w; B = bases w
      in case opn of
           OpAdd e to \<Rightarrow>
             magic (E e) \<and> (\<exists>b. ev_base (E e) = Some b \<and> B b \<noteq> None)
             \<and> (type_filter (ev_type (E e)) = Some EVFILT_TIMER \<longrightarrow> to \<noteq> None)
             \<and> (\<forall>e'. e' \<noteq> e \<longrightarrow> pend (E e') \<longrightarrow>
                  ev_key B (E e') \<noteq> ev_key B ((E e)\<lparr>ev_fd := (if has_flag (ev_type (E e)) EV_TIMEOUT then sint (timer_base w) else ev_fd (E e))\<rparr>))
         | OpDel e \<Rightarrow> magic (E e) \<and> ev_base (E e) \<noteq> None \<and> (\<forall>t. e \<notin> queued (loops s t))
         | OpSet e fd ty fn arg \<Rightarrow> pend (E e) \<longrightarrow> fd = ev_fd (E e) \<and> ty = ev_type (E e)
         | OpBaseSet b e \<Rightarrow> magic (E e) \<and> B b \<noteq> None)"

inductive sys_step :: "kqconf \<Rightarrow> 'k kernel \<Rightarrow> 'k view \<Rightarrow> 'k sys \<Rightarrow> 'k sys \<Rightarrow> bool"
  for cf kr knotes where
  loop: "loop_step cf kr t (sw s) (loops s t) = Ret (w', l') \<Longrightarrow>
      sys_step cf kr knotes s (s\<lparr>sw := w', loops := (loops s)(t := l')\<rparr>)"
| client: "pc (loops s t) \<in> {InHandler, Ended} \<Longrightarrow> allowed opn s \<Longrightarrow>
      client_exec cf kr t opn (sw s) = Ret w' \<Longrightarrow> sys_step cf kr knotes s (s\<lparr>sw := w'\<rparr>)"
| enter: "pc (loops s t) = Ended \<Longrightarrow> sys_step cf kr knotes s (s\<lparr>loops := (loops s)(t := loop_enter b flags)\<rparr>)"
| environment: "knotes k' = knotes (kern (sw s)) \<Longrightarrow> sys_step cf kr knotes s (s\<lparr>sw := (sw s)\<lparr>kern := k'\<rparr>\<rparr>)"

definition sys_init :: "'k view \<Rightarrow> 'k sys \<Rightarrow> bool" where
  "sys_init knotes s \<longleftrightarrow>
     (\<forall>e. \<not> magic (evs (sw s) e)) \<and> (\<forall>t. pc (loops s t) = Ended) \<and> knotes (kern (sw s)) = Map.empty
   \<and> (\<forall>b1 b2 x y. bases (sw s) b1 = Some x \<longrightarrow> bases (sw s) b2 = Some y \<longrightarrow> eb_kqfd x = eb_kqfd y \<longrightarrow> b1 = b2)"

inductive reach :: "kqconf \<Rightarrow> 'k kernel \<Rightarrow> 'k view \<Rightarrow> 'k sys \<Rightarrow> bool"
  for cf kr knotes where
  init: "sys_init knotes s \<Longrightarrow> reach cf kr knotes s"
| step: "reach cf kr knotes s \<Longrightarrow> sys_step cf kr knotes s s' \<Longrightarrow> reach cf kr knotes s'"

section \<open>The invariant\<close>

text \<open>Of one thread, over the events \<open>E\<close> and the bases \<open>B\<close>.\<close>

definition batch_ok :: "(nat \<Rightarrow> event) \<Rightarrow> loop_state \<Rightarrow> bool" where
  "batch_ok E l \<longleftrightarrow> distinct (map udata (evlist l)) \<and> length (active l) \<le> length (evlist l)
     \<and> map fst (active l) = map udata (take (length (active l)) (evlist l))
     \<and> (\<forall>a\<in>set (active l). snd a \<le> epoch (E (fst a)) \<and> magic (E (fst a)))
     \<and> (pc l = Marking \<longrightarrow> length (active l) = idx l)
     \<and> (pc l \<in> {Marking, Dispatch, InHandler} \<longrightarrow> enlist l = [])"

definition matches :: "(nat \<Rightarrow> event_base option) \<Rightarrow> event \<Rightarrow> nat \<Rightarrow> kevent \<Rightarrow> bool" where
  "matches B ev b kev \<longleftrightarrow> ev_base ev = Some b \<and> (\<exists>base. B b = Some base \<and> ev_key B ev = Some (kev_key (eb_kqfd base) kev))"

definition queued_ok :: "(nat \<Rightarrow> event) \<Rightarrow> (nat \<Rightarrow> event_base option) \<Rightarrow> loop_state \<Rightarrow> bool" where
  "queued_ok E B l \<longleftrightarrow> (pc l = Marking \<longrightarrow> (\<forall>j. idx l \<le> j \<longrightarrow> j < length (evlist l) \<longrightarrow>
     (let kev = evlist l ! j; ev = E (udata kev) in pend ev \<and> \<not> act ev \<and> matches B ev (lbase l) kev)))"

definition live_ok :: "(nat \<Rightarrow> event) \<Rightarrow> (nat \<Rightarrow> event_base option) \<Rightarrow> nat \<Rightarrow> loop_state \<Rightarrow> bool" where
  "live_ok E B t l \<longleftrightarrow> (handling (pc l) \<longrightarrow>
     (\<forall>j<length (active l). (pc l = Complete \<longrightarrow> idx l \<le> j) \<longrightarrow>
        (let ev = E (fst (active l ! j)) in snd (active l ! j) = epoch ev \<longrightarrow>
           pend ev \<and> act ev \<and> owner ev = Some t \<and> matches B ev (lbase l) (evlist l ! j))))"

definition relist_ok :: "(nat \<Rightarrow> event) \<Rightarrow> (nat \<Rightarrow> event_base option) \<Rightarrow> nat \<Rightarrow> loop_state \<Rightarrow> bool" where
  "relist_ok E B t l \<longleftrightarrow> (pc l \<in> {Complete, Reenable} \<longrightarrow>
     (\<forall>kev\<in>set (enlist l). let ev = E (udata kev) in
        kflags kev = EV_ENABLE \<and> pend ev \<and> \<not> act ev \<and> lk ev = Some t \<and> matches B ev (lbase l) kev
        \<and> (pc l = Complete \<longrightarrow> (\<exists>j<idx l. j < length (active l) \<and> udata kev = fst (active l ! j)))))"

definition locks_ok :: "(nat \<Rightarrow> event) \<Rightarrow> nat \<Rightarrow> loop_state \<Rightarrow> bool" where
  "locks_ok E t l \<longleftrightarrow> (pc l \<in> {Complete, Reenable, Unlock} \<longrightarrow>
     (\<forall>j<length (active l). (pc l = Complete \<longrightarrow> j < idx l) \<longrightarrow> lk (E (fst (active l ! j))) = Some t))"

definition tinv :: "(nat \<Rightarrow> event) \<Rightarrow> (nat \<Rightarrow> event_base option) \<Rightarrow> nat \<Rightarrow> loop_state \<Rightarrow> bool" where
  "tinv E B t l \<longleftrightarrow> (pc l \<notin> {Start, Ended} \<longrightarrow> batch_ok E l) \<and> queued_ok E B l \<and> live_ok E B t l
     \<and> relist_ok E B t l \<and> locks_ok E t l"

definition knotes_ok :: "(nat \<Rightarrow> event) \<Rightarrow> (nat \<Rightarrow> event_base option) \<Rightarrow> (knote \<Rightarrow> (nat \<times> bool) option) \<Rightarrow> bool" where
  "knotes_ok E B N \<longleftrightarrow>
     (\<forall>e. pend (E e) \<longrightarrow> (\<exists>key en. ev_key B (E e) = Some key \<and> N key = Some (e, en)))
   \<and> (\<forall>key e en. N key = Some (e, en) \<longrightarrow> pend (E e) \<and> ev_key B (E e) = Some key)
   \<and> (\<forall>e. act (E e) \<longrightarrow> pend (E e))
   \<and> (\<forall>key e. N key = Some (e, True) \<longrightarrow> \<not> act (E e))
   \<and> (\<forall>b1 b2 x y. B b1 = Some x \<longrightarrow> B b2 = Some y \<longrightarrow> eb_kqfd x = eb_kqfd y \<longrightarrow> b1 = b2)"

definition ginv :: "(nat \<Rightarrow> event) \<Rightarrow> (nat \<Rightarrow> event_base option) \<Rightarrow> (knote \<Rightarrow> (nat \<times> bool) option) \<Rightarrow> (nat \<Rightarrow> loop_state) \<Rightarrow> bool" where
  "ginv E B N L \<longleftrightarrow> knotes_ok E B N \<and> (\<forall>t. tinv E B t (L t))
   \<and> (\<forall>key e t. N key = Some (e, True) \<longrightarrow> e \<notin> held E (L t))
   \<and> (\<forall>t t'. t \<noteq> t' \<longrightarrow> held E (L t) \<inter> held E (L t') = {})"

definition sinv :: "'k view \<Rightarrow> 'k sys \<Rightarrow> bool" where
  "sinv knotes s \<longleftrightarrow> ginv (evs (sw s)) (bases (sw s)) (knotes (kern (sw s))) (loops s)"

section \<open>Preservation\<close>

text \<open>
  What an update of the event \<open>e\<close> must respect for a thread \<open>t\<close> that does not move, by the role
  \<open>e\<close> plays in its batch.
\<close>

definition same_knote :: "(nat \<Rightarrow> event_base option) \<Rightarrow> event \<Rightarrow> event \<Rightarrow> bool" where
  "same_knote B ev ev' \<longleftrightarrow> ev_base ev' = ev_base ev \<and> ev_key B ev' = ev_key B ev"

definition upd_ok :: "(nat \<Rightarrow> event) \<Rightarrow> (nat \<Rightarrow> event_base option) \<Rightarrow> nat \<Rightarrow> loop_state \<Rightarrow> nat \<Rightarrow> event \<Rightarrow> bool" where
  "upd_ok E B t l e ev' \<longleftrightarrow>
     (magic (E e) \<longrightarrow> magic ev' \<and> epoch (E e) \<le> epoch ev' \<and> (lk (E e) = Some t \<longrightarrow> lk ev' = Some t))
   \<and> (e \<in> queued l \<longrightarrow> pend ev' \<and> \<not> act ev' \<and> same_knote B (E e) ev')
   \<and> (e \<in> live E l \<longrightarrow> epoch (E e) < epoch ev' \<or> pend ev' \<and> act ev' \<and> owner ev' = owner (E e) \<and> same_knote B (E e) ev')
   \<and> (e \<in> relist l \<longrightarrow> pend ev' \<and> \<not> act ev' \<and> same_knote B (E e) ev')"

lemma matches_same_knote: "matches B ev b kev \<Longrightarrow> same_knote B ev ev' \<Longrightarrow> matches B ev' b kev"
  by (simp add: matches_def same_knote_def)

lemma liveI:
  "handling (pc l) \<Longrightarrow> j < length (active l) \<Longrightarrow> (pc l = Complete \<Longrightarrow> idx l \<le> j) \<Longrightarrow>
   snd (active l ! j) = epoch (E (fst (active l ! j))) \<Longrightarrow> fst (active l ! j) \<in> live E l"
  by (auto simp: live_def)

lemma tinv_batch: "tinv E B t l \<Longrightarrow> pc l \<notin> {Start, Ended} \<Longrightarrow> batch_ok E l"
  unfolding tinv_def by blast

lemma handling_batch: "tinv E B t l \<Longrightarrow> handling (pc l) \<Longrightarrow> batch_ok E l"
  by (rule tinv_batch) (auto simp: handling_def)

lemma live_okD:
  "live_ok E B t l \<Longrightarrow> handling (pc l) \<Longrightarrow> j < length (active l) \<Longrightarrow> (pc l = Complete \<longrightarrow> idx l \<le> j) \<Longrightarrow>
   snd (active l ! j) = epoch (E (fst (active l ! j))) \<Longrightarrow>
   pend (E (fst (active l ! j))) \<and> act (E (fst (active l ! j))) \<and> owner (E (fst (active l ! j))) = Some t
     \<and> matches B (E (fst (active l ! j))) (lbase l) (evlist l ! j)"
  unfolding live_ok_def Let_def by blast

lemma batch_epoch:
  "batch_ok E l \<Longrightarrow> j < length (active l) \<Longrightarrow>
   snd (active l ! j) \<le> epoch (E (fst (active l ! j))) \<and> magic (E (fst (active l ! j)))"
  unfolding batch_ok_def by (meson nth_mem)

lemma batch_nth:
  assumes "batch_ok E l" "j < length (active l)"
  shows "fst (active l ! j) = udata (evlist l ! j) \<and> j < length (evlist l)"
proof -
  have "map fst (active l) ! j = map udata (take (length (active l)) (evlist l)) ! j"
    using assms(1) by (simp add: batch_ok_def)
  moreover have "j < length (evlist l)" using assms by (simp add: batch_ok_def)
  ultimately show ?thesis using assms(2) by simp
qed

lemma batch_distinct:
  assumes "batch_ok E l" "i < length (evlist l)" "j < length (evlist l)" "udata (evlist l ! i) = udata (evlist l ! j)"
  shows "i = j"
  using assms nth_eq_iff_index_eq [of "map udata (evlist l)" i j] by (simp add: batch_ok_def)

lemma batch_ok_upd:
  assumes "batch_ok E l" "upd_ok E B t l e ev'"
  shows "batch_ok (E(e := ev')) l"
proof -
  have "magic ((E(e := ev')) x) \<and> epoch (E x) \<le> epoch ((E(e := ev')) x)" if "magic (E x)" for x
    using assms(2) that by (cases "x = e") (simp_all add: upd_ok_def)
  with assms(1) show ?thesis unfolding batch_ok_def by (meson order_trans)
qed

lemma queued_ok_upd:
  assumes "queued_ok E B l" "upd_ok E B t l e ev'"
  shows "queued_ok (E(e := ev')) B l"
proof -
  have "udata (evlist l ! j) \<in> queued l" if "pc l = Marking" "idx l \<le> j" "j < length (evlist l)" for j
    using that by (auto simp: queued_def)
  with assms show ?thesis
    by (fastforce simp: queued_ok_def upd_ok_def Let_def intro: matches_same_knote)
qed

text \<open>An entry that is current after the update was current before, since epochs only grow.\<close>

lemma live_before:
  assumes "batch_ok E l" "upd_ok E B t l e ev'" "j < length (active l)" "fst (active l ! j) = e"
    and "snd (active l ! j) = epoch ev'"
  shows "snd (active l ! j) = epoch (E e) \<and> epoch ev' = epoch (E e)"
  using batch_epoch [OF assms(1,3)] assms(2,4,5) by (auto simp: upd_ok_def)

lemma live_ok_upd:
  assumes b: "pc l \<notin> {Start, Ended} \<Longrightarrow> batch_ok E l" and o: "live_ok E B t l" and u: "upd_ok E B t l e ev'"
  shows "live_ok (E(e := ev')) B t l"
  unfolding live_ok_def Let_def
proof (intro impI allI)
  fix j
  assume p: "handling (pc l)" and j: "j < length (active l)"
    and c: "pc l = Complete \<longrightarrow> idx l \<le> j"
    and ep: "snd (active l ! j) = epoch ((E(e := ev')) (fst (active l ! j)))"
  let ?e = "fst (active l ! j)"
  have bo: "batch_ok E l" using b p by (auto simp: handling_def)
  have ep0: "snd (active l ! j) = epoch (E ?e)"
    using ep live_before [OF bo u j] by (cases "?e = e") auto
  have old: "pend (E ?e)" "act (E ?e)" "owner (E ?e) = Some t" "matches B (E ?e) (lbase l) (evlist l ! j)"
    using live_okD [OF o p j c ep0] by blast+
  show "pend ((E(e := ev')) ?e) \<and> act ((E(e := ev')) ?e) \<and> owner ((E(e := ev')) ?e) = Some t
    \<and> matches B ((E(e := ev')) ?e) (lbase l) (evlist l ! j)"
  proof (cases "?e = e")
    case True
    have "?e \<in> live E l" using p j c ep0 by (intro liveI) auto
    with u True ep ep0 have "pend ev' \<and> act ev' \<and> owner ev' = owner (E e) \<and> same_knote B (E e) ev'"
      by (auto simp: upd_ok_def)
    with old True show ?thesis by (auto intro: matches_same_knote)
  next
    case False
    with old show ?thesis by simp
  qed
qed

lemma relist_ok_upd:
  assumes "relist_ok E B t l" "upd_ok E B t l e ev'"
  shows "relist_ok (E(e := ev')) B t l"
proof -
  have "udata kev \<in> relist l" if "pc l \<in> {Complete, Reenable}" "kev \<in> set (enlist l)" for kev
    using that by (auto simp: relist_def)
  with assms show ?thesis
    by (fastforce simp: relist_ok_def upd_ok_def pend_def Let_def intro: matches_same_knote)
qed

lemma locks_ok_upd:
  assumes "pc l \<notin> {Start, Ended} \<Longrightarrow> batch_ok E l" and "locks_ok E t l" "upd_ok E B t l e ev'"
  shows "locks_ok (E(e := ev')) t l"
proof -
  have "magic (E (fst (active l ! j)))" if "pc l \<in> {Complete, Reenable, Unlock}" "j < length (active l)" for j
    using batch_epoch [OF assms(1) that(2)] that(1) by auto
  with assms(2,3) show ?thesis unfolding locks_ok_def upd_ok_def by (simp add: fun_upd_def) blast
qed

lemma tinv_upd:
  assumes "tinv E B t l" "upd_ok E B t l e ev'"
  shows "tinv (E(e := ev')) B t l"
  using assms(1) live_ok_upd [OF _ _ assms(2)] batch_ok_upd [OF _ assms(2)] queued_ok_upd [OF _ assms(2)]
    relist_ok_upd [OF _ assms(2)] locks_ok_upd [OF _ _ assms(2)]
  unfolding tinv_def by simp

lemma live_upd:
  assumes "tinv E B t l" "upd_ok E B t l e ev'"
  shows "live (E(e := ev')) l = (if epoch ev' = epoch (E e) then live E l else live E l - {e})"
proof -
  have "snd (active l ! j) \<noteq> epoch ev' \<or> epoch ev' = epoch (E e)"
    if "handling (pc l)" "j < length (active l)" "fst (active l ! j) = e" for j
    using live_before [OF handling_batch [OF assms(1) that(1)] assms(2) that(2,3)] by auto
  then show ?thesis by (auto simp: live_def)
qed

lemma held_upd:
  assumes "tinv E B t l" "upd_ok E B t l e ev'"
  shows "held (E(e := ev')) l \<subseteq> held E l"
  using live_upd [OF assms] by (auto simp: held_def split: if_splits)

text \<open>A step that changes one event and the kernel, and moves no thread.\<close>

lemma ginv_upd:
  assumes g: "ginv E B N L" and u: "\<And>t. upd_ok E B t (L t) e ev'"
    and n: "knotes_ok (E(e := ev')) B N'"
    and a: "\<And>key e'. N' key = Some (e', True) \<Longrightarrow> N key = Some (e', True) \<or> e' = e \<and> (\<forall>t. e \<notin> held E (L t))"
  shows "ginv (E(e := ev')) B N' L"
proof -
  have t: "tinv E B t (L t)" for t using g by (simp add: ginv_def)
  have "tinv (E(e := ev')) B t (L t)" for t using tinv_upd [OF t u] .
  moreover have h: "held (E(e := ev')) (L t) \<subseteq> held E (L t)" for t using held_upd [OF t u] .
  have "e' \<notin> held (E(e := ev')) (L t)" if "N' key = Some (e', True)" for key e' t
    using a [OF that] h [of t] g unfolding ginv_def by blast
  moreover have "held (E(e := ev')) (L t) \<inter> held (E(e := ev')) (L t') = {}" if "t \<noteq> t'" for t t'
    using h [of t] h [of t'] g that unfolding ginv_def by blast
  ultimately show ?thesis using n by (simp add: ginv_def)
qed

subsection \<open>Operations of clients\<close>

lemma deactivate_changed_Ret:
  "deactivate_changed ev = Ret ev' \<Longrightarrow>
     magic ev' = magic ev \<and> pend ev' = pend ev \<and> \<not> act ev' \<and> lk ev' = lk ev \<and> ev_base ev' = ev_base ev
   \<and> ev_fd ev' = ev_fd ev \<and> ev_type ev' = ev_type ev \<and> epoch ev' = epoch ev + (if has_flag (ev_state ev) EVS_ACTIVE then 1 else 0)"
  by (auto simp: deactivate_changed_def magic_def pend_def act_def split: if_splits)

lemma ev_key_cong:
  "ev_base ev' = ev_base ev \<Longrightarrow> ev_fd ev' = ev_fd ev \<Longrightarrow> ev_type ev' = ev_type ev \<Longrightarrow> ev_key B ev' = ev_key B ev"
  by (auto simp: ev_key_def split: option.splits)

lemma kqueue_add:
  "kqueue_spec kr knotes \<Longrightarrow> kflags kev = EV_ADD OR EV_DISPATCH \<Longrightarrow> k_change kr k kq [kev] = (r, k') \<Longrightarrow>
   knotes k' = (if r = 0 then (knotes k)(kev_key kq kev \<mapsto> (udata kev, True)) else knotes k)"
  unfolding kqueue_spec_def spec_add_def by presburger

lemma kqueue_del:
  "kqueue_spec kr knotes \<Longrightarrow> kflags kev = EV_DELETE \<Longrightarrow> knotes k (kev_key kq kev) \<noteq> None \<Longrightarrow> k_change kr k kq [kev] = (r, k') \<Longrightarrow>
   r = 0 \<and> knotes k' = (knotes k)(kev_key kq kev := None)"
  unfolding kqueue_spec_def spec_del_def by presburger

lemma kqueue_enable:
  "kqueue_spec kr knotes \<Longrightarrow> \<forall>kev\<in>set kevs. kflags kev = EV_ENABLE \<and> (\<exists>b. knotes k (kev_key kq kev) = Some (udata kev, b)) \<Longrightarrow>
   k_change kr k kq kevs = (r, k') \<Longrightarrow>
   r = 0 \<and> knotes k' = set_enabled True (kev_key kq ` set kevs) (knotes k)"
  unfolding kqueue_spec_def spec_enable_def by presburger

lemma kqueue_wait:
  "kqueue_spec kr knotes \<Longrightarrow> k_wait kr k kq = ((r, err, kevs), k') \<Longrightarrow>
     r \<le> int NEVENT \<and> (r < 0 \<longrightarrow> knotes k' = knotes k)
   \<and> (r \<ge> 0 \<longrightarrow> length kevs = nat r \<and> distinct (map (kev_key kq) kevs)
        \<and> (\<forall>kev\<in>set kevs. knotes k (kev_key kq kev) = Some (udata kev, True))
        \<and> knotes k' = set_enabled False (kev_key kq ` set kevs) (knotes k))"
  unfolding kqueue_spec_def spec_wait_def by presburger

lemma init_kevent_Inr:
  "init_kevent cf e ev flags to = Ret (Inr kev) \<Longrightarrow> EV_REALTIME cf = 0 \<Longrightarrow>
   ident kev = ev_fd ev \<and> type_filter (ev_type ev) = Some (kfilter kev) \<and> kflags kev = flags \<and> udata kev = e"
  by (auto simp: init_kevent_def Let_def split: option.splits if_splits)

lemma ev_key_kev:
  "ev_base ev = Some b \<Longrightarrow> B b = Some base \<Longrightarrow> ident kev = ev_fd ev \<Longrightarrow> type_filter (ev_type ev) = Some (kfilter kev) \<Longrightarrow>
   ev_key B ev = Some (kev_key (eb_kqfd base) kev)"
  by (simp add: ev_key_def kev_key_def)

definition patched :: "'k world \<Rightarrow> nat \<Rightarrow> event" where
  "patched w e = (evs w e)\<lparr>ev_fd := (if has_flag (ev_type (evs w e)) EV_TIMEOUT then sint (timer_base w) else ev_fd (evs w e))\<rparr>"

definition patch_world :: "'k world \<Rightarrow> nat \<Rightarrow> 'k world" where
  "patch_world w e = w\<lparr>evs := (evs w)(e := patched w e),
     timer_base := (if has_flag (ev_type (evs w e)) EV_TIMEOUT then timer_base w - 1 else timer_base w)\<rparr>"

lemma patch_world_eq:
  "(if has_flag (ev_type (evs w e)) EV_TIMEOUT
    then case next_timer_fd w of (fd, w) \<Rightarrow> set_ev e ((evs w e)\<lparr>ev_fd := fd\<rparr>) w else w) = patch_world w e"
  by (simp add: next_timer_fd_def set_ev_def patched_def patch_world_def)

lemma patch_world_simps [simp]:
  "evs (patch_world w e) = (evs w)(e := patched w e)" "bases (patch_world w e) = bases w" "kern (patch_world w e) = kern w"
  by (simp_all add: patch_world_def)

text \<open>
  The effect of \<open>event_add\<close>: an event that is not pending stays so (with its descriptor
  patched), or becomes pending and inactive with an enabled knote of its own.
\<close>

lemma event_add_kevent:
  assumes r: "event_add cf kr t e to w = Ret (r, w')" and cf: "\<not> MULT_KQ cf"
    and np: "\<not> has_flag (ev_state (evs w e)) EVS_PENDING" and b: "ev_base (evs w e) = Some b"
    and kev: "init_kevent cf e (patched w e) (EV_ADD OR EV_DISPATCH) to = Ret (Inr kev)"
  shows "\<exists>base r' k'. lk (evs w e) = None \<and> bases w b = Some base \<and> k_change kr (kern w) (eb_kqfd base) [kev] = (r', k')
    \<and> kern w' = k' \<and> bases w' = bases w
    \<and> (if r' \<noteq> 0 then evs w' = (evs w)(e := (patched w e)\<lparr>lk := None\<rparr>)
       else \<exists>ev. deactivate_changed ((patched w e)\<lparr>lk := Some t, ev_state := set_flag (ev_state (patched w e)) EVS_PENDING\<rparr>) = Ret ev
              \<and> evs w' = (evs w)(e := ev\<lparr>lk := None\<rparr>))"
proof -
  have l: "lk (patched w e) = lk (evs w e)" by (simp add: patched_def)
  note run = r [unfolded event_add_def patch_world_eq b option.case, simplified np cf kev if_False outcome.case sum.case Let_def patch_world_simps fun_upd_same ev_lock_def l]
  have lk: "lk (evs w e) = None" using run by (auto split: if_splits)
  obtain base where base: "bases w b = Some base"
    using run lk by (auto simp: set_ev_def split: option.splits)
  obtain r' k' where c: "k_change kr (kern w) (eb_kqfd base) [kev] = (r', k')" by fastforce
  show ?thesis
    using run lk base c
    by (cases "deactivate_changed ((patched w e)\<lparr>lk := Some t, ev_state := set_flag (ev_state (patched w e)) EVS_PENDING\<rparr>)")
      (auto simp: set_ev_def ev_unlock_def split: if_splits)
qed

lemma event_add_effect:
  assumes r: "event_add cf kr t e to w = Ret (r, w')" and k: "kqueue_spec kr knotes"
    and cf: "\<not> MULT_KQ cf" "EV_REALTIME cf = 0" and m: "magic (evs w e)"
  shows "bases w' = bases w \<and>
    (evs w' = evs w \<and> kern w' = kern w \<or>
     (\<exists>ev'. evs w' = (evs w)(e := ev') \<and> \<not> pend (evs w e) \<and> magic ev' \<and> lk ev' = lk (evs w e) \<and> epoch (evs w e) \<le> epoch ev' \<and>
        (knotes (kern w') = knotes (kern w) \<and> \<not> pend ev' \<and> (act ev' \<longrightarrow> act (evs w e)) \<or>
         (\<exists>key. pend ev' \<and> \<not> act ev' \<and> ev_key (bases w) ev' = Some key \<and> ev_key (bases w) (patched w e) = Some key
            \<and> knotes (kern w') = (knotes (kern w))(key \<mapsto> (e, True))))))"
proof -
  obtain b where b: "ev_base (evs w e) = Some b" using r by (auto simp: event_add_def split: option.splits)
  show ?thesis
  proof (cases "has_flag (ev_state (evs w e)) EVS_PENDING")
    case True
    with r b show ?thesis by (auto simp: event_add_def set_errno_def)
  next
    case False
    have pe: "magic (patched w e)" "\<not> pend (patched w e)" "act (patched w e) = act (evs w e)" "lk (patched w e) = lk (evs w e)"
      "epoch (patched w e) = epoch (evs w e)" "ev_base (patched w e) = Some b" "\<not> pend (evs w e)"
      using m False b by (simp_all add: patched_def magic_def pend_def act_def)
    show ?thesis
    proof (cases "\<exists>kev. init_kevent cf e (patched w e) (EV_ADD OR EV_DISPATCH) to = Ret (Inr kev)")
      case nokev: False
      then have "\<exists>err. w' = set_errno t err (patch_world w e)"
        using r b False cf(1) unfolding event_add_def patch_world_eq Let_def
        by (auto split: outcome.splits sum.splits)
      with pe show ?thesis by (auto simp: set_errno_def)
    next
      case True
      then obtain kev where kev: "init_kevent cf e (patched w e) (EV_ADD OR EV_DISPATCH) to = Ret (Inr kev)" by blast
      obtain base r' k' where h: "lk (evs w e) = None" "bases w b = Some base"
        "k_change kr (kern w) (eb_kqfd base) [kev] = (r', k')" "kern w' = k'" "bases w' = bases w"
        "if r' \<noteq> 0 then evs w' = (evs w)(e := (patched w e)\<lparr>lk := None\<rparr>)
         else \<exists>ev. deactivate_changed ((patched w e)\<lparr>lk := Some t, ev_state := set_flag (ev_state (patched w e)) EVS_PENDING\<rparr>) = Ret ev
              \<and> evs w' = (evs w)(e := ev\<lparr>lk := None\<rparr>)"
        using event_add_kevent [OF r cf(1) False b kev] by blast
      note kk = init_kevent_Inr [OF kev cf(2)]
      have key: "ev_key (bases w) (patched w e) = Some (kev_key (eb_kqfd base) kev)"
        using kk by (intro ev_key_kev [of _ b]) (simp_all add: pe(6) h(2))
      have kn: "knotes k' = (if r' = 0 then (knotes (kern w))(kev_key (eb_kqfd base) kev \<mapsto> (e, True)) else knotes (kern w))"
        using kqueue_add [OF k _ h(3)] kk by simp
      show ?thesis
      proof (cases "r' = 0")
        case True
        with h(6) obtain ev where ev:
          "deactivate_changed ((patched w e)\<lparr>lk := Some t, ev_state := set_flag (ev_state (patched w e)) EVS_PENDING\<rparr>) = Ret ev"
          "evs w' = (evs w)(e := ev\<lparr>lk := None\<rparr>)" by auto
        note d = deactivate_changed_Ret [OF ev(1)]
        have "ev_key (bases w) (ev\<lparr>lk := None\<rparr>) = ev_key (bases w) (patched w e)"
          by (rule ev_key_cong) (use d in simp_all)
        then show ?thesis using d ev(2) h(1,4,5) kn key pe True
          by - (rule conjI, simp, rule disjI2, rule exI [of _ "ev\<lparr>lk := None\<rparr>"], auto simp: magic_def pend_def act_def)
      next
        case False
        with h(6) have "evs w' = (evs w)(e := (patched w e)\<lparr>lk := None\<rparr>)" by simp
        then show ?thesis using h(1,4,5) kn pe False
          by - (rule conjI, simp, rule disjI2, rule exI [of _ "(patched w e)\<lparr>lk := None\<rparr>"], auto simp: magic_def pend_def act_def)
      qed
    qed
  qed
qed

lemma event_del_effect:
  assumes r: "event_del cf kr t e w = Ret (r, w')" and k: "kqueue_spec kr knotes" and cf: "EV_REALTIME cf = 0"
    and m: "magic (evs w e)" and n: "knotes_ok (evs w) (bases w) (knotes (kern w))"
  shows "bases w' = bases w \<and>
    (evs w' = evs w \<and> kern w' = kern w \<or>
     (\<exists>ev' key. evs w' = (evs w)(e := ev') \<and> pend (evs w e) \<and> (act (evs w e) \<longrightarrow> owner (evs w e) = Some t) \<and> lk (evs w e) = None
        \<and> magic ev' \<and> lk ev' = None \<and> \<not> pend ev' \<and> \<not> act ev' \<and> epoch (evs w e) \<le> epoch ev' \<and> (act (evs w e) \<longrightarrow> epoch (evs w e) < epoch ev')
        \<and> ev_key (bases w) (evs w e) = Some key \<and> knotes (kern w') = (knotes (kern w))(key := None)))"
proof -
  define w1 where "w1 = set_ev e ((evs w e)\<lparr>lk := Some t\<rparr>) w"
  have lk: "lk (evs w e) = None" using r by (auto simp: event_del_def ev_lock_def split: if_splits)
  obtain w2 where r2: "event_del_flags cf kr t e EVENT_DEL_BLOCK w1 = Ret (r, w2)" and w': "w' = ev_unlock e w2"
    using r lk by (auto simp: event_del_def ev_lock_def w1_def split: outcome.splits)
  have w1: "evs w1 = (evs w)(e := (evs w e)\<lparr>lk := Some t\<rparr>)" "bases w1 = bases w" "kern w1 = kern w" by (simp_all add: w1_def set_ev_def)
  have lke: "(evs w e)\<lparr>lk := None\<rparr> = evs w e" using lk by (cases "evs w e") simp
  obtain b where b: "ev_base (evs w e) = Some b"
    using r2 by (auto simp: event_del_flags_def w1 Let_def split: option.splits)
  show ?thesis
  proof (cases "pend (evs w e)")
    case False
    with m have "\<not> has_flag (ev_state (evs w e)) EVS_PENDING" by (simp add: pend_def)
    with r2 b have "w2 = set_errno t EINVAL w1"
      by (auto simp: event_del_flags_def w1 Let_def split: outcome.splits)
    then show ?thesis using lke by (simp add: w' ev_unlock_def set_ev_def set_errno_def w1 fun_upd_idem)
  next
    case True
    from n True obtain key en where key: "ev_key (bases w) (evs w e) = Some key" and kn: "knotes (kern w) key = Some (e, en)"
      unfolding knotes_ok_def by blast
    obtain base f where base: "bases w b = Some base" and f: "type_filter (ev_type (evs w e)) = Some f" "key = (eb_kqfd base, ev_fd (evs w e), f)"
      using key b by (auto simp: ev_key_def split: option.splits)
    define kev where "kev = \<lparr>ident = ev_fd (evs w e), kfilter = f, kflags = EV_DELETE,
      fflags = (if f = EVFILT_TIMER then NOTE_USECONDS else 0), kdata = 0, udata = e\<rparr>"
    have ik: "init_kevent cf e ((evs w e)\<lparr>lk := Some t\<rparr>) EV_DELETE None = Ret (Inr kev)"
      by (simp add: init_kevent_def f kev_def cf Let_def)
    obtain r' k' where c: "k_change kr (kern w) (eb_kqfd base) [kev] = (r', k')" by fastforce
    have "kev_key (eb_kqfd base) kev = key" by (simp add: kev_key_def kev_def f)
    with kqueue_del [OF k _ _ c] kn have kd: "r' = 0" "knotes k' = (knotes (kern w))(key := None)"
      by (simp_all add: kev_def)
    have own: "act (evs w e) \<longrightarrow> owner (evs w e) = Some t"
      using r2 b True ik by (auto simp: event_del_flags_def w1 Let_def pend_def act_def split: if_splits)
    let ?ev = "(evs w e)\<lparr>lk := Some t, ev_state := clear_flag (ev_state (evs w e)) EVS_PENDING\<rparr>"
    obtain ev where d: "deactivate_changed ?ev = Ret ev" and w2: "w2 = set_ev e ev (w1\<lparr>kern := k'\<rparr>)"
      using r2 b True ik own base c kd(1) m
      by (cases "deactivate_changed ?ev") (auto simp: event_del_flags_def w1 Let_def pend_def act_def split: if_splits)
    note dd = deactivate_changed_Ret [OF d]
    show ?thesis
      using dd own True lk key kd m
      by - (rule conjI, simp add: w' w2 ev_unlock_def set_ev_def w1, rule disjI2,
        rule exI [of _ "ev\<lparr>lk := None\<rparr>"], rule exI [of _ key],
        auto simp: w' w2 ev_unlock_def set_ev_def w1 magic_def pend_def act_def)
  qed
qed

subsection \<open>The invariant over client operations\<close>

lemma not_pend_not_held:
  assumes "tinv E B t l" "\<not> pend (E e)"
  shows "e \<notin> held E l"
proof -
  have "pend (E x)" if "x \<in> queued l" for x
    using assms(1) that by (auto simp: queued_def tinv_def queued_ok_def Let_def split: if_splits)
  moreover have "pend (E x)" if x: "x \<in> live E l" for x
  proof -
    from x have h: "handling (pc l)" by (auto simp: live_def split: if_splits)
    with x obtain j where "x = fst (active l ! j)" "j < length (active l)" "pc l = Complete \<longrightarrow> idx l \<le> j"
      "snd (active l ! j) = epoch (E (fst (active l ! j)))"
      by (auto simp: live_def)
    with live_okD [of E B t l j] assms(1) h show ?thesis by (simp add: tinv_def)
  qed
  moreover have "pend (E x)" if "x \<in> relist l" for x
    using assms(1) that by (auto simp: relist_def tinv_def relist_ok_def Let_def split: if_splits)
  ultimately show ?thesis using assms(2) by (auto simp: held_def)
qed

lemma upd_ok_unheld:
  "e \<notin> held E l \<Longrightarrow> (magic (E e) \<Longrightarrow> magic ev' \<and> epoch (E e) \<le> epoch ev' \<and> lk ev' = lk (E e)) \<Longrightarrow>
   upd_ok E B t l e ev'"
  by (auto simp: upd_ok_def held_def)

lemma knotes_okI:
  assumes "\<And>e. pend (E e) \<Longrightarrow> \<exists>key en. ev_key B (E e) = Some key \<and> N key = Some (e, en)"
    and "\<And>key e en. N key = Some (e, en) \<Longrightarrow> pend (E e) \<and> ev_key B (E e) = Some key"
    and "\<And>e. act (E e) \<Longrightarrow> pend (E e)" and "\<And>key e. N key = Some (e, True) \<Longrightarrow> \<not> act (E e)"
    and "\<And>b1 b2 x y. B b1 = Some x \<Longrightarrow> B b2 = Some y \<Longrightarrow> eb_kqfd x = eb_kqfd y \<Longrightarrow> b1 = b2"
  shows "knotes_ok E B N"
  using assms unfolding knotes_ok_def by blast

lemma knotes_okD:
  assumes "knotes_ok E B N"
  shows "pend (E e) \<Longrightarrow> \<exists>key en. ev_key B (E e) = Some key \<and> N key = Some (e, en)"
    "N key = Some (e, en) \<Longrightarrow> pend (E e)" "N key = Some (e, en) \<Longrightarrow> ev_key B (E e) = Some key"
    "act (E e) \<Longrightarrow> pend (E e)" "N key = Some (e, True) \<Longrightarrow> \<not> act (E e)"
    "B b1 = Some x \<Longrightarrow> B b2 = Some y \<Longrightarrow> eb_kqfd x = eb_kqfd y \<Longrightarrow> b1 = b2"
  using assms unfolding knotes_ok_def by blast+

lemma knotes_ok_quiet:
  "knotes_ok E B N \<Longrightarrow> \<not> pend (E e) \<Longrightarrow> \<not> pend ev' \<Longrightarrow> \<not> act ev' \<Longrightarrow> knotes_ok (E(e := ev')) B N"
  by (rule knotes_okI) (auto split: if_splits dest: knotes_okD)

lemma knotes_ok_add:
  assumes n: "knotes_ok E B N" and e: "\<not> pend (E e)" "pend ev'" "\<not> act ev'" "ev_key B ev' = Some key" "N key = None"
  shows "knotes_ok (E(e := ev')) B (N(key \<mapsto> (e, True)))"
proof (rule knotes_okI)
  fix x assume x: "pend ((E(e := ev')) x)"
  show "\<exists>key' en. ev_key B ((E(e := ev')) x) = Some key' \<and> (N(key \<mapsto> (e, True))) key' = Some (x, en)"
  proof (cases "x = e")
    case False
    with x knotes_okD(1) [OF n, of x] obtain key' en where "ev_key B (E x) = Some key'" "N key' = Some (x, en)" by auto
    with False e(5) show ?thesis by (intro exI [of _ key']) auto
  qed (use e in auto)
qed (use e in \<open>auto split: if_splits dest: knotes_okD [OF n]\<close>)

lemma knotes_ok_del:
  assumes n: "knotes_ok E B N" and e: "ev_key B (E e) = Some key" "pend (E e)" "\<not> pend ev'" "\<not> act ev'"
  shows "knotes_ok (E(e := ev')) B (N(key := None))"
proof (rule knotes_okI)
  fix x assume x: "pend ((E(e := ev')) x)"
  with e have xe: "x \<noteq> e" by auto
  with x knotes_okD(1) [OF n, of x] obtain key' en where k: "ev_key B (E x) = Some key'" "N key' = Some (x, en)" by auto
  obtain en' where "N key = Some (e, en')" using knotes_okD(1) [OF n e(2)] e(1) by auto
  with k xe have "key' \<noteq> key" by auto
  with k xe show "\<exists>key' en. ev_key B ((E(e := ev')) x) = Some key' \<and> (N(key := None)) key' = Some (x, en)" by auto
next
  fix key' x en assume "(N(key := None)) key' = Some (x, en)"
  then have k: "N key' = Some (x, en)" "key' \<noteq> key" by (auto split: if_splits)
  moreover have "x \<noteq> e" using knotes_okD(3) [OF n k(1)] e(1) k(2) by auto
  ultimately show "pend ((E(e := ev')) x) \<and> ev_key B ((E(e := ev')) x) = Some key'" using knotes_okD(2,3) [OF n k(1)] by simp
qed (use e in \<open>auto split: if_splits dest: knotes_okD [OF n]\<close>)

lemma knotes_ok_same:
  assumes n: "knotes_ok E B N" and e: "pend ev' = pend (E e)" "act ev' = act (E e)" "pend ev' \<Longrightarrow> ev_key B ev' = ev_key B (E e)"
  shows "knotes_ok (E(e := ev')) B N"
proof (rule knotes_okI)
  fix x assume "pend ((E(e := ev')) x)"
  then show "\<exists>key en. ev_key B ((E(e := ev')) x) = Some key \<and> N key = Some (x, en)"
    using e knotes_okD(1) [OF n, of x] by (cases "x = e") auto
next
  fix key x en assume "N key = Some (x, en)"
  then show "pend ((E(e := ev')) x) \<and> ev_key B ((E(e := ev')) x) = Some key"
    using e knotes_okD(2,3) [OF n, of key x] by (cases "x = e") auto
qed (use e in \<open>auto split: if_splits dest: knotes_okD(4,5,6) [OF n]\<close>)

lemma ginvD:
  assumes "ginv E B N L"
  shows "knotes_ok E B N" "tinv E B t (L t)" "N key = Some (e, True) \<Longrightarrow> e \<notin> held E (L t)"
    "t \<noteq> t' \<Longrightarrow> e \<in> held E (L t) \<Longrightarrow> e \<notin> held E (L t')"
  using assms unfolding ginv_def by blast+

lemma ginv_quiet:
  assumes g: "ginv E B N L" and e: "\<not> pend (E e)" "\<not> pend ev'" "\<not> act ev'"
    and m: "magic (E e) \<Longrightarrow> magic ev' \<and> epoch (E e) \<le> epoch ev' \<and> lk ev' = lk (E e)"
  shows "ginv (E(e := ev')) B N L"
  using not_pend_not_held [OF ginvD(2) [OF g] e(1)]
  by (intro ginv_upd [OF g] upd_ok_unheld m knotes_ok_quiet [OF ginvD(1) [OF g] e]) auto

lemma ginv_add:
  assumes g: "ginv E B N L" and e: "\<not> pend (E e)" "pend ev'" "\<not> act ev'" "ev_key B ev' = Some key" "N key = None"
    and m: "magic ev' \<and> epoch (E e) \<le> epoch ev' \<and> lk ev' = lk (E e)"
  shows "ginv (E(e := ev')) B (N(key \<mapsto> (e, True))) L"
  using not_pend_not_held [OF ginvD(2) [OF g] e(1)]
  by (intro ginv_upd [OF g] upd_ok_unheld m knotes_ok_add [OF ginvD(1) [OF g] e]) (auto split: if_splits)

text \<open>Deleting an event that no loop is about to mark: a handler that is current loses its epoch.\<close>

lemma live_act:
  assumes "tinv E B t l" "e \<in> live E l"
  shows "act (E e) \<and> owner (E e) = Some t"
proof -
  from assms(2) have h: "handling (pc l)" by (auto simp: live_def split: if_splits)
  with assms(2) obtain j where "e = fst (active l ! j)" "j < length (active l)" "pc l = Complete \<longrightarrow> idx l \<le> j"
    "snd (active l ! j) = epoch (E (fst (active l ! j)))"
    by (auto simp: live_def)
  with live_okD [of E B t l j] assms(1) h show ?thesis by (simp add: tinv_def)
qed

lemma relist_lk:
  assumes "tinv E B t l" "e \<in> relist l"
  shows "lk (E e) = Some t \<and> \<not> act (E e)"
  using assms by (auto simp: relist_def tinv_def relist_ok_def Let_def split: if_splits)

lemma ginv_del:
  assumes g: "ginv E B N L" and e: "ev_key B (E e) = Some key" "pend (E e)" "\<not> pend ev'" "\<not> act ev'"
    and l: "lk (E e) = None" and q: "\<And>t. e \<notin> queued (L t)"
    and m: "magic ev'" "epoch (E e) \<le> epoch ev'" "act (E e) \<Longrightarrow> epoch (E e) < epoch ev'"
  shows "ginv (E(e := ev')) B (N(key := None)) L"
proof (rule ginv_upd [OF g])
  show "upd_ok E B t (L t) e ev'" for t
    using relist_lk [OF ginvD(2) [OF g], of e t] live_act [OF ginvD(2) [OF g], of e t] m l q [of t]
    by (auto simp: upd_ok_def)
qed (use knotes_ok_del [OF ginvD(1) [OF g] e] in \<open>auto split: if_splits\<close>)

text \<open>Changes that keep every field the protocol reads.\<close>

lemma ginv_same:
  assumes g: "ginv E B N L" and e: "cv_init ev' = cv_init (E e)" "ev_state ev' = ev_state (E e)" "epoch ev' = epoch (E e)"
      "owner ev' = owner (E e)" "ev_base ev' = ev_base (E e)" "ev_fd ev' = ev_fd (E e)" "ev_type ev' = ev_type (E e)"
    and l: "lk ev' = lk (E e) \<or> lk (E e) = None"
  shows "ginv (E(e := ev')) B N L"
proof -
  have s: "pend ev' = pend (E e)" "act ev' = act (E e)" "magic ev' = magic (E e)" "ev_key B ev' = ev_key B (E e)" "same_knote B (E e) ev'"
    using e ev_key_cong [of ev' "E e" B] by (simp_all add: pend_def act_def magic_def same_knote_def)
  show ?thesis
  proof (rule ginv_upd [OF g])
    show "upd_ok E B t (L t) e ev'" for t
      using e s l not_pend_not_held [OF ginvD(2) [OF g], of e t] relist_lk [OF ginvD(2) [OF g], of e t] live_act [OF ginvD(2) [OF g], of e t]
        ginvD(2) [OF g, of t]
      by (auto simp: upd_ok_def held_def queued_def tinv_def queued_ok_def Let_def split: if_splits)
  qed (use s knotes_ok_same [OF ginvD(1) [OF g]] in auto)
qed

lemma client_add:
  assumes s: "sinv knotes s" and a: "allowed (OpAdd e to) s" and r: "event_add cf kr t e to (sw s) = Ret (r, w')"
    and k: "kqueue_spec kr knotes" and cf: "\<not> MULT_KQ cf" "EV_REALTIME cf = 0"
  shows "ginv (evs w') (bases w') (knotes (kern w')) (loops s)"
proof -
  let ?E = "evs (sw s)" and ?B = "bases (sw s)" and ?N = "knotes (kern (sw s))"
  have g: "ginv ?E ?B ?N (loops s)" using s by (simp add: sinv_def)
  have m: "magic (?E e)" using a by (simp add: allowed_def Let_def)
  note eff = event_add_effect [OF r k cf m]
  from eff consider "evs w' = ?E" "kern w' = kern (sw s)"
    | ev' where "evs w' = ?E(e := ev')" "\<not> pend (?E e)" "magic ev' \<and> epoch (?E e) \<le> epoch ev' \<and> lk ev' = lk (?E e)"
        "knotes (kern w') = ?N" "\<not> pend ev'" "act ev' \<longrightarrow> act (?E e)"
    | ev' key where "evs w' = ?E(e := ev')" "\<not> pend (?E e)" "magic ev' \<and> epoch (?E e) \<le> epoch ev' \<and> lk ev' = lk (?E e)"
        "pend ev'" "\<not> act ev'" "ev_key ?B ev' = Some key" "ev_key ?B (patched (sw s) e) = Some key"
        "knotes (kern w') = ?N(key \<mapsto> (e, True))"
    by blast
  then show ?thesis
  proof cases
    case 1
    with g eff show ?thesis by simp
  next
    case 2
    have "\<not> act ev'" using 2(2,6) knotes_okD(4) [OF ginvD(1) [OF g]] by blast
    with ginv_quiet [OF g 2(2,5)] 2 eff show ?thesis by simp
  next
    case 3
    have "?N key = None"
    proof (rule ccontr)
      assume "?N key \<noteq> None"
      then obtain e' en where n: "?N key = Some (e', en)" by auto
      then have "pend (?E e')" "ev_key ?B (?E e') = Some key" using knotes_okD(2,3) [OF ginvD(1) [OF g]] by blast+
      moreover from this 3(2) have "e' \<noteq> e" by auto
      ultimately show False using a 3(7) by (auto simp: allowed_def Let_def patched_def)
    qed
    with ginv_add [OF g 3(2,4,5,6) _ 3(3)] 3(1,8) eff show ?thesis by simp
  qed
qed

lemma client_del:
  assumes s: "sinv knotes s" and a: "allowed (OpDel e) s" and r: "event_del cf kr t e (sw s) = Ret (r, w')"
    and k: "kqueue_spec kr knotes" and cf: "EV_REALTIME cf = 0"
  shows "ginv (evs w') (bases w') (knotes (kern w')) (loops s)"
proof -
  let ?E = "evs (sw s)"
  have g: "ginv ?E (bases (sw s)) (knotes (kern (sw s))) (loops s)" using s by (simp add: sinv_def)
  have m: "magic (?E e)" and q: "\<And>t. e \<notin> queued (loops s t)" using a by (simp_all add: allowed_def Let_def)
  from event_del_effect [OF r k cf m ginvD(1) [OF g]] show ?thesis
    using g ginv_del [OF g _ _ _ _ _ q] by fastforce
qed

lemma client_set:
  assumes s: "sinv knotes s" and a: "allowed (OpSet e fd ty fn arg) s" and r: "event_set t e fd ty fn arg (sw s) = Ret w'"
  shows "ginv (evs w') (bases w') (knotes (kern w')) (loops s)"
proof -
  let ?E = "evs (sw s)" and ?ev = "evs w' e"
  have g: "ginv ?E (bases (sw s)) (knotes (kern (sw s))) (loops s)" using s by (simp add: sinv_def)
  have w': "bases w' = bases (sw s)" "kern w' = kern (sw s)" "evs w' = ?E(e := ?ev)"
    and ev: "magic ?ev" "ev_fd ?ev = fd" "ev_type ?ev = ty" "lk ?ev = None"
    "magic (?E e) \<Longrightarrow> ev_state ?ev = ev_state (?E e) \<and> epoch ?ev = epoch (?E e) \<and> owner ?ev = owner (?E e) \<and> ev_base ?ev = ev_base (?E e) \<and> lk (?E e) = None"
    "\<not> magic (?E e) \<Longrightarrow> ev_state ?ev = 0"
    using r by (auto simp: event_set_def Let_def set_ev_def ev_lock_def ev_unlock_def magic_def split: if_splits)
  show ?thesis
  proof (cases "pend (?E e)")
    case True
    then have m: "magic (?E e)" by (simp add: pend_def)
    have "ginv (?E(e := ?ev)) (bases (sw s)) (knotes (kern (sw s))) (loops s)"
      using True a ev m by (intro ginv_same [OF g]) (auto simp: allowed_def Let_def magic_def)
    with w' show ?thesis by (metis (no_types))
  next
    case False
    then have "\<not> act (?E e)" using knotes_okD(4) [OF ginvD(1) [OF g]] by blast
    with False ev have "\<not> pend ?ev" "\<not> act ?ev" by (cases "magic (?E e)"; simp add: pend_def act_def)+
    with ev have "ginv (?E(e := ?ev)) (bases (sw s)) (knotes (kern (sw s))) (loops s)"
      by (intro ginv_quiet [OF g False]) auto
    with w' show ?thesis by (metis (no_types))
  qed
qed

lemma client_base_set:
  assumes s: "sinv knotes s" and a: "allowed (OpBaseSet b e) s"
  shows "ginv (evs (snd (event_base_set b e (sw s)))) (bases (snd (event_base_set b e (sw s))))
    (knotes (kern (snd (event_base_set b e (sw s))))) (loops s)"
proof -
  let ?E = "evs (sw s)"
  have g: "ginv ?E (bases (sw s)) (knotes (kern (sw s))) (loops s)" using s by (simp add: sinv_def)
  have "ginv (?E(e := (?E e)\<lparr>ev_base := Some b\<rparr>)) (bases (sw s)) (knotes (kern (sw s))) (loops s)"
    if "\<not> has_flag (ev_state (?E e)) EVS_ACTIVE" "\<not> has_flag (ev_state (?E e)) EVS_PENDING"
    using that by (intro ginv_quiet [OF g]) (simp_all add: pend_def act_def magic_def)
  with g show ?thesis by (simp add: event_base_set_def set_ev_def Let_def)
qed

lemma client_preserves:
  assumes "sinv knotes s" "allowed opn s" "client_exec cf kr t opn (sw s) = Ret w'"
    and "kqueue_spec kr knotes" "\<not> MULT_KQ cf" "EV_REALTIME cf = 0"
  shows "sinv knotes (s\<lparr>sw := w'\<rparr>)"
proof (cases opn)
  case (OpAdd e to)
  with assms client_add [of knotes s e to cf kr t] show ?thesis
    by (fastforce simp: client_exec_def sinv_def split: outcome.splits)
next
  case (OpDel e)
  with assms client_del [of knotes s e cf kr t] show ?thesis
    by (fastforce simp: client_exec_def sinv_def split: outcome.splits)
next
  case (OpSet e fd ty fn arg)
  with assms client_set [of knotes s e fd ty fn arg t] show ?thesis
    by (simp add: client_exec_def sinv_def)
next
  case (OpBaseSet b e)
  with assms client_base_set [of knotes s b e] show ?thesis
    by (auto simp: client_exec_def sinv_def)
qed

subsection \<open>The invariant over the loop\<close>

lemma ginv_move:
  assumes g: "ginv E B N L"
    and o: "\<And>t'. t' \<noteq> t \<Longrightarrow> tinv E' B t' (L t') \<and> held E' (L t') \<subseteq> held E (L t')"
    and t: "tinv E' B t l'" and n: "knotes_ok E' B N'"
    and h: "\<And>x. x \<in> held E' l' \<Longrightarrow> x \<in> held E (L t) \<or> (\<exists>key. N key = Some (x, True))"
    and a: "\<And>key x. N' key = Some (x, True) \<Longrightarrow> (N key = Some (x, True) \<or> x \<in> held E (L t)) \<and> x \<notin> held E' l'"
  shows "ginv E' B N' (L(t := l'))"
  unfolding ginv_def
proof (intro conjI allI impI n)
  show "tinv E' B t' ((L(t := l')) t')" for t' using o t by simp
  show "x \<notin> held E' ((L(t := l')) t')" if "N' key = Some (x, True)" for key x t'
    using a [OF that] o [of t'] ginvD(3) [OF g, of key x t'] ginvD(4) [OF g, of t t' x] by (cases "t' = t") auto
  fix t1 t2 :: nat
  assume ne: "t1 \<noteq> t2"
  have d: "held E' l' \<inter> held E' (L t') = {}" if "t' \<noteq> t" for t'
    using h o [OF that] ginvD(3,4) [OF g] that by blast
  show "held E' ((L(t := l')) t1) \<inter> held E' ((L(t := l')) t2) = {}"
    using ne d [of t1] d [of t2] o [of t1] o [of t2] ginvD(4) [OF g ne] by (cases "t1 = t"; cases "t2 = t"; simp) blast+
qed

text \<open>A step of \<open>t\<close> that changes neither events nor kernel.\<close>

lemma ginv_local:
  assumes g: "ginv E B N L" and t: "tinv E B t l'" and h: "held E l' \<subseteq> held E (L t)"
  shows "ginv E B N (L(t := l'))"
  using h ginvD(3) [OF g] by (intro ginv_move [OF g _ t ginvD(1) [OF g]]) (auto simp: ginvD(2) [OF g])

lemma tinv_idle: "pc l \<in> {Start, Ended} \<Longrightarrow> tinv E B t l \<and> held E l = {}"
  by (auto simp: tinv_def queued_ok_def live_ok_def relist_ok_def locks_ok_def held_def queued_def live_def relist_def handling_def)

lemma knotes_ok_disable:
  assumes n: "knotes_ok E B N"
  shows "knotes_ok E B (set_enabled False K N)"
proof (rule knotes_okI)
  fix e assume "pend (E e)"
  with knotes_okD(1) [OF n] obtain key en where "ev_key B (E e) = Some key" "N key = Some (e, en)" by blast
  then show "\<exists>key en. ev_key B (E e) = Some key \<and> set_enabled False K N key = Some (e, en)"
    by - (rule exI [of _ key], rule exI [of _ "if key \<in> K then False else en"], simp add: set_enabled_def)
qed (auto simp: set_enabled_def split: if_splits dest: knotes_okD [OF n])

lemma poll_step:
  assumes g: "ginv (evs w) (bases w) (knotes (kern w)) L" and p: "pc (L t) = Start" and k: "kqueue_spec kr knotes"
    and r: "loop_poll kr t w (L t) = Ret (w', l')"
  shows "ginv (evs w') (bases w') (knotes (kern w')) (L(t := l'))"
proof -
  let ?E = "evs w" and ?B = "bases w" and ?N = "knotes (kern w)"
  obtain base where base: "?B (lbase (L t)) = Some base" using r by (auto simp: loop_poll_def split: option.splits)
  obtain rr err kevs k' where c: "k_wait kr (kern w) (eb_kqfd base) = ((rr, err, kevs), k')"
    by (metis prod.collapse)
  note kw = kqueue_wait [OF k c]
  have w': "evs w' = ?E" "bases w' = ?B" "kern w' = k'"
    using r base c by (auto simp: loop_poll_def Let_def set_errno_def split: if_splits)
  have n: "knotes_ok ?E ?B ?N" by (rule ginvD(1) [OF g])
  show ?thesis
  proof (cases "rr < 0")
    case True
    then have kn: "knotes k' = ?N" using kw by blast
    have "pc l' \<in> {Start, Ended} \<or> pc l' = Marking \<and> evlist l' = [] \<and> active l' = [] \<and> enlist l' = [] \<and> idx l' = 0"
      using r base c True by (auto simp: loop_poll_def Let_def split: if_splits)
    then have "tinv ?E ?B t l' \<and> held ?E l' = {}"
      using tinv_idle [of l' ?E ?B t]
      by (auto simp: tinv_def batch_ok_def queued_ok_def live_ok_def relist_ok_def locks_ok_def held_def queued_def live_def relist_def handling_def)
    then show ?thesis using w' kn ginv_local [OF g, of t l'] by simp
  next
    case False
    let ?key = "kev_key (eb_kqfd base)"
    have kv: "distinct (map ?key kevs)" "\<And>kev. kev \<in> set kevs \<Longrightarrow> ?N (?key kev) = Some (udata kev, True)" "length kevs = nat rr"
      "knotes k' = set_enabled False (?key ` set kevs) ?N"
      using kw False by auto
    have l': "pc l' = Marking" "evlist l' = kevs" "active l' = []" "enlist l' = []" "idx l' = 0" "lbase l' = lbase (L t)"
      using r base c False kv(3) by (auto simp: loop_poll_def Let_def split: if_splits)
    have key: "ev_key ?B (?E (udata kev)) = Some (?key kev)" if "kev \<in> set kevs" for kev
      using knotes_okD(3) [OF n kv(2) [OF that]] .
    have "inj_on udata (set kevs)"
      using kv(1) key by (metis (mono_tags, lifting) distinct_map inj_on_def option.inject)
    then have d: "distinct (map udata kevs)" using kv(1) by (auto simp: distinct_map)
    have m: "matches ?B (?E (udata kev)) (lbase (L t)) kev" if "kev \<in> set kevs" for kev
    proof -
      from key [OF that] obtain b base' where "ev_base (?E (udata kev)) = Some b" "?B b = Some base'" "eb_kqfd base' = eb_kqfd base"
        by (auto simp: ev_key_def kev_key_def split: option.splits)
      with knotes_okD(6) [OF n _ base] key [OF that] base show ?thesis by (auto simp: matches_def)
    qed
    have "tinv ?E ?B t l'"
      using d m knotes_okD(2) [OF n kv(2)] knotes_okD(5) [OF n kv(2)]
      by (auto simp: tinv_def batch_ok_def queued_ok_def live_ok_def relist_ok_def locks_ok_def l' Let_def)
    moreover have q: "held ?E l' = udata ` set kevs"
      by (auto simp: held_def queued_def live_def relist_def l' handling_def set_conv_nth)
    have hk: "\<exists>key. ?N key = Some (x, True)" if "x \<in> held ?E l'" for x
    proof -
      from q that obtain kev where "kev \<in> set kevs" "x = udata kev" by auto
      with kv(2) show ?thesis by blast
    qed
    moreover have "(?N x = Some (e, True) \<or> e \<in> held ?E (L t)) \<and> e \<notin> held ?E l'"
      if "set_enabled False (?key ` set kevs) ?N x = Some (e, True)" for x e
    proof -
      from that have x: "?N x = Some (e, True)" "x \<notin> ?key ` set kevs" by (auto simp: set_enabled_def split: if_splits)
      have "e \<noteq> udata kev" if kev: "kev \<in> set kevs" for kev
      proof
        assume "e = udata kev"
        with knotes_okD(3) [OF n x(1)] key [OF kev] have "x = ?key kev" by simp
        with x(2) kev show False by blast
      qed
      with x q show ?thesis by auto
    qed
    ultimately show ?thesis
      unfolding w' kv(4) using ginvD(2) [OF g] hk
      by (intro ginv_move [OF g _ _ knotes_ok_disable [OF n]]) blast+
  qed
qed

lemma dispatch_step:
  assumes g: "ginv E B N L" and p: "pc (L t) = Dispatch \<or> pc (L t) = InHandler"
    and l': "l' = (L t)\<lparr>pc := InHandler\<rparr> \<or> l' = (L t)\<lparr>pc := Complete, idx := 0\<rparr> \<or> l' = (L t)\<lparr>pc := Dispatch, idx := i\<rparr>"
  shows "ginv E B N (L(t := l'))"
proof (rule ginv_local [OF g])
  have ti: "tinv E B t (L t)" by (rule ginvD(2) [OF g])
  have b: "batch_ok E (L t)" and lo: "live_ok E B t (L t)"
    using ti p tinv_batch [OF ti] by (auto simp: tinv_def)
  have e: "enlist l' = []" using b p l' by (auto simp: batch_ok_def)
  have pl: "pc l' = Dispatch \<or> pc l' = InHandler \<or> pc l' = Complete \<and> idx l' = 0" using l' by auto
  have "batch_ok E l'" using b p l' e unfolding batch_ok_def by (elim disjE) simp_all
  moreover have "live_ok E B t l'" using lo p l' unfolding live_ok_def handling_def by (elim disjE) simp_all
  ultimately show "tinv E B t l'"
    using pl e by (auto simp: tinv_def queued_ok_def relist_ok_def locks_ok_def)
  have "live E l' \<subseteq> live E (L t)" using l' p by (auto simp: live_def handling_def)
  then show "held E l' \<subseteq> held E (L t)" using pl e by (auto simp: held_def queued_def relist_def)
qed

text \<open>Marking an event active.\<close>

lemma knotes_ok_act:
  assumes n: "knotes_ok E B N" and e: "pend (E e)" "pend ev'" "ev_key B ev' = ev_key B (E e)" "\<And>key. N key \<noteq> Some (e, True)"
  shows "knotes_ok (E(e := ev')) B N"
proof (rule knotes_okI)
  fix x assume "pend ((E(e := ev')) x)"
  then show "\<exists>key en. ev_key B ((E(e := ev')) x) = Some key \<and> N key = Some (x, en)"
    using e knotes_okD(1) [OF n, of x] by (cases "x = e") auto
next
  fix key x en assume "N key = Some (x, en)"
  then show "pend ((E(e := ev')) x) \<and> ev_key B ((E(e := ev')) x) = Some key"
    using e knotes_okD(2,3) [OF n, of key x] by (cases "x = e") auto
qed (use e in \<open>auto split: if_splits dest: knotes_okD(4,5,6) [OF n]\<close>)

lemma ginv_others_unheld:
  assumes g: "ginv E B N L" and e: "e \<in> held E (L t)"
    and m: "magic (E e) \<Longrightarrow> magic ev' \<and> epoch (E e) \<le> epoch ev'" and l: "lk (E e) = None" and t': "t' \<noteq> t"
  shows "tinv (E(e := ev')) B t' (L t') \<and> held (E(e := ev')) (L t') \<subseteq> held E (L t')"
proof -
  have "e \<notin> held E (L t')" using ginvD(4) [OF g, of t t'] e t' by auto
  then have "upd_ok E B t' (L t') e ev'" using m l by (auto simp: upd_ok_def held_def)
  with tinv_upd held_upd ginvD(2) [OF g] show ?thesis by blast
qed

lemma mark_step:
  assumes g: "ginv (evs w) (bases w) (knotes (kern w)) L" and p: "pc (L t) = Marking" and i: "idx (L t) < length (evlist (L t))"
    and r: "loop_collect t w (L t) = Ret (w', l')"
  shows "ginv (evs w') (bases w') (knotes (kern w')) (L(t := l'))"
proof -
  let ?E = "evs w" and ?B = "bases w" and ?N = "knotes (kern w)" and ?l = "L t"
  let ?kev = "evlist ?l ! idx ?l" let ?e = "udata ?kev" let ?ev = "?E ?e"
  define ev' where "ev' = evs w' ?e"
  have ti: "tinv ?E ?B t ?l" by (rule ginvD(2) [OF g])
  have q: "pend ?ev" "\<not> act ?ev" "matches ?B ?ev (lbase ?l) ?kev"
    using ti p i by (auto simp: tinv_def queued_ok_def Let_def)
  have lk: "lk ?ev = None" using r i by (auto simp: loop_collect_def ev_lock_def Let_def split: if_splits)
  have st: "w' = set_ev ?e ev' w" and l': "l' = ?l\<lparr>active := active ?l @ [(?e, epoch ?ev)], idx := idx ?l + 1\<rparr>"
    and ev': "ev_state ev' = set_flag (ev_state ?ev) EVS_ACTIVE" "owner ev' = Some t" "lk ev' = None" "epoch ev' = epoch ?ev"
      "cv_init ev' = cv_init ?ev" "ev_base ev' = ev_base ?ev" "ev_fd ev' = ev_fd ?ev" "ev_type ev' = ev_type ?ev"
    using r i lk by (auto simp: loop_collect_def ev_lock_def Let_def set_ev_def ev_unlock_def ev'_def split: if_splits)
  have k: "ev_key ?B ev' = ev_key ?B ?ev" using ev' by (intro ev_key_cong) auto
  have pa: "pend ev'" "act ev'" "magic ev'" using q(1) ev' by (simp_all add: pend_def act_def magic_def)
  have hq: "?e \<in> queued ?l" "?e \<in> held ?E ?l" using p i by (auto simp: queued_def held_def)
  let ?E' = "?E(?e := ev')"
  have na: "?N key \<noteq> Some (?e, True)" for key using ginvD(3) [OF g] hq(2) by blast
  have b: "batch_ok ?E ?l" using tinv_batch [OF ti] p by simp
  have len: "length (active ?l) = idx ?l" using b p by (simp add: batch_ok_def)
  have act_ne: "fst (active ?l ! j) \<noteq> ?e" if "j < length (active ?l)" for j
    using batch_nth [OF b that] batch_distinct [OF b _ i, of j] that len by auto
  have dj: "udata (evlist ?l ! j) \<noteq> ?e" if "idx ?l < j" "j < length (evlist ?l)" for j
    using batch_distinct [OF b that(2) i] that by auto
  have same: "epoch (?E' x) = epoch (?E x) \<and> magic (?E' x) = magic (?E x)" for x
    using ev'(4,5) by (simp add: magic_def)
  have "batch_ok ?E' l'"
    using b p i len pa(3) same q(1) by (auto simp: batch_ok_def l' take_Suc_conv_app_nth pend_def)
  moreover have "queued_ok ?E' ?B l'"
    using ti p dj by (auto simp: tinv_def queued_ok_def l' Let_def)
  moreover have "live_ok ?E' ?B t l'"
    unfolding live_ok_def
  proof (intro impI allI)
    fix j assume "j < length (active l')"
    then consider "j < length (active ?l)" | "j = idx ?l" using len by (force simp: l')
    then show "let ev = ?E' (fst (active l' ! j)) in snd (active l' ! j) = epoch ev \<longrightarrow>
       pend ev \<and> act ev \<and> owner ev = Some t \<and> matches ?B ev (lbase l') (evlist l' ! j)"
    proof cases
      case 1
      then show ?thesis
        using act_ne [OF 1] live_okD [of ?E ?B t ?l j] ti p by (auto simp: l' nth_append tinv_def handling_def Let_def)
    next
      case 2
      have "matches ?B ev' (lbase ?l) ?kev" using q(3) k ev'(6) by (simp add: matches_def)
      with 2 pa ev' len show ?thesis by (simp add: l' nth_append Let_def)
    qed
  qed
  ultimately have ti': "tinv ?E' ?B t l'" using p by (simp add: tinv_def relist_ok_def locks_ok_def l')
  have "live ?E' l' \<subseteq> live ?E ?l \<union> {?e}"
  proof
    fix x assume "x \<in> live ?E' l'"
    then obtain j where j: "j < length (active l')" "x = fst (active l' ! j)" "snd (active l' ! j) = epoch (?E' x)"
      by (auto simp: live_def split: if_splits)
    show "x \<in> live ?E ?l \<union> {?e}"
    proof (cases "j < length (active ?l)")
      case True
      then have "fst (active ?l ! j) \<in> live ?E ?l"
        using j p same by (intro liveI) (auto simp: handling_def l' nth_append)
      with True j show ?thesis by (simp add: l' nth_append)
    qed (use j in \<open>auto simp: l' nth_append split: if_splits\<close>)
  qed
  moreover have "queued l' \<subseteq> queued ?l" using p by (auto simp: queued_def l')
  moreover have "relist l' = {}" using p by (simp add: relist_def l')
  ultimately have h: "held ?E' l' \<subseteq> held ?E ?l" using hq(1) unfolding held_def by blast
  have "ginv ?E' ?B ?N (L(t := l'))"
  proof (rule ginv_move [OF g _ ti' knotes_ok_act [OF ginvD(1) [OF g] q(1) pa(1) k na]])
    show "tinv ?E' ?B t' (L t') \<and> held ?E' (L t') \<subseteq> held ?E (L t')" if "t' \<noteq> t" for t'
      using ginv_others_unheld [OF g hq(2) _ lk that] pa(3) ev'(4) by simp
  qed (use h ginvD(3) [OF g] in blast)+
  then show ?thesis by (simp add: st set_ev_def)
qed

text \<open>Completing an event.\<close>

lemma del_inactive:
  assumes k: "kqueue_spec kr knotes" and cf: "EV_REALTIME cf = 0"
    and e: "pend (evs w e)" "\<not> act (evs w e)" "ev_key (bases w) (evs w e) = Some key" "knotes (kern w) key = Some (e, en)"
  shows "\<exists>k'. event_del_flags cf kr t e fl w
      = Ret (CS_OK, set_ev e ((evs w e)\<lparr>ev_state := clear_flag (ev_state (evs w e)) EVS_PENDING\<rparr>) (w\<lparr>kern := k'\<rparr>))
    \<and> knotes k' = (knotes (kern w))(key := None)"
proof -
  let ?ev = "evs w e"
  obtain b base f where b: "ev_base ?ev = Some b" "bases w b = Some base" and f: "type_filter (ev_type ?ev) = Some f" "key = (eb_kqfd base, ev_fd ?ev, f)"
    using e(3) by (auto simp: ev_key_def split: option.splits)
  define kev where "kev = \<lparr>ident = ev_fd ?ev, kfilter = f, kflags = EV_DELETE,
    fflags = (if f = EVFILT_TIMER then NOTE_USECONDS else 0), kdata = 0, udata = e\<rparr>"
  have ik: "init_kevent cf e ?ev EV_DELETE None = Ret (Inr kev)"
    by (simp add: init_kevent_def f kev_def cf Let_def)
  obtain r' k' where c: "k_change kr (kern w) (eb_kqfd base) [kev] = (r', k')" by fastforce
  have "kev_key (eb_kqfd base) kev = key" by (simp add: kev_key_def kev_def f)
  with kqueue_del [OF k _ _ c] e(4) have kd: "r' = 0" "knotes k' = (knotes (kern w))(key := None)"
    by (simp_all add: kev_def)
  have "\<not> has_flag (ev_state ?ev) EVS_ACTIVE" "has_flag (ev_state ?ev) EVS_PENDING"
    using e(1,2) by (simp_all add: pend_def act_def)
  then show ?thesis
    using ik b c kd by (intro exI [of _ k']) (simp add: event_del_flags_def deactivate_changed_def Let_def)
qed

lemma complete_stale_step:
  assumes g: "ginv E B N L" and p: "pc (L t) = Complete" and i: "idx (L t) < length (active (L t))"
    and a: "active (L t) ! idx (L t) = (e, ep)" "epoch (E e) \<noteq> ep" and lk: "lk (E e) = None"
  shows "ginv (E(e := (E e)\<lparr>lk := Some t\<rparr>)) B N (L(t := (L t)\<lparr>idx := idx (L t) + 1\<rparr>))"
proof -
  let ?E' = "E(e := (E e)\<lparr>lk := Some t\<rparr>)" and ?l = "L t" let ?l' = "?l\<lparr>idx := idx ?l + 1\<rparr>"
  have g': "ginv ?E' B N L" using lk by (intro ginv_same [OF g]) auto
  have ti: "tinv ?E' B t ?l" by (rule ginvD(2) [OF g'])
  have b: "batch_ok ?E' ?l" and lo: "live_ok ?E' B t ?l" and ro: "relist_ok ?E' B t ?l" and ko: "locks_ok ?E' t ?l"
    using ti p by (simp_all add: tinv_def)
  have "batch_ok ?E' ?l'" using b p by (simp add: batch_ok_def)
  moreover have "live_ok ?E' B t ?l'" using lo p unfolding live_ok_def handling_def by simp
  moreover have "relist_ok ?E' B t ?l'" using ro p unfolding relist_ok_def Let_def by (simp add: less_Suc_eq) blast
  moreover have "locks_ok ?E' t ?l'" using ko p a by (auto simp: locks_ok_def less_Suc_eq)
  ultimately have "tinv ?E' B t ?l'" using p by (simp add: tinv_def queued_ok_def)
  moreover have "held ?E' ?l' \<subseteq> held ?E' ?l" using p by (auto simp: held_def queued_def live_def relist_def handling_def)
  ultimately show ?thesis by (rule ginv_local [OF g'])
qed

lemma complete_live_step:
  assumes g: "ginv E B N L" and p: "pc (L t) = Complete" and i: "idx (L t) < length (active (L t))"
    and a: "active (L t) ! idx (L t) = (e, epoch (E e))" and lk: "lk (E e) = None"
    and ev': "\<not> act ev'" "lk ev' = Some t" "epoch ev' = epoch (E e)" "magic ev'" "same_knote B (E e) ev'"
    and en: "en = enlist (L t) \<or> pend ev' \<and> en = enlist (L t) @ [(evlist (L t) ! idx (L t))\<lparr>kflags := EV_ENABLE\<rparr>]"
    and n: "knotes_ok (E(e := ev')) B N'" and N': "\<And>key x. N' key = Some (x, True) \<Longrightarrow> N key = Some (x, True)"
  shows "ginv (E(e := ev')) B N' (L(t := (L t)\<lparr>idx := idx (L t) + 1, enlist := en\<rparr>))"
proof -
  let ?E' = "E(e := ev')" and ?l = "L t" let ?i = "idx ?l" let ?l' = "?l\<lparr>idx := ?i + 1, enlist := en\<rparr>"
  have ti: "tinv E B t ?l" by (rule ginvD(2) [OF g])
  have b: "batch_ok E ?l" and lo: "live_ok E B t ?l" and ro: "relist_ok E B t ?l" and ko: "locks_ok E t ?l"
    using ti p by (simp_all add: tinv_def)
  have e: "fst (active ?l ! ?i) = e" "snd (active ?l ! ?i) = epoch (E e)" using a by simp_all
  have lv: "pend (E e)" "act (E e)" "matches B (E e) (lbase ?l) (evlist ?l ! ?i)"
    using live_okD [OF lo, of ?i] p i e by (simp_all add: handling_def)
  have he: "e \<in> held E ?l" using liveI [of ?l ?i E] p i e by (auto simp: handling_def held_def)
  have ue: "udata (evlist ?l ! ?i) = e" using batch_nth [OF b i] e by simp
  have ne: "fst (active ?l ! j) \<noteq> e" if "j < length (active ?l)" "j \<noteq> ?i" for j
    using batch_nth [OF b that(1)] batch_nth [OF b i] batch_distinct [OF b, of j ?i] that(2) e(1) by auto
  have same: "epoch (?E' x) = epoch (E x)" "magic (E x) \<Longrightarrow> magic (?E' x)" for x using ev'(3,4) by simp_all
  have "batch_ok ?E' ?l'" using b p same by (auto simp: batch_ok_def)
  moreover have "live_ok ?E' B t ?l'"
    unfolding live_ok_def Let_def
  proof (intro allI impI)
    fix j assume j: "j < length (active ?l')" "pc ?l' = Complete \<longrightarrow> idx ?l' \<le> j"
      "snd (active ?l' ! j) = epoch (?E' (fst (active ?l' ! j)))"
    then have "j \<noteq> ?i" "?i \<le> j" "j < length (active ?l)" using p by auto
    with ne [of j] live_okD [OF lo, of j] p j(3)
    show "pend (?E' (fst (active ?l' ! j))) \<and> act (?E' (fst (active ?l' ! j))) \<and> owner (?E' (fst (active ?l' ! j))) = Some t
        \<and> matches B (?E' (fst (active ?l' ! j))) (lbase ?l') (evlist ?l' ! j)"
      by (simp add: handling_def)
  qed
  moreover have "relist_ok ?E' B t ?l'"
    unfolding relist_ok_def Let_def
  proof (intro impI ballI)
    fix kev assume "kev \<in> set (enlist ?l')"
    with en consider "kev \<in> set (enlist ?l)" | "pend ev'" "kev = (evlist ?l ! ?i)\<lparr>kflags := EV_ENABLE\<rparr>" by auto
    then show "kflags kev = EV_ENABLE \<and> pend (?E' (udata kev)) \<and> \<not> act (?E' (udata kev)) \<and> lk (?E' (udata kev)) = Some t
      \<and> matches B (?E' (udata kev)) (lbase ?l') kev
      \<and> (pc ?l' = Complete \<longrightarrow> (\<exists>j<idx ?l'. j < length (active ?l') \<and> udata kev = fst (active ?l' ! j)))"
    proof cases
      case 1
      then obtain j where j: "j < ?i" "j < length (active ?l)" "udata kev = fst (active ?l ! j)"
        using ro p unfolding relist_ok_def Let_def by blast
      with ne [of j] have "udata kev \<noteq> e" by simp
      moreover have "j < idx ?l'" using j by simp
      ultimately show ?thesis using 1 ro p j unfolding relist_ok_def Let_def
        by (auto intro: exI [of _ j])
    next
      case 2
      have "matches B ev' (lbase ?l) kev"
        using matches_same_knote [OF lv(3) ev'(5)] 2(2) by (simp add: matches_def kev_key_def)
      then show ?thesis using 2 ue ev' p i e(1) by auto
    qed
  qed
  moreover have "locks_ok ?E' t ?l'"
    using ko p ne ev'(2) i e by (auto simp: locks_ok_def less_Suc_eq)
  ultimately have ti': "tinv ?E' B t ?l'" using p by (simp add: tinv_def queued_ok_def)
  have "live ?E' ?l' \<subseteq> live E ?l" using p same(1) by (auto simp: live_def handling_def split: if_splits)
  moreover have "relist ?l' \<subseteq> relist ?l \<union> {e}" using en ue p by (auto simp: relist_def)
  ultimately have h: "held ?E' ?l' \<subseteq> held E ?l" using he p by (auto simp: held_def queued_def)
  show ?thesis
  proof (rule ginv_move [OF g _ ti' n])
    show "tinv ?E' B t' (L t') \<and> held ?E' (L t') \<subseteq> held E (L t')" if "t' \<noteq> t" for t'
      using ginv_others_unheld [OF g he _ lk that] ev'(3,4) by simp
  qed (use h N' ginvD(3) [OF g] in blast)+
qed

lemma ginv_lret:
  assumes g: "ginv E B N (L(t := l))"
  shows "ginv E B N (L(t := l\<lparr>lret := x\<rparr>))"
proof -
  have "tinv E B t l" using ginvD(2) [OF g, of t] by simp
  then have "tinv E B t (l\<lparr>lret := x\<rparr>)"
    by (simp add: tinv_def batch_ok_def queued_ok_def live_ok_def relist_ok_def locks_ok_def)
  then show ?thesis
    using ginv_local [OF g, of t "l\<lparr>lret := x\<rparr>"] by (simp add: held_def queued_def live_def relist_def)
qed

lemma complete_step:
  assumes g: "ginv (evs w) (bases w) (knotes (kern w)) L" and p: "pc (L t) = Complete" and i: "idx (L t) < length (active (L t))"
    and k: "kqueue_spec kr knotes" and cf: "\<not> MULT_KQ cf" "EV_REALTIME cf = 0"
  shows "loop_complete cf kr t w (L t) = Wait \<or>
    (\<exists>w' l'. loop_complete cf kr t w (L t) = Ret (w', l') \<and> ginv (evs w') (bases w') (knotes (kern w')) (L(t := l')))"
proof -
  let ?E = "evs w" and ?B = "bases w" and ?N = "knotes (kern w)" and ?l = "L t"
  obtain e ep where a: "active ?l ! idx ?l = (e, ep)" by fastforce
  let ?ev = "?E e"
  note n = ginvD(1) [OF g]
  show ?thesis
  proof (cases "lk ?ev = None")
    case False
    then show ?thesis using i a by (auto simp: loop_complete_def ev_lock_def)
  next
    case lk: True
    show ?thesis
    proof (cases "epoch ?ev = ep")
      case False
      have "loop_complete cf kr t w ?l = Ret (set_ev e (?ev\<lparr>lk := Some t\<rparr>) w, ?l\<lparr>idx := idx ?l + 1\<rparr>)"
        using i a lk False by (simp add: loop_complete_def ev_lock_def set_ev_def Let_def)
      with complete_stale_step [OF g p i a False lk] show ?thesis by (simp add: set_ev_def)
    next
      case True
      have a': "active ?l ! idx ?l = (e, epoch ?ev)" using a True by simp
      have lv: "pend ?ev" "act ?ev"
        using live_okD [of ?E ?B t ?l "idx ?l"] ginvD(2) [OF g, of t] p i a' by (simp_all add: tinv_def handling_def)
      have "e \<in> held ?E ?l" using liveI [of ?l "idx ?l" ?E] p i a' by (auto simp: handling_def held_def)
      then have na: "?N key \<noteq> Some (e, True)" for key using ginvD(3) [OF g] by blast
      let ?ev1 = "?ev\<lparr>lk := Some t, ev_state := clear_flag (ev_state ?ev) EVS_ACTIVE, owner := None\<rparr>"
      have s1: "\<not> act ?ev1" "pend ?ev1" "magic ?ev1" "same_knote ?B ?ev ?ev1" "ev_key ?B ?ev1 = ev_key ?B ?ev"
        using lv ev_key_cong [of ?ev1 ?ev ?B] by (auto simp: pend_def act_def magic_def same_knote_def)
      show ?thesis
      proof (cases "has_flag (ev_type ?ev) EV_PERSIST")
        case True
        have "loop_complete cf kr t w ?l = Ret (set_ev e ?ev1 w,
            ?l\<lparr>idx := idx ?l + 1, enlist := enlist ?l @ [(evlist ?l ! idx ?l)\<lparr>kflags := EV_ENABLE\<rparr>]\<rparr>)"
          using i a' lk True cf by (simp add: loop_complete_def ev_lock_def set_ev_def Let_def)
        moreover have "ginv (?E(e := ?ev1)) ?B ?N (L(t := ?l\<lparr>idx := idx ?l + 1, enlist := enlist ?l @ [(evlist ?l ! idx ?l)\<lparr>kflags := EV_ENABLE\<rparr>]\<rparr>))"
          using s1 by (intro complete_live_step [OF g p i a' lk] knotes_ok_act [OF n lv(1) s1(2,5) na]) auto
        ultimately show ?thesis by (simp add: set_ev_def)
      next
        case False
        obtain key en where key: "ev_key ?B ?ev = Some key" "?N key = Some (e, en)"
          using knotes_okD(1) [OF n lv(1)] by blast
        let ?w1 = "set_ev e ?ev1 w"
        let ?ev2 = "?ev1\<lparr>ev_state := clear_flag (ev_state ?ev1) EVS_PENDING\<rparr>"
        have w1: "evs ?w1 e = ?ev1" "bases ?w1 = ?B" "kern ?w1 = kern w" by (simp_all add: set_ev_def)
        obtain k' where d: "event_del_flags cf kr t e EVENT_DEL_NOBLOCK ?w1 = Ret (CS_OK, set_ev e ?ev2 (?w1\<lparr>kern := k'\<rparr>))"
          "knotes k' = ?N(key := None)"
          using del_inactive [OF k cf(2), of ?w1 e key en t EVENT_DEL_NOBLOCK] w1 s1 key by auto
        have "loop_complete cf kr t w ?l = Ret (set_ev e ?ev2 (?w1\<lparr>kern := k'\<rparr>), ?l\<lparr>idx := idx ?l + 1, lret := CS_OK\<rparr>)"
          using i a' lk False d by (simp add: loop_complete_def ev_lock_def set_ev_def Let_def)
        moreover have "ginv (?E(e := ?ev2)) ?B (?N(key := None)) (L(t := ?l\<lparr>idx := idx ?l + 1, enlist := enlist ?l\<rparr>))"
        proof (rule complete_live_step [OF g p i a' lk])
          show "knotes_ok (?E(e := ?ev2)) ?B (?N(key := None))"
            using key lv by (intro knotes_ok_del [OF n]) (auto simp: pend_def act_def)
        qed (use s1 ev_key_cong [of ?ev2 ?ev ?B] in \<open>auto simp: act_def magic_def same_knote_def split: if_splits\<close>)
        from ginv_lret [OF this, of CS_OK]
        have "ginv (?E(e := ?ev2)) ?B (?N(key := None)) (L(t := ?l\<lparr>idx := idx ?l + 1, lret := CS_OK\<rparr>))"
          by simp
        ultimately show ?thesis using d by (simp add: set_ev_def)
      qed
    qed
  qed
qed

lemma knotes_ok_enable:
  assumes n: "knotes_ok E B N" and a: "\<And>key e en. key \<in> K \<Longrightarrow> N key = Some (e, en) \<Longrightarrow> \<not> act (E e)"
  shows "knotes_ok E B (set_enabled True K N)"
proof (rule knotes_okI)
  fix e assume "pend (E e)"
  with knotes_okD(1) [OF n] obtain key en where "ev_key B (E e) = Some key" "N key = Some (e, en)" by blast
  then show "\<exists>key en. ev_key B (E e) = Some key \<and> set_enabled True K N key = Some (e, en)"
    by - (rule exI [of _ key], rule exI [of _ "if key \<in> K then True else en"], simp add: set_enabled_def)
qed (use a in \<open>auto simp: set_enabled_def split: if_splits dest: knotes_okD [OF n]\<close>)

lemma reenable_step:
  assumes g: "ginv (evs w) (bases w) (knotes (kern w)) L" and p: "pc (L t) = Reenable"
    and k: "kqueue_spec kr knotes"
  shows "\<exists>w' l'. loop_reenable cf kr w (L t) = Ret (w', l') \<and> ginv (evs w') (bases w') (knotes (kern w')) (L(t := l'))"
proof -
  let ?E = "evs w" and ?B = "bases w" and ?N = "knotes (kern w)" and ?l = "L t"
  note n = ginvD(1) [OF g] and ti = ginvD(2) [OF g, of t]
  have un: "tinv ?E ?B t (?l\<lparr>pc := Unlock, lret := x\<rparr>)" "held ?E (?l\<lparr>pc := Unlock, lret := x\<rparr>) = {}" for x
    using ti p by (auto simp: tinv_def batch_ok_def queued_ok_def live_ok_def relist_ok_def locks_ok_def handling_def
        held_def queued_def live_def relist_def)
  show ?thesis
  proof (cases "enlist ?l \<noteq> [] \<and> \<not> MULT_KQ cf")
    case False
    have "ginv ?E ?B ?N (L(t := ?l\<lparr>pc := Unlock, lret := lret ?l\<rparr>))"
      using un [of "lret ?l"] by (intro ginv_local [OF g]) simp_all
    with False show ?thesis by (auto simp: loop_reenable_def)
  next
    case True
    have ro: "kflags kev = EV_ENABLE \<and> pend (?E (udata kev)) \<and> \<not> act (?E (udata kev)) \<and> matches ?B (?E (udata kev)) (lbase ?l) kev"
      if "kev \<in> set (enlist ?l)" for kev
      using ti p that unfolding tinv_def relist_ok_def Let_def by blast
    obtain base where base: "?B (lbase ?l) = Some base"
      using ro [OF list.set_sel(1)] True by (auto simp: matches_def)
    let ?key = "kev_key (eb_kqfd base)"
    have nk: "\<exists>b. ?N (?key kev) = Some (udata kev, b)" if "kev \<in> set (enlist ?l)" for kev
      using ro [OF that] knotes_okD(1) [OF n, of "udata kev"] base by (auto simp: matches_def)
    obtain r k' where c: "k_change kr (kern w) (eb_kqfd base) (enlist ?l) = (r, k')" by fastforce
    have kd: "r = 0" "knotes k' = set_enabled True (?key ` set (enlist ?l)) ?N"
      using kqueue_enable [OF k _ c] ro nk by blast+
    have re: "x \<in> held ?E ?l" if "kev \<in> set (enlist ?l)" "?N (?key kev) = Some (x, b)" for kev x b
      using nk [OF that(1)] that p by (auto simp: held_def relist_def)
    have "ginv ?E ?B (knotes k') (L(t := ?l\<lparr>pc := Unlock, lret := r\<rparr>))"
      unfolding kd(2)
    proof (rule ginv_move [OF g _ un(1)])
      show "knotes_ok ?E ?B (set_enabled True (?key ` set (enlist ?l)) ?N)"
        using ro nk by (intro knotes_ok_enable [OF n]) fastforce
      show "(?N key = Some (x, True) \<or> x \<in> held ?E ?l) \<and> x \<notin> held ?E (?l\<lparr>pc := Unlock, lret := r\<rparr>)"
        if "set_enabled True (?key ` set (enlist ?l)) ?N key = Some (x, True)" for key x
        using that un(2) re by (auto simp: set_enabled_def split: if_splits)
    qed (use ginvD(2) [OF g] un(2) in auto)
    then show ?thesis using True base c kd(1) by (auto simp: loop_reenable_def)
  qed
qed

text \<open>Unlocking a batch.\<close>

lemma fold_unlock:
  "fold ev_unlock es w = w\<lparr>evs := (\<lambda>x. if x \<in> set es then (evs w x)\<lparr>lk := None\<rparr> else evs w x)\<rparr>"
  by (induction es arbitrary: w) (auto simp: ev_unlock_def set_ev_def fun_eq_iff)

lemma unlock_step:
  assumes g: "ginv E B N L" and p: "pc (L t) = Unlock" and q: "q = Start \<or> q = Ended"
  shows "ginv (\<lambda>x. if x \<in> fst ` set (active (L t)) then (E x)\<lparr>lk := None\<rparr> else E x) B N (L(t := (L t)\<lparr>pc := q\<rparr>))"
proof -
  let ?S = "fst ` set (active (L t))" let ?E' = "\<lambda>x. if x \<in> ?S then (E x)\<lparr>lk := None\<rparr> else E x"
  have lk: "lk (E x) = Some t" if "x \<in> ?S" for x
    using that ginvD(2) [OF g, of t] p by (auto simp: tinv_def locks_ok_def in_set_conv_nth) (metis fst_conv)
  have s: "pend (?E' x) = pend (E x)" "act (?E' x) = act (E x)" "magic (?E' x) = magic (E x)" "epoch (?E' x) = epoch (E x)"
    "owner (?E' x) = owner (E x)" "matches B (?E' x) b kev = matches B (E x) b kev" "ev_key B (?E' x) = ev_key B (E x)" for x b kev
    using ev_key_cong [of "(E x)\<lparr>lk := None\<rparr>" "E x" B] by (auto simp: pend_def act_def magic_def matches_def)
  have l: "lk (?E' x) = Some t'" if "lk (E x) = Some t'" "t' \<noteq> t" for x t' using that lk [of x] by (cases "x \<in> ?S") auto
  have ti: "tinv ?E' B t' (L t')" if "t' \<noteq> t" for t'
    using ginvD(2) [OF g, of t'] l [OF _ that]
    unfolding tinv_def batch_ok_def queued_ok_def live_ok_def relist_ok_def locks_ok_def Let_def s by blast
  have h: "held ?E' l = held E l" for l unfolding held_def live_def s by simp
  have n: "knotes_ok ?E' B N" using ginvD(1) [OF g] unfolding knotes_ok_def s .
  have "tinv ?E' B t ((L t)\<lparr>pc := q\<rparr>)" "held ?E' ((L t)\<lparr>pc := q\<rparr>) = {}"
    using tinv_idle [of "(L t)\<lparr>pc := q\<rparr>" ?E' B t] q by auto
  then show ?thesis using ti h by (intro ginv_move [OF g _ _ n]) auto
qed

text \<open>Every step of a loop keeps the invariant and fails no assertion.\<close>

lemma collect_end:
  assumes g: "ginv E B N L" and p: "pc (L t) = Marking" and i: "\<not> idx (L t) < length (evlist (L t))"
  shows "ginv E B N (L(t := (L t)\<lparr>pc := Dispatch, idx := 0\<rparr>))"
proof (rule ginv_local [OF g])
  have b: "batch_ok E (L t)" and lo: "live_ok E B t (L t)"
    using ginvD(2) [OF g, of t] p by (auto simp: tinv_def)
  have "batch_ok E ((L t)\<lparr>pc := Dispatch, idx := 0\<rparr>)" using b p unfolding batch_ok_def by simp
  moreover have "live_ok E B t ((L t)\<lparr>pc := Dispatch, idx := 0\<rparr>)" using lo p unfolding live_ok_def handling_def by simp
  ultimately show "tinv E B t ((L t)\<lparr>pc := Dispatch, idx := 0\<rparr>)"
    by (simp add: tinv_def queued_ok_def relist_ok_def locks_ok_def)
  show "held E ((L t)\<lparr>pc := Dispatch, idx := 0\<rparr>) \<subseteq> held E (L t)"
    using p by (auto simp: held_def queued_def live_def relist_def handling_def)
qed

lemma mark_no_assert:
  assumes g: "ginv (evs w) (bases w) N L" and p: "pc (L t) = Marking"
  shows "loop_collect t w (L t) \<noteq> AssertFail"
proof (cases "idx (L t) < length (evlist (L t))")
  case True
  let ?kev = "evlist (L t) ! idx (L t)" let ?ev = "evs w (udata ?kev)"
  have q: "pend ?ev" "\<not> act ?ev" "matches (bases w) ?ev (lbase (L t)) ?kev"
    using ginvD(2) [OF g, of t] p True by (auto simp: tinv_def queued_ok_def Let_def)
  then have "ev_base ?ev = Some (lbase (L t))" "ev_fd ?ev = ident ?kev" "\<not> has_flag (ev_state ?ev) EVS_ACTIVE"
    by (auto simp: matches_def ev_key_def kev_key_def pend_def act_def split: option.splits)
  then show ?thesis using True by (auto simp: loop_collect_def ev_lock_def set_ev_def Let_def)
qed (simp add: loop_collect_def)

lemma loop_preserves:
  assumes s: "sinv knotes s" and k: "kqueue_spec kr knotes" and cf: "\<not> MULT_KQ cf" "EV_REALTIME cf = 0"
  shows "loop_step cf kr t (sw s) (loops s t) \<noteq> AssertFail
    \<and> (\<forall>w' l'. loop_step cf kr t (sw s) (loops s t) = Ret (w', l') \<longrightarrow> sinv knotes (s\<lparr>sw := w', loops := (loops s)(t := l')\<rparr>))"
proof -
  let ?w = "sw s" and ?L = "loops s"
  have g: "ginv (evs ?w) (bases ?w) (knotes (kern ?w)) ?L" using s by (simp add: sinv_def)
  have "loop_step cf kr t ?w (?L t) \<noteq> AssertFail \<and> (\<forall>w' l'. loop_step cf kr t ?w (?L t) = Ret (w', l') \<longrightarrow>
    ginv (evs w') (bases w') (knotes (kern w')) (?L(t := l')))"
  proof (cases "pc (?L t)")
    case Start
    have "loop_poll kr t ?w (?L t) \<noteq> AssertFail" by (auto simp: loop_poll_def Let_def split: option.splits prod.splits)
    with Start poll_step [OF g Start k] show ?thesis by (simp add: loop_step_def)
  next
    case Marking
    show ?thesis
    proof (cases "idx (?L t) < length (evlist (?L t))")
      case True
      with Marking mark_step [where knotes = knotes and w = "sw s" and L = "loops s", OF g Marking True] mark_no_assert [OF g Marking] show ?thesis by (simp add: loop_step_def)
    next
      case False
      with Marking collect_end [OF g Marking False] show ?thesis by (auto simp: loop_step_def loop_collect_def)
    qed
  next
    case Dispatch
    with dispatch_step [OF g] show ?thesis by (auto simp: loop_step_def loop_dispatch_def)
  next
    case InHandler
    with dispatch_step [OF g] show ?thesis by (auto simp: loop_step_def)
  next
    case Complete
    show ?thesis
    proof (cases "idx (?L t) < length (active (?L t))")
      case True
      with Complete complete_step [OF g Complete True k cf] show ?thesis by (auto simp: loop_step_def)
    next
      case False
      have ti: "tinv (evs ?w) (bases ?w) t (?L t)" by (rule ginvD(2) [OF g])
      have "ginv (evs ?w) (bases ?w) (knotes (kern ?w)) (?L(t := (?L t)\<lparr>pc := Reenable\<rparr>))"
      proof (rule ginv_local [OF g])
        show "tinv (evs ?w) (bases ?w) t ((?L t)\<lparr>pc := Reenable\<rparr>)"
          using ti Complete False unfolding tinv_def batch_ok_def queued_ok_def live_ok_def relist_ok_def locks_ok_def handling_def
          by (simp add: Let_def)
        show "held (evs ?w) ((?L t)\<lparr>pc := Reenable\<rparr>) \<subseteq> held (evs ?w) (?L t)"
          using Complete by (auto simp: held_def queued_def live_def relist_def handling_def)
      qed
      with Complete False show ?thesis by (auto simp: loop_step_def loop_complete_def)
    qed
  next
    case Reenable
    with reenable_step [OF g Reenable k, of cf] show ?thesis by (auto simp: loop_step_def)
  next
    case Unlock
    let ?q = "if \<not> has_flag (lflags (?L t)) EVLOOP_ONCE then Start else Ended"
    have "loop_step cf kr t ?w (?L t) = Ret (?w\<lparr>evs := \<lambda>x. if x \<in> fst ` set (active (?L t)) then (evs ?w x)\<lparr>lk := None\<rparr> else evs ?w x\<rparr>,
        (?L t)\<lparr>pc := ?q\<rparr>)"
      unfolding loop_step_def Unlock loop_pc.case loop_unlock_def fold_unlock set_map ..
    with unlock_step [OF g Unlock, of ?q] show ?thesis by simp
  next
    case Ended
    with g show ?thesis by (auto simp: loop_step_def)
  qed
  then show ?thesis by (simp add: sinv_def)
qed

lemma sys_step_preserves:
  assumes "sys_step cf kr knotes s s'" "sinv knotes s" and "kqueue_spec kr knotes" "\<not> MULT_KQ cf" "EV_REALTIME cf = 0"
  shows "sinv knotes s'"
  using assms
proof (cases rule: sys_step.cases)
  case (loop t w' l')
  with loop_preserves [OF assms(2-5)] show ?thesis by blast
next
  case (client t opn w')
  with client_preserves [OF assms(2) _ _ assms(3-5)] show ?thesis by blast
next
  case (enter t b flags)
  have "tinv (evs (sw s)) (bases (sw s)) t (loop_enter b flags) \<and> held (evs (sw s)) (loop_enter b flags) = {}"
    by (rule tinv_idle) (simp add: loop_enter_def)
  then show ?thesis
    using ginv_local [of "evs (sw s)" "bases (sw s)" "knotes (kern (sw s))" "loops s" t "loop_enter b flags"] assms(2) enter
    by (simp add: sinv_def)
next
  case (environment k')
  with assms(2) show ?thesis by (simp add: sinv_def)
qed

lemma sys_init_sinv: "sys_init knotes s \<Longrightarrow> sinv knotes s"
  using tinv_idle [of "loops s t" "evs (sw s)" "bases (sw s)" t for t]
  unfolding sys_init_def sinv_def ginv_def knotes_ok_def by (auto simp: pend_def act_def)

lemma reach_sinv:
  assumes "reach cf kr knotes s" "kqueue_spec kr knotes" "\<not> MULT_KQ cf" "EV_REALTIME cf = 0"
  shows "sinv knotes s"
  using assms(1)
proof induction
  case (step s s')
  then show ?case using sys_step_preserves [OF _ _ assms(2-4)] by blast
qed (rule sys_init_sinv)

section \<open>A reference kernel\<close>

text \<open>
  An executable kqueue for the witnesses: the registered knotes and the events the
  environment has made ready. \<open>ref_spec\<close> shows that the documented behaviour is satisfiable.
\<close>

record ref_kern =
  rnotes :: "knote \<Rightarrow> (nat \<times> bool) option"
  ready :: "knote list"

definition ref_change1 :: "int \<Rightarrow> kevent \<Rightarrow> ref_kern \<Rightarrow> ref_kern option" where
  "ref_change1 kq kev k =
     (if has_flag (kflags kev) EV_ADD then Some (k\<lparr>rnotes := (rnotes k)(kev_key kq kev \<mapsto> (udata kev, True))\<rparr>)
      else if rnotes k (kev_key kq kev) = None then None
      else if has_flag (kflags kev) EV_DELETE then Some (k\<lparr>rnotes := (rnotes k)(kev_key kq kev := None)\<rparr>)
      else Some (k\<lparr>rnotes := set_enabled True {kev_key kq kev} (rnotes k)\<rparr>))"

fun ref_change :: "ref_kern \<Rightarrow> int \<Rightarrow> kevent list \<Rightarrow> int \<times> ref_kern" where
  "ref_change k kq [] = (0, k)"
| "ref_change k kq (kev # kevs) =
     (case ref_change1 kq kev k of None \<Rightarrow> (-1, k) | Some k' \<Rightarrow> ref_change k' kq kevs)"

definition ref_deliver :: "ref_kern \<Rightarrow> int \<Rightarrow> knote list" where
  "ref_deliver k kq = take NEVENT (filter (\<lambda>x. fst x = kq \<and> (case rnotes k x of Some (u, en) \<Rightarrow> en | None \<Rightarrow> False)) (remdups (ready k)))"

definition ref_kevent :: "ref_kern \<Rightarrow> knote \<Rightarrow> kevent" where
  "ref_kevent k x = \<lparr>ident = fst (snd x), kfilter = snd (snd x), kflags = 0, fflags = 0, kdata = 0,
     udata = (case rnotes k x of Some (u, en) \<Rightarrow> u | None \<Rightarrow> 0)\<rparr>"

definition ref_wait :: "ref_kern \<Rightarrow> int \<Rightarrow> (int \<times> int \<times> kevent list) \<times> ref_kern" where
  "ref_wait k kq =
     (let xs = ref_deliver k kq
      in ((int (length xs), 0, map (ref_kevent k) xs), k\<lparr>rnotes := set_enabled False (set xs) (rnotes k)\<rparr>))"

definition ref_kernel :: "ref_kern kernel" where
  "ref_kernel = \<lparr>k_kqueue = (\<lambda>k. (3, k)), k_change = ref_change, k_wait = ref_wait,
     k_ioctl = (\<lambda>k kq r. (0, k)), k_close = (\<lambda>k kq. (0, k))\<rparr>"

lemma ref_enable:
  "\<forall>kev\<in>set kevs. kflags kev = EV_ENABLE \<and> rnotes k (kev_key kq kev) \<noteq> None \<Longrightarrow>
   \<exists>k'. ref_change k kq kevs = (0, k') \<and> rnotes k' = set_enabled True (kev_key kq ` set kevs) (rnotes k)"
proof (induction kevs arbitrary: k)
  case Nil
  then show ?case by (simp add: set_enabled_def fun_eq_iff)
next
  case (Cons kev kevs)
  let ?k1 = "k\<lparr>rnotes := set_enabled True {kev_key kq kev} (rnotes k)\<rparr>"
  have "ref_change k kq (kev # kevs) = ref_change ?k1 kq kevs"
    using Cons(2) by (auto simp: ref_change1_def)
  moreover have "\<forall>kev'\<in>set kevs. kflags kev' = EV_ENABLE \<and> rnotes ?k1 (kev_key kq kev') \<noteq> None"
    using Cons(2) by (auto simp: set_enabled_def)
  from Cons(1) [OF this] obtain k' where "ref_change ?k1 kq kevs = (0, k')"
    "rnotes k' = set_enabled True (kev_key kq ` set kevs) (rnotes ?k1)" by blast
  moreover have "set_enabled True (kev_key kq ` set kevs) (rnotes ?k1) = set_enabled True (kev_key kq ` set (kev # kevs)) (rnotes k)"
    by (rule ext) (auto simp: set_enabled_def option.map_comp o_def split_def)
  ultimately show ?case by simp
qed

lemma ref_deliverD:
  "x \<in> set (ref_deliver k kq) \<Longrightarrow> fst x = kq \<and> (\<exists>u. rnotes k x = Some (u, True))"
  "distinct (ref_deliver k kq)" "length (ref_deliver k kq) \<le> NEVENT"
  by (auto simp: ref_deliver_def dest!: in_set_takeD split: option.splits)

lemma ref_kevent_key: "fst x = kq \<Longrightarrow> kev_key kq (ref_kevent k x) = x"
  by (auto simp: kev_key_def ref_kevent_def)

lemma ref_spec: "kqueue_spec ref_kernel rnotes"
proof -
  have "spec_add ref_kernel rnotes"
    by (auto simp: spec_add_def ref_kernel_def ref_change1_def)
  moreover have "spec_del ref_kernel rnotes"
    by (auto simp: spec_del_def ref_kernel_def ref_change1_def)
  moreover have "spec_enable ref_kernel rnotes"
    unfolding spec_enable_def
  proof (intro allI impI)
    fix k kq kevs r k'
    assume a: "\<forall>kev\<in>set kevs. kflags kev = EV_ENABLE \<and> (\<exists>b. rnotes k (kev_key kq kev) = Some (udata kev, b))"
      and "k_change ref_kernel k kq kevs = (r, k')"
    moreover have "\<forall>kev\<in>set kevs. kflags kev = EV_ENABLE \<and> rnotes k (kev_key kq kev) \<noteq> None" using a by auto
    ultimately show "r = 0 \<and> rnotes k' = set_enabled True (kev_key kq ` set kevs) (rnotes k)"
      using ref_enable [of kevs k kq] by (auto simp: ref_kernel_def)
  qed
  moreover have "spec_wait ref_kernel rnotes"
    unfolding spec_wait_def
  proof (intro allI impI)
    fix k kq r err kevs k'
    assume "k_wait ref_kernel k kq = ((r, err, kevs), k')"
    then have e: "kevs = map (ref_kevent k) (ref_deliver k kq)" "r = int (length (ref_deliver k kq))"
      "k' = k\<lparr>rnotes := set_enabled False (set (ref_deliver k kq)) (rnotes k)\<rparr>"
      by (auto simp: ref_kernel_def ref_wait_def Let_def)
    have m: "map (kev_key kq) kevs = ref_deliver k kq"
      unfolding e(1) map_map by (rule map_idI) (auto simp: ref_kevent_key dest: ref_deliverD(1))
    then have "set (ref_deliver k kq) = kev_key kq ` set kevs" by (metis set_map)
    moreover have "rnotes k (kev_key kq kev) = Some (udata kev, True)" if "kev \<in> set kevs" for kev
      using that unfolding e(1) by (auto simp: kev_key_def ref_kevent_def dest!: ref_deliverD(1))
    ultimately show "r \<le> int NEVENT \<and> (r < 0 \<longrightarrow> rnotes k' = rnotes k)
      \<and> (0 \<le> r \<longrightarrow> length kevs = nat r \<and> distinct (map (kev_key kq) kevs)
         \<and> (\<forall>kev\<in>set kevs. rnotes k (kev_key kq kev) = Some (udata kev, True))
         \<and> rnotes k' = set_enabled False (kev_key kq ` set kevs) (rnotes k))"
      using ref_deliverD(2,3) [of k kq] m e by simp
  qed
  ultimately show ?thesis by (simp add: kqueue_spec_def)
qed

text \<open>Schedules of the threads over the reference kernel.\<close>

datatype action = ALoop nat | AClient nat client_op | AEnter nat nat u32 | AReady "knote list"

definition exec1 :: "kqconf \<Rightarrow> action \<Rightarrow> ref_kern sys \<Rightarrow> ref_kern sys outcome" where
  "exec1 cf a s =
     (case a of
        ALoop t \<Rightarrow> (case loop_step cf ref_kernel t (sw s) (loops s t) of
            Ret (w, l) \<Rightarrow> Ret (s\<lparr>sw := w, loops := (loops s)(t := l)\<rparr>)
          | Wait \<Rightarrow> Wait | AssertFail \<Rightarrow> AssertFail | _ \<Rightarrow> Undef)
      | AClient t opn \<Rightarrow>
          if pc (loops s t) = InHandler \<or> pc (loops s t) = Ended
          then (case client_exec cf ref_kernel t opn (sw s) of
                  Ret w \<Rightarrow> Ret (s\<lparr>sw := w\<rparr>) | Wait \<Rightarrow> Wait | AssertFail \<Rightarrow> AssertFail | _ \<Rightarrow> Undef)
          else Undef
      | AEnter t b fl \<Rightarrow> if pc (loops s t) = Ended then Ret (s\<lparr>loops := (loops s)(t := loop_enter b fl)\<rparr>) else Undef
      | AReady xs \<Rightarrow> Ret (s\<lparr>sw := (sw s)\<lparr>kern := (kern (sw s))\<lparr>ready := xs\<rparr>\<rparr>\<rparr>))"

fun exec_run :: "kqconf \<Rightarrow> action list \<Rightarrow> ref_kern sys \<Rightarrow> ref_kern sys outcome" where
  "exec_run cf [] s = Ret s"
| "exec_run cf (a # as) s = (case exec1 cf a s of Ret s' \<Rightarrow> exec_run cf as s' | x \<Rightarrow> x)"

fun run_allowed :: "kqconf \<Rightarrow> action list \<Rightarrow> ref_kern sys \<Rightarrow> bool" where
  "run_allowed cf [] s \<longleftrightarrow> True"
| "run_allowed cf (a # as) s \<longleftrightarrow>
     (case a of AClient t opn \<Rightarrow> allowed opn s | _ \<Rightarrow> True)
     \<and> (case exec1 cf a s of Ret s' \<Rightarrow> run_allowed cf as s' | _ \<Rightarrow> False)"

lemma exec1_step:
  assumes "exec1 cf a s = Ret s'" "case a of AClient t opn \<Rightarrow> allowed opn s | _ \<Rightarrow> True"
  shows "sys_step cf ref_kernel rnotes s s'"
proof (cases a)
  case (ALoop t)
  with assms(1) show ?thesis by (auto simp: exec1_def intro: sys_step.loop split: outcome.splits)
next
  case (AClient t opn)
  with assms show ?thesis by (auto simp: exec1_def intro!: sys_step.client split: outcome.splits if_splits)
next
  case (AEnter t b fl)
  with assms(1) show ?thesis by (auto simp: exec1_def intro: sys_step.enter split: if_splits)
next
  case (AReady xs)
  with assms(1) show ?thesis by (auto simp: exec1_def intro: sys_step.environment)
qed

lemma exec_run_reach:
  "reach cf ref_kernel rnotes s \<Longrightarrow> run_allowed cf as s \<Longrightarrow> exec_run cf as s = Ret s' \<Longrightarrow> reach cf ref_kernel rnotes s'"
proof (induction as arbitrary: s)
  case (Cons a as)
  then obtain s1 where s1: "exec1 cf a s = Ret s1" by (auto split: outcome.splits)
  with Cons exec1_step [of cf a s s1] have "reach cf ref_kernel rnotes s1" by (auto intro: reach.step)
  with Cons s1 show ?case by simp
qed simp

definition single_kq :: kqconf where
  "single_kq = \<lparr>MULT_KQ = False, EV_REALTIME = 0\<rparr>"

definition sys0 :: "ref_kern sys" where
  "sys0 = \<lparr>sw = \<lparr>evs = \<lambda>_. \<lparr>lk = None, ev_base = None, cv_init = 0, owner = None, ev_fd = 0, ev_type = 0, ev_fn = 0, ev_arg = 0, ev_state = 0, epoch = 0\<rparr>,
     bases = [0 \<mapsto> \<lparr>eb_kqfd = 3, eb_conf = \<lparr>eb_flags = 0, kq_rshare = 100, kq_freq = 0, conf_data = 0\<rparr>\<rparr>],
     timer_base = -1, errno = \<lambda>_. 0, kern = \<lparr>rnotes = Map.empty, ready = []\<rparr>\<rparr>,
     loops = \<lambda>_. (loop_enter 0 0)\<lparr>pc := Ended\<rparr>\<rparr>"

definition add_event :: "nat \<Rightarrow> nat \<Rightarrow> int \<Rightarrow> u16 \<Rightarrow> action list" where
  "add_event t e fd ty = [AClient t (OpSet e fd ty 0 0), AClient t (OpBaseSet 0 e), AClient t (OpAdd e None)]"

definition one_handler :: "action list" where
  "one_handler = add_event 0 5 7 (EV_READ OR EV_PERSIST) @ [AEnter 1 0 0, AReady [(3, 7, EVFILT_READ)], ALoop 1, ALoop 1, ALoop 1, ALoop 1]"

lemma reach_sys0: "reach cf ref_kernel rnotes sys0"
  by (rule reach.init) (auto simp: sys_init_def sys0_def magic_def)

lemmas run_simps =
  exec1_def single_kq_def client_exec_def event_set_def ev_lock_def ev_unlock_def set_ev_def Let_def
  event_base_set_def event_add_def event_del_def event_del_flags_def init_kevent_def type_filter_def
  deactivate_changed_def ref_kernel_def ref_change1_def kev_key_def loop_step_def loop_enter_def loop_poll_def
  ref_wait_def ref_deliver_def ref_kevent_def loop_collect_def loop_dispatch_def loop_complete_def set_enabled_def
  allowed_def magic_def pend_def live_def handling_def queued_def ev_key_def

lemma one_handler_run:
  "run_allowed single_kq one_handler sys0 \<and> (\<exists>s. exec_run single_kq one_handler sys0 = Ret s
     \<and> 5 \<in> live (evs (sw s)) (loops s 1) \<and> pc (loops s 1) = InHandler)"
  unfolding one_handler_def add_event_def sys0_def by (simp add: run_simps)

section \<open>Properties\<close>






definition batch_delete :: "action list" where
  "batch_delete = add_event 0 5 7 (EV_READ OR EV_PERSIST) @ add_event 0 6 8 (EV_READ OR EV_PERSIST)
     @ [AEnter 1 0 0, AReady [(3, 7, EVFILT_READ), (3, 8, EVFILT_READ)], ALoop 1, ALoop 1, ALoop 1, ALoop 1, ALoop 1,
        AClient 1 (OpDel 6), ALoop 1, ALoop 1]"

lemma batch_delete_run:
  "run_allowed single_kq batch_delete sys0"
  "\<exists>s. exec_run single_kq batch_delete sys0 = Ret s \<and> pc (loops s 1) = InHandler \<and> fst (active (loops s 1) ! idx (loops s 1)) = 6
     \<and> \<not> has_flag (ev_state (evs (sw s) 6)) EVS_PENDING"
  unfolding batch_delete_def add_event_def sys0_def by (simp_all add: run_simps)

text \<open>
  A callback runs for an event that was deleted: when the kernel returns two events in
  one batch and the first handler successfully deletes the second event, the loop still calls
  the second handler, since the dispatch phase does not look at the epoch.
\<close>
theorem event_callback_after_delete:
  "\<exists>s. reach single_kq ref_kernel rnotes s \<and> pc (loops s 1) = InHandler
     \<and> fst (active (loops s 1) ! idx (loops s 1)) = 6 \<and> \<not> has_flag (ev_state (evs (sw s) 6)) EVS_PENDING"
  using batch_delete_run exec_run_reach [OF reach_sys0 batch_delete_run(1)] by blast

definition two_loops :: "action list" where
  "two_loops = add_event 0 5 7 (EV_READ OR EV_PERSIST) @ add_event 0 6 8 (EV_READ OR EV_PERSIST)
     @ [AEnter 1 0 0, AReady [(3, 7, EVFILT_READ), (3, 8, EVFILT_READ)], ALoop 1, ALoop 1, ALoop 1, ALoop 1, ALoop 1,
        AClient 1 (OpDel 5), AClient 1 (OpAdd 5 None), ALoop 1, ALoop 1, AClient 1 (OpDel 6), AClient 1 (OpAdd 6 None), ALoop 1, ALoop 1,
        AEnter 2 0 0, AReady [(3, 8, EVFILT_READ), (3, 7, EVFILT_READ)], ALoop 2, ALoop 2, ALoop 2, ALoop 2, ALoop 2, ALoop 2, ALoop 2, ALoop 2, ALoop 2,
        ALoop 1, ALoop 2]"

lemma two_loops_run:
  "run_allowed single_kq two_loops sys0"
  "\<exists>s. exec_run single_kq two_loops sys0 = Ret s \<and> lk (evs (sw s) 5) = Some 1 \<and> lk (evs (sw s) 6) = Some 2
     \<and> loop_step single_kq ref_kernel 1 (sw s) (loops s 1) = Wait \<and> loop_step single_kq ref_kernel 2 (sw s) (loops s 2) = Wait"
  unfolding two_loops_def add_event_def sys0_def by (simp_all add: run_simps)

text \<open>
  C32. Two loops can deadlock: the completion phase locks the events of a batch one by one in
  batch order and keeps every lock until the batch is done. When both handlers of a batch
  delete and re-add their events, a second loop receives the same two events in the other
  order, and each loop then waits for a lock that only the other one can release.
\<close>
theorem event_loop_deadlock:
  "\<exists>s. reach single_kq ref_kernel rnotes s
     \<and> lk (evs (sw s) 5) = Some 1 \<and> lk (evs (sw s) 6) = Some 2
     \<and> loop_step single_kq ref_kernel 1 (sw s) (loops s 1) = Wait
     \<and> loop_step single_kq ref_kernel 2 (sw s) (loops s 2) = Wait"
  using two_loops_run exec_run_reach [OF reach_sys0 two_loops_run(1)] by blast

end
