(* ===== verification/Slab_Automove.thy ===== *)
theory Slab_Automove
  imports Prelude
begin

text \<open>
  The two page-balancing policies of the slab allocator: \<open>src/mem/slab_automove.c\<close> and, for
  external storage, \<open>src/mem/slab_automove_extstore.c\<close>. A policy keeps a ring of statistics for
  each slab class and proposes a page move (\<open>src\<close>, \<open>dst\<close>).

  The statistics come from \<open>fill_item_stats_automove\<close> and \<open>fill_slab_stats_automove\<close> and are
  arguments here. Products of page counts with 1.5 and 2.5 are exact in \<open>double\<close> for the 32-bit
  counts that occur, and are written as integer comparisons. The two places where a configured
  \<open>double\<close> enters are parameters: \<open>below_ratio y o\<close> is \<open>y < (double)o * max_age_ratio\<close>, and
  \<open>scale x\<close> is \<open>x * free_ratio\<close> converted to \<open>unsigned int\<close>. \<open>None\<close> is a division by zero or an
  access outside the ring.
\<close>

abbreviation (input) MAX_NUMBER_OF_SLAB_CLASSES :: nat where "MAX_NUMBER_OF_SLAB_CLASSES \<equiv> 64"
abbreviation (input) POWER_SMALLEST :: nat where "POWER_SMALLEST \<equiv> 1"
abbreviation (input) MIN_PAGES_FOR_SOURCE :: int where "MIN_PAGES_FOR_SOURCE \<equiv> 2"

record item_stats_automove =
  evicted :: int
  outofmemory :: int
  iage :: u32

record slab_stats_automove =
  chunks_per_page :: u32
  chunk_size :: u32
  free_chunks :: int
  total_pages :: int

text \<open>
  Whether the entry of the current period of class \<open>n\<close>, or the window of the class, is outside an
  array of \<open>len\<close> entries: \<open>int w_offset = n * window_size\<close> is computed in 32 bits.
\<close>

definition ring_overrun :: "u32 \<Rightarrow> u32 \<Rightarrow> nat \<Rightarrow> nat \<Rightarrow> bool" where
  "ring_overrun ws cur n len \<longleftrightarrow>
     c_int (of_nat n * ws) < 0 \<or> unat (of_nat n * ws + cur mod ws) \<ge> len \<or> nat (c_int (of_nat n * ws)) + unat ws > len"

section \<open>The default policy\<close>

record window_data =
  age :: u64
  dirty :: u64
  wevicted :: u64

definition wd0 :: window_data where
  "wd0 = \<lparr>age = 0, dirty = 0, wevicted = 0\<rparr>"

record slab_automove =
  window_data :: "window_data list"
  window_size :: u32
  window_cur :: u32
  iam_before :: "item_stats_automove list"
  sam_before :: "slab_stats_automove list"

text \<open>
  \<open>calloc1\<close> and \<open>calloc2\<close> tell whether the two allocations succeed; the number of ring entries is
  computed in 32 bits.
\<close>

definition slab_automove_init ::
    "bool \<Rightarrow> bool \<Rightarrow> u32 \<Rightarrow> item_stats_automove list \<Rightarrow> slab_stats_automove list \<Rightarrow> slab_automove option" where
  "slab_automove_init calloc1 calloc2 wsize iam sam =
     (if calloc1 \<and> calloc2
      then Some \<lparr>window_data = replicate (unat (wsize * of_nat MAX_NUMBER_OF_SLAB_CLASSES)) wd0, window_size = wsize,
                 window_cur = 0, iam_before = iam, sam_before = sam\<rparr>
      else None)"

fun window_sum :: "window_data list \<Rightarrow> window_data \<Rightarrow> window_data" where
  "window_sum [] w = w"
| "window_sum (d # ds) w =
     window_sum ds (w\<lparr>age := age w + age d, dirty := dirty w + dirty d, wevicted := wevicted w + wevicted d\<rparr>)"

record scan =
  sc_src :: int
  sc_dst :: int
  oldest :: int
  oldest_age :: u64
  youngest :: int
  youngest_age :: u64
  youngest_evicting :: bool

definition scan0 :: scan where
  "scan0 = \<lparr>sc_src = -1, sc_dst = -1, oldest = -1, oldest_age = 0, youngest = -1, youngest_age = - 1, youngest_evicting = False\<rparr>"

text \<open>The new entry of a class's window.\<close>

definition window_entry :: "item_stats_automove \<Rightarrow> item_stats_automove \<Rightarrow> slab_stats_automove \<Rightarrow> slab_stats_automove \<Rightarrow> window_data" where
  "window_entry ib ia sb sa =
     (let e = evicted ia - evicted ib > 0 \<or> outofmemory ia - outofmemory ib > 0;
          d = e \<or> total_pages sa - total_pages sb > 0
      in \<lparr>age = ucast (iage ia), dirty = (if d then 1 else 0), wevicted = (if e then 1 else 0)\<rparr>)"

definition scan_update :: "u32 \<Rightarrow> nat \<Rightarrow> slab_stats_automove \<Rightarrow> window_data \<Rightarrow> window_data \<Rightarrow> scan \<Rightarrow> scan \<times> bool" where
  "scan_update wsize n sa w_sum wd sc =
     (let ag = age w_sum div ucast wsize
      in if 2 * free_chunks sa > 5 * int (unat (chunks_per_page sa)) \<and> dirty w_sum = 0
         then (sc\<lparr>sc_src := int n, sc_dst := 0\<rparr>, True)
         else let sc = (if ag > oldest_age sc \<and> total_pages sa > MIN_PAGES_FOR_SOURCE
                        then sc\<lparr>oldest := int n, oldest_age := ag\<rparr> else sc);
                  sc = (if ag < youngest_age sc \<and> wevicted w_sum > ucast (wsize div 2)
                        then sc\<lparr>youngest := int n, youngest_age := ag, youngest_evicting := (wevicted wd \<noteq> 0)\<rparr>
                        else sc)
              in (sc, False))"

text \<open>
  The body of the loop over the classes; the flag of the result is \<open>break\<close>. The slot of the
  current period is cleared before the window is summed.
\<close>

definition automove_class ::
    "slab_automove \<Rightarrow> item_stats_automove list \<Rightarrow> slab_stats_automove list \<Rightarrow> nat \<Rightarrow> window_data list \<Rightarrow> scan
     \<Rightarrow> (window_data list \<times> scan \<times> bool) option" where
  "automove_class a iam_after sam_after n wds sc =
     (let off = c_int (of_nat n * window_size a);
          i = unat (of_nat n * window_size a + window_cur a mod window_size a);
          sa = sam_after ! n
      in if ring_overrun (window_size a) (window_cur a) n (length wds) then None
         else let cleared = wds[i := wd0];
                  w_sum = window_sum (seg (nat off) (nat off + unat (window_size a)) cleared) wd0;
                  wd = window_entry (iam_before a ! n) (iam_after ! n) (sam_before a ! n) sa;
                  wds = cleared[i := wd]
              in Some (wds, scan_update (window_size a) n sa w_sum wd sc))"

fun automove_scan ::
    "slab_automove \<Rightarrow> item_stats_automove list \<Rightarrow> slab_stats_automove list \<Rightarrow> nat list \<Rightarrow> window_data list \<Rightarrow> scan
     \<Rightarrow> (window_data list \<times> scan) option" where
  "automove_scan a ia sa [] wds sc = Some (wds, sc)"
| "automove_scan a ia sa (n # ns) wds sc =
     (case automove_class a ia sa n wds sc of
        None \<Rightarrow> None
      | Some (wds, sc, brk) \<Rightarrow> if brk then Some (wds, sc) else automove_scan a ia sa ns wds sc)"

definition slab_automove_run ::
    "(u64 \<Rightarrow> u64 \<Rightarrow> bool) \<Rightarrow> slab_automove \<Rightarrow> item_stats_automove list \<Rightarrow> slab_stats_automove list
     \<Rightarrow> (slab_automove \<times> int \<times> int) option" where
  "slab_automove_run below_ratio a iam_after sam_after =
     (let a = a\<lparr>window_cur := window_cur a + 1\<rparr>
      in if window_size a = 0 then None
         else case automove_scan a iam_after sam_after [POWER_SMALLEST..<MAX_NUMBER_OF_SLAB_CLASSES] (window_data a) scan0 of
                None \<Rightarrow> None
              | Some (wds, sc) \<Rightarrow>
                  let a = a\<lparr>window_data := wds, iam_before := iam_after, sam_before := sam_after\<rparr>
                  in if youngest sc \<noteq> -1 \<and> oldest sc \<noteq> -1 \<and> window_cur a > window_size a
                        \<and> below_ratio (youngest_age sc) (oldest_age sc) \<and> youngest_evicting sc
                     then Some (a, oldest sc, youngest sc)
                     else Some (a, sc_src sc, sc_dst sc))"

section \<open>The policy for external storage\<close>

record xwindow_data =
  xage :: u64
  xdirty :: u64
  xevicted :: u64
  excess_free :: u32
  relaxed :: u32

definition xwd0 :: xwindow_data where
  "xwd0 = \<lparr>xage = 0, xdirty = 0, xevicted = 0, excess_free = 0, relaxed = 0\<rparr>"

record window_global =
  pool_low :: u32
  pool_high :: u32

definition wg0 :: window_global where
  "wg0 = \<lparr>pool_low = 0, pool_high = 0\<rparr>"

record xslab_automove =
  xwindow_data :: "xwindow_data list"
  window_global :: "window_global list"
  xwindow_size :: u32
  xwindow_cur :: u32
  item_size :: u32
  last_memcheck_run :: u32
  pool_filled_once :: bool
  free_mem :: "u32 list"
  ext_free_memchunks :: "u32 list"
  xiam_before :: "item_stats_automove list"
  xsam_before :: "slab_stats_automove list"
  xsam_after :: "slab_stats_automove list"

definition slab_automove_extstore_init ::
    "bool \<Rightarrow> bool \<Rightarrow> bool \<Rightarrow> u32 \<Rightarrow> u32 \<Rightarrow> u32 list \<Rightarrow> slab_stats_automove list \<Rightarrow> item_stats_automove list \<Rightarrow> slab_stats_automove list
     \<Rightarrow> xslab_automove option" where
  "slab_automove_extstore_init calloc1 calloc2 calloc3 wsize isize memchunks zero iam sam =
     (if calloc1 \<and> calloc2 \<and> calloc3
      then Some \<lparr>xwindow_data = replicate (unat (wsize * of_nat MAX_NUMBER_OF_SLAB_CLASSES)) xwd0,
                 window_global = replicate (unat wsize) wg0, xwindow_size = wsize, xwindow_cur = 0, item_size = isize,
                 last_memcheck_run = 0, pool_filled_once = False, free_mem = replicate MAX_NUMBER_OF_SLAB_CLASSES 0,
                 ext_free_memchunks = memchunks, xiam_before = iam, xsam_before = sam, xsam_after = zero\<rparr>
      else None)"

fun xwindow_sum :: "xwindow_data list \<Rightarrow> xwindow_data \<Rightarrow> xwindow_data" where
  "xwindow_sum [] w = w"
| "xwindow_sum (d # ds) w =
     xwindow_sum ds (w\<lparr>xage := xage w + xage d, xdirty := xdirty w + xdirty d, xevicted := xevicted w + xevicted d,
       excess_free := excess_free w + excess_free d, relaxed := relaxed w + relaxed d\<rparr>)"

fun window_global_sum :: "window_global list \<Rightarrow> window_global \<Rightarrow> window_global" where
  "window_global_sum [] w = w"
| "window_global_sum (d # ds) w =
     window_global_sum ds (w\<lparr>pool_high := pool_high w + pool_high d, pool_low := pool_low w + pool_low d\<rparr>)"

text \<open>\<open>count\<close> and \<open>limit\<close> are the results of \<open>global_page_pool_size\<close>.\<close>

definition global_pool_check :: "u32 \<Rightarrow> bool \<Rightarrow> xslab_automove \<Rightarrow> xslab_automove option" where
  "global_pool_check count limit a =
     (let free = free_mem a ! 0
      in if xwindow_size a = 0 then None
         else let i = unat (xwindow_cur a mod xwindow_size a)
              in if i \<ge> length (window_global a) then None
                 else if \<not> limit then Some (a\<lparr>window_global := (window_global a)[i := wg0]\<rparr>)
                 else if count < free div 2
                 then Some (a\<lparr>window_global := (window_global a)[i := wg0\<lparr>pool_low := 1\<rparr>], pool_filled_once := True\<rparr>)
                 else if count > free then Some (a\<lparr>window_global := (window_global a)[i := wg0\<lparr>pool_high := 1\<rparr>]\<rparr>)
                 else Some (a\<lparr>window_global := (window_global a)[i := wg0], pool_filled_once := True\<rparr>))"

definition memcheck_class :: "(int \<Rightarrow> u32) \<Rightarrow> nat \<Rightarrow> xslab_automove \<times> u32 \<Rightarrow> xslab_automove \<times> u32" where
  "memcheck_class scale n at =
     (case at of (a, pages) \<Rightarrow>
        let sam = xsam_after a ! n;
            hold = scale (total_pages sam * int (unat (chunks_per_page sam)));
            hold = (if 3 * unat (chunks_per_page sam) > 2 * unat hold
                    then of_nat (3 * unat (chunks_per_page sam) div 2) else hold);
            a = a\<lparr>free_mem := (free_mem a)[n := hold]\<rparr>;
            a = (if ext_free_memchunks a ! n \<noteq> hold \<and> pool_filled_once a
                 then a\<lparr>ext_free_memchunks := (ext_free_memchunks a)[n := hold]\<rparr> else a)
        in (a, pages + word_of_int (total_pages sam)))"

definition memcheck :: "(int \<Rightarrow> u32) \<Rightarrow> u32 \<Rightarrow> xslab_automove \<Rightarrow> xslab_automove" where
  "memcheck scale now a =
     (if now < last_memcheck_run a + 60 then a
      else case fold (memcheck_class scale) [1..<MAX_NUMBER_OF_SLAB_CLASSES] (a\<lparr>last_memcheck_run := now\<rparr>, 0) of
             (a, pages) \<Rightarrow>
               let pages = pages + word_of_int (total_pages (xsam_after a ! 0))
               in a\<lparr>free_mem := (free_mem a)[0 := scale (int (unat pages))]\<rparr>)"

definition get_window_data :: "xslab_automove \<Rightarrow> nat \<Rightarrow> nat" where
  "get_window_data a c = unat (of_nat c * xwindow_size a + xwindow_cur a mod xwindow_size a)"

record xscan =
  xsrc :: int
  xdst :: int
  xoldest :: int
  xoldest_age :: u64
  xyoungest :: int
  xyoungest_age :: u64
  too_free :: bool

definition xscan0 :: xscan where
  "xscan0 = \<lparr>xsrc = -1, xdst = -1, xoldest = -1, xoldest_age = 0, xyoungest = -1, xyoungest_age = - 1, too_free = False\<rparr>"

definition xwindow_entry ::
    "item_stats_automove \<Rightarrow> item_stats_automove \<Rightarrow> slab_stats_automove \<Rightarrow> slab_stats_automove \<Rightarrow> u32 \<Rightarrow> xwindow_data" where
  "xwindow_entry ib ia sb sa fm =
     (let e = evicted ia - evicted ib > 0 \<or> outofmemory ia - outofmemory ib > 0;
          d = e \<or> total_pages sa - total_pages sb > 0;
          x = free_chunks sa > int (unat (fm * 2)) \<and> fm > 0
      in \<lparr>xage = ucast (iage ia), xdirty = (if d then 1 else 0), xevicted = (if e then 1 else 0),
          excess_free = (if x then 1 else 0), relaxed = 0\<rparr>)"

definition xscan_update :: "u32 \<Rightarrow> nat \<Rightarrow> slab_stats_automove \<Rightarrow> bool \<Rightarrow> bool \<Rightarrow> xwindow_data \<Rightarrow> xscan \<Rightarrow> xscan" where
  "xscan_update wsize n sa small_slab free_enough w_sum sc =
     (let ag = xage w_sum div ucast wsize;
          sc = (if 2 * free_chunks sa > 5 * int (unat (chunks_per_page sa)) \<and> xdirty w_sum = 0
                   \<and> (small_slab \<or> excess_free w_sum \<ge> wsize)
                then sc\<lparr>xsrc := int n, xdst := 0, too_free := True\<rparr> else sc);
          sc = (if \<not> small_slab \<and> ag > xoldest_age sc \<and> total_pages sa > MIN_PAGES_FOR_SOURCE
                then sc\<lparr>xoldest := int n, xoldest_age := ag\<rparr> else sc)
      in if \<not> small_slab \<and> ag < xyoungest_age sc \<and> total_pages sa \<noteq> 0 \<and> excess_free w_sum < wsize
            \<and> \<not> (relaxed w_sum \<noteq> 0 \<and> free_enough)
         then sc\<lparr>xyoungest := int n, xyoungest_age := ag\<rparr> else sc)"

text \<open>Here the window is summed before the slot of the current period is cleared.\<close>

definition extstore_class ::
    "item_stats_automove list \<Rightarrow> nat \<Rightarrow> xslab_automove \<times> xscan \<Rightarrow> (xslab_automove \<times> xscan) option" where
  "extstore_class iam_after n acc =
     (case acc of (a, sc) \<Rightarrow>
        let sa = xsam_after a ! n; fm = free_mem a ! n;
            small_slab = chunk_size (xsam_before a ! n) < item_size a;
            free_enough = free_chunks sa > int (unat fm);
            off = c_int (of_nat n * xwindow_size a);
            i = get_window_data a n
        in if ring_overrun (xwindow_size a) (xwindow_cur a) n (length (xwindow_data a)) then None
           else let w_sum = xwindow_sum (seg (nat off) (nat off + unat (xwindow_size a)) (xwindow_data a)) xwd0;
                    wd = xwindow_entry (xiam_before a ! n) (iam_after ! n) (xsam_before a ! n) sa fm;
                    a = a\<lparr>xwindow_data := (xwindow_data a)[i := wd]\<rparr>
                in Some (a, xscan_update (xwindow_size a) n sa small_slab free_enough w_sum sc))"

fun extstore_scan ::
    "item_stats_automove list \<Rightarrow> nat list \<Rightarrow> xslab_automove \<times> xscan \<Rightarrow> (xslab_automove \<times> xscan) option" where
  "extstore_scan ia [] acc = Some acc"
| "extstore_scan ia (n # ns) acc =
     (case extstore_class ia n acc of None \<Rightarrow> None | Some acc \<Rightarrow> extstore_scan ia ns acc)"

definition set_relaxed :: "int \<Rightarrow> xslab_automove \<Rightarrow> xslab_automove" where
  "set_relaxed c a =
     (let i = get_window_data a (nat c)
      in a\<lparr>xwindow_data := (xwindow_data a)[i := (xwindow_data a ! i)\<lparr>relaxed := 1\<rparr>]\<rparr>)"

definition extstore_decide :: "(u64 \<Rightarrow> u64 \<Rightarrow> bool) \<Rightarrow> window_global \<Rightarrow> xslab_automove \<Rightarrow> xscan \<Rightarrow> xslab_automove \<times> int \<times> int" where
  "extstore_decide below_ratio wg_sum a sc =
     (let y = xyoungest sc;
          absorbed = free_chunks (xsam_after a ! nat y) \<le> int (unat (free_mem a ! nat y))
      in if xwindow_cur a < xwindow_size a then (a, xsrc sc, xdst sc)
         else if pool_high wg_sum \<ge> xwindow_size a \<and> pool_low wg_sum = 0 \<and> y \<noteq> -1
         then (if absorbed then (set_relaxed y a, 0, y) else (set_relaxed y a, xsrc sc, xdst sc))
         else if \<not> too_free sc \<and> pool_low wg_sum \<noteq> 0 \<and> xoldest sc \<noteq> -1 then (a, xoldest sc, 0)
         else if \<not> too_free sc \<and> y \<noteq> -1 \<and> xoldest sc \<noteq> -1 \<and> y \<noteq> xoldest sc \<and> below_ratio (xyoungest_age sc) (xoldest_age sc)
         then (if absorbed then (set_relaxed y a, 0, y) else (set_relaxed y a, xsrc sc, xdst sc))
         else (a, xsrc sc, xdst sc))"

definition slab_automove_extstore_run ::
    "(u64 \<Rightarrow> u64 \<Rightarrow> bool) \<Rightarrow> (int \<Rightarrow> u32) \<Rightarrow> u32 \<Rightarrow> u32 \<Rightarrow> bool \<Rightarrow> xslab_automove \<Rightarrow> item_stats_automove list \<Rightarrow> slab_stats_automove list
     \<Rightarrow> (xslab_automove \<times> int \<times> int) option" where
  "slab_automove_extstore_run below_ratio scale now count limit a iam_after sam_after =
     (case global_pool_check count limit a of
        None \<Rightarrow> None
      | Some a \<Rightarrow>
          let wg_sum = window_global_sum (take (unat (xwindow_size a)) (window_global a)) wg0;
              a = memcheck scale now (a\<lparr>xsam_after := sam_after, xwindow_cur := xwindow_cur a + 1\<rparr>)
          in case extstore_scan iam_after [POWER_SMALLEST..<MAX_NUMBER_OF_SLAB_CLASSES] (a, xscan0) of
               None \<Rightarrow> None
             | Some (a, sc) \<Rightarrow>
                 Some (extstore_decide below_ratio wg_sum (a\<lparr>xiam_before := iam_after, xsam_before := sam_after\<rparr>) sc))"

section \<open>The interface of a policy\<close>

text \<open>
  What the maintenance thread relies on, for both policies: each run stays inside the rings and
  proposes no move or a move between two different slab classes (0 is the global page
  pool) whose source, when it is not the pool, has more than two pages.
\<close>

definition move_ok :: "(nat \<Rightarrow> int) \<Rightarrow> int \<Rightarrow> int \<Rightarrow> bool" where
  "move_ok pages src dst \<longleftrightarrow>
     src = -1 \<and> dst = -1
   \<or> src \<noteq> dst \<and> 0 \<le> src \<and> src < int MAX_NUMBER_OF_SLAB_CLASSES \<and> 0 \<le> dst \<and> dst < int MAX_NUMBER_OF_SLAB_CLASSES
     \<and> (src > 0 \<longrightarrow> pages (nat src) > 2)"

fun policy_run :: "('i \<Rightarrow> 's \<Rightarrow> ('s \<times> int \<times> int) option) \<Rightarrow> 'i list \<Rightarrow> 's \<Rightarrow> ('s \<times> (int \<times> int) list) option" where
  "policy_run step [] s = Some (s, [])"
| "policy_run step (i # is) s =
     (case step i s of None \<Rightarrow> None
      | Some (s', m) \<Rightarrow> (case policy_run step is s' of None \<Rightarrow> None | Some (s'', ms) \<Rightarrow> Some (s'', m # ms)))"

locale page_policy =
  fixes step :: "'i \<Rightarrow> 's \<Rightarrow> ('s \<times> int \<times> int) option" and wf :: "'s \<Rightarrow> bool" and sane :: "'i \<Rightarrow> bool"
    and pages :: "'i \<Rightarrow> nat \<Rightarrow> int"
  assumes step_ok: "wf s \<Longrightarrow> sane i \<Longrightarrow> \<exists>s' src dst. step i s = Some (s', src, dst) \<and> wf s' \<and> move_ok (pages i) src dst"
begin

lemma run_ok:
  "wf s \<Longrightarrow> list_all sane is \<Longrightarrow>
   \<exists>s' ms. policy_run step is s = Some (s', ms) \<and> wf s' \<and> list_all2 (\<lambda>i m. move_ok (pages i) (fst m) (snd m)) is ms"
proof (induction "is" arbitrary: s)
  case (Cons i "is")
  then obtain s1 src dst where "step i s = Some (s1, src, dst)" "wf s1" "move_ok (pages i) src dst"
    using step_ok by fastforce
  with Cons(1) [of s1] Cons(3) show ?case by fastforce
qed simp

end

text \<open>The statistics of a class: no more free chunks than its pages hold.\<close>

definition sane_sam :: "slab_stats_automove list \<Rightarrow> bool" where
  "sane_sam sam \<longleftrightarrow> (\<forall>n<MAX_NUMBER_OF_SLAB_CLASSES. 0 \<le> free_chunks (sam ! n)
     \<and> free_chunks (sam ! n) \<le> total_pages (sam ! n) * int (unat (chunks_per_page (sam ! n))))"

lemma reclaim_pages:
  assumes "sane_sam sam" "n < MAX_NUMBER_OF_SLAB_CLASSES" "2 * free_chunks (sam ! n) > 5 * int (unat (chunks_per_page (sam ! n)))"
  shows "total_pages (sam ! n) > 2"
proof (rule ccontr)
  let ?c = "int (unat (chunks_per_page (sam ! n)))" and ?p = "total_pages (sam ! n)"
  assume "\<not> 2 < ?p"
  then have "?p * ?c \<le> 2 * ?c" by (intro mult_right_mono) auto
  moreover have "free_chunks (sam ! n) \<le> ?p * ?c" using assms by (auto simp: sane_sam_def)
  ultimately show False using assms(3) by linarith
qed

section \<open>The default policy is safe\<close>

definition automove_wf :: "slab_automove \<Rightarrow> bool" where
  "automove_wf a \<longleftrightarrow> 0 < unat (window_size a) \<and> unat (window_size a) \<le> 2 ^ 25
     \<and> length (window_data a) = MAX_NUMBER_OF_SLAB_CLASSES * unat (window_size a)"

text \<open>The ring of a class lies inside the array; the 32-bit index arithmetic does not wrap.\<close>

lemma ring_in_bounds:
  fixes ws cur :: u32
  assumes "0 < unat ws" "unat ws \<le> 2 ^ 25" "n < 64"
  shows "\<not> ring_overrun ws cur n (64 * unat ws)"
proof -
  have le: "n * unat ws + unat ws \<le> 64 * unat ws" using assms(3) mult_le_mono1 [of "n + 1" 64 "unat ws"] by simp
  have "64 * unat ws \<le> 2 ^ 31" using assms(2) by simp
  with le have b: "n * unat ws + unat ws \<le> 2 ^ 31" by (rule order_trans)
  have n: "unat (of_nat n :: u32) = n" using assms(3) by (simp add: unat_of_nat)
  have m: "unat (of_nat n * ws) = n * unat ws"
    using b assms(1) n by (simp add: unat_word_ariths(2))
  have r: "unat (cur mod ws) = unat cur mod unat ws" by (simp add: unat_mod)
  have "unat cur mod unat ws < unat ws" using assms(1) by simp
  then have i: "n * unat ws + unat cur mod unat ws < 64 * unat ws" using le by linarith
  have c: "c_int (of_nat n * ws) = int (n * unat ws)"
    using c_int_small [of "of_nat n * ws"] m b assms(1) by simp
  have "unat (of_nat n * ws + cur mod ws) = n * unat ws + unat cur mod unat ws"
    using unat_add_no_wrap [of "of_nat n * ws" "cur mod ws"] m r i assms(2) by simp
  with c i le show ?thesis by (simp add: ring_overrun_def del: of_nat_mult)
qed

text \<open>What the scan has established over the classes it visited.\<close>

definition scan_ok :: "slab_stats_automove list \<Rightarrow> nat set \<Rightarrow> scan \<Rightarrow> bool" where
  "scan_ok sam V sc \<longleftrightarrow>
     (sc_src sc = -1 \<and> sc_dst sc = -1 \<or> sc_dst sc = 0 \<and> (\<exists>n\<in>V. sc_src sc = int n \<and> 2 * free_chunks (sam ! n) > 5 * int (unat (chunks_per_page (sam ! n)))))
   \<and> (oldest sc = -1 \<or> (\<exists>n\<in>V. oldest sc = int n \<and> total_pages (sam ! n) > 2))
   \<and> (youngest sc = -1 \<or> (\<exists>n\<in>V. youngest sc = int n))
   \<and> (oldest sc = youngest sc \<and> oldest sc \<noteq> -1 \<longrightarrow> oldest_age sc = youngest_age sc)"

lemma scan_ok_mono: "scan_ok sam V sc \<Longrightarrow> V \<subseteq> W \<Longrightarrow> scan_ok sam W sc"
  unfolding scan_ok_def by blast

lemma scan_update_ok:
  assumes s: "scan_ok sam V sc" and V: "n \<notin> V"
  shows "scan_ok sam (insert n V) (fst (scan_update wsize n (sam ! n) w_sum wd sc))"
proof -
  let ?ag = "age w_sum div ucast wsize" and ?W = "insert n V"
  have s': "scan_ok sam ?W sc" using s by (rule scan_ok_mono) blast
  have ne: "int n \<noteq> x" if "x = -1 \<or> (\<exists>m\<in>V. x = int m)" for x using that V by auto
  have o: "int n \<noteq> oldest sc" and y: "int n \<noteq> youngest sc"
    using s ne [of "oldest sc"] ne [of "youngest sc"] unfolding scan_ok_def by blast+
  show ?thesis
  proof (cases "2 * free_chunks (sam ! n) > 5 * int (unat (chunks_per_page (sam ! n))) \<and> dirty w_sum = 0")
    case True
    then show ?thesis using s' by (simp add: scan_update_def Let_def scan_ok_def)
  next
    case False
    define sc1 where "sc1 = (if ?ag > oldest_age sc \<and> total_pages (sam ! n) > MIN_PAGES_FOR_SOURCE
      then sc\<lparr>oldest := int n, oldest_age := ?ag\<rparr> else sc)"
    have 1: "scan_ok sam ?W sc1" "oldest sc1 = int n \<longrightarrow> oldest_age sc1 = ?ag"
      using s' o y by (auto simp: sc1_def scan_ok_def)
    then show ?thesis
      using False by (auto simp: scan_update_def Let_def sc1_def [symmetric] scan_ok_def)
  qed
qed

lemma class_ok:
  assumes wf: "automove_wf a" and l: "length wds = length (window_data a)" and n: "n < MAX_NUMBER_OF_SLAB_CLASSES"
    and s: "scan_ok sam V sc" and V: "n \<notin> V"
  shows "\<exists>wds' sc' brk. automove_class a ia sam n wds sc = Some (wds', sc', brk) \<and> length wds' = length wds \<and> scan_ok sam (insert n V) sc'"
proof -
  have "\<not> ring_overrun (window_size a) (window_cur a) n (length wds)"
    using ring_in_bounds [OF _ _ n, of "window_size a" "window_cur a"] wf l by (simp add: automove_wf_def)
  then obtain wds' w1 w2 where c: "automove_class a ia sam n wds sc = Some (wds', scan_update (window_size a) n (sam ! n) w1 w2 sc)"
    "length wds' = length wds"
    by (simp add: automove_class_def Let_def)
  obtain sc' brk where u: "scan_update (window_size a) n (sam ! n) w1 w2 sc = (sc', brk)" by fastforce
  with c scan_update_ok [OF s V, of "window_size a" w1 w2] show ?thesis by simp
qed

lemma automove_scan_ok:
  assumes "automove_wf a" "length wds = length (window_data a)" "\<forall>n\<in>set ns. n < MAX_NUMBER_OF_SLAB_CLASSES" "distinct ns"
    and "scan_ok sam V sc" "set ns \<inter> V = {}"
  shows "\<exists>wds' sc'. automove_scan a ia sam ns wds sc = Some (wds', sc') \<and> length wds' = length wds \<and> scan_ok sam (V \<union> set ns) sc'"
  using assms
proof (induction ns arbitrary: wds sc V)
  case (Cons n ns)
  then obtain wds1 sc1 brk where c: "automove_class a ia sam n wds sc = Some (wds1, sc1, brk)"
    and l: "length wds1 = length wds" and s: "scan_ok sam (insert n V) sc1"
    using class_ok [of a wds n sam V sc ia] by auto
  have m: "scan_ok sam (V \<union> set (n # ns)) sc1" using s by (rule scan_ok_mono) auto
  from Cons(1) [of wds1 "insert n V" sc1] Cons.prems l s
  obtain wds2 sc2 where "automove_scan a ia sam ns wds1 sc1 = Some (wds2, sc2)" "length wds2 = length wds1"
    "scan_ok sam (insert n V \<union> set ns) sc2" by auto
  with c l m show ?case by (cases brk) auto
qed simp

lemma automove_run_ok:
  assumes wf: "automove_wf a" and s: "sane_sam sam" and r: "\<And>x. \<not> below_ratio x x"
  shows "\<exists>a' src dst. slab_automove_run below_ratio a ia sam = Some (a', src, dst) \<and> automove_wf a'
    \<and> move_ok (\<lambda>n. total_pages (sam ! n)) src dst"
proof -
  let ?a = "a\<lparr>window_cur := window_cur a + 1\<rparr>" let ?ns = "[POWER_SMALLEST..<MAX_NUMBER_OF_SLAB_CLASSES]"
  have wf': "automove_wf ?a" using wf by (simp add: automove_wf_def)
  have "scan_ok sam {} scan0" by (simp add: scan_ok_def scan0_def)
  then obtain wds sc where c: "automove_scan ?a ia sam ?ns (window_data ?a) scan0 = Some (wds, sc)"
    and l: "length wds = length (window_data a)" and sc: "scan_ok sam (set ?ns) sc"
    using automove_scan_ok [OF wf', of "window_data ?a" ?ns sam "{}" scan0 ia] by auto
  have nz: "window_size a \<noteq> 0" using wf by (auto simp: automove_wf_def)
  have "move_ok (\<lambda>n. total_pages (sam ! n)) (sc_src sc) (sc_dst sc)"
    using sc reclaim_pages [OF s] unfolding scan_ok_def move_ok_def by auto
  moreover have "move_ok (\<lambda>n. total_pages (sam ! n)) (oldest sc) (youngest sc)"
    if "youngest sc \<noteq> -1" "oldest sc \<noteq> -1" "below_ratio (youngest_age sc) (oldest_age sc)"
  proof -
    from that r sc have "oldest sc \<noteq> youngest sc" unfolding scan_ok_def by auto
    with that sc show ?thesis unfolding scan_ok_def move_ok_def by auto
  qed
  ultimately show ?thesis
    using c nz l wf by (simp add: slab_automove_run_def Let_def automove_wf_def)
qed

section \<open>The policy for external storage is safe\<close>

definition xautomove_wf :: "xslab_automove \<Rightarrow> bool" where
  "xautomove_wf a \<longleftrightarrow> 0 < unat (xwindow_size a) \<and> unat (xwindow_size a) \<le> 2 ^ 25
     \<and> length (xwindow_data a) = MAX_NUMBER_OF_SLAB_CLASSES * unat (xwindow_size a)
     \<and> length (window_global a) = unat (xwindow_size a)"

definition xscan_ok :: "slab_stats_automove list \<Rightarrow> xscan \<Rightarrow> bool" where
  "xscan_ok sam sc \<longleftrightarrow>
     (xsrc sc = -1 \<and> xdst sc = -1 \<or> xdst sc = 0 \<and> (\<exists>n\<in>{1..<64}. xsrc sc = int n \<and> 2 * free_chunks (sam ! n) > 5 * int (unat (chunks_per_page (sam ! n)))))
   \<and> (xoldest sc = -1 \<or> (\<exists>n\<in>{1..<64}. xoldest sc = int n \<and> total_pages (sam ! n) > 2))
   \<and> (xyoungest sc = -1 \<or> (\<exists>n\<in>{1..<64}. xyoungest sc = int n))"

lemma xscan_update_ok:
  assumes n: "n \<in> {1..<64}" and s: "xscan_ok sam sc"
  shows "xscan_ok sam (xscan_update wsize n (sam ! n) small fe w_sum sc)"
proof -
  have 1: "xscan_ok sam (if 2 * free_chunks (sam ! n) > 5 * int (unat (chunks_per_page (sam ! n))) \<and> P
      then sc\<lparr>xsrc := int n, xdst := 0, too_free := True\<rparr> else sc)" for P
    using s n unfolding xscan_ok_def by auto
  have 2: "xscan_ok sam (if Q \<and> x > y \<and> total_pages (sam ! n) > MIN_PAGES_FOR_SOURCE then sc1\<lparr>xoldest := int n, xoldest_age := ag\<rparr> else sc1)"
    if "xscan_ok sam sc1" for Q x y sc1 ag using that n unfolding xscan_ok_def by auto
  have 3: "xscan_ok sam (if R then sc2\<lparr>xyoungest := int n, xyoungest_age := ag\<rparr> else sc2)"
    if "xscan_ok sam sc2" for R sc2 ag using that n unfolding xscan_ok_def by auto
  show ?thesis unfolding xscan_update_def Let_def by (intro 1 2 3)
qed

lemma extstore_class_ok:
  assumes wf: "xautomove_wf a" and n: "n \<in> {1..<64}" and s: "xscan_ok (xsam_after a) sc"
  shows "\<exists>a' sc'. extstore_class ia n (a, sc) = Some (a', sc') \<and> xautomove_wf a' \<and> xsam_after a' = xsam_after a \<and> xscan_ok (xsam_after a) sc'"
proof -
  have "\<not> ring_overrun (xwindow_size a) (xwindow_cur a) n (length (xwindow_data a))"
    using ring_in_bounds [of "xwindow_size a" n "xwindow_cur a"] wf n by (simp add: xautomove_wf_def)
  then show ?thesis
    using wf xscan_update_ok [OF n s] by (simp add: extstore_class_def Let_def xautomove_wf_def)
qed

lemma extstore_scan_ok:
  "xautomove_wf a \<Longrightarrow> set ns \<subseteq> {1..<64} \<Longrightarrow> xscan_ok (xsam_after a) sc \<Longrightarrow>
   \<exists>a' sc'. extstore_scan ia ns (a, sc) = Some (a', sc') \<and> xautomove_wf a' \<and> xsam_after a' = xsam_after a \<and> xscan_ok (xsam_after a) sc'"
proof (induction ns arbitrary: a sc)
  case (Cons n ns)
  then obtain a1 sc1 where "extstore_class ia n (a, sc) = Some (a1, sc1)" "xautomove_wf a1" "xsam_after a1 = xsam_after a"
    "xscan_ok (xsam_after a) sc1" using extstore_class_ok [of a n sc ia] by auto
  with Cons(1) [of a1 sc1] Cons.prems show ?case by simp
qed simp

lemma memcheck_fold_ok:
  "xautomove_wf (fst at) \<Longrightarrow> xautomove_wf (fst (fold (memcheck_class scale) ns at))
     \<and> xsam_after (fst (fold (memcheck_class scale) ns at)) = xsam_after (fst at)"
proof (induction ns arbitrary: "at")
  case (Cons n ns)
  have "xautomove_wf (fst (memcheck_class scale n at)) \<and> xsam_after (fst (memcheck_class scale n at)) = xsam_after (fst at)"
    using Cons.prems by (auto simp: memcheck_class_def xautomove_wf_def Let_def split: prod.splits)
  with Cons(1) [of "memcheck_class scale n at"] show ?case by simp
qed simp

lemma memcheck_ok:
  assumes "xautomove_wf a"
  shows "xautomove_wf (memcheck scale now a) \<and> xsam_after (memcheck scale now a) = xsam_after a"
proof -
  have "xautomove_wf (a\<lparr>last_memcheck_run := now\<rparr>)" using assms by (simp add: xautomove_wf_def)
  with memcheck_fold_ok [of "(a\<lparr>last_memcheck_run := now\<rparr>, 0)" scale "[1..<MAX_NUMBER_OF_SLAB_CLASSES]"] assms
  show ?thesis by (auto simp: memcheck_def xautomove_wf_def Let_def split: prod.splits)
qed

lemma pool_check_ok:
  assumes "xautomove_wf a"
  shows "\<exists>a'. global_pool_check count limit a = Some a' \<and> xautomove_wf a'"
proof -
  have "unat (xwindow_cur a mod xwindow_size a) < unat (xwindow_size a)"
    using assms by (simp add: unat_mod xautomove_wf_def)
  moreover have "xwindow_size a \<noteq> 0" using assms by (auto simp: xautomove_wf_def)
  ultimately show ?thesis using assms by (auto simp: global_pool_check_def xautomove_wf_def Let_def)
qed

lemma extstore_run_ok:
  assumes wf: "xautomove_wf a" and s: "sane_sam sam"
  shows "\<exists>a' src dst. slab_automove_extstore_run below_ratio scale now count limit a ia sam = Some (a', src, dst) \<and> xautomove_wf a'
    \<and> move_ok (\<lambda>n. total_pages (sam ! n)) src dst"
proof -
  obtain a1 where a1: "global_pool_check count limit a = Some a1" "xautomove_wf a1" using pool_check_ok [OF wf] by blast
  define a2 where "a2 = memcheck scale now (a1\<lparr>xsam_after := sam, xwindow_cur := xwindow_cur a1 + 1\<rparr>)"
  have "xautomove_wf (a1\<lparr>xsam_after := sam, xwindow_cur := xwindow_cur a1 + 1\<rparr>)" using a1(2) by (simp add: xautomove_wf_def)
  with memcheck_ok have a2: "xautomove_wf a2" "xsam_after a2 = sam" by (simp_all add: a2_def)
  have "xscan_ok sam xscan0" by (simp add: xscan_ok_def xscan0_def)
  with extstore_scan_ok [OF a2(1), of "[POWER_SMALLEST..<MAX_NUMBER_OF_SLAB_CLASSES]" xscan0 ia] a2(2)
  obtain a3 sc where a3: "extstore_scan ia [POWER_SMALLEST..<MAX_NUMBER_OF_SLAB_CLASSES] (a2, xscan0) = Some (a3, sc)"
    "xautomove_wf a3" and sc: "xscan_ok sam sc" by auto
  let ?pg = "\<lambda>n. total_pages (sam ! n)"
  have m: "move_ok ?pg (xsrc sc) (xdst sc)" using sc reclaim_pages [OF s] unfolding xscan_ok_def move_ok_def by auto
  have o: "move_ok ?pg (xoldest sc) 0" if "xoldest sc \<noteq> -1" using sc that unfolding xscan_ok_def move_ok_def by auto
  have y: "move_ok ?pg 0 (xyoungest sc)" if "xyoungest sc \<noteq> -1" using sc that unfolding xscan_ok_def move_ok_def by auto
  have w: "xautomove_wf (set_relaxed c b)" if "xautomove_wf b" for c b
    using that by (simp add: set_relaxed_def xautomove_wf_def Let_def)
  obtain a' src dst where d: "extstore_decide below_ratio (window_global_sum (take (unat (xwindow_size a1)) (window_global a1)) wg0)
      (a3\<lparr>xiam_before := ia, xsam_before := sam\<rparr>) sc = (a', src, dst)" by (metis prod_cases3)
  have "xautomove_wf (a3\<lparr>xiam_before := ia, xsam_before := sam\<rparr>)" using a3(2) by (simp add: xautomove_wf_def)
  with d m o y w have "xautomove_wf a' \<and> move_ok ?pg src dst"
    unfolding extstore_decide_def Let_def by (auto split: if_splits)
  then show ?thesis using a1(1) a3(1) d by (simp add: slab_automove_extstore_run_def a2_def [symmetric] Let_def)
qed

section \<open>Properties\<close>

interpretation automove: page_policy "\<lambda>(ia, sam) a. slab_automove_run br a ia sam" automove_wf
    "\<lambda>(ia, sam). sane_sam sam \<and> (\<forall>x. \<not> br x x)" "\<lambda>(ia, sam) n. total_pages (sam ! n)" for br
  by unfold_locales (auto intro: automove_run_ok)

interpretation automove_ext: page_policy "\<lambda>(now, count, limit, ia, sam) a. slab_automove_extstore_run br sc now count limit a ia sam"
    xautomove_wf "\<lambda>(now, count, limit, ia, sam). sane_sam sam" "\<lambda>(now, count, limit, ia, sam) n. total_pages (sam ! n)" for br sc
  by unfold_locales (auto intro: extstore_run_ok)

lemma init_length:
  fixes ws :: u32
  assumes "unat ws \<le> 2 ^ 25"
  shows "unat (ws * of_nat MAX_NUMBER_OF_SLAB_CLASSES) = MAX_NUMBER_OF_SLAB_CLASSES * unat ws"
  using assms by (simp add: unat_word_ariths(2))

lemma automove_init_wf:
  "slab_automove_init c1 c2 ws iam sam = Some a \<Longrightarrow> 0 < unat ws \<Longrightarrow> unat ws \<le> 2 ^ 25 \<Longrightarrow> automove_wf a"
  using init_length [of ws] by (auto simp: slab_automove_init_def automove_wf_def split: if_splits)

lemma extstore_init_wf:
  "slab_automove_extstore_init c1 c2 c3 ws isz mc z iam sam = Some a \<Longrightarrow> 0 < unat ws \<Longrightarrow> unat ws \<le> 2 ^ 25 \<Longrightarrow> xautomove_wf a"
  using init_length [of ws] by (auto simp: slab_automove_extstore_init_def xautomove_wf_def split: if_splits)


definition no_stats :: "slab_stats_automove list" where
  "no_stats = replicate 64 \<lparr>chunks_per_page = 10, chunk_size = 96, free_chunks = 0, total_pages = 1\<rparr>"


text \<open>
  The balancing policy for external storage keeps the same promise, for every way the
  page pool and the free-memory targets develop.
\<close>
theorem automove_extstore_moves_ok:
  assumes "slab_automove_extstore_init c1 c2 c3 ws isz mc z iam0 sam0 = Some a" "0 < unat ws" "unat ws \<le> 2 ^ 25"
    and "list_all (\<lambda>(now, count, limit, ia, sam). sane_sam sam) inputs"
  shows "\<exists>a' moves. policy_run (\<lambda>(now, count, limit, ia, sam) a. slab_automove_extstore_run below_ratio scale now count limit a ia sam) inputs a
      = Some (a', moves)
    \<and> list_all2 (\<lambda>(now, count, limit, ia, sam) (src, dst). move_ok (\<lambda>n. total_pages (sam ! n)) src dst) inputs moves"
proof -
  let ?step = "\<lambda>(now, count, limit, ia, sam) a. slab_automove_extstore_run below_ratio scale now count limit a ia sam"
  obtain a' moves where r: "policy_run ?step inputs a = Some (a', moves)"
    "list_all2 (\<lambda>i m. move_ok (case i of (now, count, limit, ia, sam) \<Rightarrow> \<lambda>n. total_pages (sam ! n)) (fst m) (snd m)) inputs moves"
    using automove_ext.run_ok [of a inputs below_ratio scale] extstore_init_wf [OF assms(1-3)] assms(4) by blast
  from r(2) have "list_all2 (\<lambda>(now, count, limit, ia, sam) (src, dst). move_ok (\<lambda>n. total_pages (sam ! n)) src dst) inputs moves"
    by (rule list_all2_mono) (simp add: split_def)
  with r(1) show ?thesis by blast
qed

theorem automove_extstore_moves_ok_witness:
  "\<exists>a' moves. policy_run (\<lambda>(now, count, limit, ia, sam) a. slab_automove_extstore_run (\<lambda>y z. y < z) (\<lambda>x. word_of_int (x div 100)) now count limit a ia sam)
      [(100, 7, True, [], no_stats)] (the (slab_automove_extstore_init True True True 3 512 [] [] [] no_stats)) = Some (a', moves)
    \<and> list_all2 (\<lambda>(now, count, limit, ia, sam) (src, dst). move_ok (\<lambda>n. total_pages (sam ! n)) src dst) [(100 :: u32, 7 :: u32, True, [] :: item_stats_automove list, no_stats)] moves"
  by (rule automove_extstore_moves_ok [of True True True 3 512 "[]" "[]" "[]" no_stats _ "[(100, 7, True, [], no_stats)]"])
    (simp_all add: slab_automove_extstore_init_def sane_sam_def no_stats_def)


end
