(* ===== verification/Item.thy ===== *)
theory Item
  imports Prelude
begin

text \<open>
  The cache item (\<open>struct _stritem\<close> of \<open>src/mem/memcached.h\<close>) with its flag bits and accessor
  macros, and the heap of items. A pointer is an address or \<open>None\<close> for \<open>NULL\<close>. The variable part
  of an item is kept in parsed form: the key bytes, the CAS unique (present when \<open>ITEM_CAS\<close> is
  set), the client flags (present when \<open>ITEM_CFLAGS\<close> is set) and the value bytes. The header of a
  large item (\<open>ITEM_CHUNKED\<close>) holds an embedded \<open>item_chunk\<close> in place of the value, of which
  \<open>sch_next\<close> and \<open>sch_orig_clsid\<close> are the fields in use. A chained \<open>item_chunk\<close> overlays the item
  record with the layout of the C structs: its \<open>head\<close>, \<open>size\<close>, \<open>used\<close> and \<open>orig_clsid\<close> lie where an
  item has \<open>h_next\<close>, \<open>time\<close>, \<open>exptime\<close> and \<open>nkey\<close>. Singly linked chains through a pointer field are
  described by the predicate \<open>chain\<close>.
\<close>

type_synonym ptr = "nat option"

record item =
  nxt :: ptr
  prv :: ptr
  h_next :: ptr
  time :: u32
  exptime :: u32
  nbytes :: int
  refcount :: u16
  it_flags :: u16
  slabs_clsid :: u8
  nkey :: u8
  ikey :: "byte list"
  cas :: u64
  cflags :: u32
  idata :: "byte list"
  sch_next :: ptr
  sch_orig_clsid :: u8

type_synonym heap = "nat \<Rightarrow> item"

abbreviation (input) ITEM_LINKED :: u16 where "ITEM_LINKED \<equiv> 1"
abbreviation (input) ITEM_CAS :: u16 where "ITEM_CAS \<equiv> 2"
abbreviation (input) ITEM_SLABBED :: u16 where "ITEM_SLABBED \<equiv> 4"
abbreviation (input) ITEM_FETCHED :: u16 where "ITEM_FETCHED \<equiv> 8"
abbreviation (input) ITEM_ACTIVE :: u16 where "ITEM_ACTIVE \<equiv> 16"
abbreviation (input) ITEM_CHUNKED :: u16 where "ITEM_CHUNKED \<equiv> 32"
abbreviation (input) ITEM_CHUNK :: u16 where "ITEM_CHUNK \<equiv> 64"
abbreviation (input) ITEM_HDR :: u16 where "ITEM_HDR \<equiv> 128"
abbreviation (input) ITEM_CFLAGS :: u16 where "ITEM_CFLAGS \<equiv> 256"

text \<open>\<open>sizeof(struct _stritem)\<close> and \<open>sizeof(item_chunk)\<close> on LP64.\<close>

abbreviation (input) sizeof_item :: nat where "sizeof_item \<equiv> 48"
abbreviation (input) sizeof_item_chunk :: nat where "sizeof_item_chunk \<equiv> 48"

definition ITEM_get_cas :: "item \<Rightarrow> u64" where
  "ITEM_get_cas it = (if has_flag (it_flags it) ITEM_CAS then cas it else 0)"

definition ITEM_set_cas :: "u64 \<Rightarrow> item \<Rightarrow> item" where
  "ITEM_set_cas v it = (if has_flag (it_flags it) ITEM_CAS then it\<lparr>cas := v\<rparr> else it)"

definition ITEM_key :: "item \<Rightarrow> byte list" where
  "ITEM_key it = take (unat (nkey it)) (ikey it)"

text \<open>The sum is a \<open>size_t\<close>; a negative \<open>nbytes\<close> wraps.\<close>

definition ITEM_ntotal :: "item \<Rightarrow> u64" where
  "ITEM_ntotal it = of_nat (sizeof_item + unat (nkey it) + 1) + word_of_int (nbytes it)
     + (if has_flag (it_flags it) ITEM_CFLAGS then 4 else 0) + (if has_flag (it_flags it) ITEM_CAS then 8 else 0)"

definition FLAGS_CONV :: "item \<Rightarrow> u32" where
  "FLAGS_CONV it = (if has_flag (it_flags it) ITEM_CFLAGS then cflags it else 0)"

abbreviation (input) HOT_LRU :: u8 where "HOT_LRU \<equiv> 0"
abbreviation (input) WARM_LRU :: u8 where "WARM_LRU \<equiv> 64"
abbreviation (input) COLD_LRU :: u8 where "COLD_LRU \<equiv> 128"
abbreviation (input) TEMP_LRU :: u8 where "TEMP_LRU \<equiv> 192"

definition CLEAR_LRU :: "u8 \<Rightarrow> u8" where
  "CLEAR_LRU i = i AND NOT (3 * 64)"

definition GET_LRU :: "u8 \<Rightarrow> u8" where
  "GET_LRU i = i AND (3 * 64)"

definition ITEM_clsid :: "item \<Rightarrow> u8" where
  "ITEM_clsid it = CLEAR_LRU (slabs_clsid it)"

definition ITEM_lruid :: "item \<Rightarrow> u8" where
  "ITEM_lruid it = GET_LRU (slabs_clsid it)"

text \<open>The class and the LRU parts of an id are independent.\<close>

lemma lru_id_parts:
  "CLEAR_LRU c = c \<Longrightarrow> GET_LRU l = l \<Longrightarrow> CLEAR_LRU (c OR l) = c \<and> GET_LRU (c OR l) = l"
proof -
  assume c: "CLEAR_LRU c = c" and l: "GET_LRU l = l"
  have "CLEAR_LRU l = 0" using l unfolding CLEAR_LRU_def GET_LRU_def by (metis and.assoc and_zero_eq bit.conj_cancel_right)
  moreover have "GET_LRU c = 0" using c unfolding CLEAR_LRU_def GET_LRU_def by (metis and.assoc and_zero_eq bit.conj_cancel_left)
  ultimately show ?thesis using c l by (simp add: CLEAR_LRU_def GET_LRU_def bit.conj_disj_distrib2)
qed

section \<open>Chains\<close>

fun chain :: "(nat \<Rightarrow> ptr) \<Rightarrow> ptr \<Rightarrow> nat list \<Rightarrow> bool" where
  "chain f p [] \<longleftrightarrow> p = None"
| "chain f p (x # xs) \<longleftrightarrow> p = Some x \<and> chain f (f x) xs"

lemma chain_None [simp]: "chain f None xs \<longleftrightarrow> xs = []"
  by (cases xs) auto

lemma chain_Some: "chain f (Some x) xs \<longleftrightarrow> (\<exists>ys. xs = x # ys \<and> chain f (f x) ys)"
  by (cases xs) auto

lemma chain_fun: "chain f p xs \<Longrightarrow> chain f p ys \<Longrightarrow> xs = ys"
proof (induction xs arbitrary: p ys)
  case (Cons x xs)
  then show ?case by (cases ys) auto
qed auto

lemma chain_cong: "chain f p xs \<Longrightarrow> (\<And>x. x \<in> set xs \<Longrightarrow> g x = f x) \<Longrightarrow> chain g p xs"
  by (induction xs arbitrary: p) auto

lemma chain_upd: "chain f p xs \<Longrightarrow> a \<notin> set xs \<Longrightarrow> chain (f(a := v)) p xs"
  by (erule chain_cong) auto

end
