(* ===== verification/Assoc.thy ===== *)
theory Assoc
  imports Item "HOL-Library.Monad_Syntax"
begin

text \<open>
  The hash table of items, \<open>src/mem/assoc.c\<close>: power-of-two bucket arrays of chains through
  \<open>h_next\<close>, with incremental expansion by a maintenance thread. While the table expands, the
  buckets of the old array from \<open>expand_bucket\<close> on are still the ones in use.

  Every operation takes and returns the heap of items and the table; \<open>None\<close> stands for an access
  outside a bucket array, a shift by the width of the type, or a chain walk that does not
  end. The key hash \<open>hf\<close> is a parameter (\<open>Hashing\<close> shows that the configured functions depend on
  the key's bytes only).
\<close>

abbreviation (input) HASHPOWER_MAX :: nat where "HASHPOWER_MAX \<equiv> 32"
abbreviation (input) HASHPOWER_DEFAULT :: nat where "HASHPOWER_DEFAULT \<equiv> 16"

record assoc =
  hashpower :: nat
  primary_hashtable :: "ptr list"
  old_hashtable :: "ptr list"
  expanding :: bool
  started_expanding :: bool
  expand_bucket :: u32
  hash_power_level :: nat
  hash_bytes :: u64
  hash_is_expanding :: bool

definition hashsize :: "nat \<Rightarrow> u32" where
  "hashsize n = push_bit n 1"

definition hashmask :: "nat \<Rightarrow> u32" where
  "hashmask n = hashsize n - 1"

definition assoc_init :: "nat \<Rightarrow> bool \<Rightarrow> assoc \<Rightarrow> assoc option" where
  "assoc_init hashtable_init calloc a =
     (let hp = (if hashtable_init \<noteq> 0 then hashtable_init else hashpower a)
      in if hp \<ge> 32 \<or> \<not> calloc then None
         else Some (a\<lparr>hashpower := hp, primary_hashtable := replicate (unat (hashsize hp)) None,
                      hash_power_level := hp, hash_bytes := ucast (hashsize hp) * 8\<rparr>))"

text \<open>The bucket a hash value belongs to at present.\<close>

datatype loc = Primary nat | Old nat

definition bucket :: "assoc \<Rightarrow> u32 \<Rightarrow> loc" where
  "bucket a hv =
     (let oldbucket = hv AND hashmask (hashpower a - 1)
      in if expanding a \<and> oldbucket \<ge> expand_bucket a then Old (unat oldbucket)
         else Primary (unat (hv AND hashmask (hashpower a))))"

fun get_bucket :: "assoc \<Rightarrow> loc \<Rightarrow> ptr option" where
  "get_bucket a (Primary i) = (if i < length (primary_hashtable a) then Some (primary_hashtable a ! i) else None)"
| "get_bucket a (Old i) = (if i < length (old_hashtable a) then Some (old_hashtable a ! i) else None)"

fun set_bucket :: "assoc \<Rightarrow> loc \<Rightarrow> ptr \<Rightarrow> assoc option" where
  "set_bucket a (Primary i) p =
     (if i < length (primary_hashtable a) then Some (a\<lparr>primary_hashtable := (primary_hashtable a)[i := p]\<rparr>) else None)"
| "set_bucket a (Old i) p =
     (if i < length (old_hashtable a) then Some (a\<lparr>old_hashtable := (old_hashtable a)[i := p]\<rparr>) else None)"

definition key_matches :: "byte list \<Rightarrow> item \<Rightarrow> bool" where
  "key_matches key it \<longleftrightarrow> length key = unat (nkey it) \<and> key = ITEM_key it"

partial_function (option) find_chain :: "heap \<Rightarrow> byte list \<Rightarrow> ptr \<Rightarrow> ptr option" where
  "find_chain h key it =
     (case it of None \<Rightarrow> Some None
      | Some x \<Rightarrow> if key_matches key (h x) then Some (Some x) else find_chain h key (h_next (h x)))"

definition assoc_find :: "byte list \<Rightarrow> u32 \<Rightarrow> heap \<Rightarrow> assoc \<Rightarrow> ptr option" where
  "assoc_find key hv h a = do { p \<leftarrow> get_bucket a (bucket a hv); find_chain h key p }"

text \<open>\<open>_hashitem_before\<close> returns the address of a pointer: of a bucket or of an item's \<open>h_next\<close>.\<close>

datatype slot = SBucket loc | SNext nat

fun get_slot :: "heap \<Rightarrow> assoc \<Rightarrow> slot \<Rightarrow> ptr option" where
  "get_slot h a (SBucket l) = get_bucket a l"
| "get_slot h a (SNext x) = Some (h_next (h x))"

fun set_slot :: "slot \<Rightarrow> ptr \<Rightarrow> heap \<Rightarrow> assoc \<Rightarrow> (heap \<times> assoc) option" where
  "set_slot (SBucket l) p h a = map_option (Pair h) (set_bucket a l p)"
| "set_slot (SNext x) p h a = Some (h(x := (h x)\<lparr>h_next := p\<rparr>), a)"

partial_function (option) slot_before :: "heap \<Rightarrow> assoc \<Rightarrow> byte list \<Rightarrow> slot \<Rightarrow> slot option" where
  "slot_before h a key pos =
     (case get_slot h a pos of None \<Rightarrow> None
      | Some None \<Rightarrow> Some pos
      | Some (Some x) \<Rightarrow> if key_matches key (h x) then Some pos else slot_before h a key (SNext x))"

definition hashitem_before :: "byte list \<Rightarrow> u32 \<Rightarrow> heap \<Rightarrow> assoc \<Rightarrow> slot option" where
  "hashitem_before key hv h a = slot_before h a key (SBucket (bucket a hv))"

definition assoc_expand :: "bool \<Rightarrow> assoc \<Rightarrow> assoc option" where
  "assoc_expand calloc a =
     (if hashpower a + 1 \<ge> 32 then None
      else if calloc then
        let hp = hashpower a + 1
        in Some (a\<lparr>old_hashtable := primary_hashtable a, primary_hashtable := replicate (unat (hashsize hp)) None,
                   hashpower := hp, expanding := True, expand_bucket := 0, hash_power_level := hp,
                   hash_bytes := hash_bytes a + ucast (hashsize hp) * 8, hash_is_expanding := True\<rparr>)
      else Some (a\<lparr>old_hashtable := primary_hashtable a\<rparr>))"

definition assoc_start_expand :: "u64 \<Rightarrow> assoc \<Rightarrow> assoc" where
  "assoc_start_expand curr_items a =
     (if started_expanding a then a
      else if curr_items > ucast (hashsize (hashpower a) * 3 div 2) \<and> hashpower a < HASHPOWER_MAX
      then a\<lparr>started_expanding := True\<rparr> else a)"

definition assoc_insert :: "nat \<Rightarrow> u32 \<Rightarrow> heap \<Rightarrow> assoc \<Rightarrow> (heap \<times> assoc) option" where
  "assoc_insert it hv h a =
     do { p \<leftarrow> get_bucket a (bucket a hv);
          a' \<leftarrow> set_bucket a (bucket a hv) (Some it);
          Some (h(it := (h it)\<lparr>h_next := p\<rparr>), a') }"

text \<open>\<open>None\<close> also for the failing assertion on a key that is not in the table.\<close>

definition assoc_delete :: "byte list \<Rightarrow> u32 \<Rightarrow> heap \<Rightarrow> assoc \<Rightarrow> (heap \<times> assoc) option" where
  "assoc_delete key hv h a =
     do { pos \<leftarrow> hashitem_before key hv h a;
          p \<leftarrow> get_slot h a pos;
          (case p of None \<Rightarrow> None
           | Some x \<Rightarrow> let n = h_next (h x) in set_slot pos n (h(x := (h x)\<lparr>h_next := None\<rparr>)) a) }"

text \<open>
  The maintenance thread. Under the item lock of the bucket, a bucket of the old array is moved
  item by item.
\<close>

partial_function (option) move_chain :: "(byte list \<Rightarrow> u32) \<Rightarrow> ptr \<Rightarrow> heap \<Rightarrow> assoc \<Rightarrow> (heap \<times> assoc) option" where
  "move_chain hf it h a =
     (case it of None \<Rightarrow> Some (h, a)
      | Some x \<Rightarrow>
          (let b = Primary (unat (hf (ITEM_key (h x)) AND hashmask (hashpower a)))
           in case get_bucket a b of None \<Rightarrow> None
              | Some p \<Rightarrow> (case set_bucket a b (Some x) of None \<Rightarrow> None
                 | Some a' \<Rightarrow> move_chain hf (h_next (h x)) (h(x := (h x)\<lparr>h_next := p\<rparr>)) a')))"

definition move_bucket :: "(byte list \<Rightarrow> u32) \<Rightarrow> heap \<Rightarrow> assoc \<Rightarrow> (heap \<times> assoc) option" where
  "move_bucket hf h a =
     do { p \<leftarrow> get_bucket a (Old (unat (expand_bucket a)));
          (h, a) \<leftarrow> move_chain hf p h a;
          a \<leftarrow> set_bucket a (Old (unat (expand_bucket a))) None;
          (let a = a\<lparr>expand_bucket := expand_bucket a + 1\<rparr>
           in Some (h, if expand_bucket a = hashsize (hashpower a - 1)
                       then a\<lparr>expanding := False, old_hashtable := [],
                              hash_bytes := hash_bytes a - ucast (hashsize (hashpower a - 1)) * 8, hash_is_expanding := False\<rparr>
                       else a)) }"

fun maintenance_moves :: "(byte list \<Rightarrow> u32) \<Rightarrow> bool list \<Rightarrow> heap \<Rightarrow> assoc \<Rightarrow> (heap \<times> assoc) option" where
  "maintenance_moves hf [] h a = Some (h, a)"
| "maintenance_moves hf (trylock # locks) h a =
     (if \<not> expanding a then Some (h, a)
      else if trylock then do { (h, a) \<leftarrow> move_bucket hf h a; maintenance_moves hf locks h a }
      else maintenance_moves hf locks h a)"

text \<open>
  One turn of the thread's loop: at most \<open>hash_bulk_move\<close> moves (\<open>locks\<close> says which lock attempts
  succeed), then, when the table is not expanding, the wait for a signal and the expansion.
\<close>

definition maintenance_turn :: "(byte list \<Rightarrow> u32) \<Rightarrow> bool list \<Rightarrow> bool \<Rightarrow> heap \<Rightarrow> assoc \<Rightarrow> (heap \<times> assoc) option" where
  "maintenance_turn hf locks calloc h a =
     do { (h, a) \<leftarrow> maintenance_moves hf locks h a;
          if expanding a then Some (h, a)
          else do { a \<leftarrow> assoc_expand calloc (a\<lparr>started_expanding := False\<rparr>); Some (h, a) } }"

declare find_chain.simps [code] slot_before.simps [code] move_chain.simps [code]

section \<open>The invariant\<close>

definition wf_item :: "item \<Rightarrow> bool" where
  "wf_item it \<longleftrightarrow> unat (nkey it) \<le> length (ikey it)"

lemma key_matches_iff: "wf_item it \<Longrightarrow> key_matches key it \<longleftrightarrow> ITEM_key it = key"
  by (auto simp: key_matches_def wf_item_def ITEM_key_def)

abbreviation hnext :: "heap \<Rightarrow> nat \<Rightarrow> ptr" where
  "hnext h \<equiv> \<lambda>x. h_next (h x)"

definition valid :: "assoc \<Rightarrow> loc \<Rightarrow> bool" where
  "valid a l = (case l of Primary i \<Rightarrow> i < length (primary_hashtable a) | Old i \<Rightarrow> expanding a \<and> i < length (old_hashtable a))"

text \<open>
  \<open>lay\<close> gives the items of each bucket in chain order; every item lies in the bucket its key
  belongs to, and keys are unique.
\<close>

definition layout :: "(byte list \<Rightarrow> u32) \<Rightarrow> heap \<Rightarrow> assoc \<Rightarrow> (loc \<Rightarrow> nat list) \<Rightarrow> bool" where
  "layout hf h a lay \<longleftrightarrow>
     (\<forall>l. if valid a l then (\<exists>p. get_bucket a l = Some p \<and> chain (hnext h) p (lay l)) else lay l = [])
   \<and> (\<forall>l. \<forall>x\<in>set (lay l). wf_item (h x) \<and> bucket a (hf (ITEM_key (h x))) = l)
   \<and> (\<forall>l. distinct (map (\<lambda>x. ITEM_key (h x)) (lay l)))"

definition shape :: "assoc \<Rightarrow> bool" where
  "shape a \<longleftrightarrow> hashpower a < 32 \<and> length (primary_hashtable a) = 2 ^ hashpower a
     \<and> (expanding a \<longrightarrow> 0 < hashpower a \<and> length (old_hashtable a) = 2 ^ (hashpower a - 1) \<and> unat (expand_bucket a) < 2 ^ (hashpower a - 1))
     \<and> hash_power_level a = hashpower a \<and> hash_is_expanding a = expanding a
     \<and> hash_bytes a = of_nat (8 * (length (primary_hashtable a) + (if expanding a then length (old_hashtable a) else 0)))"

definition table :: "(byte list \<Rightarrow> u32) \<Rightarrow> heap \<Rightarrow> assoc \<Rightarrow> nat set \<Rightarrow> bool" where
  "table hf h a C \<longleftrightarrow> shape a \<and> (\<exists>lay. layout hf h a lay \<and> C = (\<Union>l. set (lay l)))"

lemma layoutD:
  assumes "layout hf h a lay"
  shows "valid a l \<Longrightarrow> \<exists>p. get_bucket a l = Some p \<and> chain (hnext h) p (lay l)" "\<not> valid a l \<Longrightarrow> lay l = []"
    "x \<in> set (lay l) \<Longrightarrow> wf_item (h x)" "x \<in> set (lay l) \<Longrightarrow> bucket a (hf (ITEM_key (h x))) = l"
    "distinct (map (\<lambda>x. ITEM_key (h x)) (lay l))" "distinct (lay l)"
  using assms unfolding layout_def by (auto simp: distinct_map split: if_splits)

lemma layout_key_unique:
  assumes "layout hf h a lay" "x \<in> set (lay l)" "y \<in> set (lay l')" "ITEM_key (h x) = ITEM_key (h y)"
  shows "x = y \<and> l = l'"
proof -
  have l: "l = l'" using layoutD(4) [OF assms(1,2)] layoutD(4) [OF assms(1,3)] assms(4) by simp
  have "inj_on (\<lambda>x. ITEM_key (h x)) (set (lay l))" using layoutD(5) [OF assms(1), of l] by (simp add: distinct_map)
  with assms(2-4) l show ?thesis by (auto dest: inj_onD)
qed

lemma table_inj: "table hf h a C \<Longrightarrow> inj_on (\<lambda>x. ITEM_key (h x)) C"
  unfolding table_def using layout_key_unique by (fastforce intro: inj_onI)

text \<open>Masked hash values are in range.\<close>

lemma hashmask_mask: "n < 32 \<Longrightarrow> hashmask n = mask n"
  by (simp add: hashmask_def hashsize_def mask_eq_exp_minus_1 push_bit_eq_mult)

lemma unat_power_u32: "n < 32 \<Longrightarrow> unat (2 ^ n :: u32) = 2 ^ n"
proof -
  assume "n < 32"
  then have "(2 :: nat) ^ n < 2 ^ 32" by (rule power_strict_increasing) simp
  then have "unat (of_nat (2 ^ n) :: u32) = 2 ^ n" unfolding unat_of_nat by simp
  then show ?thesis by simp
qed

lemma unat_hashsize: "n < 32 \<Longrightarrow> unat (hashsize n) = 2 ^ n"
  by (simp add: hashsize_def push_bit_eq_mult unat_power_u32)

lemma unat_and_hashmask: "n < 32 \<Longrightarrow> unat (hv AND hashmask n) = unat hv mod 2 ^ n"
  by (simp add: hashmask_mask take_bit_eq_mask [symmetric] take_bit_eq_mod unat_mod unat_power_u32)

lemma bucket_valid: "shape a \<Longrightarrow> valid a (bucket a hv)"
  by (auto simp: shape_def valid_def bucket_def unat_and_hashmask Let_def)

lemma valid_get: "valid a l \<Longrightarrow> \<exists>p. get_bucket a l = Some p"
  by (cases l) (auto simp: valid_def)

lemma get_set_bucket: "set_bucket a l p = Some a' \<Longrightarrow> get_bucket a' l' = (if l' = l then Some p else get_bucket a l')"
  by (cases l; cases l') (auto split: if_splits)

lemma set_bucket_same:
  assumes "set_bucket a l p = Some a'"
  shows "hashpower a' = hashpower a" "expanding a' = expanding a" "expand_bucket a' = expand_bucket a"
    "length (primary_hashtable a') = length (primary_hashtable a)" "length (old_hashtable a') = length (old_hashtable a)"
    "shape a' = shape a" "valid a' l' = valid a l'" "bucket a' hv = bucket a hv"
  using assms by (cases l; auto simp: shape_def valid_def bucket_def Let_def split: if_splits loc.splits)+

lemma valid_set: "valid a l \<Longrightarrow> \<exists>a'. set_bucket a l p = Some a'"
  by (cases l) (auto simp: valid_def)

section \<open>Lookup\<close>

lemma find_chain_correct:
  "chain (hnext h) p xs \<Longrightarrow> \<forall>x\<in>set xs. wf_item (h x) \<Longrightarrow>
   find_chain h key p = Some (List.find (\<lambda>x. ITEM_key (h x) = key) xs)"
proof (induction xs arbitrary: p)
  case Nil
  then show ?case by (simp add: find_chain.simps)
next
  case (Cons x xs)
  then show ?case by (simp add: find_chain.simps [of _ _ "Some x"] key_matches_iff)
qed

lemma table_find:
  assumes "table hf h a C"
  shows "\<exists>r. assoc_find key (hf key) h a = Some r \<and> (\<forall>x. r = Some x \<longleftrightarrow> x \<in> C \<and> ITEM_key (h x) = key)"
proof -
  from assms obtain lay where s: "shape a" and l: "layout hf h a lay" and C: "C = (\<Union>l. set (lay l))" by (auto simp: table_def)
  let ?l = "bucket a (hf key)"
  obtain p where p: "get_bucket a ?l = Some p" "chain (hnext h) p (lay ?l)"
    using layoutD(1) [OF l bucket_valid [OF s]] by blast
  define r where "r = List.find (\<lambda>x. ITEM_key (h x) = key) (lay ?l)"
  have f: "assoc_find key (hf key) h a = Some r"
    using p find_chain_correct [OF p(2)] layoutD(3) [OF l] by (simp add: assoc_find_def r_def)
  have r1: "x \<in> C \<and> ITEM_key (h x) = key" if "r = Some x" for x
  proof -
    from that have "x \<in> set (lay ?l)" "ITEM_key (h x) = key" by (auto simp: r_def find_Some_iff)
    with C show ?thesis by blast
  qed
  have r2: "r = Some x" if x: "x \<in> C" "ITEM_key (h x) = key" for x
  proof -
    from x C obtain l' where xl: "x \<in> set (lay l')" by blast
    with layoutD(4) [OF l xl] x have "x \<in> set (lay ?l)" by auto
    with x(2) have "r \<noteq> None" by (auto simp: r_def find_None_iff)
    then obtain y where y: "r = Some y" by blast
    with r1 C obtain l2 where "y \<in> set (lay l2)" "ITEM_key (h y) = key" by blast
    with layout_key_unique [OF l xl] x(2) y show ?thesis by simp
  qed
  show ?thesis using f r1 r2 by blast
qed

section \<open>Insertion\<close>

text \<open>The heap changes in \<open>h_next\<close> fields only.\<close>

definition same_items :: "heap \<Rightarrow> heap \<Rightarrow> bool" where
  "same_items h h' \<longleftrightarrow> (\<forall>x. h' x = (h x)\<lparr>h_next := h_next (h' x)\<rparr>)"

lemma same_items_refl [simp]: "same_items h h"
  by (simp add: same_items_def)

lemma same_items_trans: "same_items h h' \<Longrightarrow> same_items h' h'' \<Longrightarrow> same_items h h''"
proof -
  assume 1: "same_items h h'" and 2: "same_items h' h''"
  have "h'' x = (h x)\<lparr>h_next := h_next (h'' x)\<rparr>" for x
  proof -
    have "h'' x = (h' x)\<lparr>h_next := h_next (h'' x)\<rparr>" using 2 by (simp add: same_items_def)
    also have "\<dots> = ((h x)\<lparr>h_next := h_next (h' x)\<rparr>)\<lparr>h_next := h_next (h'' x)\<rparr>" using 1 by (simp add: same_items_def)
    finally show ?thesis by simp
  qed
  then show ?thesis by (simp add: same_items_def)
qed

lemma same_items_upd [simp]: "same_items h (h(x := (h x)\<lparr>h_next := p\<rparr>))"
  by (simp add: same_items_def)

lemma same_items_key:
  assumes "same_items h h'"
  shows "ITEM_key (h' x) = ITEM_key (h x)" "wf_item (h' x) = wf_item (h x)"
proof -
  have e: "h' x = (h x)\<lparr>h_next := h_next (h' x)\<rparr>" using assms by (simp add: same_items_def)
  show "ITEM_key (h' x) = ITEM_key (h x)" by (subst e) (simp add: ITEM_key_def)
  show "wf_item (h' x) = wf_item (h x)" by (subst e) (simp add: wf_item_def)
qed

lemma hnext_upd: "hnext (h(x := (h x)\<lparr>h_next := p\<rparr>)) = (hnext h)(x := p)"
  by (auto simp: fun_eq_iff)

lemma layout_insert:
  assumes l: "layout hf h a lay" and v: "valid a b" and b: "bucket a (hf (ITEM_key (h x))) = b"
    and p: "get_bucket a b = Some p" and a': "set_bucket a b (Some x) = Some a'"
    and w: "wf_item (h x)" and n: "\<And>l y. y \<in> set (lay l) \<Longrightarrow> ITEM_key (h y) \<noteq> ITEM_key (h x)"
  shows "layout hf (h(x := (h x)\<lparr>h_next := p\<rparr>)) a' (lay(b := x # lay b))"
proof -
  let ?h = "h(x := (h x)\<lparr>h_next := p\<rparr>)"
  have nx: "x \<notin> set (lay l)" for l using n by blast
  have k: "ITEM_key (?h y) = ITEM_key (h y)" "wf_item (?h y) = wf_item (h y)" for y
    using same_items_key [OF same_items_upd] by blast+
  note sb = set_bucket_same [OF a'] get_set_bucket [OF a']
  have c: "chain (hnext ?h) q (lay l)" if "chain (hnext h) q (lay l)" for q l
    unfolding hnext_upd using chain_upd [OF that nx] .
  have "if valid a' l then \<exists>q. get_bucket a' l = Some q \<and> chain (hnext ?h) q ((lay(b := x # lay b)) l) else (lay(b := x # lay b)) l = []" for l
  proof (cases "l = b")
    case True
    with layoutD(1) [OF l v] p c show ?thesis using sb v by auto
  next
    case False
    then show ?thesis using layoutD(1,2) [OF l, of l] c sb by auto
  qed
  moreover have "distinct (map (\<lambda>x. ITEM_key (?h x)) ((lay(b := x # lay b)) l))" for l
    using layoutD(5) [OF l, of l] n unfolding k by (auto simp: image_iff) (metis n)
  moreover have "wf_item (?h y) \<and> bucket a' (hf (ITEM_key (?h y))) = l" if "y \<in> set ((lay(b := x # lay b)) l)" for y l
    using that layoutD(3,4) [OF l] w b sb(8) unfolding k by (auto split: if_splits)
  ultimately show ?thesis unfolding layout_def by blast
qed

lemma table_insert:
  assumes t: "table hf h a C" and w: "wf_item (h x)" and n: "\<And>y. y \<in> C \<Longrightarrow> ITEM_key (h y) \<noteq> ITEM_key (h x)"
  shows "\<exists>h' a'. assoc_insert x (hf (ITEM_key (h x))) h a = Some (h', a') \<and> table hf h' a' (insert x C) \<and> same_items h h'"
proof -
  from t obtain lay where s: "shape a" and l: "layout hf h a lay" and C: "C = (\<Union>l. set (lay l))" by (auto simp: table_def)
  let ?b = "bucket a (hf (ITEM_key (h x)))"
  have v: "valid a ?b" by (rule bucket_valid [OF s])
  obtain p where p: "get_bucket a ?b = Some p" using valid_get [OF v] by blast
  obtain a' where a': "set_bucket a ?b (Some x) = Some a'" using valid_set [OF v] by blast
  have "layout hf (h(x := (h x)\<lparr>h_next := p\<rparr>)) a' (lay(?b := x # lay ?b))"
    using n C by (intro layout_insert [OF l v refl p a' w]) blast
  moreover have "(\<Union>l. set ((lay(?b := x # lay ?b)) l)) = insert x C" using C by (auto split: if_splits)
  ultimately have "table hf (h(x := (h x)\<lparr>h_next := p\<rparr>)) a' (insert x C)"
    unfolding table_def using s set_bucket_same(6) [OF a'] by metis
  then show ?thesis using p a' by (simp add: assoc_insert_def)
qed

section \<open>Deletion\<close>

text \<open>The slot that \<open>_hashitem_before\<close> finds, and the chain after the item is cut out.\<close>

lemma slot_before_found:
  assumes "chain (hnext h) p (ys @ x # zs)" "get_slot h a pos = Some p" "\<forall>y\<in>set ys. wf_item (h y) \<and> ITEM_key (h y) \<noteq> key"
    and "wf_item (h x)" "ITEM_key (h x) = key"
  shows "slot_before h a key pos = Some (if ys = [] then pos else SNext (last ys))"
  using assms
proof (induction ys arbitrary: p pos)
  case Nil
  then show ?case by (simp add: slot_before.simps [of _ _ _ pos] key_matches_iff)
next
  case (Cons y ys)
  then have "slot_before h a key (SNext y) = Some (if ys = [] then SNext y else SNext (last ys))"
    by (intro Cons.IH [of "h_next (h y)"]) auto
  with Cons.prems show ?case by (simp add: slot_before.simps [of _ _ _ pos] key_matches_iff)
qed

lemma chain_remove:
  "chain f p (ys @ x # zs) \<Longrightarrow> distinct (ys @ x # zs) \<Longrightarrow>
   (if ys = [] then p = Some x \<and> chain (f(x := None)) (f x) zs
    else chain (f(x := None, last ys := f x)) p (ys @ zs))"
proof (induction ys arbitrary: p)
  case Nil
  then show ?case by (auto intro: chain_upd)
next
  case (Cons y ys)
  show ?case
  proof (cases "ys = []")
    case True
    with Cons.prems have "chain f (f x) zs" "x \<notin> set zs" "y \<notin> set zs" "p = Some y" by auto
    with True show ?thesis by (auto intro!: chain_upd)
  next
    case False
    with Cons have "chain (f(x := None, last ys := f x)) (f y) (ys @ zs)" by auto
    with False Cons.prems show ?thesis by (auto simp: last_in_set)
  qed
qed

lemma layout_delete:
  assumes l: "layout hf h a lay" and v: "valid a b" and xs: "lay b = ys @ x # zs"
    and same: "same_items h h'" and sa: "\<And>l. valid a' l = valid a l" "\<And>hv. bucket a' hv = bucket a hv"
    and others: "\<And>l. l \<noteq> b \<Longrightarrow> get_bucket a' l = get_bucket a l" and heap: "\<And>y. y \<notin> set (lay b) \<Longrightarrow> h' y = h y"
    and chn: "\<exists>q. get_bucket a' b = Some q \<and> chain (hnext h') q (ys @ zs)"
  shows "layout hf h' a' (lay(b := ys @ zs))"
proof -
  note k = same_items_key [OF same]
  have d: "set (lay l) \<inter> set (lay b) = {}" if "l \<noteq> b" for l
    using layoutD(4) [OF l] that by (metis disjoint_iff)
  have "if valid a' l then \<exists>q. get_bucket a' l = Some q \<and> chain (hnext h') q ((lay(b := ys @ zs)) l) else (lay(b := ys @ zs)) l = []" for l
  proof (cases "l = b")
    case False
    have "h' y = h y" if "y \<in> set (lay l)" for y using heap d [OF False] that by blast
    then have "chain (hnext h') q (lay l)" if "chain (hnext h) q (lay l)" for q using chain_cong [OF that] by simp
    with False layoutD(1,2) [OF l, of l] sa others show ?thesis by auto
  qed (use chn v sa in auto)
  moreover have "wf_item (h' y) \<and> bucket a' (hf (ITEM_key (h' y))) = l" if "y \<in> set ((lay(b := ys @ zs)) l)" for y l
  proof -
    have "y \<in> set (lay l)" using that xs by (cases "l = b") auto
    with layoutD(3,4) [OF l] sa(2) show ?thesis unfolding k by simp
  qed
  moreover have "distinct (map (\<lambda>x. ITEM_key (h' x)) ((lay(b := ys @ zs)) l))" for l
    using layoutD(5) [OF l, of l] xs unfolding k by (cases "l = b") simp_all
  ultimately show ?thesis unfolding layout_def by blast
qed

lemma table_delete:
  assumes t: "table hf h a C" and x: "x \<in> C"
  shows "\<exists>h' a'. assoc_delete (ITEM_key (h x)) (hf (ITEM_key (h x))) h a = Some (h', a') \<and> table hf h' a' (C - {x}) \<and> same_items h h'
    \<and> (\<forall>y. y \<notin> C \<longrightarrow> h' y = h y)"
proof -
  from t obtain lay where s: "shape a" and l: "layout hf h a lay" and C: "C = (\<Union>l. set (lay l))" by (auto simp: table_def)
  let ?key = "ITEM_key (h x)" let ?b = "bucket a (hf ?key)"
  have v: "valid a ?b" by (rule bucket_valid [OF s])
  have xb: "x \<in> set (lay ?b)" using x C layoutD(4) [OF l] by blast
  then obtain ys zs where xs: "lay ?b = ys @ x # zs" by (meson split_list)
  obtain p where p: "get_bucket a ?b = Some p" "chain (hnext h) p (ys @ x # zs)" using layoutD(1) [OF l v] xs by auto
  have dk: "distinct (map (\<lambda>x. ITEM_key (h x)) (ys @ x # zs))" "distinct (ys @ x # zs)" using layoutD(5,6) [OF l, of ?b] xs by simp_all
  have ys: "\<forall>y\<in>set ys. wf_item (h y) \<and> ITEM_key (h y) \<noteq> ?key"
    using layoutD(3) [OF l, of _ ?b] xs dk(1) by (auto simp: image_iff)
  have wx: "wf_item (h x)" using layoutD(3) [OF l xb] .
  have sl: "hashitem_before ?key (hf ?key) h a = Some (if ys = [] then SBucket ?b else SNext (last ys))"
    unfolding hashitem_before_def using p by (intro slot_before_found [OF p(2) _ ys wx]) simp_all
  have gs: "get_slot h a (if ys = [] then SBucket ?b else SNext (last ys)) = Some (Some x)"
  proof (cases "ys = []")
    case False
    then obtain us u where "ys = us @ [u]" by (metis rev_exhaust)
    moreover have "chain f q (us @ u # w # ws) \<Longrightarrow> f u = Some w" for f q us u w ws by (induction us arbitrary: q) auto
    ultimately show ?thesis using p(2) by simp
  qed (use p in simp)
  let ?h1 = "h(x := (h x)\<lparr>h_next := None\<rparr>)"
  have "set ((lay(?b := ys @ zs)) l') = set (lay l') - {x}" for l'
  proof (cases "l' = ?b")
    case False
    then have "x \<notin> set (lay l')" using layoutD(4) [OF l, of x l'] by auto
    with False show ?thesis by simp
  qed (use xs dk(2) in auto)
  then have cc: "(\<Union>l. set ((lay(?b := ys @ zs)) l)) = C - {x}" unfolding C by blast
  note cr = chain_remove [OF p(2) dk(2)]
  have tb: "table hf h' a' (C - {x})" if "layout hf h' a' (lay(?b := ys @ zs))" "shape a'" for h' a'
    unfolding table_def using that cc by metis
  show ?thesis
  proof (cases "ys = []")
    case True
    obtain a' where a': "set_bucket a ?b (h_next (h x)) = Some a'" using valid_set [OF v] by blast
    note sb = set_bucket_same [OF a'] get_set_bucket [OF a']
    have "chain (hnext ?h1) (h_next (h x)) (ys @ zs)" unfolding hnext_upd using cr True by simp
    then have ch: "\<exists>q. get_bucket a' ?b = Some q \<and> chain (hnext ?h1) q (ys @ zs)" using sb(9) by metis
    have "layout hf ?h1 a' (lay(?b := ys @ zs))"
      by (rule layout_delete [OF l v xs same_items_upd _ _ _ _ ch]) (use sb xb in auto)
    with tb sb(6) s have "table hf ?h1 a' (C - {x})" by blast
    moreover have "assoc_delete ?key (hf ?key) h a = Some (?h1, a')"
      using sl gs True a' by (simp add: assoc_delete_def Let_def)
    ultimately show ?thesis using x by auto
  next
    case False
    let ?h2 = "?h1(last ys := (?h1 (last ys))\<lparr>h_next := h_next (h x)\<rparr>)"
    have lx: "last ys \<noteq> x" "last ys \<in> set (lay ?b)" using False dk(2) xs by (auto simp: last_in_set)
    have hn: "hnext ?h2 = (hnext h)(x := None, last ys := h_next (h x))" by (auto simp: fun_eq_iff)
    have same: "same_items h ?h2" using same_items_trans [OF same_items_upd same_items_upd] .
    have "chain (hnext ?h2) p (ys @ zs)" unfolding hn using cr False by simp
    with p(1) have ch: "\<exists>q. get_bucket a ?b = Some q \<and> chain (hnext ?h2) q (ys @ zs)" by blast
    have "layout hf ?h2 a (lay(?b := ys @ zs))"
      by (rule layout_delete [OF l v xs same _ _ _ _ ch]) (use lx xb in auto)
    with tb s have "table hf ?h2 a (C - {x})" by blast
    moreover have "assoc_delete ?key (hf ?key) h a = Some (?h2, a)"
      using sl gs False by (simp add: assoc_delete_def Let_def)
    moreover have "\<forall>y. y \<notin> C \<longrightarrow> ?h2 y = h y" using x lx C by auto
    ultimately show ?thesis using same by blast
  qed
qed

section \<open>Expansion\<close>

lemma ucast_hashsize: "n < 32 \<Longrightarrow> (ucast (hashsize n) :: u64) = of_nat (2 ^ n)"
proof -
  assume n: "n < 32"
  have "(ucast (hashsize n) :: u64) = of_nat (unat (ucast (hashsize n) :: u64))" by (simp add: of_nat_unat)
  also have "unat (ucast (hashsize n) :: u64) = 2 ^ n" using n by (simp add: unat_hashsize)
  finally show ?thesis .
qed

lemma table_expand:
  assumes t: "table hf h a C" and e: "\<not> expanding a" and hp: "hashpower a + 1 < 32"
  shows "\<exists>a'. assoc_expand calloc a = Some a' \<and> table hf h a' C"
proof -
  from t obtain lay where s: "shape a" and l: "layout hf h a lay" and C: "C = (\<Union>l. set (lay l))" by (auto simp: table_def)
  show ?thesis
  proof (cases calloc)
    case False
    let ?a = "a\<lparr>old_hashtable := primary_hashtable a\<rparr>"
    have v: "valid ?a l' = valid a l'" for l' using e by (cases l') (auto simp: valid_def)
    have b: "bucket ?a hv = bucket a hv" for hv by (simp add: bucket_def Let_def)
    have g: "get_bucket ?a l' = get_bucket a l'" if "valid a l'" for l' using that e by (cases l') (auto simp: valid_def)
    have "layout hf h ?a lay" using l g unfolding layout_def v b by (auto split: if_splits)
    moreover have "shape ?a" using s e by (simp add: shape_def)
    ultimately show ?thesis using False hp C by (auto simp: assoc_expand_def table_def)
  next
    case True
    let ?hp = "hashpower a + 1"
    let ?a = "a\<lparr>old_hashtable := primary_hashtable a, primary_hashtable := replicate (unat (hashsize ?hp)) None,
                   hashpower := ?hp, expanding := True, expand_bucket := 0, hash_power_level := ?hp,
                   hash_bytes := hash_bytes a + ucast (hashsize ?hp) * 8, hash_is_expanding := True\<rparr>"
    define lay' where "lay' = (\<lambda>l. case l of Primary i \<Rightarrow> [] | Old i \<Rightarrow> lay (Primary i))"
    have lo: "lay (Old i) = []" for i using layoutD(2) [OF l, of "Old i"] e by (simp add: valid_def)
    have b: "bucket ?a hv = Old i" if "bucket a hv = Primary i" for hv i
      using that e by (simp add: bucket_def Let_def)
    have "if valid ?a l' then \<exists>p. get_bucket ?a l' = Some p \<and> chain (hnext h) p (lay' l') else lay' l' = []" for l'
      using layoutD(1,2) [OF l, of "Primary i" for i] by (cases l') (auto simp: valid_def lay'_def)
    moreover have "wf_item (h x) \<and> bucket ?a (hf (ITEM_key (h x))) = l'" if "x \<in> set (lay' l')" for x l'
    proof (cases l')
      case (Old i)
      with that have "x \<in> set (lay (Primary i))" by (simp add: lay'_def)
      with Old layoutD(3,4) [OF l this] b show ?thesis by blast
    qed (use that in \<open>simp add: lay'_def\<close>)
    moreover have "distinct (map (\<lambda>x. ITEM_key (h x)) (lay' l'))" for l'
      using layoutD(5) [OF l] by (cases l') (simp_all add: lay'_def)
    ultimately have "layout hf h ?a lay'" unfolding layout_def by blast
    moreover have "(\<Union>l. set (lay' l)) = C"
    proof -
      have "set (lay l') \<subseteq> (\<Union>l. set (lay' l))" for l'
      proof (cases l')
        case (Primary i)
        then have "set (lay l') = set (lay' (Old i))" by (simp add: lay'_def)
        then show ?thesis by blast
      qed (simp add: lo)
      moreover have "set (lay' l') \<subseteq> C" for l' unfolding C by (cases l') (auto simp: lay'_def)
      ultimately show ?thesis unfolding C by blast
    qed
    moreover have "shape ?a"
      using s e hp by (simp add: shape_def unat_hashsize ucast_hashsize algebra_simps)
    ultimately show ?thesis using True hp by (auto simp: assoc_expand_def Let_def table_def)
  qed
qed

text \<open>
  Moving a bucket. Seen with the old bucket emptied and \<open>expand_bucket\<close> advanced, every move of an
  item is an insertion into the primary array.
\<close>

lemma move_chain_ok:
  fixes ot :: "ptr list" and eb :: u32
  defines "V \<equiv> \<lambda>a. a\<lparr>old_hashtable := ot, expand_bucket := eb\<rparr>"
  assumes "layout hf h (V a) lay" "chain (hnext h) p xs" "\<forall>x\<in>set xs. wf_item (h x)" "distinct (map (\<lambda>x. ITEM_key (h x)) xs)"
    and "\<forall>x\<in>set xs. \<forall>l. \<forall>y\<in>set (lay l). ITEM_key (h y) \<noteq> ITEM_key (h x)"
    and "\<forall>x\<in>set xs. bucket (V a) (hf (ITEM_key (h x))) = Primary (unat (hf (ITEM_key (h x)) AND hashmask (hashpower a)))"
    and "\<forall>hv. unat (hv AND hashmask (hashpower a)) < length (primary_hashtable a)"
  shows "\<exists>h' pt lay'. move_chain hf p h a = Some (h', a\<lparr>primary_hashtable := pt\<rparr>) \<and> length pt = length (primary_hashtable a)
    \<and> layout hf h' (V (a\<lparr>primary_hashtable := pt\<rparr>)) lay' \<and> (\<Union>l. set (lay' l)) = (\<Union>l. set (lay l)) \<union> set xs \<and> same_items h h'"
  using assms(2-8)
proof (induction xs arbitrary: h a p lay)
  case Nil
  then show ?case
    by - (rule exI [of _ h], rule exI [of _ "primary_hashtable a"], rule exI [of _ lay], simp add: move_chain.simps)
next
  case (Cons x xs)
  let ?i = "unat (hf (ITEM_key (h x)) AND hashmask (hashpower a))" let ?b = "Primary ?i"
  let ?p = "primary_hashtable a ! ?i"
  let ?a = "a\<lparr>primary_hashtable := (primary_hashtable a)[?i := Some x]\<rparr>" and ?h = "h(x := (h x)\<lparr>h_next := ?p\<rparr>)"
  have i: "?i < length (primary_hashtable a)" using Cons.prems(7) by blast
  have v: "valid (V a) ?b" using i by (simp add: valid_def V_def)
  have k: "ITEM_key (?h y) = ITEM_key (h y)" "wf_item (?h y) = wf_item (h y)" for y
    using same_items_key [OF same_items_upd] by blast+
  have px: "p = Some x" and cx: "chain (hnext h) (h_next (h x)) xs" using Cons.prems(2) by auto
  have xn: "x \<notin> set xs" using Cons.prems(4) by (auto simp: image_iff)
  have lay: "layout hf ?h (V ?a) (lay(?b := x # lay ?b))"
    by (rule layout_insert [OF Cons.prems(1) v]) (use Cons.prems i in \<open>auto simp: V_def\<close>)
  have bv: "bucket (V ?a) hv = bucket (V a) hv" for hv by (simp add: bucket_def V_def Let_def)
  have ch: "chain (hnext ?h) (h_next (h x)) xs" unfolding hnext_upd by (rule chain_upd [OF cx xn])
  have kne: "\<forall>z\<in>set xs. \<forall>l. \<forall>y\<in>set ((lay(?b := x # lay ?b)) l). ITEM_key (?h y) \<noteq> ITEM_key (?h z)"
    unfolding k using Cons.prems(4,5) by (auto simp: image_iff)
  have "\<exists>h' pt lay'. move_chain hf (h_next (h x)) ?h ?a = Some (h', ?a\<lparr>primary_hashtable := pt\<rparr>) \<and> length pt = length (primary_hashtable ?a)
    \<and> layout hf h' (V (?a\<lparr>primary_hashtable := pt\<rparr>)) lay' \<and> (\<Union>l. set (lay' l)) = (\<Union>l. set ((lay(?b := x # lay ?b)) l)) \<union> set xs \<and> same_items ?h h'"
    by (rule Cons.IH [OF lay ch _ _ kne]) (use Cons.prems(3,4,6,7) in \<open>unfold k bv, auto\<close>)
  then obtain h' pt lay' where ih: "move_chain hf (h_next (h x)) ?h ?a = Some (h', a\<lparr>primary_hashtable := pt\<rparr>)"
    "length pt = length (primary_hashtable a)" "layout hf h' (V (a\<lparr>primary_hashtable := pt\<rparr>)) lay'"
    "(\<Union>l. set (lay' l)) = (\<Union>l. set ((lay(?b := x # lay ?b)) l)) \<union> set xs" "same_items ?h h'" by auto
  have "move_chain hf p h a = Some (h', a\<lparr>primary_hashtable := pt\<rparr>)"
    using ih(1) i px by (simp add: move_chain.simps [of _ "Some x"] Let_def)
  moreover have "(\<Union>l. set (lay' l)) = (\<Union>l. set (lay l)) \<union> set (x # xs)"
    unfolding ih(4) by (auto split: if_splits)
  moreover have "same_items h h'" using same_items_trans [OF same_items_upd ih(5)] .
  ultimately show ?case using ih(2,3) by blast
qed

lemma table_move_bucket:
  assumes t: "table hf h a C" and e: "expanding a"
  shows "\<exists>h' a'. move_bucket hf h a = Some (h', a') \<and> table hf h' a' C \<and> same_items h h' \<and> hashpower a' = hashpower a
    \<and> (if unat (expand_bucket a) + 1 = 2 ^ (hashpower a - 1) then \<not> expanding a'
        else expanding a' \<and> unat (expand_bucket a') = unat (expand_bucket a) + 1)"
proof -
  from t obtain lay where s: "shape a" and l: "layout hf h a lay" and C: "C = (\<Union>l. set (lay l))" by (auto simp: table_def)
  let ?e = "unat (expand_bucket a)" let ?eb = "expand_bucket a + 1" let ?ot = "(old_hashtable a)[?e := None]" let ?hp = "hashpower a"
  have hp: "?hp < 32" "0 < ?hp" "length (old_hashtable a) = 2 ^ (?hp - 1)" "length (primary_hashtable a) = 2 ^ ?hp" "?e < 2 ^ (?hp - 1)"
    using s e by (simp_all add: shape_def)
  have half: "2 ^ (?hp - 1) \<le> (2 :: nat) ^ 31" using hp(1) by (intro power_increasing) auto
  have eb: "unat ?eb = ?e + 1" using hp(5) half by (intro unat_add_no_wrap [of "expand_bucket a" 1, simplified, THEN trans]) auto
  define V where "V = (\<lambda>a :: assoc. a\<lparr>old_hashtable := ?ot, expand_bucket := ?eb\<rparr>)"
  define xs where "xs = lay (Old ?e)"
  have vo: "valid a (Old ?e)" using hp e by (simp add: valid_def)
  obtain p where p: "get_bucket a (Old ?e) = Some p" "chain (hnext h) p xs" using layoutD(1) [OF l vo] by (auto simp: xs_def)
  have bk: "bucket (V a) hv = (if bucket a hv = Old ?e then Primary (unat (hv AND hashmask ?hp)) else bucket a hv)" for hv
    using e eb by (auto simp: bucket_def V_def Let_def word_le_nat_alt word_unat_eq_iff)
  have "layout hf h (V a) (lay(Old ?e := []))"
  proof -
    have "valid (V a) l' = valid a l'" for l' by (cases l') (simp_all add: valid_def V_def)
    moreover have "get_bucket (V a) l' = (if l' = Old ?e then Some None else get_bucket a l')" for l'
      using hp by (cases l') (auto simp: V_def)
    moreover have "bucket (V a) (hf (ITEM_key (h x))) = l'" if "x \<in> set ((lay(Old ?e := [])) l')" for x l'
      using that layoutD(4) [OF l, of x l'] by (auto simp: bk split: if_splits)
    ultimately show ?thesis
      using layoutD(1-3,5) [OF l] unfolding layout_def by auto
  qed
  moreover have "\<forall>x\<in>set xs. wf_item (h x)" "distinct (map (\<lambda>x. ITEM_key (h x)) xs)"
    using layoutD(3,5) [OF l] by (auto simp: xs_def)
  moreover have "\<forall>x\<in>set xs. \<forall>l. \<forall>y\<in>set ((lay(Old ?e := [])) l). ITEM_key (h y) \<noteq> ITEM_key (h x)"
    using layout_key_unique [OF l] unfolding xs_def by (auto split: if_splits)
  moreover have "\<forall>x\<in>set xs. bucket (V a) (hf (ITEM_key (h x))) = Primary (unat (hf (ITEM_key (h x)) AND hashmask ?hp))"
    using layoutD(4) [OF l] by (simp add: xs_def bk)
  moreover have "\<forall>hv. unat (hv AND hashmask ?hp) < length (primary_hashtable a)" using hp by (simp add: unat_and_hashmask)
  ultimately obtain h' pt lay' where m: "move_chain hf p h a = Some (h', a\<lparr>primary_hashtable := pt\<rparr>)" "length pt = length (primary_hashtable a)"
    "layout hf h' (V (a\<lparr>primary_hashtable := pt\<rparr>)) lay'" "(\<Union>l. set (lay' l)) = (\<Union>l. set ((lay(Old ?e := [])) l)) \<union> set xs" "same_items h h'"
    using move_chain_ok [where hf = hf and h = h and a = a and ot = ?ot and eb = ?eb and lay = "lay(Old ?e := [])" and p = p and xs = xs] p(2)
    unfolding V_def by blast
  let ?a1 = "V (a\<lparr>primary_hashtable := pt\<rparr>)"
  let ?a2 = "?a1\<lparr>expanding := False, old_hashtable := [], hash_bytes := hash_bytes a - ucast (hashsize (?hp - 1)) * 8, hash_is_expanding := False\<rparr>"
  have C': "(\<Union>l. set (lay' l)) = C" unfolding m(4) C xs_def by (auto split: if_splits)
  let ?a' = "if ?eb = hashsize (?hp - 1) then ?a2 else ?a1"
  have run: "move_bucket hf h a = Some (h', ?a')"
    using p m hp by (simp add: move_bucket_def V_def Let_def)
  have "table hf h' ?a' C"
  proof (cases "?eb = hashsize (?hp - 1)")
    case False
    then have "?e + 1 \<noteq> 2 ^ (?hp - 1)" using eb hp(1) unat_hashsize [of "?hp - 1"] by (auto simp: word_unat_eq_iff)
    then have "shape ?a1" using s e m(2) eb hp(5) by (simp add: shape_def V_def)
    with False m(3) C' show ?thesis by (auto simp: table_def)
  next
    case True
    then have e2: "?e + 1 = 2 ^ (?hp - 1)" using eb hp(1) unat_hashsize [of "?hp - 1"] by auto
    have bp: "bucket ?a1 hv = Primary (unat (hv AND hashmask ?hp))" "bucket ?a2 hv = bucket ?a1 hv" for hv
    proof -
      have "unat (hv AND hashmask (?hp - 1)) < 2 ^ (?hp - 1)" using hp(1) by (simp add: unat_and_hashmask)
      then have "\<not> hv AND hashmask (?hp - 1) \<ge> ?eb" using eb e2 by (simp add: word_le_nat_alt)
      then show "bucket ?a1 hv = Primary (unat (hv AND hashmask ?hp))" "bucket ?a2 hv = bucket ?a1 hv"
        by (simp_all add: bucket_def V_def Let_def)
    qed
    have lo: "lay' (Old i) = []" for i
      using layoutD(4) [OF m(3), of _ "Old i"] bp(1) by (cases "lay' (Old i)") auto
    have "if valid ?a2 l' then \<exists>p. get_bucket ?a2 l' = Some p \<and> chain (hnext h') p (lay' l') else lay' l' = []" for l'
      using layoutD(1,2) [OF m(3), of l'] lo by (cases l') (auto simp: valid_def V_def)
    then have "layout hf h' ?a2 lay'"
      using layoutD(3,4,5) [OF m(3)] unfolding layout_def bp(2) by blast
    moreover have "shape ?a2"
      using s e m(2) hp ucast_hashsize [of "?hp - 1"] by (simp add: shape_def V_def algebra_simps)
    ultimately show ?thesis using True C' by (auto simp: table_def)
  qed
  moreover have "hashpower ?a' = hashpower a" by (simp add: V_def)
  moreover have "if ?e + 1 = 2 ^ (?hp - 1) then \<not> expanding ?a' else expanding ?a' \<and> unat (expand_bucket ?a') = ?e + 1"
  proof -
    have "?eb = hashsize (?hp - 1) \<longleftrightarrow> ?e + 1 = 2 ^ (?hp - 1)"
      using eb hp(1) unat_hashsize [of "?hp - 1"] by (auto simp: word_unat_eq_iff)
    then show ?thesis using e eb by (simp add: V_def)
  qed
  ultimately show ?thesis using run m(5) by blast
qed

text \<open>Enough successful turns finish an expansion.\<close>

lemma moves_finish:
  assumes "table hf h a C" "expanding a" "unat (expand_bucket a) + Suc n = 2 ^ (hashpower a - 1)"
  shows "\<exists>h' a'. maintenance_moves hf (replicate (Suc n) True) h a = Some (h', a') \<and> table hf h' a' C \<and> same_items h h' \<and> \<not> expanding a' \<and> hashpower a' = hashpower a"
  using assms
proof (induction n arbitrary: h a)
  case 0
  then obtain h1 a1 where "move_bucket hf h a = Some (h1, a1)" "table hf h1 a1 C" "same_items h h1" "hashpower a1 = hashpower a" "\<not> expanding a1"
    using table_move_bucket [OF 0(1,2)] by auto
  with 0 show ?case by simp
next
  case (Suc n)
  then obtain h1 a1 where m: "move_bucket hf h a = Some (h1, a1)" "table hf h1 a1 C" "same_items h h1" "hashpower a1 = hashpower a" "expanding a1"
    "unat (expand_bucket a1) = unat (expand_bucket a) + 1"
    using table_move_bucket [OF Suc.prems(1,2)] by auto
  obtain h2 a2 where "maintenance_moves hf (replicate (Suc n) True) h1 a1 = Some (h2, a2)" "table hf h2 a2 C" "same_items h1 h2" "\<not> expanding a2" "hashpower a2 = hashpower a1"
    using Suc.IH [OF m(2,5)] m(4,6) Suc.prems(3) by auto
  with m Suc.prems(2) same_items_trans [OF m(3)] show ?case by simp
qed

lemma table_moves:
  "table hf h a C \<Longrightarrow> \<exists>h' a'. maintenance_moves hf locks h a = Some (h', a') \<and> table hf h' a' C \<and> same_items h h' \<and> hashpower a' = hashpower a"
proof (induction locks arbitrary: h a)
  case (Cons b locks)
  show ?case
  proof (cases "expanding a \<and> b")
    case True
    then obtain h1 a1 where m: "move_bucket hf h a = Some (h1, a1)" "table hf h1 a1 C" "same_items h h1" "hashpower a1 = hashpower a"
      using table_move_bucket [OF Cons.prems] by blast
    obtain h2 a2 where "maintenance_moves hf locks h1 a1 = Some (h2, a2)" "table hf h2 a2 C" "same_items h1 h2" "hashpower a2 = hashpower a1"
      using Cons.IH [OF m(2)] by blast
    with m True same_items_trans [OF m(3)] show ?thesis by simp
  qed (use Cons in auto)
qed auto

lemma table_turn:
  assumes "table hf h a C" "hashpower a + 1 < 32"
  shows "\<exists>h' a'. maintenance_turn hf locks calloc h a = Some (h', a') \<and> table hf h' a' C \<and> same_items h h'"
proof -
  obtain h1 a1 where m: "maintenance_moves hf locks h a = Some (h1, a1)" "table hf h1 a1 C" "same_items h h1" "hashpower a1 = hashpower a"
    using table_moves [OF assms(1)] by blast
  show ?thesis
  proof (cases "expanding a1")
    case False
    have "table hf h1 (a1\<lparr>started_expanding := False\<rparr>) C"
    proof -
      let ?b = "a1\<lparr>started_expanding := False\<rparr>"
      have v: "valid ?b l' = valid a1 l'" "get_bucket ?b l' = get_bucket a1 l'" "bucket ?b hv = bucket a1 hv" for l' hv
        by (cases l'; simp add: valid_def bucket_def Let_def)+
      have "shape ?b = shape a1" by (simp add: shape_def)
      with m(2) show ?thesis unfolding table_def layout_def v by simp
    qed
    then obtain a2 where "assoc_expand calloc (a1\<lparr>started_expanding := False\<rparr>) = Some a2" "table hf h1 a2 C"
      using table_expand [of hf h1 "a1\<lparr>started_expanding := False\<rparr>" C calloc] False m(4) assms(2) by auto
    with m False show ?thesis by (simp add: maintenance_turn_def)
  qed (use m in \<open>simp add: maintenance_turn_def\<close>)
qed

section \<open>The interface of an item table\<close>

text \<open>
  The contract the item code relies on: a table holds a set of items with pairwise different keys,
  lookup returns the item with the key, insertion and deletion add and remove one item, and
  maintenance changes nothing. The client's consequence: any legal sequence of operations, with
  maintenance at arbitrary points, answers every lookup like a finite map.
\<close>

datatype 'i table_op = TFind "byte list" | TInsert nat | TDelete "byte list" | TTick 'i

fun table_run ::
    "(byte list \<Rightarrow> heap \<Rightarrow> 't \<Rightarrow> ptr option) \<Rightarrow> (nat \<Rightarrow> heap \<Rightarrow> 't \<Rightarrow> (heap \<times> 't) option) \<Rightarrow> (byte list \<Rightarrow> heap \<Rightarrow> 't \<Rightarrow> (heap \<times> 't) option)
     \<Rightarrow> ('i \<Rightarrow> heap \<Rightarrow> 't \<Rightarrow> (heap \<times> 't) option) \<Rightarrow> 'i table_op list \<Rightarrow> heap \<Rightarrow> 't \<Rightarrow> ptr list option" where
  "table_run fnd ins del tick [] h t = Some []"
| "table_run fnd ins del tick (TFind k # ops) h t =
     do { r \<leftarrow> fnd k h t; rs \<leftarrow> table_run fnd ins del tick ops h t; Some (r # rs) }"
| "table_run fnd ins del tick (TInsert x # ops) h t = do { (h, t) \<leftarrow> ins x h t; table_run fnd ins del tick ops h t }"
| "table_run fnd ins del tick (TDelete k # ops) h t = do { (h, t) \<leftarrow> del k h t; table_run fnd ins del tick ops h t }"
| "table_run fnd ins del tick (TTick i # ops) h t = do { (h, t) \<leftarrow> tick i h t; table_run fnd ins del tick ops h t }"

text \<open>The same operations on a map from keys to items, \<open>kf\<close> giving the key of an item.\<close>

fun map_run :: "(nat \<Rightarrow> byte list) \<Rightarrow> 'i table_op list \<Rightarrow> (byte list \<rightharpoonup> nat) \<Rightarrow> ptr list" where
  "map_run kf [] M = []"
| "map_run kf (TFind k # ops) M = M k # map_run kf ops M"
| "map_run kf (TInsert x # ops) M = map_run kf ops (M(kf x \<mapsto> x))"
| "map_run kf (TDelete k # ops) M = map_run kf ops (M(k := None))"
| "map_run kf (TTick i # ops) M = map_run kf ops M"

text \<open>Legal: keys inserted are new, keys deleted are present, maintenance is allowed.\<close>

fun legal_run ::
    "(nat \<Rightarrow> heap \<Rightarrow> 't \<Rightarrow> (heap \<times> 't) option) \<Rightarrow> (byte list \<Rightarrow> heap \<Rightarrow> 't \<Rightarrow> (heap \<times> 't) option) \<Rightarrow> ('i \<Rightarrow> heap \<Rightarrow> 't \<Rightarrow> (heap \<times> 't) option)
     \<Rightarrow> ('t \<Rightarrow> bool) \<Rightarrow> 'i table_op list \<Rightarrow> heap \<Rightarrow> 't \<Rightarrow> (byte list \<rightharpoonup> nat) \<Rightarrow> bool" where
  "legal_run ins del tick ok [] h t M \<longleftrightarrow> True"
| "legal_run ins del tick ok (TFind k # ops) h t M \<longleftrightarrow> legal_run ins del tick ok ops h t M"
| "legal_run ins del tick ok (TInsert x # ops) h t M \<longleftrightarrow>
     wf_item (h x) \<and> M (ITEM_key (h x)) = None
     \<and> (case ins x h t of None \<Rightarrow> True | Some (h', t') \<Rightarrow> legal_run ins del tick ok ops h' t' (M(ITEM_key (h x) \<mapsto> x)))"
| "legal_run ins del tick ok (TDelete k # ops) h t M \<longleftrightarrow>
     M k \<noteq> None \<and> (case del k h t of None \<Rightarrow> True | Some (h', t') \<Rightarrow> legal_run ins del tick ok ops h' t' (M(k := None)))"
| "legal_run ins del tick ok (TTick i # ops) h t M \<longleftrightarrow>
     ok t \<and> (case tick i h t of None \<Rightarrow> True | Some (h', t') \<Rightarrow> legal_run ins del tick ok ops h' t' M)"

locale item_table =
  fixes tbl :: "heap \<Rightarrow> 't \<Rightarrow> nat set \<Rightarrow> bool" and fnd :: "byte list \<Rightarrow> heap \<Rightarrow> 't \<Rightarrow> ptr option"
    and ins :: "nat \<Rightarrow> heap \<Rightarrow> 't \<Rightarrow> (heap \<times> 't) option" and del :: "byte list \<Rightarrow> heap \<Rightarrow> 't \<Rightarrow> (heap \<times> 't) option"
    and tick :: "'i \<Rightarrow> heap \<Rightarrow> 't \<Rightarrow> (heap \<times> 't) option" and ok :: "'t \<Rightarrow> bool"
  assumes tbl_inj: "tbl h t C \<Longrightarrow> inj_on (\<lambda>x. ITEM_key (h x)) C"
    and tbl_find: "tbl h t C \<Longrightarrow> \<exists>r. fnd k h t = Some r \<and> (\<forall>x. r = Some x \<longleftrightarrow> x \<in> C \<and> ITEM_key (h x) = k)"
    and tbl_ins: "tbl h t C \<Longrightarrow> wf_item (h x) \<Longrightarrow> (\<And>y. y \<in> C \<Longrightarrow> ITEM_key (h y) \<noteq> ITEM_key (h x)) \<Longrightarrow>
      \<exists>h' t'. ins x h t = Some (h', t') \<and> tbl h' t' (insert x C) \<and> same_items h h'"
    and tbl_del: "tbl h t C \<Longrightarrow> x \<in> C \<Longrightarrow> \<exists>h' t'. del (ITEM_key (h x)) h t = Some (h', t') \<and> tbl h' t' (C - {x}) \<and> same_items h h'"
    and tbl_tick: "tbl h t C \<Longrightarrow> ok t \<Longrightarrow> \<exists>h' t'. tick i h t = Some (h', t') \<and> tbl h' t' C \<and> same_items h h'"
begin

definition rep :: "heap \<Rightarrow> 't \<Rightarrow> (byte list \<rightharpoonup> nat) \<Rightarrow> bool" where
  "rep h t M \<longleftrightarrow> (\<exists>C. tbl h t C \<and> (\<forall>k x. M k = Some x \<longleftrightarrow> x \<in> C \<and> ITEM_key (h x) = k))"

lemma rep_find: "rep h t M \<Longrightarrow> fnd k h t = Some (M k)"
proof -
  assume "rep h t M"
  then obtain C where "tbl h t C" and M: "\<And>k x. M k = Some x \<longleftrightarrow> x \<in> C \<and> ITEM_key (h x) = k" by (auto simp: rep_def)
  with tbl_find [of h t C k] obtain r where r: "fnd k h t = Some r" "\<And>x. r = Some x \<longleftrightarrow> M k = Some x" by auto
  then have "r = M k" by (metis option.exhaust)
  with r show ?thesis by simp
qed

lemma rep_ins:
  assumes "rep h t M" "wf_item (h x)" "M (ITEM_key (h x)) = None"
  shows "\<exists>h' t'. ins x h t = Some (h', t') \<and> rep h' t' (M(ITEM_key (h x) \<mapsto> x)) \<and> same_items h h'"
proof -
  obtain C where C: "tbl h t C" and M: "\<And>k x. M k = Some x \<longleftrightarrow> x \<in> C \<and> ITEM_key (h x) = k" using assms(1) by (auto simp: rep_def)
  have n: "ITEM_key (h y) \<noteq> ITEM_key (h x)" if "y \<in> C" for y using M that assms(3) by (metis option.distinct(1))
  obtain h' t' where i: "ins x h t = Some (h', t')" "tbl h' t' (insert x C)" "same_items h h'" using tbl_ins [OF C assms(2) n] by blast
  have "(M(ITEM_key (h x) \<mapsto> x)) k = Some y \<longleftrightarrow> y \<in> insert x C \<and> ITEM_key (h' y) = k" for k y
    using M n unfolding same_items_key [OF i(3)] by auto
  with i show ?thesis unfolding rep_def by blast
qed

lemma rep_del:
  assumes "rep h t M" "M k \<noteq> None"
  shows "\<exists>h' t'. del k h t = Some (h', t') \<and> rep h' t' (M(k := None)) \<and> same_items h h'"
proof -
  obtain C where C: "tbl h t C" and M: "\<And>k x. M k = Some x \<longleftrightarrow> x \<in> C \<and> ITEM_key (h x) = k" using assms(1) by (auto simp: rep_def)
  obtain x where x: "x \<in> C" "ITEM_key (h x) = k" using assms(2) M by blast
  obtain h' t' where i: "del k h t = Some (h', t')" "tbl h' t' (C - {x})" "same_items h h'" using tbl_del [OF C x(1)] x(2) by blast
  have u: "y = x" if "y \<in> C" "ITEM_key (h y) = k" for y
    by (rule inj_onD [OF tbl_inj [OF C]]) (use that x in simp_all)
  have "(M(k := None)) k' = Some y \<longleftrightarrow> y \<in> C - {x} \<and> ITEM_key (h' y) = k'" for k' y
  proof (cases "k' = k")
    case True
    with u [of y] show ?thesis unfolding same_items_key(1) [OF i(3)] by auto
  next
    case False
    with x(2) have "y = x \<longrightarrow> ITEM_key (h y) \<noteq> k'" by auto
    with False show ?thesis unfolding same_items_key(1) [OF i(3)] by (simp add: M)  blast
  qed
  with i show ?thesis unfolding rep_def by (intro exI conjI) (assumption | simp)+
qed

lemma rep_tick:
  assumes "rep h t M" "ok t"
  shows "\<exists>h' t'. tick i h t = Some (h', t') \<and> rep h' t' M \<and> same_items h h'"
proof -
  obtain C where C: "tbl h t C" and M: "\<And>k x. M k = Some x \<longleftrightarrow> x \<in> C \<and> ITEM_key (h x) = k" using assms(1) by (auto simp: rep_def)
  obtain h' t' where i: "tick i h t = Some (h', t')" "tbl h' t' C" "same_items h h'" using tbl_tick [OF C assms(2)] by blast
  have "M k = Some x \<longleftrightarrow> x \<in> C \<and> ITEM_key (h' x) = k" for k x
    unfolding same_items_key(1) [OF i(3)] by (rule M)
  then have "rep h' t' M" unfolding rep_def using i(2) by (intro exI [of _ C]) simp
  with i show ?thesis by (intro exI conjI)
qed

lemma run_refines:
  assumes "rep h t M" "legal_run ins del tick ok ops h t M" "\<And>x. kf x = ITEM_key (h x)"
  shows "table_run fnd ins del tick ops h t = Some (map_run kf ops M)"
  using assms
proof (induction ops arbitrary: h t M)
  case (Cons opn ops)
  have kf: "kf x = ITEM_key (h' x)" if "same_items h h'" for x h' using Cons.prems(3) same_items_key [OF that] by simp
  show ?case
  proof (cases opn)
    case (TFind k)
    with Cons show ?thesis using rep_find [OF Cons.prems(1)] by simp
  next
    case (TInsert x)
    with Cons.prems obtain h' t' where i: "ins x h t = Some (h', t')" "rep h' t' (M(ITEM_key (h x) \<mapsto> x))" "same_items h h'"
      using rep_ins by fastforce
    have "table_run fnd ins del tick ops h' t' = Some (map_run kf ops (M(ITEM_key (h x) \<mapsto> x)))"
      by (rule Cons.IH [OF i(2) _ kf [OF i(3)]]) (use TInsert Cons.prems(2) i(1) in \<open>simp del: fun_upd_apply\<close>)
    with TInsert i(1) Cons.prems(3) [of x] show ?thesis by (simp del: fun_upd_apply)
  next
    case (TDelete k)
    with Cons.prems obtain h' t' where i: "del k h t = Some (h', t')" "rep h' t' (M(k := None))" "same_items h h'"
      using rep_del by fastforce
    have "table_run fnd ins del tick ops h' t' = Some (map_run kf ops (M(k := None)))"
      by (rule Cons.IH [OF i(2) _ kf [OF i(3)]]) (use TDelete Cons.prems(2) i(1) in \<open>simp del: fun_upd_apply\<close>)
    with TDelete i(1) show ?thesis by (simp del: fun_upd_apply)
  next
    case (TTick n)
    with Cons.prems obtain h' t' where i: "tick n h t = Some (h', t')" "rep h' t' M" "same_items h h'"
      using rep_tick by fastforce
    have "table_run fnd ins del tick ops h' t' = Some (map_run kf ops M)"
      by (rule Cons.IH [OF i(2) _ kf [OF i(3)]]) (use TTick Cons.prems(2) i(1) in simp)
    with TTick i(1) show ?thesis by simp
  qed
qed simp

end

interpretation assoc: item_table "table hf" "\<lambda>k h a. assoc_find k (hf k) h a" "\<lambda>x h a. assoc_insert x (hf (ITEM_key (h x))) h a"
    "\<lambda>k h a. assoc_delete k (hf k) h a" "\<lambda>(locks, calloc) h a. maintenance_turn hf locks calloc h a" "\<lambda>a. hashpower a < 31" for hf
proof unfold_locales
  fix h a C and x :: nat
  assume "table hf h a C" "x \<in> C"
  from table_delete [OF this]
  show "\<exists>h' t'. assoc_delete (ITEM_key (h x)) (hf (ITEM_key (h x))) h a = Some (h', t') \<and> table hf h' t' (C - {x}) \<and> same_items h h'" by blast
qed (auto simp: table_inj table_find intro: table_insert table_turn)

section \<open>Properties of the table\<close>

text \<open>The static initial values.\<close>

definition assoc_static :: assoc where
  "assoc_static = \<lparr>hashpower = HASHPOWER_DEFAULT, primary_hashtable = [], old_hashtable = [], expanding = False, started_expanding = False,
     expand_bucket = 0, hash_power_level = 0, hash_bytes = 0, hash_is_expanding = False\<rparr>"

lemma assoc_init_table:
  assumes "assoc_init n calloc assoc_static = Some a"
  shows "table hf h a {}"
proof -
  let ?hp = "if n \<noteq> 0 then n else 16 :: nat"
  have hp: "?hp < 32" and a: "a = assoc_static\<lparr>hashpower := ?hp, primary_hashtable := replicate (unat (hashsize ?hp)) None,
      hash_power_level := ?hp, hash_bytes := ucast (hashsize ?hp) * 8\<rparr>"
    using assms by (auto simp: assoc_init_def assoc_static_def Let_def split: if_splits)
  have "shape a" unfolding a using hp by (simp add: shape_def assoc_static_def unat_hashsize ucast_hashsize)
  moreover have "layout hf h a (\<lambda>l. [])"
    unfolding layout_def by (auto simp: a assoc_static_def valid_def split: loc.splits)
  ultimately show ?thesis unfolding table_def by auto
qed

abbreviation assoc_run :: "(byte list \<Rightarrow> u32) \<Rightarrow> (bool list \<times> bool) table_op list \<Rightarrow> heap \<Rightarrow> assoc \<Rightarrow> ptr list option" where
  "assoc_run hf \<equiv> table_run (\<lambda>k h a. assoc_find k (hf k) h a) (\<lambda>x h a. assoc_insert x (hf (ITEM_key (h x))) h a)
     (\<lambda>k h a. assoc_delete k (hf k) h a) (\<lambda>(locks, calloc) h a. maintenance_turn hf locks calloc h a)"

abbreviation assoc_legal :: "(byte list \<Rightarrow> u32) \<Rightarrow> (bool list \<times> bool) table_op list \<Rightarrow> heap \<Rightarrow> assoc \<Rightarrow> (byte list \<rightharpoonup> nat) \<Rightarrow> bool" where
  "assoc_legal hf \<equiv> legal_run (\<lambda>x h a. assoc_insert x (hf (ITEM_key (h x))) h a)
     (\<lambda>k h a. assoc_delete k (hf k) h a) (\<lambda>(locks, calloc) h a. maintenance_turn hf locks calloc h a) (\<lambda>a. hashpower a < 31)"

text \<open>
  C3. The hash table behaves as a map. Start from a freshly initialised table and run any sequence of
  lookups, insertions of new keys, deletions of present keys and turns of the maintenance thread
  (with any pattern of lock successes, allocation failures, and expansions begun and left half
  done). No bucket array is left, every chain walk ends, no assertion fails, and every lookup
  returns what a map from keys to items returns.
\<close>

theorem assoc_run_refines_map:
  assumes "assoc_init n calloc assoc_static = Some a" "assoc_legal hf ops h a Map.empty"
  shows "assoc_run hf ops h a = Some (map_run (\<lambda>x. ITEM_key (h x)) ops Map.empty)"
proof (rule assoc.run_refines [OF _ assms(2) refl])
  show "assoc.rep hf h a Map.empty"
    unfolding assoc.rep_def using assoc_init_table [OF assms(1)] by (intro exI [of _ "{}"]) simp
qed

text \<open>
  C19. An expansion ends. With the table in the middle of an expansion, as many successful lock
  attempts as there are old buckets left empty the old array: the table holds the same items at
  the doubled size, is no longer expanding, and the next lookup uses the primary array only.
\<close>

theorem assoc_expansion_completes:
  assumes "table hf h a C" "expanding a"
  shows "\<exists>h' a'. maintenance_moves hf (replicate (2 ^ (hashpower a - 1) - unat (expand_bucket a)) True) h a = Some (h', a')
    \<and> table hf h' a' C \<and> \<not> expanding a' \<and> hashpower a' = hashpower a \<and> bucket a' hv = Primary (unat hv mod 2 ^ hashpower a)"
proof -
  have s: "unat (expand_bucket a) < 2 ^ (hashpower a - 1)" "hashpower a < 32" using assms by (auto simp: table_def shape_def)
  then obtain n where n: "2 ^ (hashpower a - 1) - unat (expand_bucket a) = Suc n" by (metis Suc_diff_Suc)
  with s have "unat (expand_bucket a) + Suc n = 2 ^ (hashpower a - 1)" by simp
  with moves_finish [OF assms] n s(2) show ?thesis by (fastforce simp: bucket_def unat_and_hashmask)
qed

text \<open>
  C35. The largest table. \<open>assoc_start_expand\<close> still starts an expansion at hash power 31, the
  threshold there being \<open>2^30\<close> items because \<open>hashsize(31) * 3\<close> wraps, and the maintenance thread
  then shifts a 32-bit 1 by 32; an initial hash power of 32, which the option parser admits, does
  the same in \<open>assoc_init\<close>.
\<close>

theorem assoc_hashpower_limit:
  assumes "hashpower a = 31" "\<not> expanding a" "curr_items > 2 ^ 30"
  shows "started_expanding (assoc_start_expand curr_items a) \<and> maintenance_turn hf locks True h (assoc_start_expand curr_items a) = None
    \<and> assoc_init 32 True assoc_static = None"
proof -
  have t: "hashsize 31 * 3 div 2 = 2 ^ 30" by (simp add: hashsize_def)
  let ?a = "assoc_start_expand curr_items a"
  have "hashpower ?a = 31" "\<not> expanding ?a" "started_expanding ?a"
    using assms t by (simp_all add: assoc_start_expand_def)
  moreover from this have "maintenance_moves hf locks h ?a = Some (h, ?a)" by (cases locks) auto
  ultimately show ?thesis by (simp add: maintenance_turn_def assoc_expand_def assoc_init_def assoc_static_def)
qed

text \<open>A concrete run: two keys that collide, an expansion begun and finished between the lookups.\<close>

definition sample_item :: "byte list \<Rightarrow> item" where
  "sample_item k = \<lparr>nxt = None, prv = None, h_next = None, time = 0, exptime = 0, nbytes = 0, refcount = 1, it_flags = 0,
     slabs_clsid = 1, nkey = of_nat (length k), ikey = k, cas = 0, cflags = 0, idata = [], sch_next = None, sch_orig_clsid = 0\<rparr>"

definition sample_heap :: heap where
  "sample_heap x = sample_item (if x = 0 then [1] else if x = 1 then [3, 3] else [5])"

definition sample_ops :: "(bool list \<times> bool) table_op list" where
  "sample_ops = [TInsert 0, TInsert 1, TFind [1], TTick ([], True), TFind [3, 3], TInsert 2, TTick ([True, False, True], False), TFind [1],
     TDelete [1], TFind [1], TFind [5]]"

definition sample_hash :: "byte list \<Rightarrow> u32" where
  "sample_hash k = (if k = [] then 0 else ucast (hd k))"

theorem assoc_run_refines_map_witness:
  "\<exists>a. assoc_init 1 True assoc_static = Some a \<and> assoc_legal sample_hash sample_ops sample_heap a Map.empty
     \<and> assoc_run sample_hash sample_ops sample_heap a = Some [Some 0, Some 1, Some 0, None, Some 2]"
proof -
  define a where "a = the (assoc_init 1 True assoc_static)"
  have i: "assoc_init 1 True assoc_static = Some a" unfolding a_def by code_simp
  have l: "assoc_legal sample_hash sample_ops sample_heap a Map.empty" unfolding a_def by code_simp
  have m: "map_run (\<lambda>x. ITEM_key (sample_heap x)) sample_ops Map.empty = [Some 0, Some 1, Some 0, None, Some 2]" by code_simp
  show ?thesis using assoc_run_refines_map [OF i l] i l unfolding m by blast
qed

theorem assoc_expansion_completes_witness:
  "\<exists>h a. table sample_hash h a {0} \<and> expanding a \<and> hashpower a = 2
     \<and> (\<exists>h' a'. maintenance_moves sample_hash [True, True] h a = Some (h', a') \<and> table sample_hash h' a' {0} \<and> \<not> expanding a')"
proof -
  define a where "a = the (assoc_init 1 True assoc_static)"
  have i: "assoc_init 1 True assoc_static = Some a" unfolding a_def by code_simp
  have w: "wf_item (sample_heap 0)" by code_simp
  obtain h1 a1 where t1: "assoc_insert 0 (sample_hash (ITEM_key (sample_heap 0))) sample_heap a = Some (h1, a1)" "table sample_hash h1 a1 {0}"
    using table_insert [of sample_hash sample_heap a "{}" 0] assoc_init_table [OF i] w by auto
  have p: "hashpower a1 = 1 \<and> \<not> expanding a1"
  proof -
    have "map_option (\<lambda>(h, a). hashpower a = 1 \<and> \<not> expanding a) (assoc_insert 0 (sample_hash (ITEM_key (sample_heap 0))) sample_heap a) = Some True"
      unfolding a_def by code_simp
    then show ?thesis unfolding t1(1) by simp
  qed
  obtain a2 where a2: "assoc_expand True a1 = Some a2" "table sample_hash h1 a2 {0}" using table_expand [OF t1(2)] p by auto
  then have e: "expanding a2" "hashpower a2 = 2" "expand_bucket a2 = 0" using p by (auto simp: assoc_expand_def Let_def)
  have n: "replicate (2 ^ (hashpower a2 - 1) - unat (expand_bucket a2)) True = [True, True]" using e by (simp add: numeral_2_eq_2)
  show ?thesis using assoc_expansion_completes [OF a2(2) e(1), of 0] a2(2) e unfolding n by blast
qed

theorem assoc_hashpower_limit_witness:
  "maintenance_turn (\<lambda>k. 0) [] True (\<lambda>x. sample_item []) (assoc_start_expand (2 ^ 31) (assoc_static\<lparr>hashpower := 31\<rparr>)) = None"
proof -
  have "hashpower (assoc_static\<lparr>hashpower := 31\<rparr>) = 31" "\<not> expanding (assoc_static\<lparr>hashpower := 31\<rparr>)" "(2 ^ 31 :: u64) > 2 ^ 30"
    by (simp_all add: assoc_static_def)
  then show ?thesis using assoc_hashpower_limit [of "assoc_static\<lparr>hashpower := 31\<rparr>" "2 ^ 31"] by blast
qed

end
