(* ===== verification/Dll.thy ===== *)
theory Dll
  imports Item
begin

text \<open>
  Doubly linked lists of items through \<open>next\<close> and \<open>prev\<close>, the shape shared by the free lists of the
  slab allocator (\<open>slabs.c\<close>) and the LRU lists (\<open>items.c\<close>): the two pointer idioms the C code repeats,
  inserting at the head and cutting out, and what they do to a list and to the rest of the heap.
\<close>

text \<open>\<open>if (p) p->prev = v;\<close> and \<open>if (p) p->next = v;\<close>\<close>

fun set_prv :: "ptr \<Rightarrow> ptr \<Rightarrow> heap \<Rightarrow> heap" where
  "set_prv None v h = h"
| "set_prv (Some y) v h = h(y := (h y)\<lparr>prv := v\<rparr>)"

fun set_nxt :: "ptr \<Rightarrow> ptr \<Rightarrow> heap \<Rightarrow> heap" where
  "set_nxt None v h = h"
| "set_nxt (Some y) v h = h(y := (h y)\<lparr>nxt := v\<rparr>)"

text \<open>\<open>it->prev = 0; it->next = head; if (it->next) it->next->prev = it;\<close>\<close>

definition push_front :: "nat \<Rightarrow> ptr \<Rightarrow> heap \<Rightarrow> heap" where
  "push_front it head h = set_prv head (Some it) (h(it := (h it)\<lparr>prv := None, nxt := head\<rparr>))"

text \<open>\<open>if (it->next) it->next->prev = it->prev; if (it->prev) it->prev->next = it->next;\<close>\<close>

definition cut_out :: "nat \<Rightarrow> heap \<Rightarrow> heap" where
  "cut_out it h =
     (let h' = set_prv (nxt (h it)) (prv (h it)) h in set_nxt (prv (h' it)) (nxt (h' it)) h')"

section \<open>Lists\<close>

text \<open>
  \<open>dls h pr xs nx\<close>: the items \<open>xs\<close> are linked in order, the first one's \<open>prev\<close> is \<open>pr\<close> and the last
  one's \<open>next\<close> is \<open>nx\<close>.
\<close>

definition first_ptr :: "nat list \<Rightarrow> ptr \<Rightarrow> ptr" where
  "first_ptr xs p = (case xs of [] \<Rightarrow> p | x # _ \<Rightarrow> Some x)"

definition last_ptr :: "nat list \<Rightarrow> ptr \<Rightarrow> ptr" where
  "last_ptr xs p = (if xs = [] then p else Some (last xs))"

fun dls :: "heap \<Rightarrow> ptr \<Rightarrow> nat list \<Rightarrow> ptr \<Rightarrow> bool" where
  "dls h pr [] nx \<longleftrightarrow> True"
| "dls h pr (x # xs) nx \<longleftrightarrow> prv (h x) = pr \<and> nxt (h x) = first_ptr xs nx \<and> dls h (Some x) xs nx"

definition dll :: "heap \<Rightarrow> ptr \<Rightarrow> nat list \<Rightarrow> bool" where
  "dll h p xs \<longleftrightarrow> distinct xs \<and> p = first_ptr xs None \<and> dls h None xs None"

lemma first_ptr_simps [simp]: "first_ptr [] p = p" "first_ptr (x # xs) p = Some x"
  "first_ptr (xs @ ys) p = first_ptr xs (first_ptr ys p)"
  by (simp_all add: first_ptr_def split: list.splits)

lemma last_ptr_simps [simp]: "last_ptr [] p = p" "last_ptr (x # xs) p = last_ptr xs (Some x)" "last_ptr (xs @ ys) p = last_ptr ys (last_ptr xs p)"
  by (simp_all add: last_ptr_def)

lemma first_ptr_None_iff [simp]: "first_ptr xs None = None \<longleftrightarrow> xs = []"
  by (cases xs) auto

lemma last_ptr_None_iff [simp]: "last_ptr xs None = None \<longleftrightarrow> xs = []"
  by (simp add: last_ptr_def)

lemma first_ptr_in: "first_ptr xs None = Some y \<Longrightarrow> y \<in> set xs"
  by (cases xs) auto

lemma last_ptr_in: "last_ptr xs None = Some y \<Longrightarrow> y \<in> set xs"
  by (auto simp: last_ptr_def split: if_splits)

lemma dls_append [simp]: "dls h pr (xs @ ys) nx \<longleftrightarrow> dls h pr xs (first_ptr ys nx) \<and> dls h (last_ptr xs pr) ys nx"
  by (induction xs arbitrary: pr) auto

lemma dls_cong:
  "dls h pr xs nx \<Longrightarrow> (\<And>x. x \<in> set xs \<Longrightarrow> nxt (h' x) = nxt (h x) \<and> prv (h' x) = prv (h x)) \<Longrightarrow> dls h' pr xs nx"
  by (induction xs arbitrary: pr) auto

lemma dll_cong:
  assumes "dll h p xs" "\<And>x. x \<in> set xs \<Longrightarrow> nxt (h' x) = nxt (h x) \<and> prv (h' x) = prv (h x)"
  shows "dll h' p xs"
  using assms unfolding dll_def by (auto elim!: dls_cong)

lemma dll_Nil [simp]: "dll h p [] \<longleftrightarrow> p = None"
  by (simp add: dll_def)

lemma dll_None: "dll h None xs \<longleftrightarrow> xs = []"
  by (cases xs) (auto simp: dll_def)

lemma dll_SomeD: "dll h (Some x) xs \<Longrightarrow> \<exists>ys. xs = x # ys"
  by (cases xs) (auto simp: dll_def)

section \<open>Writes to the links\<close>

text \<open>The links written by the two idioms, and everything they leave alone.\<close>

lemma set_prv_other: "p \<noteq> Some x \<Longrightarrow> set_prv p v h x = h x"
  by (cases p) auto

lemma set_nxt_other: "p \<noteq> Some x \<Longrightarrow> set_nxt p v h x = h x"
  by (cases p) auto

lemma set_prv_nxt [simp]: "nxt (set_prv p v h x) = nxt (h x)"
  by (cases p) auto

lemma set_nxt_prv [simp]: "prv (set_nxt p v h x) = prv (h x)"
  by (cases p) auto

text \<open>\<open>same_nodes h h'\<close>: the heaps differ in \<open>next\<close> and \<open>prev\<close> links only.\<close>

definition same_nodes :: "heap \<Rightarrow> heap \<Rightarrow> bool" where
  "same_nodes h h' \<longleftrightarrow> (\<forall>x. (h' x)\<lparr>nxt := None, prv := None\<rparr> = (h x)\<lparr>nxt := None, prv := None\<rparr>)"

lemma same_nodes_refl [simp]: "same_nodes h h"
  by (simp add: same_nodes_def)

lemma same_nodes_trans: "same_nodes h h' \<Longrightarrow> same_nodes h' h'' \<Longrightarrow> same_nodes h h''"
  by (simp add: same_nodes_def)

lemma same_nodes_set [simp]: "same_nodes h (set_prv p v h)" "same_nodes h (set_nxt p v h)"
  by (cases p; simp add: same_nodes_def)+

lemma same_nodes_upd: "same_nodes h (h(x := (h x)\<lparr>prv := p, nxt := q\<rparr>))"
  by (simp add: same_nodes_def)

lemma same_nodesD:
  assumes "same_nodes h h'"
  shows "h_next (h' x) = h_next (h x)" "time (h' x) = time (h x)" "exptime (h' x) = exptime (h x)" "nbytes (h' x) = nbytes (h x)"
    "refcount (h' x) = refcount (h x)" "it_flags (h' x) = it_flags (h x)" "slabs_clsid (h' x) = slabs_clsid (h x)"
    "nkey (h' x) = nkey (h x)" "ikey (h' x) = ikey (h x)" "cas (h' x) = cas (h x)" "cflags (h' x) = cflags (h x)"
    "idata (h' x) = idata (h x)" "sch_next (h' x) = sch_next (h x)" "sch_orig_clsid (h' x) = sch_orig_clsid (h x)"
proof -
  have "(h' x)\<lparr>nxt := None, prv := None\<rparr> = (h x)\<lparr>nxt := None, prv := None\<rparr>" using assms by (simp add: same_nodes_def)
  then show "h_next (h' x) = h_next (h x)" "time (h' x) = time (h x)" "exptime (h' x) = exptime (h x)" "nbytes (h' x) = nbytes (h x)"
    "refcount (h' x) = refcount (h x)" "it_flags (h' x) = it_flags (h x)" "slabs_clsid (h' x) = slabs_clsid (h x)"
    "nkey (h' x) = nkey (h x)" "ikey (h' x) = ikey (h x)" "cas (h' x) = cas (h x)" "cflags (h' x) = cflags (h x)"
    "idata (h' x) = idata (h x)" "sch_next (h' x) = sch_next (h x)" "sch_orig_clsid (h' x) = sch_orig_clsid (h x)"
    by (cases "h x"; cases "h' x"; simp)+
qed

lemma same_nodes_push: "same_nodes h (push_front it p h)"
  unfolding push_front_def by (rule same_nodes_trans [OF same_nodes_upd same_nodes_set(1)])

lemma same_nodes_cut: "same_nodes h (cut_out it h)"
  unfolding cut_out_def Let_def by (rule same_nodes_trans [OF same_nodes_set(1) same_nodes_set(2)])

section \<open>Insertion at the head\<close>

lemma dls_set_prv_first:
  "dls h pr xs nx \<Longrightarrow> distinct xs \<Longrightarrow> dls (set_prv (first_ptr xs None) v h) v xs nx"
proof (cases xs)
  case (Cons x ys)
  moreover assume "dls h pr xs nx" "distinct xs"
  ultimately show ?thesis by (auto elim!: dls_cong)
qed simp

lemma dls_set_nxt_last:
  "dls h pr xs nx \<Longrightarrow> distinct xs \<Longrightarrow> dls (set_nxt (last_ptr xs None) v h) pr xs v"
proof (cases xs rule: rev_cases)
  case (snoc ys x)
  moreover assume "dls h pr xs nx" "distinct xs"
  ultimately show ?thesis by (auto elim!: dls_cong)
qed simp

lemma push_front_dll:
  assumes "dll h p xs" "it \<notin> set xs"
  shows "dll (push_front it p h) (Some it) (it # xs)"
proof -
  let ?h = "h(it := (h it)\<lparr>prv := None, nxt := p\<rparr>)"
  have p: "p = first_ptr xs None" and d: "distinct xs" using assms(1) by (auto simp: dll_def)
  have "dls ?h None xs None" using assms by (auto simp: dll_def elim!: dls_cong)
  then have "dls (set_prv (first_ptr xs None) (Some it) ?h) (Some it) xs None" using d by (rule dls_set_prv_first)
  moreover have "set_prv (first_ptr xs None) (Some it) ?h it = ?h it"
    by (rule set_prv_other) (use assms(2) first_ptr_in in blast)
  ultimately show ?thesis using assms(2) d by (simp add: dll_def push_front_def p)
qed

text \<open>Nothing outside the list and the new head changes.\<close>

lemma push_front_other:
  assumes "dll h p xs" "x \<noteq> it" "x \<notin> set xs"
  shows "push_front it p h x = h x"
proof -
  have "p \<noteq> Some x" using assms first_ptr_in by (auto simp: dll_def)
  with assms(2) show ?thesis by (simp add: push_front_def set_prv_other)
qed

section \<open>Removal\<close>

lemma cut_out_dll:
  assumes "dll h p (xs @ it # ys)"
  shows "dll (cut_out it h) (if p = Some it then nxt (h it) else p) (xs @ ys)"
proof -
  have d: "distinct (xs @ it # ys)" and p: "p = first_ptr (xs @ it # ys) None" using assms by (auto simp: dll_def)
  have n: "nxt (h it) = first_ptr ys None" and r: "prv (h it) = last_ptr xs None"
    and l1: "dls h None xs (Some it)" and l2: "dls h (Some it) ys None" using assms by (auto simp: dll_def)
  let ?h1 = "set_prv (first_ptr ys None) (last_ptr xs None) h"
  have it1: "?h1 it = h it" by (rule set_prv_other) (use d first_ptr_in in auto)
  have h: "cut_out it h = set_nxt (last_ptr xs None) (first_ptr ys None) ?h1"
    using n r by (simp add: cut_out_def Let_def it1)
  have "dls ?h1 None xs (Some it)"
  proof (rule dls_cong [OF l1])
    fix x assume "x \<in> set xs"
    then have "first_ptr ys None \<noteq> Some x" using d first_ptr_in by fastforce
    then show "nxt (?h1 x) = nxt (h x) \<and> prv (?h1 x) = prv (h x)" by (simp add: set_prv_other)
  qed
  then have x: "dls (cut_out it h) None xs (first_ptr ys None)" unfolding h using d by (intro dls_set_nxt_last) auto
  have "dls ?h1 (last_ptr xs None) ys None" using l2 d by (intro dls_set_prv_first) auto
  then have y: "dls (cut_out it h) (last_ptr xs None) ys None" unfolding h
  proof (rule dls_cong)
    fix y assume "y \<in> set ys"
    then have "last_ptr xs None \<noteq> Some y" using d last_ptr_in by fastforce
    then show "nxt (set_nxt (last_ptr xs None) (first_ptr ys None) ?h1 y) = nxt (?h1 y) \<and> prv (set_nxt (last_ptr xs None) (first_ptr ys None) ?h1 y) = prv (?h1 y)"
      by (simp add: set_nxt_other)
  qed
  have "(if p = Some it then nxt (h it) else p) = first_ptr (xs @ ys) None"
    using p n d by (cases xs) auto
  with x y d show ?thesis by (simp add: dll_def)
qed

lemma cut_out_links:
  assumes "dll h p (xs @ it # ys)"
  shows "nxt (h it) = first_ptr ys None" "prv (h it) = last_ptr xs None" "p = Some it \<longleftrightarrow> xs = []"
  using assms by (cases xs; auto simp: dll_def)+

lemma cut_out_other:
  assumes "dll h p (xs @ it # ys)" "x \<notin> set xs" "x \<notin> set ys"
  shows "cut_out it h x = h x"
proof -
  note l = cut_out_links [OF assms(1)]
  have "nxt (h it) \<noteq> Some x" "prv (h it) \<noteq> Some x" using l assms(2,3) first_ptr_in last_ptr_in by fastforce+
  moreover have "it \<notin> set ys" using assms(1) by (simp add: dll_def)
  then have "nxt (h it) \<noteq> Some it" using l(1) first_ptr_in by fastforce
  ultimately show ?thesis using assms(2,3) by (auto simp: cut_out_def Let_def set_nxt_other set_prv_other)
qed

end
