(* ===== verification/Slabs.thy ===== *)
theory Slabs
  imports Dll Slab_Automove "HOL-Library.Monad_Syntax"
begin

text \<open>
  The slab allocator, \<open>src/mem/slabs.c\<close>: size classes, pages split into chunks, free lists threaded
  through the chunks, the global page pool and the page mover's bookkeeping. Chunks are the
  addresses of the heap of \<open>Item\<close>; a page is its start address. Operations take and return the
  heap and the allocator's state; \<open>None\<close> is a failed assertion, an access outside an array, a
  division by zero or a call of \<open>exit\<close>. What \<open>malloc\<close> and \<open>realloc\<close> return is an argument.

  The build modelled is the one without \<open>NEED_ALIGN\<close>; the \<open>EXTSTORE\<close> variants are chosen by the
  argument \<open>ext\<close>.
\<close>

text \<open>The settings the allocator reads (\<open>struct settings\<close> of \<open>memcached.h\<close>).\<close>

record slab_settings =
  maxbytes :: u64
  item_size_max :: int
  slab_chunk_size_max :: int
  slab_page_size :: int
  chunk_size_min :: int
  slab_reassign :: bool
  use_cas :: bool

record slabclass =
  sl_size :: u32
  perslab :: u32
  slots :: ptr
  sl_curr :: u32
  slabs :: u32
  slab_list :: "nat list"
  list_size :: u32
  requested :: u64

record slabs =
  slabclass :: "slabclass list"
  mem_limit :: u64
  mem_malloced :: u64
  mem_limit_reached :: bool
  power_largest :: nat
  mem_base :: ptr
  mem_current :: nat
  mem_avail :: u64

abbreviation (input) POWER_SMALLEST :: nat where "POWER_SMALLEST \<equiv> 1"
abbreviation (input) SLAB_GLOBAL_PAGE_POOL :: nat where "SLAB_GLOBAL_PAGE_POOL \<equiv> 0"
abbreviation (input) sizeof_item_hdr :: nat where "sizeof_item_hdr \<equiv> 12"

abbreviation cls :: "slabs \<Rightarrow> nat \<Rightarrow> slabclass" where
  "cls s i \<equiv> slabclass s ! i"

definition upd_cls :: "nat \<Rightarrow> (slabclass \<Rightarrow> slabclass) \<Rightarrow> slabs \<Rightarrow> slabs" where
  "upd_cls i f s = s\<lparr>slabclass := (slabclass s)[i := f (cls s i)]\<rparr>"

section \<open>Size classes\<close>

function clsid_loop :: "slabs \<Rightarrow> u64 \<Rightarrow> nat \<Rightarrow> nat option" where
  "clsid_loop s sz res =
     (if res \<ge> length (slabclass s) then None
      else if sz > ucast (sl_size (cls s res))
      then (if res = power_largest s then Some (power_largest s) else clsid_loop s sz (res + 1))
      else Some res)"
  by pat_completeness auto
termination by (relation "measure (\<lambda>(s, sz, res). length (slabclass s) - res)") auto

definition slabs_clsid_for :: "slab_settings \<Rightarrow> slabs \<Rightarrow> u64 \<Rightarrow> nat option" where
  "slabs_clsid_for st s sz =
     (if sz = 0 \<or> sz > word_of_int (item_size_max st) then Some 0 else clsid_loop s sz POWER_SMALLEST)"

definition zero_class :: slabclass where
  "zero_class = \<lparr>sl_size = 0, perslab = 0, slots = None, sl_curr = 0, slabs = 0, slab_list = [], list_size = 0, requested = 0\<rparr>"

text \<open>
  The table of classes. \<open>sizes\<close> is the argument \<open>slab_sizes\<close>; the double arithmetic is given by
  \<open>stop\<close>, the comparison \<open>size >= settings.slab_chunk_size_max / factor\<close>, and \<open>grow\<close>, the truncated
  product \<open>size * factor\<close>.
\<close>

abbreviation (input) CHUNK_ALIGN_BYTES :: "'a::len word" where "CHUNK_ALIGN_BYTES \<equiv> 8"

definition align_size :: "'a::len word \<Rightarrow> 'a word" where
  "align_size sz = (if sz mod CHUNK_ALIGN_BYTES \<noteq> 0 then sz + (CHUNK_ALIGN_BYTES - sz mod CHUNK_ALIGN_BYTES) else sz)"

function init_classes ::
    "slab_settings \<Rightarrow> u32 list option \<Rightarrow> (u32 \<Rightarrow> bool) \<Rightarrow> (u32 \<Rightarrow> u32) \<Rightarrow> nat \<Rightarrow> u32 \<Rightarrow> slabclass list \<Rightarrow> (nat \<times> slabclass list) option" where
  "init_classes st sizes stop grow i sz cs =
     (if \<not> i < MAX_NUMBER_OF_SLAB_CLASSES - 1 then Some (i, cs)
      else case (case sizes of None \<Rightarrow> Some (if stop sz then None else Some sz)
                 | Some ss \<Rightarrow> if i - 1 < length ss then Some (if ss ! (i - 1) = 0 then None else Some (ss ! (i - 1))) else None) of
        None \<Rightarrow> None
      | Some None \<Rightarrow> Some (i, cs)
      | Some (Some sz1) \<Rightarrow>
          let sz2 = align_size sz1
          in if sz2 = 0 then None
             else init_classes st sizes stop grow (i + 1) (if sizes = None then grow sz2 else sz2)
                    (cs[i := (cs ! i)\<lparr>sl_size := sz2, perslab := word_of_int (slab_page_size st) div sz2\<rparr>]))"
  by pat_completeness auto
termination by (relation "measure (\<lambda>(st, sizes, stop, grow, i, sz, cs). 63 - i)") auto

section \<open>Memory\<close>

definition memory_allocate :: "ptr \<Rightarrow> u64 \<Rightarrow> slabs \<Rightarrow> ptr \<times> slabs" where
  "memory_allocate malloc sz s =
     (case mem_base s of
        None \<Rightarrow> (malloc, s\<lparr>mem_malloced := mem_malloced s + sz\<rparr>)
      | Some _ \<Rightarrow>
          if sz > mem_avail s then (None, s)
          else let sz' = align_size sz
               in (Some (mem_current s),
                   s\<lparr>mem_current := mem_current s + unat sz', mem_avail := (if sz' < mem_avail s then mem_avail s - sz' else 0),
                     mem_malloced := mem_malloced s + sz'\<rparr>))"

definition grow_slab_list :: "bool \<Rightarrow> nat \<Rightarrow> slabs \<Rightarrow> bool \<times> slabs" where
  "grow_slab_list realloc cid s =
     (let p = cls s cid
      in if slabs p = list_size p then
           let new_size = (if list_size p \<noteq> 0 then list_size p * 2 else 16)
           in if \<not> realloc then (False, s)
              else (True, upd_cls cid (\<lambda>p. p\<lparr>list_size := new_size,
                      slab_list := take (unat new_size) (slab_list p) @ replicate (unat new_size - length (slab_list p)) 0\<rparr>) s)
         else (True, s))"

definition get_page_from_global_pool :: "slabs \<Rightarrow> (ptr \<times> slabs) option" where
  "get_page_from_global_pool s =
     (let p = cls s SLAB_GLOBAL_PAGE_POOL
      in if slabs p < 1 then Some (None, s)
         else if unat (slabs p - 1) < length (slab_list p)
         then Some (Some (slab_list p ! unat (slabs p - 1)), upd_cls SLAB_GLOBAL_PAGE_POOL (\<lambda>p. p\<lparr>slabs := slabs p - 1\<rparr>) s)
         else None)"

text \<open>\<open>p->slab_list[p->slabs++] = ptr\<close>\<close>

definition add_page :: "nat \<Rightarrow> nat \<Rightarrow> slabs \<Rightarrow> slabs option" where
  "add_page cid pg s =
     (if unat (slabs (cls s cid)) < length (slab_list (cls s cid))
      then Some (upd_cls cid (\<lambda>p. p\<lparr>slab_list := (slab_list p)[unat (slabs p) := pg], slabs := slabs p + 1\<rparr>) s) else None)"

text \<open>Zeroed memory, and \<open>memset(p, 0, len)\<close>.\<close>

definition zero_item :: item where
  "zero_item = \<lparr>nxt = None, prv = None, h_next = None, time = 0, exptime = 0, nbytes = 0, refcount = 0, it_flags = 0,
     slabs_clsid = 0, nkey = 0, ikey = [], cas = 0, cflags = 0, idata = [], sch_next = None, sch_orig_clsid = 0\<rparr>"

definition memset0 :: "nat \<Rightarrow> nat \<Rightarrow> heap \<Rightarrow> heap" where
  "memset0 p len h = (\<lambda>x. if p \<le> x \<and> x < p + len then zero_item else h x)"

section \<open>Freeing\<close>

definition FLAGS_SIZE :: "item \<Rightarrow> u64" where
  "FLAGS_SIZE it = (if has_flag (it_flags it) ITEM_CFLAGS then 4 else 0)"

text \<open>
  A chunk goes to the head of the free list of class \<open>cid\<close>: the statements shared by the header, the
  chained chunks and the plain items.
\<close>

definition free_push :: "nat \<Rightarrow> nat \<Rightarrow> heap \<Rightarrow> slabs \<Rightarrow> heap \<times> slabs" where
  "free_push it cid h s =
     (push_front it (slots (cls s cid)) h, upd_cls cid (\<lambda>p. p\<lparr>slots := Some it, sl_curr := sl_curr p + 1\<rparr>) s)"

definition sub_requested :: "nat \<Rightarrow> u64 \<Rightarrow> slabs \<Rightarrow> slabs" where
  "sub_requested cid n = upd_cls cid (\<lambda>p. p\<lparr>requested := requested p - n\<rparr>)"

partial_function (option) free_chunk_chain :: "ptr \<Rightarrow> heap \<Rightarrow> slabs \<Rightarrow> (heap \<times> slabs) option" where
  "free_chunk_chain chunk h s =
     (case chunk of None \<Rightarrow> Some (h, s)
      | Some c \<Rightarrow>
          if it_flags (h c) \<noteq> ITEM_CHUNK \<or> \<not> unat (slabs_clsid (h c)) < length (slabclass s) then None
          else let cid = unat (slabs_clsid (h c));
                   next_chunk = nxt (h c);
                   (h', s') = free_push c cid (h(c := (h c)\<lparr>it_flags := ITEM_SLABBED, slabs_clsid := 0\<rparr>)) s;
                   s'' = sub_requested cid (word_of_int (sint (time (h' c))) + of_nat sizeof_item_chunk) s'
               in free_chunk_chain next_chunk h' s'')"

declare free_chunk_chain.simps [code]

definition do_slabs_free_chunked :: "slab_settings \<Rightarrow> nat \<Rightarrow> heap \<Rightarrow> slabs \<Rightarrow> (heap \<times> slabs) option" where
  "do_slabs_free_chunked st it h s =
     (let chunk = sch_next (h it);
          cid = unat (sch_orig_clsid (h it));
          h = h(it := (h it)\<lparr>it_flags := ITEM_SLABBED, slabs_clsid := 0, prv := None\<rparr>);
          h = set_prv chunk None h
      in if \<not> cid < length (slabclass s) then None
         else let (h, s) = free_push it cid h s;
                  s = sub_requested cid (of_nat (unat (nkey (h it)) + 1) + FLAGS_SIZE (h it) + of_nat sizeof_item + of_nat sizeof_item_chunk) s;
                  s = (if use_cas st then sub_requested cid 8 s else s)
              in free_chunk_chain chunk h s)"

definition do_slabs_free :: "bool \<Rightarrow> slab_settings \<Rightarrow> nat \<Rightarrow> u64 \<Rightarrow> nat \<Rightarrow> heap \<Rightarrow> slabs \<Rightarrow> (heap \<times> slabs) option" where
  "do_slabs_free ext st ptr sz cid h s =
     (if \<not> (POWER_SMALLEST \<le> cid \<and> cid \<le> power_largest s) then None
      else if \<not> has_flag (it_flags (h ptr)) ITEM_CHUNKED then
        let is_hdr = ext \<and> has_flag (it_flags (h ptr)) ITEM_HDR;
            (h, s) = free_push ptr cid (h(ptr := (h ptr)\<lparr>it_flags := ITEM_SLABBED, slabs_clsid := 0\<rparr>)) s
        in Some (h, sub_requested cid (if is_hdr then (sz - word_of_int (nbytes (h ptr))) + of_nat sizeof_item_hdr else sz) s)
      else do_slabs_free_chunked st ptr h s)"

fun split_slab_page_into_freelist :: "bool \<Rightarrow> slab_settings \<Rightarrow> nat \<Rightarrow> nat \<Rightarrow> nat \<Rightarrow> heap \<Rightarrow> slabs \<Rightarrow> (heap \<times> slabs) option" where
  "split_slab_page_into_freelist ext st 0 ptr cid h s = Some (h, s)"
| "split_slab_page_into_freelist ext st (Suc n) ptr cid h s =
     do { (h, s) \<leftarrow> do_slabs_free ext st ptr 0 cid h s;
          split_slab_page_into_freelist ext st n (ptr + unat (sl_size (cls s cid))) cid h s }"

section \<open>Allocating\<close>

text \<open>\<open>env\<close> says whether \<open>realloc\<close> succeeds and what \<open>malloc\<close> returns.\<close>

type_synonym mem_env = "bool \<times> ptr"

definition page_len :: "slab_settings \<Rightarrow> slabclass \<Rightarrow> int" where
  "page_len st p =
     (if slab_reassign st \<or> slab_chunk_size_max st \<noteq> slab_page_size st then slab_page_size st else c_int (sl_size p * perslab p))"

text \<open>Clearing a page, splitting it and entering it into the page list.\<close>

definition install_page :: "bool \<Rightarrow> slab_settings \<Rightarrow> nat \<Rightarrow> nat \<Rightarrow> nat \<Rightarrow> heap \<Rightarrow> slabs \<Rightarrow> (heap \<times> slabs) option" where
  "install_page ext st i a len h s =
     do { (h, s) \<leftarrow> split_slab_page_into_freelist ext st (unat (perslab (cls s i))) a i (memset0 a len h) s;
          s \<leftarrow> add_page i a s; Some (h, s) }"

definition do_slabs_newslab :: "bool \<Rightarrow> slab_settings \<Rightarrow> mem_env \<Rightarrow> nat \<Rightarrow> heap \<Rightarrow> slabs \<Rightarrow> (bool \<times> heap \<times> slabs) option" where
  "do_slabs_newslab ext st env cid h s =
     (let p = cls s cid; g = cls s SLAB_GLOBAL_PAGE_POOL; len = page_len st p; (realloc, malloc) = env
      in if mem_limit s \<noteq> 0 \<and> mem_malloced s + word_of_int len > mem_limit s \<and> slabs p > 0 \<and> slabs g = 0
         then Some (False, h, s\<lparr>mem_limit_reached := True\<rparr>)
         else let (ok, s) = grow_slab_list realloc cid s
              in if \<not> ok then Some (False, h, s)
                 else do { (pg, s) \<leftarrow> get_page_from_global_pool s;
                           (let (pg, s) = (case pg of Some a \<Rightarrow> (pg, s) | None \<Rightarrow> memory_allocate malloc (word_of_int len) s)
                            in case pg of
                                 None \<Rightarrow> Some (False, h, s)
                               | Some a \<Rightarrow> do { (h, s) \<leftarrow> install_page ext st cid a (nat len) h s; Some (True, h, s) }) })"

text \<open>Take the head of the free list.\<close>

definition free_pop :: "nat \<Rightarrow> nat \<Rightarrow> heap \<Rightarrow> slabs \<Rightarrow> heap \<times> slabs" where
  "free_pop it cid h s =
     (let h' = set_prv (nxt (h it)) None h;
          h'' = h'(it := (h' it)\<lparr>it_flags := clear_flag (it_flags (h' it)) ITEM_SLABBED, refcount := 1\<rparr>)
      in (h'', upd_cls cid (\<lambda>p. p\<lparr>slots := nxt (h it), sl_curr := sl_curr p - 1\<rparr>) s))"

definition do_slabs_alloc ::
    "bool \<Rightarrow> slab_settings \<Rightarrow> mem_env \<Rightarrow> bool \<Rightarrow> u64 \<Rightarrow> nat \<Rightarrow> heap \<Rightarrow> slabs \<Rightarrow> (ptr \<times> u64 option \<times> heap \<times> slabs) option" where
  "do_slabs_alloc ext st env no_newpage sz cid h s =
     (if cid < POWER_SMALLEST \<or> cid > power_largest s then Some (None, None, h, s)
      else if \<not> (sl_curr (cls s cid) = 0 \<or> (case slots (cls s cid) of None \<Rightarrow> False | Some x \<Rightarrow> slabs_clsid (h x) = 0)) then None
      else if \<not> sz \<le> ucast (sl_size (cls s cid)) then None
      else let total_bytes = requested (cls s cid)
           in do { (_, h, s) \<leftarrow> (if sl_curr (cls s cid) = 0 \<and> \<not> no_newpage then do_slabs_newslab ext st env cid h s else Some (False, h, s));
                   (if sl_curr (cls s cid) \<noteq> 0
                    then case slots (cls s cid) of
                           None \<Rightarrow> None
                         | Some it \<Rightarrow> let (h, s) = free_pop it cid h s
                                      in Some (Some it, Some total_bytes, h, upd_cls cid (\<lambda>p. p\<lparr>requested := requested p + sz\<rparr>) s)
                    else Some (None, Some total_bytes, h, s)) })"

section \<open>Start-up\<close>

fun slabs_preallocate :: "bool \<Rightarrow> slab_settings \<Rightarrow> (nat \<Rightarrow> mem_env) \<Rightarrow> nat \<Rightarrow> nat \<Rightarrow> nat list \<Rightarrow> heap \<Rightarrow> slabs \<Rightarrow> (heap \<times> slabs) option" where
  "slabs_preallocate ext st env maxslabs prealloc [] h s = Some (h, s)"
| "slabs_preallocate ext st env maxslabs prealloc (i # is) h s =
     (if prealloc + 1 > maxslabs then Some (h, s)
      else do { (ok, h, s) \<leftarrow> do_slabs_newslab ext st (env i) i h s;
                if \<not> ok then None else slabs_preallocate ext st env maxslabs (prealloc + 1) is h s })"

text \<open>
  \<open>base\<close> is the large block for preallocation (\<open>malloc\<close>, or with \<open>huge\<close> the Linux huge-page
  allocation), \<open>initial_malloc\<close> the test suite's environment variable.
\<close>

definition slabs_init ::
    "bool \<Rightarrow> slab_settings \<Rightarrow> (nat \<Rightarrow> mem_env) \<Rightarrow> bool \<Rightarrow> ptr \<Rightarrow> u64 option \<Rightarrow> u64 \<Rightarrow> (u32 \<Rightarrow> bool) \<Rightarrow> (u32 \<Rightarrow> u32) \<Rightarrow> bool \<Rightarrow> u32 list option
     \<Rightarrow> heap \<Rightarrow> (heap \<times> slabs) option" where
  "slabs_init ext st env huge base initial_malloc limit stop grow prealloc sizes h =
     do { (i, cs) \<leftarrow> init_classes st sizes stop grow POWER_SMALLEST (of_nat sizeof_item + word_of_int (chunk_size_min st)) (replicate MAX_NUMBER_OF_SLAB_CLASSES zero_class);
          (if slab_chunk_size_max st = 0 then None
           else
             let cs = cs[i := (cs ! i)\<lparr>sl_size := word_of_int (slab_chunk_size_max st),
                                        perslab := word_of_int (slab_page_size st div slab_chunk_size_max st)\<rparr>];
                 b = (if prealloc then base else None);
                 s = \<lparr>slabclass = cs, mem_limit = limit, mem_malloced = (case initial_malloc of None \<Rightarrow> 0 | Some m \<Rightarrow> m),
                      mem_limit_reached = False, power_largest = i, mem_base = b, mem_current = (case b of None \<Rightarrow> 0 | Some a \<Rightarrow> a),
                      mem_avail = (if b = None then 0 else limit)\<rparr>
             in if prealloc \<and> (huge \<longrightarrow> base \<noteq> None)
                then slabs_preallocate ext st env i 0 [POWER_SMALLEST..<MAX_NUMBER_OF_SLAB_CLASSES] h s
                else Some (h, s)) }"

partial_function (option) prefill_loop :: "slab_settings \<Rightarrow> (nat \<Rightarrow> mem_env) \<Rightarrow> nat \<Rightarrow> slabs \<Rightarrow> slabs option" where
  "prefill_loop st env k s =
     (if \<not> mem_malloced s < mem_limit s then Some s
      else case memory_allocate (snd (env k)) (word_of_int (slab_page_size st)) s of
             (None, s') \<Rightarrow> Some s'
           | (Some a, s') \<Rightarrow> (case add_page SLAB_GLOBAL_PAGE_POOL a (snd (grow_slab_list (fst (env k)) SLAB_GLOBAL_PAGE_POOL s')) of
                 None \<Rightarrow> None
               | Some s'' \<Rightarrow> prefill_loop st env (k + 1) s''))"

declare prefill_loop.simps [code]

definition slabs_prefill_global :: "slab_settings \<Rightarrow> (nat \<Rightarrow> mem_env) \<Rightarrow> slabs \<Rightarrow> slabs option" where
  "slabs_prefill_global st env s = map_option (\<lambda>s. s\<lparr>mem_limit_reached := True\<rparr>) (prefill_loop st env 0 s)"

section \<open>Limits and statistics\<close>

text \<open>The pages handed back to the system are returned with the state.\<close>

partial_function (option) release_loop :: "slab_settings \<Rightarrow> nat list \<Rightarrow> slabs \<Rightarrow> (nat list \<times> slabs) option" where
  "release_loop st freed s =
     (if \<not> mem_malloced s > mem_limit s then Some (freed, s)
      else case get_page_from_global_pool s of
             None \<Rightarrow> None
           | Some (None, s') \<Rightarrow> Some (freed, s')
           | Some (Some p, s') \<Rightarrow>
               release_loop st (freed @ [p]) (s'\<lparr>mem_malloced := mem_malloced s' - word_of_int (slab_page_size st)\<rparr>))"

declare release_loop.simps [code]

definition memory_release :: "slab_settings \<Rightarrow> slabs \<Rightarrow> (nat list \<times> slabs) option" where
  "memory_release st s =
     (if mem_base s \<noteq> None \<or> \<not> slab_reassign st then Some ([], s) else release_loop st [] s)"

definition slabs_adjust_mem_limit :: "slab_settings \<Rightarrow> u64 \<Rightarrow> slabs \<Rightarrow> (bool \<times> nat list \<times> slab_settings \<times> slabs) option" where
  "slabs_adjust_mem_limit st new_mem_limit s =
     (if mem_base s \<noteq> None then Some (False, [], st, s)
      else let st = st\<lparr>maxbytes := new_mem_limit\<rparr>
           in do { (freed, s) \<leftarrow> memory_release st (s\<lparr>mem_limit := new_mem_limit, mem_limit_reached := False\<rparr>);
                   Some (True, freed, st, s) })"

definition slabs_adjust_mem_requested :: "nat \<Rightarrow> u64 \<Rightarrow> u64 \<Rightarrow> slabs \<Rightarrow> slabs option" where
  "slabs_adjust_mem_requested cid old ntotal s =
     (if cid < POWER_SMALLEST \<or> cid > power_largest s then None
      else Some (upd_cls cid (\<lambda>p. p\<lparr>requested := requested p - old + ntotal\<rparr>) s))"

definition slabs_available_chunks :: "nat \<Rightarrow> slabs \<Rightarrow> u32 \<times> bool \<times> u64 \<times> u32" where
  "slabs_available_chunks cid s =
     (let p = cls s cid in (sl_curr p, mem_malloced s \<ge> mem_limit s, requested p, perslab p))"

definition fill_slab_stats_automove :: "slabs \<Rightarrow> slab_stats_automove list" where
  "fill_slab_stats_automove s =
     map (\<lambda>n. let p = cls s n
              in \<lparr>chunks_per_page = perslab p, chunk_size = sl_size p, free_chunks = int (unat (sl_curr p)), total_pages = int (unat (slabs p))\<rparr>)
       [0..<MAX_NUMBER_OF_SLAB_CLASSES]"

definition global_page_pool_size :: "slabs \<Rightarrow> u32 \<times> bool" where
  "global_page_pool_size s = (slabs (cls s SLAB_GLOBAL_PAGE_POOL), mem_malloced s \<ge> mem_limit s)"

section \<open>The page mover\<close>

text \<open>
  \<open>struct slab_rebalance\<close>, the mover's signal, the cursor of \<open>slabs_reassign_pick_any\<close> and the
  statistics it keeps.
\<close>

record rebal =
  slab_start :: ptr
  slab_end :: ptr
  slab_pos :: ptr
  s_clsid :: int
  d_clsid :: int
  busy_items :: u32
  rescues :: u32
  evictions_nomem :: u32
  inline_reclaim :: u32
  chunk_rescues :: u32
  busy_deletes :: u32
  busy_loops :: u32
  rebal_done :: u8
  slab_rebalance_signal :: int
  pick_cur :: int
  slab_reassign_running :: bool
  slabs_moved :: u64
  slab_reassign_rescues :: u64
  slab_reassign_evictions_nomem :: u64
  slab_reassign_inline_reclaim :: u64
  slab_reassign_chunk_rescues :: u64
  slab_reassign_busy_deletes :: u64

datatype reassign_result_type = REASSIGN_OK | REASSIGN_RUNNING | REASSIGN_BADCLASS | REASSIGN_NOSPARE | REASSIGN_SRC_DST_SAME

fun pick_any_loop :: "slabs \<Rightarrow> int \<Rightarrow> nat \<Rightarrow> int \<Rightarrow> int \<times> int" where
  "pick_any_loop s dst 0 cur = (-1, cur)"
| "pick_any_loop s dst (Suc tries) cur =
     (let cur = (if cur + 1 > int (power_largest s) then int POWER_SMALLEST else cur + 1)
      in if cur = dst then pick_any_loop s dst tries cur
         else if slabs (cls s (nat cur)) > 1 then (cur, cur)
         else pick_any_loop s dst tries cur)"

definition slabs_reassign_pick_any :: "int \<Rightarrow> slabs \<Rightarrow> rebal \<Rightarrow> int \<times> rebal" where
  "slabs_reassign_pick_any dst s r =
     (let (res, cur) = pick_any_loop s dst (power_largest s - POWER_SMALLEST + 1) (pick_cur r) in (res, r\<lparr>pick_cur := cur\<rparr>))"

definition do_slabs_reassign :: "int \<Rightarrow> int \<Rightarrow> slabs \<Rightarrow> rebal \<Rightarrow> reassign_result_type \<times> rebal" where
  "do_slabs_reassign src dst s r =
     (if slab_rebalance_signal r \<noteq> 0 then (REASSIGN_RUNNING, r)
      else if src = dst then (REASSIGN_SRC_DST_SAME, r)
      else let (src, r) = (if src = -1 then slabs_reassign_pick_any dst s r else (src, r))
           in if src < int SLAB_GLOBAL_PAGE_POOL \<or> src > int (power_largest s) \<or> dst < int SLAB_GLOBAL_PAGE_POOL \<or> dst > int (power_largest s)
              then (REASSIGN_BADCLASS, r)
              else if slabs (cls s (nat src)) < 2 then (REASSIGN_NOSPARE, r)
              else (REASSIGN_OK, r\<lparr>s_clsid := src, d_clsid := dst, slab_rebalance_signal := 1\<rparr>))"

definition slabs_reassign :: "bool \<Rightarrow> int \<Rightarrow> int \<Rightarrow> slabs \<Rightarrow> rebal \<Rightarrow> reassign_result_type \<times> rebal" where
  "slabs_reassign trylock src dst s r = (if \<not> trylock then (REASSIGN_RUNNING, r) else do_slabs_reassign src dst s r)"

definition slab_rebalance_start :: "bool \<Rightarrow> slabs \<Rightarrow> rebal \<Rightarrow> (int \<times> slabs \<times> rebal) option" where
  "slab_rebalance_start realloc s r =
     (let bad = (s_clsid r < int SLAB_GLOBAL_PAGE_POOL \<or> s_clsid r > int (power_largest s) \<or> d_clsid r < int SLAB_GLOBAL_PAGE_POOL
                 \<or> d_clsid r > int (power_largest s) \<or> s_clsid r = d_clsid r)
      in if \<not> (0 \<le> s_clsid r \<and> nat (s_clsid r) < length (slabclass s) \<and> 0 \<le> d_clsid r \<and> nat (d_clsid r) < length (slabclass s)) then None
         else let (grown, s) = grow_slab_list realloc (nat (d_clsid r)) s;
                  p = cls s (nat (s_clsid r));
                  no_go = (if slabs p < 2 then -3 else if \<not> grown then -1 else if bad then -2 else 0 :: int)
              in if no_go \<noteq> 0 then Some (no_go, s, r)
                 else if slab_list p = [] then None
                 else let start = slab_list p ! 0
                      in Some (0, s, r\<lparr>slab_start := Some start, slab_end := Some (start + unat (sl_size p * perslab p)), slab_pos := Some start,
                                      rebal_done := (if s_clsid r = int SLAB_GLOBAL_PAGE_POOL then 1 else 0), slab_rebalance_signal := 2,
                                      slab_reassign_running := True\<rparr>))"

fun rebalance_alloc_loop ::
    "bool \<Rightarrow> slab_settings \<Rightarrow> nat \<Rightarrow> u64 \<Rightarrow> nat \<Rightarrow> heap \<Rightarrow> slabs \<Rightarrow> rebal \<Rightarrow> (ptr \<times> heap \<times> slabs \<times> rebal) option" where
  "rebalance_alloc_loop ext st 0 sz cid h s r = Some (None, h, s, r)"
| "rebalance_alloc_loop ext st (Suc n) sz cid h s r =
     do { (new_it, _, h, s) \<leftarrow> do_slabs_alloc ext st (False, None) True sz cid h s;
          (case new_it of
             None \<Rightarrow> Some (None, h, s, r)
           | Some x \<Rightarrow>
               (case (slab_start r, slab_end r) of
                  (Some a, Some b) \<Rightarrow>
                    if a \<le> x \<and> x < b
                    then rebalance_alloc_loop ext st n sz cid
                           (h(x := (h x)\<lparr>refcount := 0, it_flags := set_flag ITEM_SLABBED ITEM_FETCHED\<rparr>))
                           (sub_requested (nat (s_clsid r)) sz s) (r\<lparr>inline_reclaim := inline_reclaim r + 1\<rparr>)
                    else Some (Some x, h, s, r)
                | _ \<Rightarrow> Some (Some x, h, s, r))) }"

definition slab_rebalance_alloc :: "bool \<Rightarrow> slab_settings \<Rightarrow> u64 \<Rightarrow> nat \<Rightarrow> heap \<Rightarrow> slabs \<Rightarrow> rebal \<Rightarrow> (ptr \<times> heap \<times> slabs \<times> rebal) option" where
  "slab_rebalance_alloc ext st sz cid h s r =
     rebalance_alloc_loop ext st (unat (perslab (cls s (nat (s_clsid r))))) sz cid h s r"

definition slab_rebalance_cut_free :: "nat \<Rightarrow> nat \<Rightarrow> heap \<Rightarrow> slabs \<Rightarrow> (heap \<times> slabs) option" where
  "slab_rebalance_cut_free cid it h s =
     (if it_flags (h it) \<noteq> ITEM_SLABBED then None
      else Some (cut_out it h, upd_cls cid (\<lambda>p. p\<lparr>slots := (if slots p = Some it then nxt (h it) else slots p), sl_curr := sl_curr p - 1\<rparr>) s))"

text \<open>\<open>s_cls->slabs--\<close> and the shift of the page list.\<close>

definition drop_first_page :: "nat \<Rightarrow> slabs \<Rightarrow> slabs option" where
  "drop_first_page cid s =
     (let p = cls s cid; n = unat (slabs p - 1)
      in if n < length (slab_list p)
         then Some (upd_cls cid (\<lambda>p. p\<lparr>slabs := slabs p - 1, slab_list := take n (drop 1 (slab_list p)) @ drop n (slab_list p)\<rparr>) s)
         else None)"

definition slab_rebalance_finish :: "bool \<Rightarrow> slab_settings \<Rightarrow> heap \<Rightarrow> slabs \<Rightarrow> rebal \<Rightarrow> (nat list \<times> heap \<times> slabs \<times> rebal) option" where
  "slab_rebalance_finish ext st h s r =
     (case slab_start r of None \<Rightarrow> None | Some pg \<Rightarrow>
        do { s \<leftarrow> drop_first_page (nat (s_clsid r)) s;
             s \<leftarrow> add_page (nat (d_clsid r)) pg s;
             (freed, h, s) \<leftarrow>
               (if d_clsid r > int SLAB_GLOBAL_PAGE_POOL
                then do { (h, s) \<leftarrow> split_slab_page_into_freelist ext st (unat (perslab (cls s (nat (d_clsid r))))) pg (nat (d_clsid r))
                                      (memset0 pg (nat (slab_page_size st)) h) s;
                          Some ([], h, s) }
                else do { (freed, s) \<leftarrow> memory_release st (s\<lparr>mem_limit_reached := False\<rparr>); Some (freed, h, s) });
             Some (freed, h, s,
               r\<lparr>busy_loops := 0, rebal_done := 0, s_clsid := 0, d_clsid := 0, slab_start := None, slab_end := None, slab_pos := None,
                 evictions_nomem := 0, inline_reclaim := 0, rescues := 0, chunk_rescues := 0, busy_deletes := 0, slab_rebalance_signal := 0,
                 slabs_moved := slabs_moved r + 1, slab_reassign_rescues := slab_reassign_rescues r + ucast (rescues r),
                 slab_reassign_evictions_nomem := slab_reassign_evictions_nomem r + ucast (evictions_nomem r),
                 slab_reassign_inline_reclaim := slab_reassign_inline_reclaim r + ucast (inline_reclaim r),
                 slab_reassign_chunk_rescues := slab_reassign_chunk_rescues r + ucast (chunk_rescues r),
                 slab_reassign_busy_deletes := slab_reassign_busy_deletes r + ucast (busy_deletes r), slab_reassign_running := False\<rparr>) })"

end
