(* ===== verification/Items.thy ===== *)
theory Items
  imports Assoc Slabs Bipbuffer "HOL-Library.Signed_Division"
begin

text \<open>
  The item layer, \<open>src/mem/items.c\<close>: allocation with eviction, the segmented LRU lists, linking and
  unlinking (which tie an item to the hash table, to its LRU list and to the counters), reference
  counts, lookup with lazy expiry, the asynchronous bumps and the LRU maintainer's juggling.

  The arrays indexed by \<open>slabs_clsid\<close>, an 8-bit id, have 256 entries and are functions on \<open>u8\<close>. \<open>None\<close>
  is a failed assertion or a fault of a component below. \<open>STORAGE_delete\<close> concerns the external storage
  only and has no effect on the state modelled here. Locks are not part of the state: an operation
  runs under the locks its callers take; what \<open>item_trylock\<close> answers is an argument.
\<close>

section \<open>Settings and state\<close>

text \<open>The settings the item code reads, the clock, and the configured key hash.\<close>

record globals =
  slab_set :: slab_settings
  extstore :: bool
  oldest_live :: u32
  oldest_cas :: u64
  evict_to_free :: bool
  lru_segmented :: bool
  slab_automove_mode :: int
  tail_repair_time :: int
  hot_lru_pct :: int
  warm_lru_pct :: int
  temp_lru :: bool
  temporary_ttl :: u32
  current_time :: u32
  hash :: "byte list \<Rightarrow> u32"

record itemstats =
  is_evicted :: u64
  is_evicted_nonzero :: u64
  is_reclaimed :: u64
  is_outofmemory :: u64
  is_tailrepairs :: u64
  is_expired_unfetched :: u64
  is_evicted_unfetched :: u64
  is_evicted_active :: u64
  is_crawler_reclaimed :: u64
  is_crawler_items_checked :: u64
  is_lrutail_reflocked :: u64
  is_moves_to_cold :: u64
  is_moves_to_warm :: u64
  is_moves_within_lru :: u64
  is_direct_reclaims :: u64
  is_hits_to_hot :: u64
  is_hits_to_warm :: u64
  is_hits_to_cold :: u64
  is_hits_to_temp :: u64
  is_evicted_time :: u32

record cache =
  hp :: heap
  tab :: assoc
  slb :: slabs
  rbl :: rebal
  heads :: "u8 \<Rightarrow> ptr"
  tails :: "u8 \<Rightarrow> ptr"
  lru_sizes :: "u8 \<Rightarrow> u32"
  sizes_bytes :: "u8 \<Rightarrow> u64"
  itemstats :: "u8 \<Rightarrow> itemstats"
  stats_sizes_hist :: "u32 list option"
  stats_sizes_cas_min :: u64
  stats_sizes_buckets :: int
  cas_id :: u64
  curr_bytes :: u64
  curr_items :: u64
  total_items :: u64

definition upd_it :: "nat \<Rightarrow> (item \<Rightarrow> item) \<Rightarrow> cache \<Rightarrow> cache" where
  "upd_it x f c = c\<lparr>hp := (hp c)(x := f (hp c x))\<rparr>"

definition upd_is :: "u8 \<Rightarrow> (itemstats \<Rightarrow> itemstats) \<Rightarrow> cache \<Rightarrow> cache" where
  "upd_is i f c = c\<lparr>itemstats := (itemstats c)(i := f (itemstats c i))\<rparr>"

definition zero_itemstats :: itemstats where
  "zero_itemstats = \<lparr>is_evicted = 0, is_evicted_nonzero = 0, is_reclaimed = 0, is_outofmemory = 0, is_tailrepairs = 0, is_expired_unfetched = 0,
     is_evicted_unfetched = 0, is_evicted_active = 0, is_crawler_reclaimed = 0, is_crawler_items_checked = 0, is_lrutail_reflocked = 0,
     is_moves_to_cold = 0, is_moves_to_warm = 0, is_moves_within_lru = 0, is_direct_reclaims = 0,
     is_hits_to_hot = 0, is_hits_to_warm = 0, is_hits_to_cold = 0, is_hits_to_temp = 0, is_evicted_time = 0\<rparr>"

definition item_stats_reset :: "cache \<Rightarrow> cache" where
  "item_stats_reset c = c\<lparr>itemstats := (\<lambda>i. zero_itemstats)\<rparr>"

definition do_item_stats_add_crawl :: "u8 \<Rightarrow> u64 \<Rightarrow> u64 \<Rightarrow> u64 \<Rightarrow> cache \<Rightarrow> cache" where
  "do_item_stats_add_crawl i reclaimed unfetched checked =
     upd_is i (\<lambda>s. s\<lparr>is_crawler_reclaimed := is_crawler_reclaimed s + reclaimed, is_expired_unfetched := is_expired_unfetched s + unfetched,
                    is_crawler_items_checked := is_crawler_items_checked s + checked\<rparr>)"

definition get_cas_id :: "cache \<Rightarrow> u64 \<times> cache" where
  "get_cas_id c = (cas_id c + 1, c\<lparr>cas_id := cas_id c + 1\<rparr>)"

definition item_is_flushed :: "globals \<Rightarrow> item \<Rightarrow> bool" where
  "item_is_flushed g it =
     (if oldest_live g = 0 \<or> oldest_live g > current_time g then False
      else time it \<le> oldest_live g \<or> oldest_cas g \<noteq> 0 \<and> ITEM_get_cas it \<noteq> 0 \<and> ITEM_get_cas it < oldest_cas g)"

definition temp_lru_size :: "u8 \<Rightarrow> cache \<Rightarrow> u32" where
  "temp_lru_size i c = ucast (sizes_bytes c (CLEAR_LRU i OR TEMP_LRU))"

definition do_get_lru_size :: "u8 \<Rightarrow> cache \<Rightarrow> u32" where
  "do_get_lru_size i c = lru_sizes c i"

section \<open>LRU lists\<close>

text \<open>The bytes an item counts for in its LRU.\<close>

definition lru_bytes :: "globals \<Rightarrow> item \<Rightarrow> u64" where
  "lru_bytes g it =
     (if extstore g \<and> has_flag (it_flags it) ITEM_HDR then (ITEM_ntotal it - word_of_int (nbytes it)) + of_nat sizeof_item_hdr
      else ITEM_ntotal it)"

definition do_item_link_q :: "globals \<Rightarrow> nat \<Rightarrow> cache \<Rightarrow> cache option" where
  "do_item_link_q g it c =
     (let i = slabs_clsid (hp c it); head = heads c i; tail = tails c i
      in if has_flag (it_flags (hp c it)) ITEM_SLABBED \<or> head = Some it \<or> (head = None) \<noteq> (tail = None) then None
         else Some (c\<lparr>hp := push_front it head (hp c), heads := (heads c)(i := Some it),
                      tails := (tails c)(i := (if tail = None then Some it else tail)),
                      lru_sizes := (lru_sizes c)(i := lru_sizes c i + 1),
                      sizes_bytes := (sizes_bytes c)(i := sizes_bytes c i + lru_bytes g (hp c it))\<rparr>))"

definition item_link_q :: "globals \<Rightarrow> nat \<Rightarrow> cache \<Rightarrow> cache option" where
  "item_link_q g it c = do_item_link_q g it c"

definition item_link_q_warm :: "globals \<Rightarrow> nat \<Rightarrow> cache \<Rightarrow> cache option" where
  "item_link_q_warm g it c =
     map_option (upd_is (slabs_clsid (hp c it)) (\<lambda>s. s\<lparr>is_moves_to_warm := is_moves_to_warm s + 1\<rparr>)) (do_item_link_q g it c)"

definition do_item_unlink_q :: "globals \<Rightarrow> nat \<Rightarrow> cache \<Rightarrow> cache option" where
  "do_item_unlink_q g it c =
     (let i = slabs_clsid (hp c it); n = nxt (hp c it); p = prv (hp c it)
      in if heads c i = Some it \<and> p \<noteq> None \<or> tails c i = Some it \<and> n \<noteq> None \<or> n = Some it \<or> p = Some it then None
         else Some (c\<lparr>hp := cut_out it (hp c),
                      heads := (heads c)(i := (if heads c i = Some it then n else heads c i)),
                      tails := (tails c)(i := (if tails c i = Some it then p else tails c i)),
                      lru_sizes := (lru_sizes c)(i := lru_sizes c i - 1),
                      sizes_bytes := (sizes_bytes c)(i := sizes_bytes c i - lru_bytes g (hp c it))\<rparr>))"

definition item_unlink_q :: "globals \<Rightarrow> nat \<Rightarrow> cache \<Rightarrow> cache option" where
  "item_unlink_q g it c = do_item_unlink_q g it c"

section \<open>Size histogram\<close>

definition item_stats_sizes_init :: "globals \<Rightarrow> bool \<Rightarrow> cache \<Rightarrow> cache" where
  "item_stats_sizes_init g calloc c =
     (if stats_sizes_hist c \<noteq> None then c
      else let n = item_size_max (slab_set g) sdiv 32 + 1;
               c = c\<lparr>stats_sizes_buckets := n, stats_sizes_hist := (if calloc then Some (replicate (nat n) 0) else None)\<rparr>;
               (i, c) = (if use_cas (slab_set g) then get_cas_id c else (0, c))
           in c\<lparr>stats_sizes_cas_min := i\<rparr>)"

definition item_stats_sizes_disable :: "cache \<Rightarrow> cache" where
  "item_stats_sizes_disable c = c\<lparr>stats_sizes_hist := None\<rparr>"

definition sizes_bucket :: "item \<Rightarrow> int" where
  "sizes_bucket it = (let n = c_int (ITEM_ntotal it) in if n smod 32 \<noteq> 0 then n sdiv 32 + 1 else n sdiv 32)"

text \<open>The entry of the histogram an item counts in, changed by \<open>d\<close>.\<close>

definition upd_sizes_hist :: "u32 \<Rightarrow> item \<Rightarrow> cache \<Rightarrow> cache option" where
  "upd_sizes_hist d it c =
     (case stats_sizes_hist c of
        None \<Rightarrow> Some c
      | Some hist \<Rightarrow>
          let b = sizes_bucket it
          in if stats_sizes_cas_min c > ITEM_get_cas it \<or> \<not> b < stats_sizes_buckets c then Some c
             else if 0 \<le> b \<and> nat b < length hist then Some (c\<lparr>stats_sizes_hist := Some (hist[nat b := hist ! nat b + d])\<rparr>)
             else None)"

definition item_stats_sizes_add :: "nat \<Rightarrow> cache \<Rightarrow> cache option" where
  "item_stats_sizes_add it c = upd_sizes_hist 1 (hp c it) c"

definition item_stats_sizes_remove :: "nat \<Rightarrow> cache \<Rightarrow> cache option" where
  "item_stats_sizes_remove it c = upd_sizes_hist (-1) (hp c it) c"

section \<open>Freeing, linking and unlinking\<close>

definition item_free :: "globals \<Rightarrow> nat \<Rightarrow> cache \<Rightarrow> cache option" where
  "item_free g it c =
     (let i = hp c it
      in if has_flag (it_flags i) ITEM_LINKED \<or> heads c (slabs_clsid i) = Some it \<or> tails c (slabs_clsid i) = Some it \<or> refcount i \<noteq> 0 then None
         else map_option (\<lambda>(h, s). c\<lparr>hp := h, slb := s\<rparr>)
                (do_slabs_free (extstore g) (slab_set g) it (ITEM_ntotal i) (unat (ITEM_clsid i)) (hp c) (slb c)))"

definition do_item_remove :: "globals \<Rightarrow> nat \<Rightarrow> cache \<Rightarrow> cache option" where
  "do_item_remove g it c =
     (if has_flag (it_flags (hp c it)) ITEM_SLABBED \<or> refcount (hp c it) = 0 then None
      else let c = upd_it it (\<lambda>i. i\<lparr>refcount := refcount i - 1\<rparr>) c
           in if refcount (hp c it) = 0 then item_free g it c else Some c)"

definition item_assoc_insert :: "nat \<Rightarrow> u32 \<Rightarrow> cache \<Rightarrow> cache option" where
  "item_assoc_insert it hv c = map_option (\<lambda>(h, a). c\<lparr>hp := h, tab := a\<rparr>) (assoc_insert it hv (hp c) (tab c))"

definition item_assoc_delete :: "byte list \<Rightarrow> u32 \<Rightarrow> cache \<Rightarrow> cache option" where
  "item_assoc_delete key hv c = map_option (\<lambda>(h, a). c\<lparr>hp := h, tab := a\<rparr>) (assoc_delete key hv (hp c) (tab c))"

definition do_item_link :: "globals \<Rightarrow> nat \<Rightarrow> u32 \<Rightarrow> cache \<Rightarrow> cache option" where
  "do_item_link g it hv c =
     (if has_flag (it_flags (hp c it)) (set_flag ITEM_LINKED ITEM_SLABBED) then None
      else let c = upd_it it (\<lambda>i. i\<lparr>it_flags := set_flag (it_flags i) ITEM_LINKED, time := current_time g\<rparr>) c;
               c = c\<lparr>curr_bytes := curr_bytes c + ITEM_ntotal (hp c it), curr_items := curr_items c + 1, total_items := total_items c + 1\<rparr>;
               (cid, c) = (if use_cas (slab_set g) then get_cas_id c else (0, c));
               c = upd_it it (ITEM_set_cas cid) c
           in do { c \<leftarrow> item_assoc_insert it hv c;
                   c \<leftarrow> item_link_q g it c;
                   item_stats_sizes_add it (upd_it it (\<lambda>i. i\<lparr>refcount := refcount i + 1\<rparr>) c) })"

definition do_item_unlink :: "globals \<Rightarrow> nat \<Rightarrow> u32 \<Rightarrow> cache \<Rightarrow> cache option" where
  "do_item_unlink g it hv c =
     (if has_flag (it_flags (hp c it)) ITEM_LINKED
      then let c = upd_it it (\<lambda>i. i\<lparr>it_flags := clear_flag (it_flags i) ITEM_LINKED\<rparr>) c;
               c = c\<lparr>curr_bytes := curr_bytes c - ITEM_ntotal (hp c it), curr_items := curr_items c - 1\<rparr>
           in do { c \<leftarrow> item_stats_sizes_remove it c;
                   c \<leftarrow> item_assoc_delete (ITEM_key (hp c it)) hv c;
                   c \<leftarrow> item_unlink_q g it c;
                   do_item_remove g it c }
      else Some c)"

definition do_item_unlink_nolock :: "globals \<Rightarrow> nat \<Rightarrow> u32 \<Rightarrow> cache \<Rightarrow> cache option" where
  "do_item_unlink_nolock g it hv c =
     (if has_flag (it_flags (hp c it)) ITEM_LINKED
      then let c = upd_it it (\<lambda>i. i\<lparr>it_flags := clear_flag (it_flags i) ITEM_LINKED\<rparr>) c;
               c = c\<lparr>curr_bytes := curr_bytes c - ITEM_ntotal (hp c it), curr_items := curr_items c - 1\<rparr>
           in do { c \<leftarrow> item_stats_sizes_remove it c;
                   c \<leftarrow> item_assoc_delete (ITEM_key (hp c it)) hv c;
                   c \<leftarrow> do_item_unlink_q g it c;
                   do_item_remove g it c }
      else Some c)"

definition do_item_replace :: "globals \<Rightarrow> nat \<Rightarrow> nat \<Rightarrow> u32 \<Rightarrow> cache \<Rightarrow> cache option" where
  "do_item_replace g it new_it hv c =
     (if has_flag (it_flags (hp c it)) ITEM_SLABBED then None
      else do { c \<leftarrow> do_item_unlink g it hv c; do_item_link g new_it hv c })"

section \<open>Updating the position in the LRU\<close>

abbreviation (input) ITEM_UPDATE_INTERVAL :: u32 where "ITEM_UPDATE_INTERVAL \<equiv> 60"

definition do_item_update_nolock :: "globals \<Rightarrow> nat \<Rightarrow> cache \<Rightarrow> cache option" where
  "do_item_update_nolock g it c =
     (if time (hp c it) < current_time g - ITEM_UPDATE_INTERVAL then
        if has_flag (it_flags (hp c it)) ITEM_SLABBED then None
        else if has_flag (it_flags (hp c it)) ITEM_LINKED
        then do { c \<leftarrow> do_item_unlink_q g it c; do_item_link_q g it (upd_it it (\<lambda>i. i\<lparr>time := current_time g\<rparr>) c) }
        else Some c
      else Some c)"

definition do_item_update :: "globals \<Rightarrow> nat \<Rightarrow> cache \<Rightarrow> cache option" where
  "do_item_update g it c =
     (let i = hp c it
      in if lru_segmented g then
           if has_flag (it_flags i) ITEM_SLABBED then None
           else if has_flag (it_flags i) ITEM_LINKED then
             if ITEM_lruid i = COLD_LRU \<and> has_flag (it_flags i) ITEM_ACTIVE
             then do { c \<leftarrow> item_unlink_q g it (upd_it it (\<lambda>i. i\<lparr>time := current_time g\<rparr>) c);
                       item_link_q_warm g it
                         (upd_it it (\<lambda>i. i\<lparr>slabs_clsid := ITEM_clsid i OR WARM_LRU, it_flags := clear_flag (it_flags i) ITEM_ACTIVE\<rparr>) c) }
             else if time i < current_time g - ITEM_UPDATE_INTERVAL
             then Some (upd_it it (\<lambda>i. i\<lparr>time := current_time g\<rparr>) c)
             else Some c
           else Some c
         else if time i < current_time g - ITEM_UPDATE_INTERVAL then
           if has_flag (it_flags i) ITEM_SLABBED then None
           else if has_flag (it_flags i) ITEM_LINKED
           then do { c \<leftarrow> item_unlink_q g it (upd_it it (\<lambda>i. i\<lparr>time := current_time g\<rparr>) c); item_link_q g it c }
           else Some c
         else Some c)"

section \<open>Pulling the tail of an LRU\<close>

abbreviation (input) LRU_PULL_EVICT :: u8 where "LRU_PULL_EVICT \<equiv> 1"
abbreviation (input) LRU_PULL_CRAWL_BLOCKS :: u8 where "LRU_PULL_CRAWL_BLOCKS \<equiv> 2"
abbreviation (input) LRU_PULL_RETURN_ITEM :: u8 where "LRU_PULL_RETURN_ITEM \<equiv> 4"

text \<open>
  The arguments of \<open>lru_pull_tail\<close> and what the environment answers: the attempts on the item lock, by
  the number of tries left, and on the rebalance lock.
\<close>

record pull =
  orig_id :: u8
  cur_lru :: u8
  total_bytes :: u64
  pull_flags :: u8
  max_age :: u32
  item_trylock :: "nat \<Rightarrow> u32 \<Rightarrow> bool"
  rebalance_trylock :: bool

abbreviation pull_id :: "pull \<Rightarrow> u8" where
  "pull_id a \<equiv> orig_id a OR cur_lru a"

definition is_crawler :: "item \<Rightarrow> bool" where
  "is_crawler it \<longleftrightarrow> nbytes it = 0 \<and> nkey it = 0 \<and> it_flags it = 1"

text \<open>\<open>limit\<close>, computed by the fall-through of the cases \<open>HOT_LRU\<close> and \<open>WARM_LRU\<close>.\<close>

definition lru_limit :: "globals \<Rightarrow> pull \<Rightarrow> u64" where
  "lru_limit g a =
     (let limit = (if cur_lru a = HOT_LRU then total_bytes a * word_of_int (hot_lru_pct g) div 100 else 0)
      in if limit = 0 then total_bytes a * word_of_int (warm_lru_pct g) div 100 else limit)"

text \<open>
  How one turn of the loop ends: the walk goes on, or it stops at an item that is to be moved to
  another LRU (0 for none), or whose reference is handed to the caller.
\<close>

datatype pull_end = Go_on | Stop_at nat u8

definition expired_or_flushed :: "globals \<Rightarrow> item \<Rightarrow> bool" where
  "expired_or_flushed g it \<longleftrightarrow> exptime it \<noteq> 0 \<and> exptime it < current_time g \<or> item_is_flushed g it"

definition pull_repair :: "globals \<Rightarrow> pull \<Rightarrow> nat \<Rightarrow> u32 \<Rightarrow> cache \<Rightarrow> cache option" where
  "pull_repair g a search hv c =
     do_item_unlink_nolock g search hv
       (upd_it search (\<lambda>i. i\<lparr>refcount := 1\<rparr>) (upd_is (pull_id a) (\<lambda>s. s\<lparr>is_tailrepairs := is_tailrepairs s + 1\<rparr>) c))"

definition pull_reclaim :: "globals \<Rightarrow> pull \<Rightarrow> nat \<Rightarrow> u32 \<Rightarrow> cache \<Rightarrow> cache option" where
  "pull_reclaim g a search hv c =
     do { c \<leftarrow> do_item_unlink_nolock g search hv
                 (upd_is (pull_id a)
                    (\<lambda>s. s\<lparr>is_reclaimed := is_reclaimed s + 1,
                           is_expired_unfetched := is_expired_unfetched s + (if has_flag (it_flags (hp c search)) ITEM_FETCHED then 0 else 1)\<rparr>) c);
          do_item_remove g search c }"

definition pull_hot_warm :: "globals \<Rightarrow> pull \<Rightarrow> nat \<Rightarrow> cache \<Rightarrow> (pull_end \<times> nat \<times> cache) option" where
  "pull_hot_warm g a search c =
     (let cid = pull_id a
      in if has_flag (it_flags (hp c search)) ITEM_ACTIVE then
           let c = upd_it search (\<lambda>i. i\<lparr>it_flags := clear_flag (it_flags i) ITEM_ACTIVE\<rparr>) c
           in if cur_lru a = WARM_LRU
              then do { c \<leftarrow> do_item_update_nolock g search (upd_is cid (\<lambda>s. s\<lparr>is_moves_within_lru := is_moves_within_lru s + 1\<rparr>) c);
                        c \<leftarrow> do_item_remove g search c;
                        Some (Go_on, 1, c) }
              else do { c \<leftarrow> do_item_unlink_q g search (upd_is cid (\<lambda>s. s\<lparr>is_moves_to_warm := is_moves_to_warm s + 1\<rparr>) c);
                        Some (Stop_at search WARM_LRU, 1, c) }
         else if sizes_bytes c cid > lru_limit g a \<or> current_time g - time (hp c search) > max_age a
         then do { c \<leftarrow> do_item_unlink_q g search (upd_is cid (\<lambda>s. s\<lparr>is_moves_to_cold := is_moves_to_cold s + 1\<rparr>) c);
                   Some (Stop_at search COLD_LRU, 1, c) }
         else Some (Stop_at search 0, 0, c))"

definition count_eviction :: "globals \<Rightarrow> item \<Rightarrow> itemstats \<Rightarrow> itemstats" where
  "count_eviction g it s =
     s\<lparr>is_evicted := is_evicted s + 1, is_evicted_time := current_time g - time it,
       is_evicted_nonzero := is_evicted_nonzero s + (if exptime it \<noteq> 0 then 1 else 0),
       is_evicted_unfetched := is_evicted_unfetched s + (if has_flag (it_flags it) ITEM_FETCHED then 0 else 1),
       is_evicted_active := is_evicted_active s + (if has_flag (it_flags it) ITEM_ACTIVE then 1 else 0)\<rparr>"

definition pull_cold :: "globals \<Rightarrow> pull \<Rightarrow> nat \<Rightarrow> u32 \<Rightarrow> cache \<Rightarrow> (pull_end \<times> nat \<times> cache) option" where
  "pull_cold g a search hv c =
     (let cid = pull_id a
      in if has_flag (pull_flags a) LRU_PULL_EVICT then
           if \<not> evict_to_free g then Some (Stop_at search 0, 0, c)
           else do { c \<leftarrow> do_item_unlink_nolock g search hv (upd_is cid (count_eviction g (hp c search)) c);
                     (let c = (if slab_automove_mode g = 2
                               then c\<lparr>rbl := snd (slabs_reassign (rebalance_trylock a) (-1) (int (unat (orig_id a))) (slb c) (rbl c))\<rparr> else c)
                      in Some (Stop_at search 0, 1, c)) }
         else if has_flag (pull_flags a) LRU_PULL_RETURN_ITEM then Some (Stop_at search 0, 0, c)
         else if has_flag (it_flags (hp c search)) ITEM_ACTIVE \<and> lru_segmented g
         then do { c \<leftarrow> do_item_unlink_q g search
                            (upd_it search (\<lambda>i. i\<lparr>it_flags := clear_flag (it_flags i) ITEM_ACTIVE\<rparr>)
                              (upd_is cid (\<lambda>s. s\<lparr>is_moves_to_warm := is_moves_to_warm s + 1\<rparr>) c));
                   Some (Stop_at search WARM_LRU, 1, c) }
         else Some (Stop_at search 0, 0, c))"

text \<open>The body of the loop for an item whose lock was obtained.\<close>

definition pull_item :: "globals \<Rightarrow> pull \<Rightarrow> nat \<Rightarrow> u32 \<Rightarrow> cache \<Rightarrow> (pull_end \<times> nat \<times> cache) option" where
  "pull_item g a search hv c0 =
     (let c = upd_it search (\<lambda>i. i\<lparr>refcount := refcount i + 1\<rparr>) c0;
          locked = (refcount (hp c search) \<noteq> 2);
          c = (if locked then upd_is (pull_id a) (\<lambda>s. s\<lparr>is_lrutail_reflocked := is_lrutail_reflocked s + 1\<rparr>) c else c)
      in if locked \<and> tail_repair_time g \<noteq> 0 \<and> time (hp c search) + word_of_int (tail_repair_time g) < current_time g
         then do { c \<leftarrow> pull_repair g a search hv c; Some (Go_on, 0, c) }
         else if expired_or_flushed g (hp c search) then do { c \<leftarrow> pull_reclaim g a search hv c; Some (Go_on, 1, c) }
         else if cur_lru a = HOT_LRU \<or> cur_lru a = WARM_LRU then pull_hot_warm g a search c
         else if cur_lru a = COLD_LRU then pull_cold g a search hv c
         else Some (Stop_at search 0, 0, c))"

text \<open>\<open>None\<close> in the first place of the result: blocked by a crawler, the function returns 0 at once.\<close>

partial_function (option) pull_loop :: "globals \<Rightarrow> pull \<Rightarrow> nat \<Rightarrow> ptr \<Rightarrow> nat \<Rightarrow> cache \<Rightarrow> (pull_end option \<times> nat \<times> cache) option" where
  "pull_loop g a tries search removed c =
     (case search of
        None \<Rightarrow> Some (Some Go_on, removed, c)
      | Some x \<Rightarrow>
          if tries = 0 then Some (Some Go_on, removed, c)
          else let next_it = prv (hp c x); hv = hash g (ITEM_key (hp c x))
               in if is_crawler (hp c x)
                  then if has_flag (pull_flags a) LRU_PULL_CRAWL_BLOCKS then Some (None, 0, c)
                       else pull_loop g a tries next_it removed c
                  else if \<not> item_trylock a tries hv then pull_loop g a (tries - 1) next_it removed c
                  else (case pull_item g a x hv c of
                          None \<Rightarrow> None
                        | Some (Go_on, n, c) \<Rightarrow> pull_loop g a (tries - 1) next_it (removed + n) c
                        | Some (Stop_at y m, n, c) \<Rightarrow> Some (Some (Stop_at y m), removed + n, c)))"

declare pull_loop.simps [code]

text \<open>The result: the count, and the item handed out with its hash (\<open>ret_it\<close>).\<close>

definition lru_pull_tail :: "globals \<Rightarrow> pull \<Rightarrow> cache \<Rightarrow> (nat \<times> (nat \<times> u32) option \<times> cache) option" where
  "lru_pull_tail g a c =
     (if orig_id a = 0 then Some (0, None, c)
      else do { (e, removed, c) \<leftarrow> pull_loop g a 5 (tails c (pull_id a)) 0 c;
                (case e of
                   None \<Rightarrow> Some (0, None, c)
                 | Some Go_on \<Rightarrow> Some (removed, None, c)
                 | Some (Stop_at it move_to_lru) \<Rightarrow>
                     do { c \<leftarrow> (if move_to_lru \<noteq> 0
                                 then item_link_q g it (upd_it it (\<lambda>i. i\<lparr>slabs_clsid := ITEM_clsid i OR move_to_lru\<rparr>) c)
                                 else Some c);
                          (if \<not> has_flag (pull_flags a) LRU_PULL_RETURN_ITEM
                           then do { c \<leftarrow> do_item_remove g it c; Some (removed, None, c) }
                           else Some (removed,
                                      if cur_lru a = COLD_LRU \<and> \<not> has_flag (pull_flags a) LRU_PULL_EVICT
                                      then Some (it, hash g (ITEM_key (hp c it))) else None, c)) }) })"

section \<open>Allocation\<close>

definition item_make_header :: "u8 \<Rightarrow> u32 \<Rightarrow> int \<Rightarrow> u64 \<times> u8" where
  "item_make_header nk flags nb =
     (let nsuffix = (if flags = 0 then 0 else 4) in (of_nat sizeof_item + ucast nk + ucast nsuffix + word_of_int nb, nsuffix))"

definition item_size_ok :: "globals \<Rightarrow> u64 \<Rightarrow> u32 \<Rightarrow> int \<Rightarrow> cache \<Rightarrow> bool option" where
  "item_size_ok g nk flags nb c =
     (if nb < 2 then Some False
      else let ntotal = fst (item_make_header (ucast (nk + 1)) flags nb);
               ntotal = (if use_cas (slab_set g) then ntotal + 8 else ntotal)
           in map_option (\<lambda>i. i \<noteq> 0) (slabs_clsid_for (slab_set g) (slb c) ntotal))"

text \<open>
  What the environment answers during an allocation: memory for new pages, and the locks of each
  pull. The number of turns left indexes them.
\<close>

record alloc_env =
  env_mem :: "nat \<Rightarrow> mem_env"
  env_item_trylock :: "nat \<Rightarrow> nat \<Rightarrow> nat \<Rightarrow> u32 \<Rightarrow> bool"
  env_rebalance_trylock :: "nat \<Rightarrow> bool"

definition pull_args :: "alloc_env \<Rightarrow> nat \<Rightarrow> nat \<Rightarrow> u8 \<Rightarrow> u8 \<Rightarrow> u64 \<Rightarrow> u8 \<Rightarrow> pull" where
  "pull_args e n k cid lru tb fl = \<lparr>orig_id = cid, cur_lru = lru, total_bytes = tb, pull_flags = fl, max_age = 0,
     item_trylock = env_item_trylock e n k, rebalance_trylock = env_rebalance_trylock e n\<rparr>"

text \<open>
  A turn of \<open>do_item_alloc_pull\<close> with \<open>n\<close> turns left: the reclaim of the flat LRU, the attempt on the slab
  allocator with the bytes of the class (uninitialised, \<open>junk\<close>, when it rejects the class), and the
  eviction, whose first result says whether the loop goes on.
\<close>

definition alloc_reclaim :: "globals \<Rightarrow> alloc_env \<Rightarrow> nat \<Rightarrow> u8 \<Rightarrow> cache \<Rightarrow> cache option" where
  "alloc_reclaim g e n cid c =
     (if \<not> lru_segmented g then map_option (\<lambda>(_, _, c). c) (lru_pull_tail g (pull_args e n 0 cid COLD_LRU 0 0) c) else Some c)"

definition alloc_slab :: "globals \<Rightarrow> alloc_env \<Rightarrow> u64 \<Rightarrow> nat \<Rightarrow> u64 \<Rightarrow> u8 \<Rightarrow> cache \<Rightarrow> (ptr \<times> u64 \<times> cache) option" where
  "alloc_slab g e junk n ntotal cid c =
     do { (it, tb, h, s) \<leftarrow> do_slabs_alloc (extstore g) (slab_set g) (env_mem e n) False ntotal (unat cid) (hp c) (slb c);
          (let c = c\<lparr>hp := h, slb := s\<rparr>;
               tb = (case tb of None \<Rightarrow> junk | Some t \<Rightarrow> t)
           in Some (it, if temp_lru g then tb - ucast (temp_lru_size cid c) else tb, c)) }"

definition alloc_evict :: "globals \<Rightarrow> alloc_env \<Rightarrow> nat \<Rightarrow> u8 \<Rightarrow> u64 \<Rightarrow> cache \<Rightarrow> (bool \<times> cache) option" where
  "alloc_evict g e n cid tb c =
     do { (r, _, c) \<leftarrow> lru_pull_tail g (pull_args e n 1 cid COLD_LRU tb LRU_PULL_EVICT) c;
          (if r \<noteq> 0 then Some (True, c)
           else if lru_segmented g then do { (_, _, c) \<leftarrow> lru_pull_tail g (pull_args e n 2 cid HOT_LRU tb 0) c; Some (True, c) }
           else Some (False, c)) }"

fun alloc_pull_loop :: "globals \<Rightarrow> alloc_env \<Rightarrow> u64 \<Rightarrow> nat \<Rightarrow> u64 \<Rightarrow> u8 \<Rightarrow> nat \<Rightarrow> cache \<Rightarrow> (ptr \<times> nat \<times> cache) option" where
  "alloc_pull_loop g e junk 0 ntotal cid i c = Some (None, i, c)"
| "alloc_pull_loop g e junk (Suc n) ntotal cid i c =
     do { c \<leftarrow> alloc_reclaim g e n cid c;
          (it, tb, c) \<leftarrow> alloc_slab g e junk n ntotal cid c;
          (case it of
             Some x \<Rightarrow> Some (Some x, i, c)
           | None \<Rightarrow> do { (again, c) \<leftarrow> alloc_evict g e n cid tb c;
                          if again then alloc_pull_loop g e junk n ntotal cid (i + 1) c else Some (None, i, c) }) }"

definition do_item_alloc_pull :: "globals \<Rightarrow> alloc_env \<Rightarrow> u64 \<Rightarrow> u64 \<Rightarrow> u8 \<Rightarrow> cache \<Rightarrow> (ptr \<times> cache) option" where
  "do_item_alloc_pull g e junk ntotal cid c =
     do { (it, i, c) \<leftarrow> alloc_pull_loop g e junk 10 ntotal cid 0 c;
          Some (it, if i > 0 then upd_is cid (\<lambda>s. s\<lparr>is_direct_reclaims := is_direct_reclaims s + of_nat i\<rparr>) c else c) }"

text \<open>
  A new item. \<open>clsid\<close> values fit the 8-bit cid. For a large item only a header is allocated, from the
  class of its own size.
\<close>

definition initial_lru :: "globals \<Rightarrow> u32 \<Rightarrow> u8" where
  "initial_lru g et =
     (if temp_lru g \<and> et - current_time g \<le> temporary_ttl g then TEMP_LRU else if lru_segmented g then HOT_LRU else COLD_LRU)"

definition init_item :: "globals \<Rightarrow> byte list \<Rightarrow> u64 \<Rightarrow> u32 \<Rightarrow> u8 \<Rightarrow> u32 \<Rightarrow> int \<Rightarrow> u8 \<Rightarrow> u8 \<Rightarrow> item \<Rightarrow> item" where
  "init_item g key nk flags nsuffix et nb cid hdr_id i =
     (let fl = set_flag (set_flag (it_flags i) (if use_cas (slab_set g) then ITEM_CAS else 0)) (if nsuffix \<noteq> 0 then ITEM_CFLAGS else 0);
          i = i\<lparr>nxt := None, prv := None, slabs_clsid := cid OR initial_lru g et, it_flags := fl, nkey := ucast nk, nbytes := nb, ikey := take (unat nk) key,
                exptime := et, cflags := (if nsuffix > 0 then flags else cflags i)\<rparr>;
          i = (if has_flag fl ITEM_CHUNKED then i\<lparr>sch_next := None, sch_orig_clsid := hdr_id\<rparr> else i)
      in i\<lparr>h_next := None\<rparr>)"

definition do_item_alloc ::
    "globals \<Rightarrow> alloc_env \<Rightarrow> u64 \<Rightarrow> byte list \<Rightarrow> u64 \<Rightarrow> u32 \<Rightarrow> u32 \<Rightarrow> int \<Rightarrow> cache \<Rightarrow> (ptr \<times> cache) option" where
  "do_item_alloc g e junk key nk flags et nb c =
     (if nb < 2 then Some (None, c)
      else let (ntotal, nsuffix) = item_make_header (ucast (nk + 1)) flags nb;
               ntotal = (if use_cas (slab_set g) then ntotal + 8 else ntotal)
           in do { cid \<leftarrow> slabs_clsid_for (slab_set g) (slb c) ntotal;
                   (if cid = 0 then Some (None, c)
                    else do { (it, hdr_id, c) \<leftarrow>
                                (if ntotal > word_of_int (slab_chunk_size_max (slab_set g))
                                 then let htotal = nk + 1 + ucast nsuffix + of_nat sizeof_item + of_nat sizeof_item_chunk;
                                          htotal = (if use_cas (slab_set g) then htotal + 8 else htotal);
                                          htotal = word_of_int (c_int htotal)
                                      in do { hdr_id \<leftarrow> slabs_clsid_for (slab_set g) (slb c) htotal;
                                              (it, c) \<leftarrow> do_item_alloc_pull g e junk htotal (of_nat hdr_id) c;
                                              Some (it, hdr_id,
                                                    case it of None \<Rightarrow> c | Some x \<Rightarrow> upd_it x (\<lambda>i. i\<lparr>it_flags := set_flag (it_flags i) ITEM_CHUNKED\<rparr>) c) }
                                 else do { (it, c) \<leftarrow> do_item_alloc_pull g e junk ntotal (of_nat cid) c; Some (it, 0, c) });
                              (case it of
                                 None \<Rightarrow> Some (None, upd_is (of_nat cid) (\<lambda>s. s\<lparr>is_outofmemory := is_outofmemory s + 1\<rparr>) c)
                               | Some x \<Rightarrow>
                                   if slabs_clsid (hp c x) \<noteq> 0 then None
                                   else Some (it, upd_it x (init_item g key nk flags nsuffix et nb (of_nat cid) (of_nat hdr_id)) c)) }) })"

text \<open>
  Chaining another chunk to a large item. The chunk before is the one embedded in the header, whose
  \<open>head\<close> is the header itself, or a chained one; a \<open>prev\<close> pointer to the embedded chunk is the address
  of the header.
\<close>

datatype chunk_ref = Embedded nat | Chained nat

fun chunk_head :: "heap \<Rightarrow> chunk_ref \<Rightarrow> ptr" where
  "chunk_head h (Embedded x) = Some x"
| "chunk_head h (Chained x) = h_next (h x)"

fun set_chunk_next :: "chunk_ref \<Rightarrow> ptr \<Rightarrow> heap \<Rightarrow> heap" where
  "set_chunk_next (Embedded x) p h = h(x := (h x)\<lparr>sch_next := p\<rparr>)"
| "set_chunk_next (Chained x) p h = h(x := (h x)\<lparr>nxt := p\<rparr>)"

fun chunk_addr :: "chunk_ref \<Rightarrow> nat" where
  "chunk_addr (Embedded x) = x"
| "chunk_addr (Chained x) = x"

definition do_item_alloc_chunk :: "globals \<Rightarrow> alloc_env \<Rightarrow> u64 \<Rightarrow> chunk_ref \<Rightarrow> u64 \<Rightarrow> cache \<Rightarrow> (ptr \<times> cache) option" where
  "do_item_alloc_chunk g e junk ch bytes_remain c =
     (let sz = bytes_remain + of_nat sizeof_item_chunk;
          lim = word_of_int (slab_chunk_size_max (slab_set g));
          sz = (if sz > lim then lim else sz)
      in do { cid \<leftarrow> slabs_clsid_for (slab_set g) (slb c) sz;
              (nch, c) \<leftarrow> do_item_alloc_pull g e junk sz (of_nat cid) c;
              (case nch of
                 None \<Rightarrow> Some (None, c)
               | Some n \<Rightarrow>
                   let h = hp c;
                       h = h(n := (h n)\<lparr>h_next := chunk_head h ch\<rparr>);
                       h = set_chunk_next ch (Some n) h;
                       h = h(n := (h n)\<lparr>prv := Some (chunk_addr ch), nxt := None, exptime := 0, slabs_clsid := of_nat cid,
                                        time := ucast (sz - of_nat sizeof_item_chunk), it_flags := set_flag (it_flags (h n)) ITEM_CHUNK\<rparr>)
                   in Some (Some n, c\<lparr>hp := h\<rparr>)) })"

section \<open>Bump buffers\<close>

text \<open>An entry of 16 bytes: the item pointer, its hash value, little endian, and 4 bytes of padding that are not written.\<close>

record lru_bump_buf =
  bump_buf :: bipbuf
  dropped :: u64

abbreviation (input) sizeof_bump_entry :: nat where "sizeof_bump_entry \<equiv> 16"

fun le_bytes :: "nat \<Rightarrow> nat \<Rightarrow> byte list" where
  "le_bytes 0 v = []"
| "le_bytes (Suc n) v = of_nat (v mod 256) # le_bytes n (v div 256)"

fun le_nat :: "byte list \<Rightarrow> nat" where
  "le_nat [] = 0"
| "le_nat (b # bs) = unat b + 256 * le_nat bs"

definition enc_entry :: "nat \<Rightarrow> u32 \<Rightarrow> byte list" where
  "enc_entry it hv = le_bytes 8 it @ le_bytes 4 (unat hv)"

definition dec_entry :: "byte list \<Rightarrow> nat \<times> u32" where
  "dec_entry bs = (le_nat (take 8 bs), of_nat (le_nat (take 4 (drop 8 bs))))"

definition lru_bump_async :: "lru_bump_buf \<Rightarrow> nat \<Rightarrow> u32 \<Rightarrow> cache \<Rightarrow> (bool \<times> lru_bump_buf \<times> cache) option" where
  "lru_bump_async b it hv c =
     (let c' = upd_it it (\<lambda>i. i\<lparr>refcount := refcount i + 1\<rparr>) c;
          fail = (False, b\<lparr>dropped := dropped b + 1\<rparr>, upd_it it (\<lambda>i. i\<lparr>refcount := refcount i - 1\<rparr>) c')
      in case bipbuf_request (bump_buf b) (int sizeof_bump_entry) of
           None \<Rightarrow> Some fail
         | Some off \<Rightarrow>
             do { d \<leftarrow> memcpy_at (bb_data (bump_buf b)) (unat off) (enc_entry it hv);
                  (let (n, bb) = bipbuf_push ((bump_buf b)\<lparr>bb_data := d\<rparr>) (int sizeof_bump_entry)
                   in if n = 0 then Some (False, b\<lparr>bump_buf := bb, dropped := dropped b + 1\<rparr>, upd_it it (\<lambda>i. i\<lparr>refcount := refcount i - 1\<rparr>) c')
                      else Some (True, b\<lparr>bump_buf := bb\<rparr>, c')) })"

text \<open>The entries of the peeked region, one after the other.\<close>

fun apply_bumps :: "globals \<Rightarrow> byte list list \<Rightarrow> cache \<Rightarrow> cache option" where
  "apply_bumps g [] c = Some c"
| "apply_bumps g (e # es) c =
     do { c \<leftarrow> do_item_update g (fst (dec_entry e)) c;
          c \<leftarrow> do_item_remove g (fst (dec_entry e)) c;
          apply_bumps g es c }"

fun lru_maintainer_bumps :: "globals \<Rightarrow> lru_bump_buf list \<Rightarrow> cache \<Rightarrow> (bool \<times> lru_bump_buf list \<times> cache) option" where
  "lru_maintainer_bumps g [] c = Some (False, [], c)"
| "lru_maintainer_bumps g (b # bs) c =
     (case bipbuf_peek_all (bump_buf b) of
        None \<Rightarrow> do { (r, bs, c) \<leftarrow> lru_maintainer_bumps g bs c; Some (r, b # bs, c) }
      | Some (off, sz) \<Rightarrow>
          do { c \<leftarrow> apply_bumps g (map (\<lambda>k. seg (unat off + 16 * k) (unat off + 16 * k + 16) (bb_data (bump_buf b))) [0..<unat sz div 16]) c;
               (_, bs', c) \<leftarrow> lru_maintainer_bumps g bs c;
               Some (True, b\<lparr>bump_buf := snd (bipbuf_poll (bump_buf b) sz)\<rparr> # bs', c) })"

definition lru_total_bumps_dropped :: "lru_bump_buf list \<Rightarrow> u64" where
  "lru_total_bumps_dropped bs = fold (\<lambda>b t. t + dropped b) bs 0"

section \<open>Lookup\<close>

text \<open>The part of a worker thread's state a lookup touches.\<close>

record worker =
  bumps :: lru_bump_buf
  get_flushed :: u64
  get_expired :: u64

definition get_hit :: "globals \<Rightarrow> nat \<Rightarrow> u32 \<Rightarrow> worker \<Rightarrow> cache \<Rightarrow> (worker \<times> cache) option" where
  "get_hit g it hv w c =
     (let i = hp c it
      in if lru_segmented g then
           if has_flag (it_flags i) ITEM_ACTIVE then Some (w, c)
           else if \<not> has_flag (it_flags i) ITEM_FETCHED
           then Some (w, upd_it it (\<lambda>i. i\<lparr>it_flags := set_flag (it_flags i) ITEM_FETCHED\<rparr>) c)
           else let c = upd_it it (\<lambda>i. i\<lparr>it_flags := set_flag (it_flags i) ITEM_ACTIVE\<rparr>) c
                in if ITEM_lruid i \<noteq> COLD_LRU then map_option (Pair w) (do_item_update g it c)
                   else do { (ok, b, c) \<leftarrow> lru_bump_async (bumps w) it hv c;
                             Some (w\<lparr>bumps := b\<rparr>,
                                   if ok then c else upd_it it (\<lambda>i. i\<lparr>it_flags := clear_flag (it_flags i) ITEM_ACTIVE\<rparr>) c) }
         else map_option (Pair w) (do_item_update g it (upd_it it (\<lambda>i. i\<lparr>it_flags := set_flag (it_flags i) ITEM_FETCHED\<rparr>) c)))"

definition do_item_get :: "globals \<Rightarrow> byte list \<Rightarrow> u32 \<Rightarrow> worker \<Rightarrow> bool \<Rightarrow> cache \<Rightarrow> (ptr \<times> worker \<times> cache) option" where
  "do_item_get g key hv w do_update c =
     do { p \<leftarrow> assoc_find key hv (hp c) (tab c);
          (case p of
             None \<Rightarrow> Some (None, w, c)
           | Some it \<Rightarrow>
               let c = upd_it it (\<lambda>i. i\<lparr>refcount := refcount i + 1\<rparr>) c; i = hp c it
               in if item_is_flushed g i
                  then do { c \<leftarrow> do_item_unlink g it hv c; c \<leftarrow> do_item_remove g it c; Some (None, w\<lparr>get_flushed := get_flushed w + 1\<rparr>, c) }
                  else if exptime i \<noteq> 0 \<and> exptime i \<le> current_time g
                  then do { c \<leftarrow> do_item_unlink g it hv c; c \<leftarrow> do_item_remove g it c; Some (None, w\<lparr>get_expired := get_expired w + 1\<rparr>, c) }
                  else if do_update then do { (w, c) \<leftarrow> get_hit g it hv w c; Some (Some it, w, c) }
                  else Some (Some it, w, c)) }"

definition do_item_touch :: "globals \<Rightarrow> byte list \<Rightarrow> u32 \<Rightarrow> u32 \<Rightarrow> worker \<Rightarrow> cache \<Rightarrow> (ptr \<times> worker \<times> cache) option" where
  "do_item_touch g key et hv w c =
     do { (p, w, c) \<leftarrow> do_item_get g key hv w True c;
          Some (p, w, case p of None \<Rightarrow> c | Some it \<Rightarrow> upd_it it (\<lambda>i. i\<lparr>exptime := et\<rparr>) c) }"

section \<open>The LRU maintainer\<close>

text \<open>\<open>locks k n\<close> answers the lock attempts of the pull on LRU \<open>k\<close> with \<open>n\<close> turns left.\<close>

type_synonym juggle_locks = "u8 \<Rightarrow> nat \<Rightarrow> (nat \<Rightarrow> u32 \<Rightarrow> bool) \<times> bool"

definition juggle_pull :: "globals \<Rightarrow> juggle_locks \<Rightarrow> nat \<Rightarrow> u8 \<Rightarrow> u8 \<Rightarrow> u64 \<Rightarrow> u8 \<Rightarrow> u32 \<Rightarrow> cache \<Rightarrow> (nat \<times> cache) option" where
  "juggle_pull g locks n cid lru tb fl ag c =
     map_option (\<lambda>(r, _, c). (r, c))
       (lru_pull_tail g \<lparr>orig_id = cid, cur_lru = lru, total_bytes = tb, pull_flags = fl, max_age = ag,
                         item_trylock = fst (locks lru n), rebalance_trylock = snd (locks lru n)\<rparr> c)"

fun juggle_temp :: "globals \<Rightarrow> juggle_locks \<Rightarrow> nat \<Rightarrow> u8 \<Rightarrow> cache \<Rightarrow> (nat \<times> cache) option" where
  "juggle_temp g locks 0 cid c = Some (0, c)"
| "juggle_temp g locks (Suc n) cid c =
     do { (r, c) \<leftarrow> juggle_pull g locks n cid TEMP_LRU 0 0 0 c;
          if r = 0 then Some (0, c) else do { (m, c) \<leftarrow> juggle_temp g locks n cid c; Some (m + 1, c) } }"

fun juggle_loop :: "globals \<Rightarrow> juggle_locks \<Rightarrow> nat \<Rightarrow> u8 \<Rightarrow> u64 \<Rightarrow> u32 \<Rightarrow> u32 \<Rightarrow> cache \<Rightarrow> (nat \<times> cache) option" where
  "juggle_loop g locks 0 cid tb hot_age warm_age c = Some (0, c)"
| "juggle_loop g locks (Suc n) cid tb hot_age warm_age c =
     do { (r, c) \<leftarrow> juggle_pull g locks n cid HOT_LRU tb LRU_PULL_CRAWL_BLOCKS hot_age c;
          (r, c) \<leftarrow> (if r \<noteq> 0 then Some (r, c) else juggle_pull g locks n cid WARM_LRU tb LRU_PULL_CRAWL_BLOCKS warm_age c);
          (q, c) \<leftarrow> (if lru_segmented g then juggle_pull g locks n cid COLD_LRU tb LRU_PULL_CRAWL_BLOCKS 0 c else Some (0, c));
          if (if r \<noteq> 0 then 1 else 0) + q = 0 then Some (0, c)
          else do { (m, c) \<leftarrow> juggle_loop g locks n cid tb hot_age warm_age c; Some (m + 1, c) } }"

text \<open>\<open>hot\<close> and \<open>warm\<close> multiply an age by \<open>settings.hot_max_factor\<close> and \<open>settings.warm_max_factor\<close>.\<close>

definition lru_maintainer_juggle :: "globals \<Rightarrow> (u32 \<Rightarrow> u32) \<Rightarrow> (u32 \<Rightarrow> u32) \<Rightarrow> juggle_locks \<Rightarrow> u8 \<Rightarrow> cache \<Rightarrow> (nat \<times> cache) option" where
  "lru_maintainer_juggle g hot warm locks cid c =
     (let (_, _, tb, _) = slabs_available_chunks (unat cid) (slb c)
      in do { (m, tb, c) \<leftarrow> (if temp_lru g
                              then do { (m, c) \<leftarrow> juggle_temp g locks 500 cid c; Some (m, tb - ucast (temp_lru_size cid c), c) }
                              else Some (0, tb, c));
              (let cold_age = (case tails c (cid OR COLD_LRU) of None \<Rightarrow> 0 | Some t \<Rightarrow> current_time g - time (hp c t));
                   (hot_age, warm_age) = (if lru_segmented g then (hot cold_age, warm cold_age) else (0, 0))
               in do { (m', c) \<leftarrow> juggle_loop g locks 500 cid tb hot_age warm_age c; Some (m + m', c) }) })"

text \<open>The sleep of one class in a turn of the maintainer thread: \<open>next_juggles[i]\<close> and \<open>backoff_juggles[i]\<close>.\<close>

abbreviation (input) MAX_LRU_MAINTAINER_SLEEP :: u32 where "MAX_LRU_MAINTAINER_SLEEP \<equiv> 1000000"
abbreviation (input) MIN_LRU_MAINTAINER_SLEEP :: u32 where "MIN_LRU_MAINTAINER_SLEEP \<equiv> 1000"

definition juggle_backoff :: "bool \<Rightarrow> u32 \<Rightarrow> u32" where
  "juggle_backoff moved b =
     (if \<not> moved then min (if b \<noteq> 0 then b + b div 8 else MIN_LRU_MAINTAINER_SLEEP) MAX_LRU_MAINTAINER_SLEEP
      else if b > 0 then (if b div 2 < MIN_LRU_MAINTAINER_SLEEP then 0 else b div 2) else b)"

fun maintainer_classes ::
    "globals \<Rightarrow> (u32 \<Rightarrow> u32) \<Rightarrow> (u32 \<Rightarrow> u32) \<Rightarrow> (u8 \<Rightarrow> juggle_locks) \<Rightarrow> u32 \<Rightarrow> nat list \<Rightarrow> (nat \<Rightarrow> u32) \<Rightarrow> (nat \<Rightarrow> u32) \<Rightarrow> u32 \<Rightarrow> cache
     \<Rightarrow> ((nat \<Rightarrow> u32) \<times> (nat \<Rightarrow> u32) \<times> u32 \<times> cache) option" where
  "maintainer_classes g hot warm locks last_sleep [] nj bj to_sleep c = Some (nj, bj, to_sleep, c)"
| "maintainer_classes g hot warm locks last_sleep (i # is) nj bj to_sleep c =
     (let ni = (if nj i > last_sleep then nj i - last_sleep else 0)
      in if ni > 0 then maintainer_classes g hot warm locks last_sleep is (nj(i := ni)) bj (if ni < to_sleep then ni else to_sleep) c
         else do { (m, c) \<leftarrow> lru_maintainer_juggle g hot warm (locks (of_nat i)) (of_nat i) c;
                   (let b = juggle_backoff (m \<noteq> 0) (bj i)
                    in maintainer_classes g hot warm locks last_sleep is (nj(i := b)) (bj(i := b)) (if b < to_sleep then b else to_sleep) c) })"

text \<open>One turn of the thread's loop up to the crawler check, with the sleep it is to take next.\<close>

definition maintainer_juggles ::
    "globals \<Rightarrow> (u32 \<Rightarrow> u32) \<Rightarrow> (u32 \<Rightarrow> u32) \<Rightarrow> (u8 \<Rightarrow> juggle_locks) \<Rightarrow> u32 \<Rightarrow> lru_bump_buf list \<Rightarrow> (nat \<Rightarrow> u32) \<Rightarrow> (nat \<Rightarrow> u32) \<Rightarrow> cache
     \<Rightarrow> ((nat \<Rightarrow> u32) \<times> (nat \<Rightarrow> u32) \<times> u32 \<times> lru_bump_buf list \<times> cache) option" where
  "maintainer_juggles g hot warm locks slept bufs nj bj c =
     (let last_sleep = (if slept > 1000 then slept else 1000)
      in do { (nj, bj, to_sleep, c) \<leftarrow> maintainer_classes g hot warm locks last_sleep [POWER_SMALLEST..<MAX_NUMBER_OF_SLAB_CLASSES] nj bj MAX_LRU_MAINTAINER_SLEEP c;
              (bumped, bufs, c) \<leftarrow> (if lru_segmented g then lru_maintainer_bumps g bufs c else Some (False, bufs, c));
              Some (nj, bj, if bumped \<and> to_sleep > 1000 then 1000 else to_sleep, bufs, c) })"

definition fill_item_stats_automove :: "globals \<Rightarrow> cache \<Rightarrow> item_stats_automove list" where
  "fill_item_stats_automove g c =
     map (\<lambda>n. \<lparr>evicted = sint (is_evicted (itemstats c (of_nat n OR COLD_LRU))), outofmemory = sint (is_outofmemory (itemstats c (of_nat n OR HOT_LRU))),
               iage = (case tails c (of_nat n OR COLD_LRU) of None \<Rightarrow> 0 | Some t \<Rightarrow> current_time g - time (hp c t))\<rparr>)
       [0..<MAX_NUMBER_OF_SLAB_CLASSES]"

section \<open>The crawler's place in an LRU\<close>

text \<open>A crawler is linked at the tail as a pseudo item and moves towards the head.\<close>

definition do_item_linktail_q :: "nat \<Rightarrow> cache \<Rightarrow> cache option" where
  "do_item_linktail_q it c =
     (let i = slabs_clsid (hp c it); head = heads c i; tail = tails c i
      in if it_flags (hp c it) \<noteq> 1 \<or> nbytes (hp c it) \<noteq> 0 \<or> tail = Some it \<or> (head = None) \<noteq> (tail = None) then None
         else let h = (hp c)(it := (hp c it)\<lparr>prv := tail, nxt := None\<rparr>)
              in if (case tail of None \<Rightarrow> False | Some t \<Rightarrow> nxt (h t) \<noteq> None) then None
                 else Some (c\<lparr>hp := set_nxt tail (Some it) h, tails := (tails c)(i := Some it),
                              heads := (heads c)(i := (if head = None then Some it else head))\<rparr>))"

definition do_item_unlinktail_q :: "nat \<Rightarrow> cache \<Rightarrow> cache option" where
  "do_item_unlinktail_q it c =
     (let i = slabs_clsid (hp c it); n = nxt (hp c it); p = prv (hp c it)
      in if heads c i = Some it \<and> p \<noteq> None \<or> tails c i = Some it \<and> n \<noteq> None \<or> n = Some it \<or> p = Some it then None
         else Some (c\<lparr>hp := cut_out it (hp c),
                      heads := (heads c)(i := (if heads c i = Some it then n else heads c i)),
                      tails := (tails c)(i := (if tails c i = Some it then p else tails c i))\<rparr>))"

definition do_item_crawl_q :: "nat \<Rightarrow> cache \<Rightarrow> (ptr \<times> cache) option" where
  "do_item_crawl_q it c =
     (let i = slabs_clsid (hp c it); n = nxt (hp c it); h = hp c
      in if it_flags (h it) \<noteq> 1 \<or> nbytes (h it) \<noteq> 0 then None
         else case prv (h it) of
           None \<Rightarrow>
             if heads c i \<noteq> Some it then None
             else (case n of
                     None \<Rightarrow> Some (None, c)
                   | Some y \<Rightarrow> if prv (h y) \<noteq> Some it then None
                               else Some (None, c\<lparr>heads := (heads c)(i := n), hp := h(y := (h y)\<lparr>prv := None\<rparr>)\<rparr>))
         | Some p \<Rightarrow>
             if p = it \<or> n = Some it \<or> n \<noteq> None \<and> nxt (h p) \<noteq> Some it then None
             else let heads' = (if heads c i = Some p then (heads c)(i := Some it) else heads c);
                      tails' = (if tails c i = Some it then (tails c)(i := Some p) else tails c);
                      h = set_prv n (Some p) (h(p := (h p)\<lparr>nxt := n\<rparr>));
                      h = h(it := (h it)\<lparr>nxt := Some p\<rparr>);
                      h = h(it := (h it)\<lparr>prv := prv (h p)\<rparr>);
                      h = h(p := (h p)\<lparr>prv := Some it\<rparr>);
                      h = set_nxt (prv (h it)) (Some it) h
                  in if nxt (h it) = Some it \<or> prv (h it) = Some it then None
                     else Some (nxt (h it), c\<lparr>hp := h, heads := heads', tails := tails'\<rparr>))"

end
