(* ===== verification/Slabs_Proof.thy ===== *)
theory Slabs_Proof
  imports Slabs
begin

text \<open>
  Correctness of the slab allocator (\<open>Slabs\<close>): the invariant of classes, pages and free lists, its
  preservation, the allocator's contract as a locale interpreted on the model, and the
  accounting of requested bytes.
\<close>

section \<open>Class updates\<close>

declare init_classes.simps [simp del] clsid_loop.simps [simp del]

lemma upd_cls_simps [simp]:
  "length (slabclass (upd_cls i f s)) = length (slabclass s)" "mem_limit (upd_cls i f s) = mem_limit s"
  "mem_malloced (upd_cls i f s) = mem_malloced s" "power_largest (upd_cls i f s) = power_largest s" "mem_base (upd_cls i f s) = mem_base s"
  "mem_current (upd_cls i f s) = mem_current s" "mem_avail (upd_cls i f s) = mem_avail s"
  by (simp_all add: upd_cls_def)

lemma cls_upd: "i < length (slabclass s) \<Longrightarrow> cls (upd_cls i f s) j = (if j = i then f (cls s i) else cls s j)"
  by (auto simp: upd_cls_def nth_list_update)

section \<open>Classes and pages\<close>

definition cls_wf :: "slab_settings \<Rightarrow> slabclass \<Rightarrow> bool" where
  "cls_wf st c \<longleftrightarrow> length (slab_list c) = unat (list_size c) \<and> unat (slabs c) \<le> unat (list_size c)
     \<and> unat (slabs c) * unat (perslab c) < 2 ^ 32 \<and> int (unat (sl_size c) * unat (perslab c)) \<le> slab_page_size st"

definition slabs_wf :: "slab_settings \<Rightarrow> slabs \<Rightarrow> bool" where
  "slabs_wf st s \<longleftrightarrow> length (slabclass s) = 64 \<and> 1 \<le> power_largest s \<and> power_largest s < 64 \<and> 0 < slab_page_size st \<and> slab_page_size st < 2 ^ 31
     \<and> (\<forall>i<64. cls_wf st (cls s i)) \<and> (\<forall>i. 1 \<le> i \<and> i \<le> power_largest s \<longrightarrow> 0 < unat (sl_size (cls s i)))"

text \<open>Pages are numbered by class and position; a page of class \<open>i\<close> spans \<open>page_span st s i\<close> bytes.\<close>

definition owned :: "slabs \<Rightarrow> (nat \<times> nat) set" where
  "owned s = {(i, k). i < 64 \<and> k < unat (slabs (cls s i))}"

definition page_span :: "slab_settings \<Rightarrow> slabs \<Rightarrow> nat \<Rightarrow> nat" where
  "page_span st s i = (if i = 0 then nat (slab_page_size st) else nat (page_len st (cls s i)))"

definition page_range :: "slab_settings \<Rightarrow> slabs \<Rightarrow> nat \<times> nat \<Rightarrow> nat set" where
  "page_range st s a = {slab_list (cls s (fst a)) ! snd a..<slab_list (cls s (fst a)) ! snd a + page_span st s (fst a)}"

definition pages_ok :: "slab_settings \<Rightarrow> slabs \<Rightarrow> bool" where
  "pages_ok st s \<longleftrightarrow>
     (\<forall>a\<in>owned s. \<forall>b\<in>owned s. a \<noteq> b \<longrightarrow> page_range st s a \<inter> page_range st s b = {})
   \<and> (mem_base s \<noteq> None \<longrightarrow> (\<forall>a\<in>owned s. page_range st s a \<inter> {mem_current s..<mem_current s + unat (mem_avail s)} = {}))"

definition chunk_of :: "slabs \<Rightarrow> nat \<Rightarrow> nat \<Rightarrow> bool" where
  "chunk_of s i x \<longleftrightarrow> (\<exists>k<unat (slabs (cls s i)). \<exists>j<unat (perslab (cls s i)). x = slab_list (cls s i) ! k + j * unat (sl_size (cls s i)))"

lemma slabs_wfD:
  assumes "slabs_wf st s"
  shows "length (slabclass s) = 64" "1 \<le> power_largest s" "power_largest s < 64" "0 < slab_page_size st" "slab_page_size st < 2 ^ 31"
    "i < 64 \<Longrightarrow> cls_wf st (cls s i)" "1 \<le> i \<Longrightarrow> i \<le> power_largest s \<Longrightarrow> 0 < unat (sl_size (cls s i))"
  using assms by (auto simp: slabs_wf_def)

lemma class_index: "slabs_wf st s \<Longrightarrow> i \<le> power_largest s \<Longrightarrow> i < 64 \<and> i < length (slabclass s)"
  using slabs_wfD(1,3) [of st s] by auto

text \<open>The 32-bit product of size and count does not wrap.\<close>

lemma page_len_eq:
  assumes "cls_wf st c" "slab_page_size st < 2 ^ 31"
  shows "page_len st c = (if slab_reassign st \<or> slab_chunk_size_max st \<noteq> slab_page_size st then slab_page_size st else int (unat (sl_size c) * unat (perslab c)))"
proof -
  have "int (unat (sl_size c) * unat (perslab c)) < int (2 ^ 31)" using assms by (simp add: cls_wf_def del: of_nat_mult)
  then have b: "unat (sl_size c) * unat (perslab c) < 2 ^ 31" by (simp only: of_nat_less_iff)
  then have "unat (sl_size c * perslab c) = unat (sl_size c) * unat (perslab c)" by (simp add: unat_mult_lem [THEN iffD1])
  with b have "c_int (sl_size c * perslab c) = int (unat (sl_size c) * unat (perslab c))" by (metis c_int_small)
  then show ?thesis by (simp add: page_len_def)
qed

lemma page_len_bounds:
  assumes "cls_wf st c" "slab_page_size st < 2 ^ 31" "0 < slab_page_size st"
  shows "int (unat (sl_size c) * unat (perslab c)) \<le> page_len st c" "page_len st c \<le> slab_page_size st" "0 \<le> page_len st c"
  using assms by (auto simp: page_len_eq cls_wf_def)

lemma chunk_in_page:
  assumes wf: "slabs_wf st s" and i: "1 \<le> i" "i \<le> power_largest s" and k: "j < unat (perslab (cls s i))"
  shows "{slab_list (cls s i) ! k + j * unat (sl_size (cls s i))..<slab_list (cls s i) ! k + j * unat (sl_size (cls s i)) + unat (sl_size (cls s i))}
    \<subseteq> page_range st s (i, k)"
proof -
  let ?n = "unat (sl_size (cls s i))"
  have c: "cls_wf st (cls s i)" using slabs_wfD(6) [OF wf] class_index [OF wf i(2)] by blast
  have "Suc j * ?n \<le> unat (perslab (cls s i)) * ?n" using k by (intro mult_le_mono1) auto
  moreover have "int (?n * unat (perslab (cls s i))) \<le> page_len st (cls s i)" using page_len_bounds(1) [OF c] slabs_wfD [OF wf] by blast
  then have "?n * unat (perslab (cls s i)) \<le> nat (page_len st (cls s i))" by linarith
  ultimately have "j * ?n + ?n \<le> nat (page_len st (cls s i))" by (simp add: mult.commute)
  then show ?thesis using i by (auto simp: page_range_def page_span_def Let_def)
qed

text \<open>Different chunks do not overlap.\<close>

lemma multiples_apart:
  assumes "a < (b :: nat)"
  shows "{p + a * n..<p + a * n + n} \<inter> {p + b * n..<p + b * n + n} = {}"
proof -
  have "Suc a * n \<le> b * n" using assms by (intro mult_le_mono1) auto
  then show ?thesis by auto
qed

lemma chunks_disjoint:
  assumes wf: "slabs_wf st s" and p: "pages_ok st s" and x: "chunk_of s i x" "1 \<le> i" "i \<le> power_largest s"
    and y: "chunk_of s j y" "1 \<le> j" "j \<le> power_largest s" and ne: "x \<noteq> y"
  shows "{x..<x + unat (sl_size (cls s i))} \<inter> {y..<y + unat (sl_size (cls s j))} = {}"
proof -
  obtain k a where k: "k < unat (slabs (cls s i))" "a < unat (perslab (cls s i))" "x = slab_list (cls s i) ! k + a * unat (sl_size (cls s i))"
    using x(1) by (auto simp: chunk_of_def)
  obtain l b where l: "l < unat (slabs (cls s j))" "b < unat (perslab (cls s j))" "y = slab_list (cls s j) ! l + b * unat (sl_size (cls s j))"
    using y(1) by (auto simp: chunk_of_def)
  show ?thesis
  proof (cases "(i, k) = (j, l)")
    case True
    then have "a \<noteq> b" using ne k(3) l(3) by auto
    then show ?thesis using True k(3) l(3) multiples_apart by (metis Int_commute linorder_neqE_nat prod.inject)
  next
    case False
    have "(i, k) \<in> owned s" "(j, l) \<in> owned s" using k l x y class_index [OF wf] by (auto simp: owned_def)
    then have "page_range st s (i, k) \<inter> page_range st s (j, l) = {}" using p False by (simp add: pages_ok_def)
    then show ?thesis
      using chunk_in_page [OF wf x(2,3) k(2), of k] chunk_in_page [OF wf y(2,3) l(2), of l] k(3) l(3) by blast
  qed
qed

section \<open>Free lists\<close>

definition free_ok :: "heap \<Rightarrow> slabclass \<Rightarrow> nat list \<Rightarrow> bool" where
  "free_ok h c fl \<longleftrightarrow> dll h (slots c) fl \<and> unat (sl_curr c) = length fl \<and> (\<forall>x\<in>set fl. it_flags (h x) = ITEM_SLABBED \<and> slabs_clsid (h x) = 0)"

definition free_lists :: "heap \<Rightarrow> slabs \<Rightarrow> (nat \<Rightarrow> nat list) \<Rightarrow> bool" where
  "free_lists h s fl \<longleftrightarrow> (\<forall>i. 1 \<le> i \<and> i \<le> power_largest s \<longrightarrow> free_ok h (cls s i) (fl i))
     \<and> (\<forall>i j. 1 \<le> i \<and> i \<le> power_largest s \<and> 1 \<le> j \<and> j \<le> power_largest s \<and> i \<noteq> j \<longrightarrow> set (fl i) \<inter> set (fl j) = {})"

lemma free_ok_cong:
  assumes "free_ok h c fl" "\<And>x. x \<in> set fl \<Longrightarrow> h' x = h x" "slots c' = slots c" "sl_curr c' = sl_curr c"
  shows "free_ok h' c' fl"
  using assms unfolding free_ok_def by (auto elim!: dll_cong)

lemma free_push_ok:
  fixes c :: slabclass
  assumes f: "free_ok h c fl" and x: "x \<notin> set fl" and r: "length fl + 1 < 2 ^ 32"
  defines "h' \<equiv> push_front x (slots c) (h(x := (h x)\<lparr>it_flags := ITEM_SLABBED, slabs_clsid := 0\<rparr>))"
  assumes c': "slots c' = Some x" "sl_curr c' = sl_curr c + 1"
  shows "free_ok h' c' (x # fl)" "\<And>y. y \<noteq> x \<Longrightarrow> y \<notin> set fl \<Longrightarrow> h' y = h y"
proof -
  let ?h = "h(x := (h x)\<lparr>it_flags := ITEM_SLABBED, slabs_clsid := 0\<rparr>)"
  have d: "dll ?h (slots c) fl" using f x unfolding free_ok_def by (auto elim!: dll_cong)
  note s = same_nodesD [OF same_nodes_push [of ?h x "slots c"]]
  have "unat (sl_curr c + 1) = length fl + 1" using f r by (subst unat_add_no_wrap) (auto simp: free_ok_def)
  moreover have "it_flags (h' y) = ITEM_SLABBED \<and> slabs_clsid (h' y) = 0" if "y \<in> set (x # fl)" for y
    using that f unfolding h'_def s by (auto simp: free_ok_def)
  ultimately show "free_ok h' c' (x # fl)"
    using push_front_dll [OF d x] c' unfolding free_ok_def h'_def by simp
  show "h' y = h y" if "y \<noteq> x" "y \<notin> set fl" for y
    using push_front_other [OF d that] that unfolding h'_def by simp
qed

lemma free_okD:
  assumes "free_ok h c fl"
  shows "dll h (slots c) fl" "unat (sl_curr c) = length fl" "sl_curr c = 0 \<longleftrightarrow> fl = []"
    "x \<in> set fl \<Longrightarrow> it_flags (h x) = ITEM_SLABBED" "x \<in> set fl \<Longrightarrow> slabs_clsid (h x) = 0" "distinct fl" "slots c = first_ptr fl None"
  using assms by (auto simp: free_ok_def unat_eq_0 [symmetric] dll_def)

lemma free_pop_ok:
  assumes f: "free_ok h c (x # fl)"
  defines "h1 \<equiv> set_prv (nxt (h x)) None h"
  defines "h' \<equiv> h1(x := (h1 x)\<lparr>it_flags := clear_flag (it_flags (h1 x)) ITEM_SLABBED, refcount := 1\<rparr>)"
  assumes c': "slots c' = nxt (h x)" "sl_curr c' = sl_curr c - 1"
  shows "free_ok h' c' fl" "\<And>y. y \<noteq> x \<Longrightarrow> y \<notin> set fl \<Longrightarrow> h' y = h y" "slots c = Some x" "sl_curr c \<noteq> 0"
    "it_flags (h' x) = 0" "slabs_clsid (h' x) = 0" "refcount (h' x) = 1"
proof -
  have d: "distinct (x # fl)" and n: "nxt (h x) = first_ptr fl None" and l: "dls h (Some x) fl None"
    using free_okD(1) [OF f] by (auto simp: dll_def)
  have "dls h1 None fl None" unfolding h1_def n using l d by (intro dls_set_prv_first) auto
  then have "dls h' None fl None" unfolding h'_def using d by (auto elim!: dls_cong)
  then have dl: "dll h' (slots c') fl" using d n c' by (simp add: dll_def)
  have u: "unat (sl_curr c - 1) = length fl" using free_okD(2) [OF f] by (subst unat_sub_no_wrap) auto
  note s = same_nodesD [OF same_nodes_set(1) [of h "nxt (h x)" None], folded h1_def]
  have "it_flags (h' y) = ITEM_SLABBED \<and> slabs_clsid (h' y) = 0" if "y \<in> set fl" for y
    using that f d unfolding h'_def by (auto simp: free_ok_def s)
  with dl u c' show "free_ok h' c' fl" unfolding free_ok_def by simp
  show "h' y = h y" if "y \<noteq> x" "y \<notin> set fl" for y
  proof -
    have "nxt (h x) \<noteq> Some y" using that n first_ptr_in by auto
    with that(1) show ?thesis by (simp add: h'_def h1_def set_prv_other)
  qed
  show "slots c = Some x" "sl_curr c \<noteq> 0" using free_okD(3,7) [OF f] by auto
  show "it_flags (h' x) = 0" "slabs_clsid (h' x) = 0" "refcount (h' x) = 1"
    using f by (auto simp: h'_def s free_ok_def clear_flag_def)
qed

lemma free_listsD:
  assumes "free_lists h s fl" "1 \<le> i" "i \<le> power_largest s"
  shows "free_ok h (cls s i) (fl i)" "1 \<le> j \<Longrightarrow> j \<le> power_largest s \<Longrightarrow> i \<noteq> j \<Longrightarrow> x \<in> set (fl i) \<Longrightarrow> x \<notin> set (fl j)"
  using assms unfolding free_lists_def by auto

definition on_free_list :: "slabs \<Rightarrow> (nat \<Rightarrow> nat list) \<Rightarrow> nat \<Rightarrow> bool" where
  "on_free_list s fl x \<longleftrightarrow> (\<exists>i. 1 \<le> i \<and> i \<le> power_largest s \<and> x \<in> set (fl i))"

text \<open>The free lists depend on the items on them and on two fields of the classes.\<close>

lemma free_lists_cong:
  assumes "free_lists h s fl" "\<And>x. on_free_list s fl x \<Longrightarrow> h' x = h x" "power_largest s' = power_largest s"
    "\<And>i. 1 \<le> i \<Longrightarrow> i \<le> power_largest s \<Longrightarrow> slots (cls s' i) = slots (cls s i) \<and> sl_curr (cls s' i) = sl_curr (cls s i)"
  shows "free_lists h' s' fl"
proof -
  have "free_ok h' (cls s' i) (fl i)" if "1 \<le> i" "i \<le> power_largest s" for i
  proof (rule free_ok_cong [OF free_listsD(1) [OF assms(1) that]])
    show "h' x = h x" if "x \<in> set (fl i)" for x using assms(2) that \<open>1 \<le> i\<close> \<open>i \<le> power_largest s\<close> by (auto simp: on_free_list_def)
  qed (use assms(4) that in auto)
  then show ?thesis using assms(1,3) unfolding free_lists_def by auto
qed

text \<open>One class changes its list, the others keep theirs.\<close>

lemma free_lists_upd:
  assumes fl: "free_lists h s fl" and i: "1 \<le> i" "i \<le> power_largest s" "i < length (slabclass s)"
    and new: "free_ok h' (f (cls s i)) xs" and fr: "\<And>y. on_free_list s (fl(i := [])) y \<Longrightarrow> h' y = h y \<and> y \<notin> set xs"
  shows "free_lists h' (upd_cls i f s) (fl(i := xs))"
proof -
  have fr': "h' y = h y \<and> y \<notin> set xs" if "y \<in> set (fl j)" "j \<noteq> i" "1 \<le> j" "j \<le> power_largest s" for y j
    by (rule fr) (use that in \<open>auto simp: on_free_list_def\<close>)
  have k: "free_ok h' (cls (upd_cls i f s) j) ((fl(i := xs)) j)" if "1 \<le> j" "j \<le> power_largest s" for j
  proof (cases "j = i")
    case False
    have "free_ok h' (cls s j) (fl j)"
      by (rule free_ok_cong [OF free_listsD(1) [OF fl that]]) (use fr' False that in auto)
    then show ?thesis using False i(3) by (simp add: cls_upd)
  qed (use new i(3) in \<open>simp add: cls_upd del: upd_cls_simps\<close>)
  have d: "set ((fl(i := xs)) j) \<inter> set ((fl(i := xs)) k) = {}" if "1 \<le> j" "j \<le> power_largest s" "1 \<le> k" "k \<le> power_largest s" "j \<noteq> k" for j k
  proof -
    have "set (fl j) \<inter> set (fl k) = {}" using fl that by (auto simp: free_lists_def)
    moreover have "set (fl l) \<inter> set xs = {}" if "1 \<le> l" "l \<le> power_largest s" "l \<noteq> i" for l
      using fr' that by blast
    ultimately show ?thesis using that by auto
  qed
  show ?thesis unfolding free_lists_def using k d by auto
qed

section \<open>Freeing a chunk and splitting a page\<close>

definition charge :: "bool \<Rightarrow> item \<Rightarrow> u64 \<Rightarrow> u64" where
  "charge ext it sz = (if ext \<and> has_flag (it_flags it) ITEM_HDR then (sz - word_of_int (nbytes it)) + of_nat sizeof_item_hdr else sz)"

lemma upd_cls_twice: "i < length (slabclass s) \<Longrightarrow> upd_cls i f (upd_cls i g s) = upd_cls i (\<lambda>p. f (g p)) s"
  by (simp add: upd_cls_def)

lemma do_slabs_free_plain:
  assumes fl: "free_lists h s fl" and i: "1 \<le> i" "i \<le> power_largest s" "i < length (slabclass s)"
    and x: "\<not> has_flag (it_flags (h x)) ITEM_CHUNKED" "\<not> on_free_list s fl x" and room: "length (fl i) + 1 < 2 ^ 32"
  shows "\<exists>h'. do_slabs_free ext st x sz i h s =
      Some (h', upd_cls i (\<lambda>p. p\<lparr>slots := Some x, sl_curr := sl_curr p + 1, requested := requested p - charge ext (h x) sz\<rparr>) s)
    \<and> free_lists h' (upd_cls i (\<lambda>p. p\<lparr>slots := Some x, sl_curr := sl_curr p + 1, requested := requested p - charge ext (h x) sz\<rparr>) s) (fl(i := x # fl i))
    \<and> (\<forall>y. y \<noteq> x \<and> \<not> on_free_list s fl y \<longrightarrow> h' y = h y)"
proof -
  let ?f = "\<lambda>p :: slabclass. p\<lparr>slots := Some x, sl_curr := sl_curr p + 1, requested := requested p - charge ext (h x) sz\<rparr>"
  let ?h1 = "h(x := (h x)\<lparr>it_flags := ITEM_SLABBED, slabs_clsid := 0\<rparr>)"
  let ?h' = "push_front x (slots (cls s i)) ?h1"
  have xi: "x \<notin> set (fl i)" using x(2) i by (auto simp: on_free_list_def)
  note push = free_push_ok [OF free_listsD(1) [OF fl i(1,2)] xi room, of "?f (cls s i)"]
  have nb: "nbytes (?h' x) = nbytes (h x)" using same_nodesD(4) [OF same_nodes_push [of ?h1 x "slots (cls s i)"]] by simp
  have run: "do_slabs_free ext st x sz i h s = Some (?h', upd_cls i ?f s)"
    using i x(1) by (simp add: do_slabs_free_def free_push_def sub_requested_def upd_cls_twice charge_def nb Let_def upd_cls_def)
  have "free_lists ?h' (upd_cls i ?f s) (fl(i := x # fl i))"
  proof (rule free_lists_upd [OF fl i])
    show "free_ok ?h' (?f (cls s i)) (x # fl i)" by (rule push(1)) simp_all
    fix y assume y: "on_free_list s (fl(i := [])) y"
    then have "y \<noteq> x" using x(2) by (auto simp: on_free_list_def split: if_splits)
    moreover have "y \<notin> set (fl i)" using y free_listsD(2) [OF fl] i by (auto simp: on_free_list_def split: if_splits)
    ultimately show "?h' y = h y \<and> y \<notin> set (x # fl i)" using push(2) by simp
  qed
  moreover have "?h' y = h y" if "y \<noteq> x" "\<not> on_free_list s fl y" for y
    by (rule push(2)) (use that i in \<open>auto simp: on_free_list_def\<close>)
  ultimately show ?thesis using run by blast
qed

text \<open>Splitting: the chunks enter the free list, nothing else changes.\<close>

fun chunk_list :: "nat \<Rightarrow> nat \<Rightarrow> nat \<Rightarrow> nat list" where
  "chunk_list 0 p n = []"
| "chunk_list (Suc k) p n = p # chunk_list k (p + n) n"

lemma chunk_list_set: "set (chunk_list k p n) = {p + j * n |j. j < k}"
proof (induction k arbitrary: p)
  case (Suc k)
  have "{p + j * n |j. j < Suc k} = insert p {(p + n) + j * n |j. j < k}"
  proof (intro set_eqI iffI)
    fix x assume "x \<in> {p + j * n |j. j < Suc k}"
    then obtain j where j: "x = p + j * n" "j < Suc k" by blast
    show "x \<in> insert p {(p + n) + j * n |j. j < k}"
    proof (cases j)
      case (Suc m)
      with j show ?thesis by (auto intro!: exI [of _ m])
    qed (use j in simp)
  next
    fix x assume "x \<in> insert p {(p + n) + j * n |j. j < k}"
    then show "x \<in> {p + j * n |j. j < Suc k}" by (force intro: exI [of _ "Suc _"] exI [of _ 0])
  qed
  with Suc.IH [of "p + n"] show ?case by simp
qed simp

lemma chunk_list_length [simp]: "length (chunk_list k p n) = k"
  by (induction k arbitrary: p) auto

lemma split_page_ok:
  assumes "free_lists h s fl" "1 \<le> i" "i \<le> power_largest s" "i < length (slabclass s)" "0 < unat (sl_size (cls s i))"
    and "\<And>x. x \<in> set (chunk_list n p (unat (sl_size (cls s i)))) \<Longrightarrow> it_flags (h x) = 0 \<and> \<not> on_free_list s fl x"
    and "length (fl i) + n < 2 ^ 32"
  shows "\<exists>h' a b. split_slab_page_into_freelist ext st n p i h s = Some (h', upd_cls i (\<lambda>p. p\<lparr>slots := a, sl_curr := b\<rparr>) s)
    \<and> free_lists h' (upd_cls i (\<lambda>p. p\<lparr>slots := a, sl_curr := b\<rparr>) s) (fl(i := rev (chunk_list n p (unat (sl_size (cls s i)))) @ fl i))
    \<and> (\<forall>y. y \<notin> set (chunk_list n p (unat (sl_size (cls s i)))) \<and> \<not> on_free_list s fl y \<longrightarrow> h' y = h y)"
  using assms
proof (induction n arbitrary: p h s fl)
  case 0
  have e: "upd_cls i (\<lambda>q. q\<lparr>slots := slots (cls s i), sl_curr := sl_curr (cls s i)\<rparr>) s = s" by (simp add: upd_cls_def)
  show ?case
    by (rule exI [of _ h], rule exI [of _ "slots (cls s i)"], rule exI [of _ "sl_curr (cls s i)"], unfold e) (use 0 in simp)
next
  case (Suc n)
  let ?z = "unat (sl_size (cls s i))"
  let ?f = "\<lambda>q :: slabclass. q\<lparr>slots := Some p, sl_curr := sl_curr q + 1, requested := requested q - charge ext (h p) 0\<rparr>"
  let ?s = "upd_cls i ?f s" and ?fl = "fl(i := p # fl i)"
  have p0: "it_flags (h p) = 0" "\<not> on_free_list s fl p" using Suc.prems(6) [of p] by auto
  have ch: "charge ext (h p) 0 = 0" by (simp add: charge_def p0)
  obtain h1 where r1: "do_slabs_free ext st p 0 i h s = Some (h1, ?s)" "free_lists h1 ?s ?fl" "\<And>y. y \<noteq> p \<Longrightarrow> \<not> on_free_list s fl y \<Longrightarrow> h1 y = h y"
    using do_slabs_free_plain [OF Suc.prems(1-4) _ p0(2), of ext st 0] p0(1) Suc.prems(7) by fastforce
  have ci: "cls ?s i = ?f (cls s i)" using Suc.prems(4) by (simp add: cls_upd)
  then have z: "unat (sl_size (cls ?s i)) = ?z" by simp
  have pn: "p \<notin> set (chunk_list n (p + ?z) ?z)" using Suc.prems(5) by (auto simp: chunk_list_set)
  have fresh: "it_flags (h1 x) = 0 \<and> \<not> on_free_list ?s ?fl x" if "x \<in> set (chunk_list n (p + ?z) ?z)" for x
  proof -
    have x: "x \<noteq> p" "it_flags (h x) = 0" "\<not> on_free_list s fl x" using that pn Suc.prems(6) [of x] by auto
    with r1(3) [of x] show ?thesis by (auto simp: on_free_list_def split: if_splits)
  qed
  have "\<exists>h' a b. split_slab_page_into_freelist ext st n (p + ?z) i h1 ?s = Some (h', upd_cls i (\<lambda>p. p\<lparr>slots := a, sl_curr := b\<rparr>) ?s)
    \<and> free_lists h' (upd_cls i (\<lambda>p. p\<lparr>slots := a, sl_curr := b\<rparr>) ?s) (?fl(i := rev (chunk_list n (p + ?z) (unat (sl_size (cls ?s i)))) @ ?fl i))
    \<and> (\<forall>y. y \<notin> set (chunk_list n (p + ?z) (unat (sl_size (cls ?s i)))) \<and> \<not> on_free_list ?s ?fl y \<longrightarrow> h' y = h1 y)"
    by (rule Suc.IH [OF r1(2)])
      (use Suc.prems(2-5,7) z fresh in \<open>simp_all only: upd_cls_simps fun_upd_same list.size, simp_all\<close>)
  then obtain h' a b where r2: "split_slab_page_into_freelist ext st n (p + ?z) i h1 ?s = Some (h', upd_cls i (\<lambda>p. p\<lparr>slots := a, sl_curr := b\<rparr>) ?s)"
    "free_lists h' (upd_cls i (\<lambda>p. p\<lparr>slots := a, sl_curr := b\<rparr>) ?s) (fl(i := rev (chunk_list n (p + ?z) ?z) @ p # fl i))"
    "\<And>y. y \<notin> set (chunk_list n (p + ?z) ?z) \<Longrightarrow> \<not> on_free_list ?s ?fl y \<Longrightarrow> h' y = h1 y" unfolding z by auto
  have e: "upd_cls i (\<lambda>p. p\<lparr>slots := a, sl_curr := b\<rparr>) ?s = upd_cls i (\<lambda>p. p\<lparr>slots := a, sl_curr := b\<rparr>) s"
    using Suc.prems(4) by (simp add: upd_cls_def ch)
  have "split_slab_page_into_freelist ext st (Suc n) p i h s = Some (h', upd_cls i (\<lambda>p. p\<lparr>slots := a, sl_curr := b\<rparr>) s)"
    using r1(1) r2(1) z e by simp
  moreover have "h' y = h y" if "y \<notin> set (chunk_list (Suc n) p ?z)" "\<not> on_free_list s fl y" for y
  proof -
    have "y \<noteq> p" "y \<notin> set (chunk_list n (p + ?z) ?z)" "\<not> on_free_list ?s ?fl y" using that by (auto simp: on_free_list_def split: if_splits)
    with r1(3) r2(3) that(2) show ?thesis by simp
  qed
  moreover have "free_lists h' (upd_cls i (\<lambda>p. p\<lparr>slots := a, sl_curr := b\<rparr>) s) (fl(i := rev (chunk_list (Suc n) p ?z) @ fl i))"
    using r2(2) unfolding e by (simp del: fun_upd_apply)
  ultimately show ?case by blast
qed

section \<open>The layout of classes and pages under updates\<close>

definition same_layout :: "slabs \<Rightarrow> slabs \<Rightarrow> bool" where
  "same_layout s s' \<longleftrightarrow> length (slabclass s') = length (slabclass s) \<and> power_largest s' = power_largest s
     \<and> mem_base s' = mem_base s \<and> mem_current s' = mem_current s \<and> mem_avail s' = mem_avail s
     \<and> (\<forall>i<64. sl_size (cls s' i) = sl_size (cls s i) \<and> perslab (cls s' i) = perslab (cls s i) \<and> slabs (cls s' i) = slabs (cls s i)
          \<and> list_size (cls s' i) = list_size (cls s i) \<and> slab_list (cls s' i) = slab_list (cls s i))"

lemma page_len_cong: "sl_size c' = sl_size c \<Longrightarrow> perslab c' = perslab c \<Longrightarrow> page_len st c' = page_len st c"
  by (simp add: page_len_def)

lemma same_layoutD:
  assumes "same_layout s s'"
  shows "slabs_wf st s \<Longrightarrow> slabs_wf st s'" "owned s' = owned s" "i < 64 \<Longrightarrow> chunk_of s' i x = chunk_of s i x"
    "i < 64 \<Longrightarrow> page_range st s' (i, k) = page_range st s (i, k)" "pages_ok st s \<Longrightarrow> pages_ok st s'" "power_largest s' = power_largest s"
    "length (slabclass s') = length (slabclass s)"
proof -
  note l = assms [unfolded same_layout_def]
  show r: "page_range st s' (i, k) = page_range st s (i, k)" if "i < 64" for i k
    using l that page_len_cong [of "cls s' i" "cls s i"] by (auto simp: page_range_def page_span_def)
  show o: "owned s' = owned s" using l by (auto simp: owned_def)
  show "slabs_wf st s \<Longrightarrow> slabs_wf st s'" using l by (auto simp: slabs_wf_def cls_wf_def)
  show "chunk_of s' i x = chunk_of s i x" if "i < 64" using l that by (auto simp: chunk_of_def)
  have r': "page_range st s' a = page_range st s a" if "a \<in> owned s" for a using that r by (cases a) (auto simp: owned_def)
  show "pages_ok st s \<Longrightarrow> pages_ok st s'" using l r' unfolding pages_ok_def o by metis
  show "power_largest s' = power_largest s" "length (slabclass s') = length (slabclass s)" using l by auto
qed

lemma same_layout_upd:
  assumes "\<And>p. sl_size (f p) = sl_size p \<and> perslab (f p) = perslab p \<and> slabs (f p) = slabs p \<and> list_size (f p) = list_size p \<and> slab_list (f p) = slab_list p"
    "i < length (slabclass s)"
  shows "same_layout s (upd_cls i f s)"
  unfolding same_layout_def using assms by (auto simp: cls_upd )

lemma slabs_wf_upd:
  assumes wf: "slabs_wf st s" and i: "i < 64" and f: "cls_wf st (f (cls s i))" "sl_size (f (cls s i)) = sl_size (cls s i)"
  shows "slabs_wf st (upd_cls i f s)"
proof -
  have cl: "cls (upd_cls i f s) j = (if j = i then f (cls s i) else cls s j)" for j using slabs_wfD(1) [OF wf] i by (simp add: cls_upd)
  show ?thesis using wf f unfolding slabs_wf_def cl by auto
qed

text \<open>A block of memory that no page and no reserve of the allocator touches.\<close>

definition fresh_block :: "slab_settings \<Rightarrow> slabs \<Rightarrow> nat \<Rightarrow> nat \<Rightarrow> bool" where
  "fresh_block st s a len \<longleftrightarrow> (\<forall>b\<in>owned s. page_range st s b \<inter> {a..<a + len} = {})
     \<and> (mem_base s \<noteq> None \<longrightarrow> {a..<a + len} \<inter> {mem_current s..<mem_current s + unat (mem_avail s)} = {})"

lemma fresh_block_mono:
  assumes f: "fresh_block st s a len" and n: "n \<le> len" and o: "owned s' = owned s" and r: "\<And>b. b \<in> owned s \<Longrightarrow> page_range st s' b = page_range st s b"
    and m: "mem_base s' = mem_base s" "mem_current s' = mem_current s" "mem_avail s' = mem_avail s"
  shows "fresh_block st s' a n"
proof -
  have sub: "{a..<a + n} \<subseteq> {a..<a + len}" using n by auto
  have "page_range st s' b \<inter> {a..<a + n} = {}" if "b \<in> owned s" for b
  proof -
    have "page_range st s b \<inter> {a..<a + len} = {}" using f that by (simp add: fresh_block_def)
    with sub r [OF that] show ?thesis by blast
  qed
  moreover have "{a..<a + n} \<inter> {mem_current s..<mem_current s + unat (mem_avail s)} = {}" if "mem_base s \<noteq> None"
  proof -
    have "{a..<a + len} \<inter> {mem_current s..<mem_current s + unat (mem_avail s)} = {}" using f that by (simp add: fresh_block_def)
    with sub show ?thesis by blast
  qed
  ultimately show ?thesis unfolding fresh_block_def o m by simp
qed

text \<open>
  What the environment must answer: a block from \<open>malloc\<close> lies outside the pages in use; and the
  class has room in its 32-bit counters.
\<close>

definition env_ok :: "slab_settings \<Rightarrow> mem_env \<Rightarrow> nat \<Rightarrow> slabs \<Rightarrow> bool" where
  "env_ok st env i s \<longleftrightarrow>
     (mem_base s = None \<longrightarrow> (\<forall>a. snd env = Some a \<longrightarrow> fresh_block st s a (nat (page_len st (cls s i)))))
   \<and> unat (slabs (cls s i)) < 2 ^ 31 \<and> (unat (slabs (cls s i)) + 1) * unat (perslab (cls s i)) < 2 ^ 32"

lemma grow_ok:
  assumes wf: "slabs_wf st s" and p: "pages_ok st s" and i: "i < 64" and r: "unat (slabs (cls s i)) < 2 ^ 31"
  shows "\<exists>ok n l. grow_slab_list realloc i s = (ok, upd_cls i (\<lambda>p. p\<lparr>list_size := n, slab_list := l\<rparr>) s)
    \<and> (let s' = upd_cls i (\<lambda>p. p\<lparr>list_size := n, slab_list := l\<rparr>) s
       in slabs_wf st s' \<and> pages_ok st s' \<and> owned s' = owned s \<and> (\<forall>b\<in>owned s. page_range st s' b = page_range st s b)
        \<and> (\<forall>j<64. \<forall>x. chunk_of s' j x = chunk_of s j x) \<and> (ok \<longrightarrow> unat (slabs (cls s' i)) < length (slab_list (cls s' i))))"
proof -
  let ?c = "cls s i"
  have il: "i < length (slabclass s)" and c: "cls_wf st ?c" using slabs_wfD(1,6) [OF wf] i by auto
  obtain ok n l where g: "grow_slab_list realloc i s = (ok, upd_cls i (\<lambda>p. p\<lparr>list_size := n, slab_list := l\<rparr>) s)"
    and l: "length l = unat n" "unat (slabs ?c) \<le> unat n" "\<And>k. k < unat (slabs ?c) \<Longrightarrow> l ! k = slab_list ?c ! k"
    and ok: "ok \<Longrightarrow> unat (slabs ?c) < length l"
  proof (cases "slabs ?c = list_size ?c \<and> realloc")
    case True
    let ?n = "if list_size ?c \<noteq> 0 then list_size ?c * 2 else 16"
    have n: "unat ?n = (if list_size ?c \<noteq> 0 then 2 * unat (list_size ?c) else 16)"
      using True r by (auto simp: unat_mult_lem [THEN iffD1])
    have lt: "unat (slabs ?c) < unat ?n" using True n by (auto simp: unat_eq_0 [symmetric])
    let ?l = "take (unat ?n) (slab_list ?c) @ replicate (unat ?n - length (slab_list ?c)) 0"
    have len: "length (slab_list ?c) = unat (slabs ?c)" using c True by (simp add: cls_wf_def)
    show thesis
      by (rule that [of True ?l ?n]) (use True lt len in \<open>auto simp: grow_slab_list_def Let_def nth_append upd_cls_def\<close>)
  next
    case False
    show thesis
      by (rule that [of "slabs ?c \<noteq> list_size ?c" "slab_list ?c" "list_size ?c"])
        (use False c in \<open>auto simp: grow_slab_list_def Let_def cls_wf_def upd_cls_def word_unat_eq_iff\<close>)
  qed
  let ?s = "upd_cls i (\<lambda>p. p\<lparr>list_size := n, slab_list := l\<rparr>) s"
  have cl: "cls ?s j = (if j = i then ?c\<lparr>list_size := n, slab_list := l\<rparr> else cls s j)" for j
    using il by (simp add: cls_upd)
  have own: "owned ?s = owned s" unfolding owned_def cl by (auto split: if_splits)
  have rng: "page_range st ?s b = page_range st s b" if "b \<in> owned s" for b
    using that l(3) by (cases b) (auto simp: page_range_def page_span_def cl owned_def page_len_def)
  have "slabs_wf st ?s" using c l(1,2) by (intro slabs_wf_upd [OF wf i]) (auto simp: cls_wf_def)
  moreover have "pages_ok st ?s" using p rng unfolding pages_ok_def own by (simp)
  moreover have "chunk_of ?s j x = chunk_of s j x" for j x using l(3) unfolding chunk_of_def cl by (cases "j = i") (simp_all cong: conj_cong)
  moreover have "ok \<longrightarrow> unat (slabs (cls ?s i)) < length (slab_list (cls ?s i))" using ok unfolding cl by simp
  ultimately show ?thesis using g own rng by (intro exI conjI) (auto simp: Let_def)
qed

section \<open>New pages\<close>

lemma pool_ok:
  assumes wf: "slabs_wf st s" and p: "pages_ok st s"
  shows "\<exists>pg n. get_page_from_global_pool s = Some (pg, upd_cls 0 (\<lambda>p. p\<lparr>slabs := n\<rparr>) s)
    \<and> (let s' = upd_cls 0 (\<lambda>p. p\<lparr>slabs := n\<rparr>) s
       in slabs_wf st s' \<and> pages_ok st s' \<and> owned s' \<subseteq> owned s \<and> unat n \<le> unat (slabs (cls s 0)) \<and> (pg = None \<longrightarrow> n = slabs (cls s 0)) \<and> (pg \<noteq> None \<longrightarrow> unat n < unat (slabs (cls s 0)))
        \<and> (\<forall>b. page_range st s' b = page_range st s b) \<and> (\<forall>a. pg = Some a \<longrightarrow> fresh_block st s' a (nat (slab_page_size st))))"
proof -
  have l: "0 < length (slabclass s)" using slabs_wfD(1) [OF wf] by simp
  let ?c = "cls s 0"
  have c: "cls_wf st ?c" using slabs_wfD(6) [OF wf, of 0] by simp
  have cl: "cls (upd_cls 0 (\<lambda>p. p\<lparr>slabs := n\<rparr>) s) j = (if j = 0 then ?c\<lparr>slabs := n\<rparr> else cls s j)" for n j
    using l by (simp add: cls_upd)
  have rng: "page_range st (upd_cls 0 (\<lambda>p. p\<lparr>slabs := n\<rparr>) s) b = page_range st s b" for n b
    by (auto simp: page_range_def page_span_def cl)
  show ?thesis
  proof (cases "slabs ?c < 1")
    case True
    have "upd_cls 0 (\<lambda>p. p\<lparr>slabs := slabs ?c\<rparr>) s = s" by (simp add: upd_cls_def)
    with True wf p show ?thesis by (intro exI [of _ None] exI [of _ "slabs ?c"]) (simp add: get_page_from_global_pool_def)
  next
    case False
    let ?n = "slabs ?c - 1" let ?s = "upd_cls 0 (\<lambda>p. p\<lparr>slabs := ?n\<rparr>) s"
    have pos: "0 < unat (slabs ?c)" using False by (simp add: word_less_nat_alt)
    then have n: "unat ?n = unat (slabs ?c) - 1" by (subst unat_sub_no_wrap) auto
    have own: "owned s = insert (0, unat ?n) (owned ?s)" "(0, unat ?n) \<notin> owned ?s" using pos unfolding owned_def cl by (auto simp: n split: if_splits)
    have le: "unat ?n * unat (perslab ?c) \<le> unat (slabs ?c) * unat (perslab ?c)" by (rule mult_le_mono1) (simp add: n)
    have "unat ?n * unat (perslab ?c) < 2 ^ 32" by (rule le_less_trans [OF le]) (use c in \<open>simp add: cls_wf_def\<close>)
    with c n pos have "slabs_wf st ?s" by (intro slabs_wf_upd [OF wf]) (auto simp: cls_wf_def)
    moreover have "pages_ok st ?s" using p own(1) unfolding pages_ok_def rng by simp
    moreover have "page_range st s (0, unat ?n) = {slab_list ?c ! unat ?n..<slab_list ?c ! unat ?n + nat (slab_page_size st)}"
      by (simp add: page_range_def page_span_def Let_def)
    then have "fresh_block st ?s (slab_list ?c ! unat ?n) (nat (slab_page_size st))"
      using p own unfolding fresh_block_def pages_ok_def rng by (auto simp del: atLeastLessThan_iff)
    moreover have "get_page_from_global_pool s = Some (Some (slab_list ?c ! unat ?n), ?s)"
      using False c n pos by (auto simp: get_page_from_global_pool_def Let_def cls_wf_def upd_cls_def)
    moreover have "owned ?s \<subseteq> owned s" using own(1) by blast
    ultimately show ?thesis using rng n pos by (intro exI [of _ "Some (slab_list ?c ! unat ?n)"] exI [of _ ?n]) (auto simp: Let_def)
  qed
qed

lemma memory_allocate_ok:
  assumes wf: "slabs_wf st s" and p: "pages_ok st s" and m: "mem_base s = None \<Longrightarrow> malloc = Some a \<Longrightarrow> fresh_block st s a (unat sz)"
    and sz: "unat sz + 8 < 2 ^ 64"
  shows "\<exists>pg s'. memory_allocate malloc sz s = (pg, s') \<and> slabs_wf st s' \<and> pages_ok st s' \<and> slabclass s' = slabclass s
    \<and> power_largest s' = power_largest s \<and> (pg = Some a \<longrightarrow> fresh_block st s' a (unat sz))"
proof (cases "mem_base s = None")
  case True
  let ?s = "s\<lparr>mem_malloced := mem_malloced s + sz\<rparr>"
  have "same_layout s ?s" by (simp add: same_layout_def)
  note l = same_layoutD [OF this]
  have "fresh_block st ?s a (unat sz)" if "malloc = Some a"
  proof -
    have "page_range st ?s b = page_range st s b" for b by (simp add: page_range_def page_span_def)
    with m [OF True that] True l(2) show ?thesis by (simp add: fresh_block_def)
  qed
  then show ?thesis using True l(1) [OF wf] l(5) [OF p] by (simp add: memory_allocate_def)
next
  case False
  show ?thesis
  proof (cases "sz > mem_avail s")
    case True
    with False show ?thesis using wf p by (auto simp: memory_allocate_def)
  next
    case fits: False
    let ?z = "align_size sz"
    let ?s = "s\<lparr>mem_current := mem_current s + unat ?z, mem_avail := (if ?z < mem_avail s then mem_avail s - ?z else 0), mem_malloced := mem_malloced s + ?z\<rparr>"
    have z: "unat sz \<le> unat ?z"
    proof -
      have "unat (sz mod 8) < 8" by (simp add: unat_mod)
      then have "unat (8 - sz mod 8) = 8 - unat (sz mod 8)" by (subst unat_sub_no_wrap) auto
      then have "unat (sz + (8 - sz mod 8)) = unat sz + unat (8 - sz mod 8)" using sz by (subst unat_add_no_wrap) auto
      then show ?thesis by (simp add: align_size_def)
    qed
    have av: "unat (mem_avail ?s) = unat (mem_avail s) - unat ?z"
      by (auto simp: word_less_nat_alt unat_sub_no_wrap)
    have o: "owned ?s = owned s" "page_range st ?s b = page_range st s b" for b by (auto simp: owned_def page_range_def page_span_def)
    have cur: "mem_current ?s = mem_current s + unat ?z" by simp
    have rest: "{mem_current ?s..<mem_current ?s + unat (mem_avail ?s)} \<subseteq> {mem_current s..<mem_current s + unat (mem_avail s)}"
      "{mem_current s..<mem_current s + unat sz} \<subseteq> {mem_current s..<mem_current s + unat (mem_avail s)}"
      "{mem_current s..<mem_current s + unat sz} \<inter> {mem_current ?s..<mem_current ?s + unat (mem_avail ?s)} = {}"
      unfolding av cur using fits z by (auto simp: word_le_nat_alt not_less)
    have res: "page_range st s b \<inter> {mem_current s..<mem_current s + unat (mem_avail s)} = {}" if "b \<in> owned s" for b
      using p False that by (simp add: pages_ok_def)
    have "slabs_wf st ?s" using wf by (simp add: slabs_wf_def)
    moreover have "pages_ok st ?s" unfolding pages_ok_def o
    proof (intro conjI ballI impI)
      fix b assume "b \<in> owned s"
      from res [OF this] rest(1) show "page_range st s b \<inter> {mem_current ?s..<mem_current ?s + unat (mem_avail ?s)} = {}" by blast
    qed (use p in \<open>auto simp: pages_ok_def\<close>)
    moreover have "fresh_block st ?s (mem_current s) (unat sz)" unfolding fresh_block_def o
      using res rest(2,3) by blast
    then have "Some (mem_current s) = Some a \<longrightarrow> fresh_block st ?s a (unat sz)" by (metis option.inject)
    moreover have "memory_allocate malloc sz s = (Some (mem_current s), ?s)" using False fits by (auto simp: memory_allocate_def Let_def)
    moreover have "slabclass ?s = slabclass s" "power_largest ?s = power_largest s" by simp_all
    ultimately show ?thesis by blast
  qed
qed

section \<open>The allocator's invariant\<close>

text \<open>
  \<open>L\<close> gives the live chunks with their class and requested size. Free chunks and live chunks are
  chunks of pages of their class, no chunk is both, and \<open>requested\<close> is the sum of the live sizes.
\<close>

type_synonym live = "nat \<rightharpoonup> nat \<times> u64"

definition live_ok :: "slabs \<Rightarrow> live \<Rightarrow> bool" where
  "live_ok s L \<longleftrightarrow> finite (dom L) \<and> (\<forall>x i n. L x = Some (i, n) \<longrightarrow> 1 \<le> i \<and> i \<le> power_largest s \<and> chunk_of s i x \<and> unat n \<le> unat (sl_size (cls s i)))"

definition free_owned :: "slabs \<Rightarrow> (nat \<Rightarrow> nat list) \<Rightarrow> live \<Rightarrow> bool" where
  "free_owned s fl L \<longleftrightarrow> (\<forall>i x. 1 \<le> i \<and> i \<le> power_largest s \<and> x \<in> set (fl i) \<longrightarrow> chunk_of s i x \<and> L x = None)"

definition live_sum :: "live \<Rightarrow> nat \<Rightarrow> u64" where
  "live_sum L i = (\<Sum>x\<in>dom L. case L x of Some (j, n) \<Rightarrow> if j = i then n else 0 | None \<Rightarrow> 0)"

definition requested_ok :: "slabs \<Rightarrow> live \<Rightarrow> bool" where
  "requested_ok s L \<longleftrightarrow> (\<forall>i. 1 \<le> i \<and> i \<le> power_largest s \<longrightarrow> requested (cls s i) = live_sum L i)"

definition slabs_inv :: "slab_settings \<Rightarrow> heap \<Rightarrow> slabs \<Rightarrow> live \<Rightarrow> bool" where
  "slabs_inv st h s L \<longleftrightarrow> slabs_wf st s \<and> pages_ok st s \<and> (\<exists>fl. free_lists h s fl \<and> free_owned s fl L) \<and> live_ok s L \<and> requested_ok s L"

lemma live_sum_upd:
  assumes "finite (dom L)" "L x = None"
  shows "live_sum (L(x \<mapsto> (j, n))) i = live_sum L i + (if j = i then n else 0)"
proof -
  have "dom (L(x \<mapsto> (j, n))) = insert x (dom L)" "x \<notin> dom L" using assms(2) by auto
  moreover have "(\<Sum>y\<in>dom L. case (L(x \<mapsto> (j, n))) y of Some (j, n) \<Rightarrow> if j = i then n else 0 | None \<Rightarrow> 0) = live_sum L i"
    unfolding live_sum_def using assms(2) by (intro sum.cong refl) (auto simp: dom_def)
  ultimately show ?thesis using assms(1) unfolding live_sum_def by (simp add: add.commute)
qed

lemma live_sum_del:
  assumes "finite (dom L)" "L x = Some (j, n)"
  shows "live_sum (L(x := None)) i = live_sum L i - (if j = i then n else 0)"
proof -
  have "finite (dom (L(x := None)))" using assms(1) by simp
  then have "live_sum ((L(x := None))(x \<mapsto> (j, n))) i = live_sum (L(x := None)) i + (if j = i then n else 0)"
    by (rule live_sum_upd) simp
  moreover have "(L(x := None))(x \<mapsto> (j, n)) = L" using assms(2) by auto
  ultimately show ?thesis by simp
qed

text \<open>The number of chunks of a class bounds the length of its free list.\<close>

lemma chunk_count:
  assumes "finite A" "\<And>x. x \<in> A \<Longrightarrow> chunk_of s i x"
  shows "card A \<le> unat (slabs (cls s i)) * unat (perslab (cls s i))"
proof -
  let ?c = "cls s i"
  let ?B = "(\<lambda>(k, j). slab_list ?c ! k + j * unat (sl_size ?c)) ` ({..<unat (slabs ?c)} \<times> {..<unat (perslab ?c)})"
  have "A \<subseteq> ?B" using assms(2) by (force simp: chunk_of_def)
  then have "card A \<le> card ?B" by (rule card_mono [rotated]) simp
  also have "\<dots> \<le> unat (slabs ?c) * unat (perslab ?c)" by (rule order_trans [OF card_image_le]) simp_all
  finally show ?thesis .
qed

text \<open>A live or free chunk never lies in a fresh block.\<close>

lemma chunk_not_fresh:
  assumes wf: "slabs_wf st s" and f: "fresh_block st s a n" and x: "chunk_of s i x" "1 \<le> i" "i \<le> power_largest s"
  shows "x \<notin> {a..<a + n}"
proof -
  obtain k j where k: "k < unat (slabs (cls s i))" "j < unat (perslab (cls s i))" "x = slab_list (cls s i) ! k + j * unat (sl_size (cls s i))"
    using x(1) by (auto simp: chunk_of_def)
  have "x \<in> {x..<x + unat (sl_size (cls s i))}" using slabs_wfD(7) [OF wf x(2,3)] by simp
  then have "x \<in> page_range st s (i, k)" using chunk_in_page [OF wf x(2,3) k(2), of k] k(3) by blast
  moreover have "(i, k) \<in> owned s" using k(1) class_index [OF wf x(3)] by (simp add: owned_def)
  ultimately show ?thesis using f unfolding fresh_block_def by blast
qed

lemma slabs_invD:
  assumes "slabs_inv st h s L"
  shows "slabs_wf st s" "pages_ok st s" "live_ok s L" "requested_ok s L" "\<exists>fl. free_lists h s fl \<and> free_owned s fl L"
  using assms by (auto simp: slabs_inv_def)

lemma free_ownedD: "free_owned s fl L \<Longrightarrow> 1 \<le> i \<Longrightarrow> i \<le> power_largest s \<Longrightarrow> x \<in> set (fl i) \<Longrightarrow> chunk_of s i x \<and> L x = None"
  by (simp add: free_owned_def)

lemma slab_live_okD:
  assumes "live_ok s L" "L x = Some (i, n)"
  shows "1 \<le> i" "i \<le> power_largest s" "chunk_of s i x" "unat n \<le> unat (sl_size (cls s i))"
  using assms by (auto simp: live_ok_def)

lemma slabs_inv_change:
  assumes inv: "slabs_inv st h s L" and wf: "slabs_wf st s'" "pages_ok st s'" "power_largest s' = power_largest s"
    and c: "\<And>i. 1 \<le> i \<Longrightarrow> i \<le> power_largest s \<Longrightarrow> slots (cls s' i) = slots (cls s i) \<and> sl_curr (cls s' i) = sl_curr (cls s i) \<and> requested (cls s' i) = requested (cls s i) \<and> sl_size (cls s' i) = sl_size (cls s i)"
    and ch: "\<And>i x. 1 \<le> i \<Longrightarrow> i \<le> power_largest s \<Longrightarrow> chunk_of s i x \<Longrightarrow> chunk_of s' i x"
    and h: "\<And>x i. 1 \<le> i \<Longrightarrow> i \<le> power_largest s \<Longrightarrow> chunk_of s i x \<Longrightarrow> h' x = h x"
  shows "slabs_inv st h' s' L"
proof -
  obtain fl where fl: "free_lists h s fl" "free_owned s fl L" using slabs_invD(5) [OF inv] by blast
  have "free_lists h' s' fl"
  proof (rule free_lists_cong [OF fl(1) _ wf(3)])
    fix x assume "on_free_list s fl x"
    then obtain i where "1 \<le> i" "i \<le> power_largest s" "chunk_of s i x" using fl(2) by (auto simp: on_free_list_def free_owned_def)
    then show "h' x = h x" by (rule h)
  qed (use c in blast)
  moreover have "free_owned s' fl L" using fl(2) ch wf(3) unfolding free_owned_def by metis
  moreover have "live_ok s' L" using slabs_invD(3) [OF inv] ch c wf(3) unfolding live_ok_def by metis
  moreover have "requested_ok s' L" using slabs_invD(4) [OF inv] c wf(3) unfolding requested_ok_def by metis
  ultimately show ?thesis using wf by (auto simp: slabs_inv_def)
qed

lemma chunk_list_range:
  assumes "x \<in> set (chunk_list k a n)" "0 < n" "k * n \<le> len"
  shows "x \<in> {a..<a + len}"
proof -
  obtain j where j: "x = a + j * n" "j < k" using assms(1) by (auto simp: chunk_list_set)
  have "Suc j * n \<le> k * n" using j(2) by (intro mult_le_mono1) auto
  with j assms(2,3) show ?thesis by auto
qed

lemma add_page_ok:
  assumes wf: "slabs_wf st s" and p: "pages_ok st s" and i64: "i < 64"
    and f: "fresh_block st s a (page_span st s i)" and r: "unat (slabs (cls s i)) < length (slab_list (cls s i))"
    and room: "(unat (slabs (cls s i)) + 1) * unat (perslab (cls s i)) < 2 ^ 32"
  shows "\<exists>s'. add_page i a s = Some s' \<and> slabs_wf st s' \<and> pages_ok st s' \<and> power_largest s' = power_largest s \<and> mem_base s' = mem_base s \<and> (\<forall>j. j \<noteq> i \<longrightarrow> cls s' j = cls s j)
    \<and> (\<forall>j. slots (cls s' j) = slots (cls s j) \<and> sl_curr (cls s' j) = sl_curr (cls s j) \<and> requested (cls s' j) = requested (cls s j)
           \<and> sl_size (cls s' j) = sl_size (cls s j) \<and> perslab (cls s' j) = perslab (cls s j))
    \<and> (\<forall>j x. chunk_of s j x \<longrightarrow> chunk_of s' j x) \<and> (\<forall>k<unat (perslab (cls s i)). chunk_of s' i (a + k * unat (sl_size (cls s i))))"
proof -
  let ?c = "cls s i" let ?n = "unat (slabs ?c)"
  let ?f = "\<lambda>p :: slabclass. p\<lparr>slab_list := (slab_list p)[unat (slabs p) := a], slabs := slabs p + 1\<rparr>" let ?s = "upd_cls i ?f s"
  have il: "i < length (slabclass s)" using slabs_wfD(1) [OF wf] i64 by simp
  have c: "cls_wf st ?c" using slabs_wfD(6) [OF wf i64] .
  have n1: "unat (slabs ?c + 1) = ?n + 1"
  proof -
    have "?n + 1 < 2 ^ 32" using r c unat_less_power2 [of "list_size ?c"] by (simp add: cls_wf_def del: unat_lt_size)
    then show ?thesis by (subst unat_add_no_wrap) simp_all
  qed
  have cl: "cls ?s j = (if j = i then ?f ?c else cls s j)" for j using il by (simp add: cls_upd)
  have wf': "slabs_wf st ?s" by (rule slabs_wf_upd [OF wf i64]) (use c n1 r room in \<open>auto simp: cls_wf_def\<close>)
  have own: "owned ?s = insert (i, ?n) (owned s)" using i64 unfolding owned_def cl by (auto simp: n1 split: if_splits)
  have rng: "page_range st ?s b = page_range st s b" if "b \<in> owned s" for b
    using that by (cases b) (auto simp: page_range_def page_span_def cl owned_def page_len_def)
  have new: "page_range st ?s (i, ?n) = {a..<a + page_span st s i}"
    using r by (auto simp: page_range_def page_span_def cl page_len_def)
  have "pages_ok st ?s" unfolding pages_ok_def
  proof (intro conjI ballI impI)
    fix b d assume b: "b \<in> owned ?s" "d \<in> owned ?s" "b \<noteq> d"
    have oo: "page_range st s b \<inter> page_range st s d = {}" if "b \<in> owned s" "d \<in> owned s" using p that b(3) by (simp add: pages_ok_def)
    have no: "page_range st s e \<inter> {a..<a + page_span st s i} = {}" if "e \<in> owned s" for e using f that by (simp add: fresh_block_def)
    have "b \<in> owned s \<or> b = (i, ?n)" "d \<in> owned s \<or> d = (i, ?n)" using b(1,2) unfolding own by blast+
    then show "page_range st ?s b \<inter> page_range st ?s d = {}"
    proof (elim disjE)
      assume "b \<in> owned s" "d \<in> owned s" then show ?thesis using oo rng by simp
    next
      assume "b \<in> owned s" "d = (i, ?n)" then show ?thesis using no rng new by simp
    next
      assume "b = (i, ?n)" "d \<in> owned s" then show ?thesis using no [of d] rng [of d] new by (simp add: Int_commute)
    qed (use b(3) in simp)
  next
    fix b assume m: "mem_base ?s \<noteq> None" and b: "b \<in> owned ?s"
    then have "b \<in> owned s \<Longrightarrow> page_range st s b \<inter> {mem_current s..<mem_current s + unat (mem_avail s)} = {}"
      "{a..<a + page_span st s i} \<inter> {mem_current s..<mem_current s + unat (mem_avail s)} = {}"
      using p f by (simp_all add: pages_ok_def fresh_block_def)
    then show "page_range st ?s b \<inter> {mem_current ?s..<mem_current ?s + unat (mem_avail ?s)} = {}"
      using b rng [of b] new unfolding own by (cases "b \<in> owned s") simp_all
  qed
  moreover have "chunk_of ?s j x" if ch: "chunk_of s j x" for j x
  proof -
    obtain k m where k: "k < unat (slabs (cls s j))" "m < unat (perslab (cls s j))" "x = slab_list (cls s j) ! k + m * unat (sl_size (cls s j))"
      using ch by (auto simp: chunk_of_def)
    then have "slab_list (cls ?s j) ! k = slab_list (cls s j) ! k" "k < unat (slabs (cls ?s j))" unfolding cl by (auto simp: n1)
    moreover have "perslab (cls ?s j) = perslab (cls s j)" "sl_size (cls ?s j) = sl_size (cls s j)" unfolding cl by auto
    ultimately show ?thesis using k(2,3) unfolding chunk_of_def by (intro exI [of _ k] conjI exI [of _ m]) simp_all
  qed
  moreover have "chunk_of ?s i (a + k * unat (sl_size ?c))" if "k < unat (perslab ?c)" for k
    unfolding chunk_of_def cl using that r n1 by (intro exI [of _ ?n] conjI exI [of _ k]) auto
  moreover have "add_page i a s = Some ?s" using r by (simp add: add_page_def)
  moreover have "slots (cls ?s j) = slots (cls s j) \<and> sl_curr (cls ?s j) = sl_curr (cls s j) \<and> requested (cls ?s j) = requested (cls s j)
           \<and> sl_size (cls ?s j) = sl_size (cls s j) \<and> perslab (cls ?s j) = perslab (cls s j)" for j unfolding cl by simp
  moreover have "power_largest ?s = power_largest s" "mem_base ?s = mem_base s" "\<forall>j. j \<noteq> i \<longrightarrow> cls ?s j = cls s j" by (simp_all add: cl)
  ultimately show ?thesis using wf' by blast
qed

lemma install_page_ok:
  assumes inv: "slabs_inv st h s L" and i: "1 \<le> i" "i \<le> power_largest s"
    and f: "fresh_block st s a len" "nat (page_len st (cls s i)) \<le> len" and r: "unat (slabs (cls s i)) < length (slab_list (cls s i))"
    and room: "(unat (slabs (cls s i)) + 1) * unat (perslab (cls s i)) < 2 ^ 32" "unat (sl_curr (cls s i)) + unat (perslab (cls s i)) < 2 ^ 32"
  shows "\<exists>h' s'. install_page ext st i a len h s = Some (h', s') \<and> slabs_inv st h' s' L \<and> (\<forall>x\<in>dom L. h' x = h x)
    \<and> (\<forall>j. sl_size (cls s' j) = sl_size (cls s j)) \<and> power_largest s' = power_largest s \<and> mem_base s' = mem_base s
    \<and> (\<forall>j. 1 \<le> j \<and> j \<noteq> i \<longrightarrow> cls s' j = cls s j)"
proof -
  let ?c = "cls s i" let ?z = "unat (sl_size ?c)" let ?P = "unat (perslab ?c)" let ?new = "chunk_list ?P a ?z" let ?h1 = "memset0 a len h"
  have wf: "slabs_wf st s" and pg: "pages_ok st s" and lv: "live_ok s L" and rq: "requested_ok s L" using slabs_invD [OF inv] by auto
  obtain fl where fl: "free_lists h s fl" "free_owned s fl L" using slabs_invD(5) [OF inv] by blast
  have i64: "i < 64" and il: "i < length (slabclass s)" using class_index [OF wf i(2)] by auto
  have z: "0 < ?z" using slabs_wfD(7) [OF wf i] .
  have "int (?z * ?P) \<le> page_len st ?c" using page_len_bounds(1) [OF slabs_wfD(6) [OF wf i64]] slabs_wfD(4,5) [OF wf] by blast
  then have "?z * ?P \<le> nat (page_len st ?c)" by linarith
  then have "?P * ?z \<le> nat (page_len st ?c)" by (simp add: mult.commute)
  then have in_block: "x \<in> {a..<a + len}" if "x \<in> set ?new" for x using chunk_list_range [OF that z] f(2) by simp
  have old: "x \<notin> {a..<a + len}" if "chunk_of s j x" "1 \<le> j" "j \<le> power_largest s" for x j by (rule chunk_not_fresh [OF wf f(1) that])
  have keep: "?h1 x = h x" if "x \<notin> {a..<a + len}" for x using that by (auto simp: memset0_def)
  have zero: "?h1 x = zero_item" if "x \<in> {a..<a + len}" for x using that by (auto simp: memset0_def)
  have onfl: "x \<notin> {a..<a + len}" if "on_free_list s fl x" for x using that fl(2) old by (auto simp: on_free_list_def free_owned_def)
  have fl1: "free_lists ?h1 s fl" by (rule free_lists_cong [OF fl(1)]) (use keep onfl in auto)
  have len: "length (fl i) = unat (sl_curr ?c)" using free_okD(2) [OF free_listsD(1) [OF fl(1) i]] by simp
  have newz: "it_flags (?h1 x) = 0 \<and> \<not> on_free_list s fl x" if "x \<in> set ?new" for x
    using zero [OF in_block [OF that]] onfl in_block [OF that] by (auto simp: zero_item_def)
  obtain h' u v where sp: "split_slab_page_into_freelist ext st ?P a i ?h1 s = Some (h', upd_cls i (\<lambda>p. p\<lparr>slots := u, sl_curr := v\<rparr>) s)"
    "free_lists h' (upd_cls i (\<lambda>p. p\<lparr>slots := u, sl_curr := v\<rparr>) s) (fl(i := rev ?new @ fl i))"
    "\<And>y. y \<notin> set ?new \<Longrightarrow> \<not> on_free_list s fl y \<Longrightarrow> h' y = ?h1 y"
    using split_page_ok [of ?h1 s fl i ?P a ext st, OF fl1 i il z newz] len room(2) by auto
  let ?s2 = "upd_cls i (\<lambda>p. p\<lparr>slots := u, sl_curr := v\<rparr>) s"
  have "same_layout s ?s2" by (rule same_layout_upd) (simp_all add: il)
  note sl = same_layoutD [OF this]
  have c2: "sl_size (cls ?s2 j) = sl_size (cls s j)" "perslab (cls ?s2 j) = perslab (cls s j)" "slabs (cls ?s2 j) = slabs (cls s j)"
    "slab_list (cls ?s2 j) = slab_list (cls s j)" "requested (cls ?s2 j) = requested (cls s j)" for j using il by (simp_all add: cls_upd)
  have fb: "fresh_block st ?s2 a (page_span st ?s2 i)"
  proof -
    have pl: "page_span st ?s2 i = nat (page_len st ?c)" using c2 i(1) by (simp add: page_span_def page_len_def)
    have "page_range st ?s2 b = page_range st s b" if "b \<in> owned s" for b using that sl(4) by (cases b) (auto simp: owned_def)
    then show ?thesis unfolding pl by (intro fresh_block_mono [OF f]) (simp_all add: sl(2))
  qed
  obtain s3 where s3: "add_page i a ?s2 = Some s3" "slabs_wf st s3" "pages_ok st s3" "power_largest s3 = power_largest s"
    "\<And>j. slots (cls s3 j) = slots (cls ?s2 j) \<and> sl_curr (cls s3 j) = sl_curr (cls ?s2 j) \<and> requested (cls s3 j) = requested (cls s j) \<and> sl_size (cls s3 j) = sl_size (cls s j)"
    "\<And>j x. chunk_of ?s2 j x \<Longrightarrow> chunk_of s3 j x" "\<And>k. k < ?P \<Longrightarrow> chunk_of s3 i (a + k * ?z)"
    "mem_base s3 = mem_base ?s2" "\<And>j. j \<noteq> i \<Longrightarrow> cls s3 j = cls ?s2 j"
    using add_page_ok [OF sl(1) [OF wf] sl(5) [OF pg] i64 fb] r room(1) unfolding c2 sl(6) by metis
  have oth: "cls s3 j = cls s j" if "j \<noteq> i" for j using s3(9) [OF that] il that by (simp add: cls_upd)
  have ch: "chunk_of s3 j x" if "chunk_of s j x" "j \<le> power_largest s" for j x
    using s3(6) sl(3) that class_index [OF wf that(2)] by blast
  have lnew: "L x = None" if "x \<in> set ?new" for x
  proof (rule ccontr)
    assume "L x \<noteq> None"
    then obtain j n where "L x = Some (j, n)" by auto
    from slab_live_okD [OF lv this] old in_block [OF that] show False by blast
  qed
  have "free_lists h' s3 (fl(i := rev ?new @ fl i))" by (rule free_lists_cong [OF sp(2)]) (use s3 in auto)
  moreover have "free_owned s3 (fl(i := rev ?new @ fl i)) L"
  proof -
    have "chunk_of s3 i x" if "x \<in> set ?new" for x using that s3(7) by (auto simp: chunk_list_set)
    then show ?thesis using fl(2) ch lnew unfolding free_owned_def s3(4) by (auto split: if_splits)
  qed
  moreover have "live_ok s3 L" using lv ch s3(5) unfolding live_ok_def s3(4) by metis
  moreover have "requested_ok s3 L" using rq s3(5) unfolding requested_ok_def s3(4) by simp
  ultimately have "slabs_inv st h' s3 L" using s3(2,3) unfolding slabs_inv_def by blast
  moreover have "h' x = h x" if d: "x \<in> dom L" for x
  proof -
    obtain j n where x: "L x = Some (j, n)" using d by auto
    have "\<not> on_free_list s fl x" using x fl(2) by (auto simp: on_free_list_def free_owned_def)
    moreover have "x \<notin> {a..<a + len}" using slab_live_okD [OF lv x] old by blast
    ultimately show ?thesis using sp(3) [of x] lnew x keep by fastforce
  qed
  moreover have "install_page ext st i a len h s = Some (h', s3)" using sp(1) s3(1) by (simp add: install_page_def)
  moreover have "mem_base s3 = mem_base s" using s3(8) by simp
  ultimately show ?thesis using s3(4,5) oth by blast
qed

lemma newslab_ok:
  assumes inv: "slabs_inv st h s L" and i: "1 \<le> i" "i \<le> power_largest s" and e: "env_ok st env i s"
    and room: "unat (sl_curr (cls s i)) + unat (perslab (cls s i)) < 2 ^ 32"
  shows "\<exists>ok h' s'. do_slabs_newslab ext st env i h s = Some (ok, h', s') \<and> slabs_inv st h' s' L \<and> (\<forall>x\<in>dom L. h' x = h x)
    \<and> (\<forall>j. sl_size (cls s' j) = sl_size (cls s j)) \<and> power_largest s' = power_largest s \<and> mem_base s' = mem_base s
    \<and> (\<forall>j. 1 \<le> j \<and> j \<noteq> i \<longrightarrow> cls s' j = cls s j)"
proof -
  let ?len = "page_len st (cls s i)"
  have wf: "slabs_wf st s" and pg: "pages_ok st s" using slabs_invD [OF inv] by auto
  have i64: "i < 64" and il: "i < length (slabclass s)" using class_index [OF wf i(2)] by auto
  have ln: "0 \<le> ?len" "?len \<le> slab_page_size st" using page_len_bounds [OF slabs_wfD(6) [OF wf i64]] slabs_wfD(4,5) [OF wf] by auto
  then have ul: "unat (word_of_int ?len :: u64) = nat ?len" using slabs_wfD(5) [OF wf] by (intro unat_word_of_int) auto
  show ?thesis
  proof (cases "mem_limit s \<noteq> 0 \<and> mem_malloced s + word_of_int ?len > mem_limit s \<and> slabs (cls s i) > 0 \<and> slabs (cls s 0) = 0")
    case True
    let ?s = "s\<lparr>mem_limit_reached := True\<rparr>"
    have "same_layout s ?s" by (simp add: same_layout_def)
    note sl = same_layoutD [OF this]
    have "slabs_inv st h ?s L"
      by (rule slabs_inv_change [OF inv sl(1) [OF wf] sl(5) [OF pg]]) (auto simp: chunk_of_def)
    moreover have "do_slabs_newslab ext st env i h s = Some (False, h, ?s)" using True by (cases env) (simp add: do_slabs_newslab_def Let_def)
    ultimately show ?thesis by (intro exI conjI) (assumption | simp)+
  next
    case False
    obtain ok n l where g: "grow_slab_list (fst env) i s = (ok, upd_cls i (\<lambda>p. p\<lparr>list_size := n, slab_list := l\<rparr>) s)"
      and g': "let s' = upd_cls i (\<lambda>p. p\<lparr>list_size := n, slab_list := l\<rparr>) s
       in slabs_wf st s' \<and> pages_ok st s' \<and> owned s' = owned s \<and> (\<forall>b\<in>owned s. page_range st s' b = page_range st s b)
        \<and> (\<forall>j<64. \<forall>x. chunk_of s' j x = chunk_of s j x) \<and> (ok \<longrightarrow> unat (slabs (cls s' i)) < length (slab_list (cls s' i)))"
      using grow_ok [OF wf pg i64, of "fst env"] e by (auto simp: env_ok_def)
    define s1 where "s1 = upd_cls i (\<lambda>p. p\<lparr>list_size := n, slab_list := l\<rparr>) s"
    have g1: "slabs_wf st s1" "pages_ok st s1" "owned s1 = owned s" "\<And>b. b \<in> owned s \<Longrightarrow> page_range st s1 b = page_range st s b"
      "\<And>j x. j < 64 \<Longrightarrow> chunk_of s1 j x = chunk_of s j x" "ok \<Longrightarrow> unat (slabs (cls s1 i)) < length (slab_list (cls s1 i))"
      using g' unfolding s1_def Let_def by blast+
    have c1: "slots (cls s1 j) = slots (cls s j) \<and> sl_curr (cls s1 j) = sl_curr (cls s j) \<and> requested (cls s1 j) = requested (cls s j)"
      "sl_size (cls s1 j) = sl_size (cls s j)" "perslab (cls s1 j) = perslab (cls s j)" "slabs (cls s1 j) = slabs (cls s j)" "power_largest s1 = power_largest s"
      "mem_base s1 = mem_base s" "mem_current s1 = mem_current s" "mem_avail s1 = mem_avail s" for j
      using il by (simp_all add: s1_def cls_upd)
    have inv1: "slabs_inv st h s1 L"
      by (rule slabs_inv_change [OF inv g1(1,2)]) (use c1 g1(5) class_index [OF wf] in auto)
    obtain pg n0 where po: "get_page_from_global_pool s1 = Some (pg, upd_cls 0 (\<lambda>p. p\<lparr>slabs := n0\<rparr>) s1)"
      and po': "let s' = upd_cls 0 (\<lambda>p. p\<lparr>slabs := n0\<rparr>) s1
       in slabs_wf st s' \<and> pages_ok st s' \<and> owned s' \<subseteq> owned s1 \<and> unat n0 \<le> unat (slabs (cls s1 0)) \<and> (pg = None \<longrightarrow> n0 = slabs (cls s1 0)) \<and> (pg \<noteq> None \<longrightarrow> unat n0 < unat (slabs (cls s1 0)))
        \<and> (\<forall>b. page_range st s' b = page_range st s1 b) \<and> (\<forall>a. pg = Some a \<longrightarrow> fresh_block st s' a (nat (slab_page_size st)))"
      using pool_ok [OF g1(1,2)] by blast
    define s2 where "s2 = upd_cls 0 (\<lambda>p. p\<lparr>slabs := n0\<rparr>) s1"
    have p2: "slabs_wf st s2" "pages_ok st s2" "pg = None \<Longrightarrow> n0 = slabs (cls s1 0)" "\<And>b. page_range st s2 b = page_range st s1 b"
      "\<And>a. pg = Some a \<Longrightarrow> fresh_block st s2 a (nat (slab_page_size st))"
      using po' unfolding s2_def Let_def by blast+
    have c2: "1 \<le> j \<Longrightarrow> cls s2 j = cls s1 j" "power_largest s2 = power_largest s" for j
      using slabs_wfD(1) [OF g1(1)] by (simp_all add: s2_def cls_upd c1)
    have inv2: "slabs_inv st h s2 L"
      by (rule slabs_inv_change [OF inv1 p2(1,2)]) (use c2 c1 in \<open>auto simp: chunk_of_def\<close>)
    have run: "do_slabs_newslab ext st env i h s =
      (if \<not> ok then Some (False, h, s1)
       else let (pg, s) = (case pg of Some a \<Rightarrow> (pg, s2) | None \<Rightarrow> memory_allocate (snd env) (word_of_int ?len) s2)
            in case pg of None \<Rightarrow> Some (False, h, s)
               | Some a \<Rightarrow> do { (h, s) \<leftarrow> install_page ext st i a (nat ?len) h s; Some (True, h, s) })"
      using False g po unfolding do_slabs_newslab_def s1_def [symmetric] s2_def [symmetric] by (cases env; cases pg) (auto simp: Let_def)
    have ci: "cls s2 i = cls s1 i" using c2(1) i(1) by simp
    have install: ?thesis if ok and inv3: "slabs_inv st h s3 L" and f: "fresh_block st s3 a (nat ?len)" and ci3: "cls s3 i = cls s1 i" "power_largest s3 = power_largest s" "\<And>j. sl_size (cls s3 j) = sl_size (cls s j)"
      "mem_base s3 = mem_base s" "\<And>j. 1 \<le> j \<Longrightarrow> j \<noteq> i \<Longrightarrow> cls s3 j = cls s j"
      and r: "do_slabs_newslab ext st env i h s = do { (h, s) \<leftarrow> install_page ext st i a (nat ?len) h s3; Some (True, h, s) }" for a s3
    proof -
      have "page_len st (cls s3 i) = ?len" using ci3 c1 by (simp add: page_len_def)
      then obtain h' s' where "install_page ext st i a (nat ?len) h s3 = Some (h', s')" "slabs_inv st h' s' L" "\<forall>x\<in>dom L. h' x = h x"
        "\<forall>j. sl_size (cls s' j) = sl_size (cls s3 j)" "power_largest s' = power_largest s" "mem_base s' = mem_base s3" "\<forall>j. 1 \<le> j \<and> j \<noteq> i \<longrightarrow> cls s' j = cls s3 j"
        using install_page_ok [where ext = ext, OF inv3 i(1) _ f] i(2) ci3 g1(6) [OF \<open>ok\<close>] e room c1 unfolding env_ok_def by auto
      with r ci3(3-5) show ?thesis by auto
    qed
    have sz2: "sl_size (cls s2 j) = sl_size (cls s j)" for j using slabs_wfD(1) [OF g1(1)] by (simp add: s2_def cls_upd c1)
    have mb2: "mem_base s2 = mem_base s" by (simp add: s2_def c1)
    have o1: "cls s1 j = cls s j" if "j \<noteq> i" for j using that il by (simp add: s1_def cls_upd)
    have o2: "cls s2 j = cls s j" if "1 \<le> j" "j \<noteq> i" for j using that c2(1) o1 by simp
    consider "\<not> ok" | a where ok "pg = Some a" | ok "pg = None" by blast
    then show ?thesis
    proof cases
      case 1
      with run inv1 c1 o1 show ?thesis by auto
    next
      case (2 a)
      have "fresh_block st s2 a (nat ?len)" by (rule fresh_block_mono [OF p2(5) [OF 2(2)]]) (use ln in auto)
      then show ?thesis by (rule install [OF 2(1) inv2 _ ci c2(2) sz2 mb2 o2]) (use run 2 in simp_all)
    next
      case 3
      have ow2: "owned s2 = owned s" using p2(3) [OF 3(2)] g1(3) unfolding s2_def upd_cls_def by simp
      have m: "fresh_block st s2 a (unat (word_of_int ?len :: u64))" if "mem_base s2 = None" "snd env = Some a" for a
      proof -
        have mb: "mem_base s2 = mem_base s" "mem_current s2 = mem_current s" "mem_avail s2 = mem_avail s" by (simp_all add: s2_def c1)
        then have "fresh_block st s a (nat ?len)" using e that by (simp add: env_ok_def)
        then show ?thesis by (rule fresh_block_mono) (use ow2 p2(4) g1(4) mb ul in auto)
      qed
      have "nat ?len + 8 < 2 ^ 64" using ln slabs_wfD(5) [OF wf] by simp
      then have sz: "unat (word_of_int ?len :: u64) + 8 < 2 ^ 64" using ul by simp
      obtain pg3 s3 where ma: "memory_allocate (snd env) (word_of_int ?len) s2 = (pg3, s3)" by fastforce
      note ma' = memory_allocate_ok [OF p2(1,2) m sz, where malloc = "snd env"]
      have mb3: "mem_base s3 = mem_base s" using ma mb2 by (auto simp: memory_allocate_def Let_def split: option.splits if_splits)
      have s3: "slabs_wf st s3" "pages_ok st s3" "slabclass s3 = slabclass s2" "power_largest s3 = power_largest s2"
        "\<And>a. pg3 = Some a \<Longrightarrow> fresh_block st s3 a (nat ?len)" using ma' ma ul by auto
      have inv3: "slabs_inv st h s3 L" by (rule slabs_inv_change [OF inv2 s3(1,2,4)]) (auto simp: s3(3) chunk_of_def)
      show ?thesis
      proof (cases pg3)
        case None
        with run 3 ma inv3 s3(3,4) sz2 c2(2) mb3 o2 show ?thesis by auto
      next
        case (Some a)
        show ?thesis by (rule install [OF 3(1) inv3 s3(5) [OF Some]]) (use run 3 ma Some s3(3,4) ci c2(2) sz2 mb3 o2 in simp_all)
      qed
    qed
  qed
qed

section \<open>Allocation and release\<close>

lemma alloc_pop_ok:
  assumes inv: "slabs_inv st h s L" and i: "1 \<le> i" "i \<le> power_largest s" and c: "sl_curr (cls s i) \<noteq> 0" and sz: "unat sz \<le> unat (sl_size (cls s i))"
  shows "\<exists>x. slots (cls s i) = Some x \<and> slabs_clsid (h x) = 0 \<and> L x = None
    \<and> (let (h', s') = free_pop x i h s
       in slabs_inv st h' (upd_cls i (\<lambda>p. p\<lparr>requested := requested p + sz\<rparr>) s') (L(x \<mapsto> (i, sz))) \<and> (\<forall>y\<in>dom L. h' y = h y)
        \<and> it_flags (h' x) = 0 \<and> slabs_clsid (h' x) = 0 \<and> refcount (h' x) = 1)"
proof -
  have wf: "slabs_wf st s" and pg: "pages_ok st s" and lv: "live_ok s L" and rq: "requested_ok s L" using slabs_invD [OF inv] by auto
  obtain fl where fl: "free_lists h s fl" "free_owned s fl L" using slabs_invD(5) [OF inv] by blast
  have i64: "i < 64" and il: "i < length (slabclass s)" using class_index [OF wf i(2)] by auto
  note fo = free_listsD(1) [OF fl(1) i]
  obtain x xs where xs: "fl i = x # xs" using c free_okD(3) [OF fo] by (cases "fl i") auto
  note fo' = fo [unfolded xs]
  let ?f = "\<lambda>p :: slabclass. p\<lparr>slots := nxt (h x), sl_curr := sl_curr p - 1\<rparr>" let ?g = "\<lambda>p :: slabclass. p\<lparr>requested := requested p + sz\<rparr>"
  obtain h' where h': "free_pop x i h s = (h', upd_cls i ?f s)" by (simp add: free_pop_def Let_def)
  define s' where "s' = upd_cls i (\<lambda>p. ?g (?f p)) s"
  have s': "upd_cls i ?g (upd_cls i ?f s) = s'" using upd_cls_twice [OF il] by (simp add: s'_def)
  have cl: "cls s' j = (if j = i then ?g (?f (cls s i)) else cls s j)" for j using il by (simp add: s'_def cls_upd)
  note pop = free_pop_ok [OF fo', of "?g (?f (cls s i))"]
  have h'eq: "h' = (let h1 = set_prv (nxt (h x)) None h in h1(x := (h1 x)\<lparr>it_flags := clear_flag (it_flags (h1 x)) ITEM_SLABBED, refcount := 1\<rparr>))"
    using h' by (simp add: free_pop_def Let_def)
  have po: "free_ok h' (?g (?f (cls s i))) xs" "\<And>y. y \<noteq> x \<Longrightarrow> y \<notin> set xs \<Longrightarrow> h' y = h y" "slots (cls s i) = Some x"
    "it_flags (h' x) = 0" "slabs_clsid (h' x) = 0" "refcount (h' x) = 1"
    using pop unfolding h'eq Let_def by simp_all
  have Lx: "L x = None" "chunk_of s i x" using free_ownedD [OF fl(2) i, of x] xs by auto
  have "same_layout s s'" unfolding s'_def by (rule same_layout_upd) (simp_all add: il)
  note sl = same_layoutD [OF this]
  have fls: "free_lists h' s' (fl(i := xs))" unfolding s'_def
  proof (rule free_lists_upd [OF fl(1) i il])
    show "free_ok h' (?g (?f (cls s i))) xs" by (rule po(1))
    fix y assume y: "on_free_list s (fl(i := [])) y"
    then have "y \<notin> set (fl i)" using free_listsD(2) [OF fl(1)] i by (auto simp: on_free_list_def split: if_splits)
    then show "h' y = h y \<and> y \<notin> set xs" using po(2) xs by simp
  qed
  have ch: "chunk_of s' j y = chunk_of s j y" if "j \<le> power_largest s" for j y using sl(3) class_index [OF wf that] by blast
  have "free_owned s' (fl(i := xs)) (L(x \<mapsto> (i, sz)))"
    unfolding free_owned_def sl(6)
  proof (intro allI impI)
    fix j y assume a: "1 \<le> j \<and> j \<le> power_largest s \<and> y \<in> set ((fl(i := xs)) j)"
    then have yj: "y \<in> set (fl j)" using xs by (auto split: if_splits)
    have "y \<noteq> x"
    proof
      assume "y = x"
      then have "j = i" using yj a i xs free_listsD(2) [OF fl(1) i, of j x] by auto
      with a \<open>y = x\<close> free_okD(6) [OF fo'] show False by simp
    qed
    with yj a fl(2) ch show "chunk_of s' j y \<and> (L(x \<mapsto> (i, sz))) y = None" by (auto simp: free_owned_def)
  qed
  moreover have "live_ok s' (L(x \<mapsto> (i, sz)))"
    using lv Lx i ch sz unfolding live_ok_def sl(6) by (auto simp: cl split: if_splits)
  moreover have "requested_ok s' (L(x \<mapsto> (i, sz)))"
  proof -
    have "finite (dom L)" using lv by (simp add: live_ok_def)
    then show ?thesis using rq unfolding requested_ok_def sl(6) cl live_sum_upd [OF \<open>finite (dom L)\<close> Lx(1)] by auto
  qed
  ultimately have "slabs_inv st h' s' (L(x \<mapsto> (i, sz)))" using fls sl(1) [OF wf] sl(5) [OF pg] by (auto simp: slabs_inv_def)
  moreover have "h' y = h y" if "y \<in> dom L" for y
    using that free_ownedD [OF fl(2) i, of y] xs Lx by (intro po(2)) auto
  ultimately show ?thesis using h' s' po(3-6) Lx free_okD(5) [OF fo', of x] by (intro exI [of _ x]) auto
qed

lemma do_slabs_alloc_ok:
  assumes inv: "slabs_inv st h s L" and i: "1 \<le> i" "i \<le> power_largest s" and e: "\<not> nnp \<Longrightarrow> env_ok st env i s" and sz: "sz \<le> ucast (sl_size (cls s i))"
  shows "\<exists>r h' s'. do_slabs_alloc ext st env nnp sz i h s = Some (r, Some (requested (cls s i)), h', s') \<and> (\<forall>y\<in>dom L. h' y = h y) \<and> power_largest s' = power_largest s
    \<and> (\<forall>j. sl_size (cls s' j) = sl_size (cls s j))
    \<and> (case r of None \<Rightarrow> slabs_inv st h' s' L
       | Some x \<Rightarrow> L x = None \<and> slabs_inv st h' s' (L(x \<mapsto> (i, sz))) \<and> it_flags (h' x) = 0 \<and> slabs_clsid (h' x) = 0 \<and> refcount (h' x) = 1)"
proof -
  have pre: "sl_curr (cls s i) = 0 \<or> (case slots (cls s i) of None \<Rightarrow> False | Some x \<Rightarrow> slabs_clsid (h x) = 0)"
    using alloc_pop_ok [OF inv i, of 0, simplified] by (cases "sl_curr (cls s i) = 0") auto
  obtain ok h1 s1 where n: "(if sl_curr (cls s i) = 0 \<and> \<not> nnp then do_slabs_newslab ext st env i h s else Some (False, h, s)) = Some (ok, h1, s1)"
    and n1: "slabs_inv st h1 s1 L" "\<forall>x\<in>dom L. h1 x = h x" "\<forall>j. sl_size (cls s1 j) = sl_size (cls s j)" "power_largest s1 = power_largest s"
  proof (cases "sl_curr (cls s i) = 0 \<and> \<not> nnp")
    case True
    then have r: "unat (sl_curr (cls s i)) + unat (perslab (cls s i)) < 2 ^ 32" by simp
    from newslab_ok [where ext = ext and env = env, OF inv i _ r] e True that show thesis by metis
  next
    case False
    show thesis by (rule that [of False h s]) (use False inv in auto)
  qed
  have i1: "i \<le> power_largest s1" using i n1(4) by simp
  have i64: "i < length (slabclass s1)" using class_index [OF slabs_invD(1) [OF n1(1)] i1] by simp
  show ?thesis
  proof (cases "sl_curr (cls s1 i) = 0")
    case True
    have "do_slabs_alloc ext st env nnp sz i h s = Some (None, Some (requested (cls s i)), h1, s1)"
      using i pre sz n True unfolding do_slabs_alloc_def by (simp add: Let_def)
    with n1 show ?thesis by auto
  next
    case False
    obtain x where x: "slots (cls s1 i) = Some x" "L x = None"
      "let (h', s') = free_pop x i h1 s1
       in slabs_inv st h' (upd_cls i (\<lambda>p. p\<lparr>requested := requested p + sz\<rparr>) s') (L(x \<mapsto> (i, sz))) \<and> (\<forall>y\<in>dom L. h' y = h1 y)
        \<and> it_flags (h' x) = 0 \<and> slabs_clsid (h' x) = 0 \<and> refcount (h' x) = 1"
      using alloc_pop_ok [OF n1(1) i(1) i1 False, of sz] sz n1(3) by (auto simp: word_le_nat_alt)
    obtain h2 s2 where p: "free_pop x i h1 s1 = (h2, s2)" by fastforce
    have pl: "power_largest s2 = power_largest s1" using p by (auto simp: free_pop_def Let_def)
    have sz1: "sl_size (cls (upd_cls i (\<lambda>p. p\<lparr>requested := requested p + sz\<rparr>) s2) j) = sl_size (cls s1 j)" for j
      using p i64 by (auto simp: free_pop_def Let_def cls_upd)
    have "do_slabs_alloc ext st env nnp sz i h s = Some (Some x, Some (requested (cls s i)), h2, upd_cls i (\<lambda>p. p\<lparr>requested := requested p + sz\<rparr>) s2)"
      using i pre sz n False x(1) p unfolding do_slabs_alloc_def by (simp add: Let_def)
    then show ?thesis using x(2,3) p n1(2-4) pl sz1 by auto
  qed
qed

text \<open>Release of a live chunk that is neither a large item nor an external header.\<close>

definition plain :: "item \<Rightarrow> bool" where
  "plain it \<longleftrightarrow> \<not> has_flag (it_flags it) ITEM_CHUNKED \<and> \<not> has_flag (it_flags it) ITEM_HDR"

lemma do_slabs_free_ok:
  assumes inv: "slabs_inv st h s L" and x: "L x = Some (i, sz)" "plain (h x)"
  shows "\<exists>h' s'. do_slabs_free ext st x sz i h s = Some (h', s') \<and> slabs_inv st h' s' (L(x := None)) \<and> (\<forall>y\<in>dom L - {x}. h' y = h y)
    \<and> power_largest s' = power_largest s"
proof -
  have wf: "slabs_wf st s" and pg: "pages_ok st s" and lv: "live_ok s L" and rq: "requested_ok s L" using slabs_invD [OF inv] by auto
  obtain fl where fl: "free_lists h s fl" "free_owned s fl L" using slabs_invD(5) [OF inv] by blast
  have i: "1 \<le> i" "i \<le> power_largest s" and cx: "chunk_of s i x" using slab_live_okD [OF lv x(1)] by auto
  have i64: "i < 64" and il: "i < length (slabclass s)" using class_index [OF wf i(2)] by auto
  have nf: "\<not> on_free_list s fl x" using free_ownedD [OF fl(2)] x(1) by (fastforce simp: on_free_list_def)
  have room: "length (fl i) + 1 < 2 ^ 32"
  proof -
    have "card (insert x (set (fl i))) \<le> unat (slabs (cls s i)) * unat (perslab (cls s i))"
      by (rule chunk_count) (use free_ownedD [OF fl(2) i] cx in auto)
    moreover have "x \<notin> set (fl i)" using nf i by (auto simp: on_free_list_def)
    moreover have "distinct (fl i)" using free_okD(6) [OF free_listsD(1) [OF fl(1) i]] .
    ultimately have "length (fl i) + 1 \<le> unat (slabs (cls s i)) * unat (perslab (cls s i))" by (simp add: distinct_card)
    then show ?thesis using slabs_wfD(6) [OF wf i64] by (simp add: cls_wf_def)
  qed
  let ?f = "\<lambda>p :: slabclass. p\<lparr>slots := Some x, sl_curr := sl_curr p + 1, requested := requested p - charge ext (h x) sz\<rparr>"
  have ch: "charge ext (h x) sz = sz" using x(2) by (simp add: charge_def plain_def)
  obtain h' where f: "do_slabs_free ext st x sz i h s = Some (h', upd_cls i ?f s)" "free_lists h' (upd_cls i ?f s) (fl(i := x # fl i))"
    "\<And>y. y \<noteq> x \<Longrightarrow> \<not> on_free_list s fl y \<Longrightarrow> h' y = h y"
    using do_slabs_free_plain [OF fl(1) i il _ nf room, of ext st sz] x(2) by (auto simp: plain_def)
  have "same_layout s (upd_cls i ?f s)" by (rule same_layout_upd) (simp_all add: il)
  note sl = same_layoutD [OF this]
  have cc: "chunk_of (upd_cls i ?f s) j y = chunk_of s j y" if "j \<le> power_largest s" for j y using sl(3) class_index [OF wf that] by blast
  have cl: "requested (cls (upd_cls i ?f s) j) = requested (cls s j) - (if i = j then sz else 0)" for j using il by (simp add: cls_upd ch)
  have "free_owned (upd_cls i ?f s) (fl(i := x # fl i)) (L(x := None))"
    using free_ownedD [OF fl(2)] cc cx i unfolding free_owned_def sl(6) by (auto split: if_splits)
  moreover have "live_ok (upd_cls i ?f s) (L(x := None))"
    using lv cc il unfolding live_ok_def sl(6) by (auto simp: cls_upd split: if_splits)
  moreover have "requested_ok (upd_cls i ?f s) (L(x := None))"
  proof -
    have "finite (dom L)" using lv by (simp add: live_ok_def)
    then show ?thesis using rq unfolding requested_ok_def sl(6) cl live_sum_del [OF \<open>finite (dom L)\<close> x(1)] by simp
  qed
  ultimately have "slabs_inv st h' (upd_cls i ?f s) (L(x := None))" using f(2) sl(1) [OF wf] sl(5) [OF pg] unfolding slabs_inv_def by blast
  moreover have "h' y = h y" if "y \<in> dom L - {x}" for y
    by (rule f(3)) (use that free_ownedD [OF fl(2)] in \<open>fastforce simp: on_free_list_def\<close>)+
  ultimately show ?thesis using f(1) sl(6) by blast
qed

text \<open>The client may write to live chunks.\<close>

lemma slabs_inv_write:
  assumes inv: "slabs_inv st h s L" and x: "L x \<noteq> None"
  shows "slabs_inv st (h(x := it)) s L"
proof -
  obtain fl where fl: "free_lists h s fl" "free_owned s fl L" using slabs_invD(5) [OF inv] by blast
  have "free_lists (h(x := it)) s fl"
    by (rule free_lists_cong [OF fl(1)]) (use free_ownedD [OF fl(2)] x in \<open>auto simp: on_free_list_def\<close>)
  with fl(2) slabs_invD [OF inv] show ?thesis by (auto simp: slabs_inv_def)
qed

section \<open>The contract of an allocator\<close>

text \<open>
  What the item code relies on: an allocated chunk is not live already, live chunks of a class have
  at least the requested size and do not overlap, and neither allocation nor release touches the
  other live chunks. The client's view of any sequence of operations is a store: what was last
  written to a live chunk is what is read from it.
\<close>

datatype 'e alloc_op = AAlloc 'e nat u64 | AFree nat | AWrite nat item | ARead nat

datatype alloc_out = OAlloc ptr | ORead item

fun alloc_run ::
    "('e \<Rightarrow> nat \<Rightarrow> u64 \<Rightarrow> heap \<Rightarrow> 's \<Rightarrow> (ptr \<times> heap \<times> 's) option) \<Rightarrow> (nat \<Rightarrow> nat \<Rightarrow> u64 \<Rightarrow> heap \<Rightarrow> 's \<Rightarrow> (heap \<times> 's) option)
     \<Rightarrow> 'e alloc_op list \<Rightarrow> heap \<Rightarrow> 's \<Rightarrow> live \<Rightarrow> (alloc_out list \<times> heap \<times> 's \<times> live) option" where
  "alloc_run alloc free [] h s L = Some ([], h, s, L)"
| "alloc_run alloc free (AAlloc e i sz # ops) h s L =
     do { (r, h, s) \<leftarrow> alloc e i sz h s;
          (out, h, s, L) \<leftarrow> alloc_run alloc free ops h s (case r of None \<Rightarrow> L | Some x \<Rightarrow> L(x \<mapsto> (i, sz)));
          Some (OAlloc r # out, h, s, L) }"
| "alloc_run alloc free (AFree x # ops) h s L =
     do { (i, sz) \<leftarrow> L x; (h, s) \<leftarrow> free x i sz h s; alloc_run alloc free ops h s (L(x := None)) }"
| "alloc_run alloc free (AWrite x it # ops) h s L = alloc_run alloc free ops (h(x := it)) s L"
| "alloc_run alloc free (ARead x # ops) h s L = do { (out, h', s, L) \<leftarrow> alloc_run alloc free ops h s L; Some (ORead (h x) # out, h', s, L) }"

text \<open>Legal: the environment's answers are acceptable, and the client uses live chunks only.\<close>

fun alloc_legal ::
    "('e \<Rightarrow> nat \<Rightarrow> u64 \<Rightarrow> heap \<Rightarrow> 's \<Rightarrow> (ptr \<times> heap \<times> 's) option) \<Rightarrow> (nat \<Rightarrow> nat \<Rightarrow> u64 \<Rightarrow> heap \<Rightarrow> 's \<Rightarrow> (heap \<times> 's) option)
     \<Rightarrow> ('e \<Rightarrow> nat \<Rightarrow> u64 \<Rightarrow> 's \<Rightarrow> bool) \<Rightarrow> (item \<Rightarrow> bool) \<Rightarrow> 'e alloc_op list \<Rightarrow> heap \<Rightarrow> 's \<Rightarrow> live \<Rightarrow> bool" where
  "alloc_legal alloc free ok freeable [] h s L \<longleftrightarrow> True"
| "alloc_legal alloc free ok freeable (AAlloc e i sz # ops) h s L \<longleftrightarrow> ok e i sz s
     \<and> (case alloc e i sz h s of None \<Rightarrow> True
        | Some (r, h', s') \<Rightarrow> alloc_legal alloc free ok freeable ops h' s' (case r of None \<Rightarrow> L | Some x \<Rightarrow> L(x \<mapsto> (i, sz))))"
| "alloc_legal alloc free ok freeable (AFree x # ops) h s L \<longleftrightarrow>
     (case L x of None \<Rightarrow> False
      | Some (i, sz) \<Rightarrow> freeable (h x)
          \<and> (case free x i sz h s of None \<Rightarrow> True | Some (h', s') \<Rightarrow> alloc_legal alloc free ok freeable ops h' s' (L(x := None))))"
| "alloc_legal alloc free ok freeable (AWrite x it # ops) h s L \<longleftrightarrow> L x \<noteq> None \<and> alloc_legal alloc free ok freeable ops (h(x := it)) s L"
| "alloc_legal alloc free ok freeable (ARead x # ops) h s L \<longleftrightarrow> L x \<noteq> None \<and> alloc_legal alloc free ok freeable ops h s L"

text \<open>
  The specification of a trace: new chunks are not live and overlap no live one, and reads return
  the last write (\<open>M\<close> holds the contents written so far).
\<close>

fun store_trace :: "'e alloc_op list \<Rightarrow> alloc_out list \<Rightarrow> live \<Rightarrow> (nat \<rightharpoonup> item) \<Rightarrow> bool" where
  "store_trace [] out L M \<longleftrightarrow> out = []"
| "store_trace (AAlloc e i sz # ops) (OAlloc None # out) L M \<longleftrightarrow> store_trace ops out L M"
| "store_trace (AAlloc e i sz # ops) (OAlloc (Some x) # out) L M \<longleftrightarrow>
     L x = None \<and> (\<forall>y j n. L y = Some (j, n) \<longrightarrow> {x..<x + unat sz} \<inter> {y..<y + unat n} = {})
     \<and> store_trace ops out (L(x \<mapsto> (i, sz))) (M(x := None))"
| "store_trace (AFree x # ops) out L M \<longleftrightarrow> store_trace ops out (L(x := None)) (M(x := None))"
| "store_trace (AWrite x it # ops) out L M \<longleftrightarrow> store_trace ops out L (M(x \<mapsto> it))"
| "store_trace (ARead x # ops) (ORead it # out) L M \<longleftrightarrow> (M x = None \<or> M x = Some it) \<and> store_trace ops out L M"
| "store_trace _ _ L M \<longleftrightarrow> False"

locale chunk_allocator =
  fixes inv :: "heap \<Rightarrow> 's \<Rightarrow> live \<Rightarrow> bool" and alloc :: "'e \<Rightarrow> nat \<Rightarrow> u64 \<Rightarrow> heap \<Rightarrow> 's \<Rightarrow> (ptr \<times> heap \<times> 's) option"
    and free :: "nat \<Rightarrow> nat \<Rightarrow> u64 \<Rightarrow> heap \<Rightarrow> 's \<Rightarrow> (heap \<times> 's) option" and ok :: "'e \<Rightarrow> nat \<Rightarrow> u64 \<Rightarrow> 's \<Rightarrow> bool" and freeable :: "item \<Rightarrow> bool"
  assumes alloc_law: "inv h s L \<Longrightarrow> ok e i sz s \<Longrightarrow> \<exists>r h' s'. alloc e i sz h s = Some (r, h', s') \<and> (\<forall>y\<in>dom L. h' y = h y)
      \<and> (case r of None \<Rightarrow> inv h' s' L | Some x \<Rightarrow> L x = None \<and> inv h' s' (L(x \<mapsto> (i, sz))))"
    and free_law: "inv h s L \<Longrightarrow> L x = Some (i, sz) \<Longrightarrow> freeable (h x) \<Longrightarrow> \<exists>h' s'. free x i sz h s = Some (h', s')
      \<and> inv h' s' (L(x := None)) \<and> (\<forall>y\<in>dom L - {x}. h' y = h y)"
    and write_law: "inv h s L \<Longrightarrow> L x \<noteq> None \<Longrightarrow> inv (h(x := it)) s L"
    and disjoint_law: "inv h s L \<Longrightarrow> L x = Some (i, n) \<Longrightarrow> L y = Some (j, m) \<Longrightarrow> x \<noteq> y \<Longrightarrow> {x..<x + unat n} \<inter> {y..<y + unat m} = {}"
begin

definition stored :: "heap \<Rightarrow> live \<Rightarrow> (nat \<rightharpoonup> item) \<Rightarrow> bool" where
  "stored h L M \<longleftrightarrow> (\<forall>x v. M x = Some v \<longrightarrow> L x \<noteq> None \<and> h x = v)"

lemma alloc_step:
  assumes "inv h s L" "ok e i sz s" "stored h L M"
  obtains r h' s' where "alloc e i sz h s = Some (r, h', s')"
    "r = None \<Longrightarrow> inv h' s' L \<and> stored h' L M"
    "\<And>x. r = Some x \<Longrightarrow> L x = None \<and> inv h' s' (L(x \<mapsto> (i, sz))) \<and> stored h' (L(x \<mapsto> (i, sz))) (M(x := None))
       \<and> (\<forall>y j n. L y = Some (j, n) \<longrightarrow> {x..<x + unat sz} \<inter> {y..<y + unat n} = {})"
proof -
  obtain r h' s' where a: "alloc e i sz h s = Some (r, h', s')" "\<forall>y\<in>dom L. h' y = h y"
    "case r of None \<Rightarrow> inv h' s' L | Some x \<Rightarrow> L x = None \<and> inv h' s' (L(x \<mapsto> (i, sz)))" using alloc_law [OF assms(1,2)] by blast
  have st: "stored h' L M" using assms(3) a(2) by (auto simp: stored_def)
  have d: "{x..<x + unat sz} \<inter> {y..<y + unat n} = {}" if "r = Some x" "L y = Some (j, n)" for x y j n
  proof -
    have "x \<noteq> y" using a(3) that by auto
    with a(3) that show ?thesis by (intro disjoint_law [of h' s' "L(x \<mapsto> (i, sz))" x i sz y j n]) auto
  qed
  show thesis
    by (rule that [OF a(1)]) (use a(3) st d in \<open>auto simp: stored_def\<close>)
qed

lemma run_store:
  "inv h s L \<Longrightarrow> stored h L M \<Longrightarrow> alloc_legal alloc free ok freeable ops h s L \<Longrightarrow>
   \<exists>out h' s' L'. alloc_run alloc free ops h s L = Some (out, h', s', L') \<and> store_trace ops out L M \<and> inv h' s' L'"
proof (induction ops arbitrary: h s L M)
  case (Cons opn ops)
  show ?case
  proof (cases opn)
    case (AAlloc e i sz)
    with Cons.prems have ok: "ok e i sz s" by simp
    obtain r h1 s1 where a: "alloc e i sz h s = Some (r, h1, s1)" "r = None \<Longrightarrow> inv h1 s1 L \<and> stored h1 L M"
      "\<And>x. r = Some x \<Longrightarrow> L x = None \<and> inv h1 s1 (L(x \<mapsto> (i, sz))) \<and> stored h1 (L(x \<mapsto> (i, sz))) (M(x := None))
       \<and> (\<forall>y j n. L y = Some (j, n) \<longrightarrow> {x..<x + unat sz} \<inter> {y..<y + unat n} = {})"
      by (rule alloc_step [OF Cons.prems(1) ok Cons.prems(2)]) blast
    let ?L = "case r of None \<Rightarrow> L | Some x \<Rightarrow> L(x \<mapsto> (i, sz))" let ?M = "case r of None \<Rightarrow> M | Some x \<Rightarrow> M(x := None)"
    have "inv h1 s1 ?L" "stored h1 ?L ?M" using a(2,3) by (auto split: option.splits)
    moreover have "alloc_legal alloc free ok freeable ops h1 s1 ?L" using Cons.prems(3) AAlloc a(1) by simp
    ultimately obtain out h' s' L' where "alloc_run alloc free ops h1 s1 ?L = Some (out, h', s', L')" "store_trace ops out ?L ?M" "inv h' s' L'"
      using Cons.IH by blast
    then show ?thesis using AAlloc a by (cases r) auto
  next
    case (AFree x)
    obtain i sz where x: "L x = Some (i, sz)" "freeable (h x)" using Cons.prems(3) AFree by (auto split: option.splits)
    obtain h1 s1 where f: "free x i sz h s = Some (h1, s1)" "inv h1 s1 (L(x := None))" "\<forall>y\<in>dom L - {x}. h1 y = h y"
      using free_law [OF Cons.prems(1) x] by blast
    have "stored h1 (L(x := None)) (M(x := None))" using Cons.prems(2) f(3) by (auto simp: stored_def)
    moreover have "alloc_legal alloc free ok freeable ops h1 s1 (L(x := None))" using Cons.prems(3) AFree x f(1) by (simp del: fun_upd_apply)
    ultimately have "\<exists>out h' s' L'. alloc_run alloc free ops h1 s1 (L(x := None)) = Some (out, h', s', L') \<and> store_trace ops out (L(x := None)) (M(x := None)) \<and> inv h' s' L'"
      using Cons.IH [OF f(2)] by blast
    then show ?thesis using AFree x(1) f(1) by (auto simp del: fun_upd_apply)
  next
    case (AWrite x it)
    have x: "L x \<noteq> None" using Cons.prems(3) AWrite by simp
    have "stored (h(x := it)) L (M(x \<mapsto> it))" using Cons.prems(2) x by (auto simp: stored_def)
    then have "\<exists>out h' s' L'. alloc_run alloc free ops (h(x := it)) s L = Some (out, h', s', L') \<and> store_trace ops out L (M(x \<mapsto> it)) \<and> inv h' s' L'"
      by (rule Cons.IH [OF write_law [OF Cons.prems(1) x]]) (use Cons.prems(3) AWrite in \<open>simp del: fun_upd_apply\<close>)
    then show ?thesis using AWrite by (auto simp del: fun_upd_apply)
  next
    case (ARead x)
    then obtain out h' s' L' where "alloc_run alloc free ops h s L = Some (out, h', s', L')" "store_trace ops out L M" "inv h' s' L'"
      using Cons.IH [OF Cons.prems(1,2)] Cons.prems(3) by auto
    moreover have "M x = None \<or> M x = Some (h x)" using Cons.prems(2) by (cases "M x") (auto simp: stored_def)
    ultimately show ?thesis using ARead by simp
  qed
qed auto

end

section \<open>The slab allocator as an allocator of chunks\<close>

definition slab_alloc_ok :: "slab_settings \<Rightarrow> mem_env \<Rightarrow> nat \<Rightarrow> u64 \<Rightarrow> slabs \<Rightarrow> bool" where
  "slab_alloc_ok st env i sz s \<longleftrightarrow> 1 \<le> i \<and> i \<le> power_largest s \<and> sz \<le> ucast (sl_size (cls s i)) \<and> env_ok st env i s"

abbreviation slab_alloc :: "bool \<Rightarrow> slab_settings \<Rightarrow> mem_env \<Rightarrow> nat \<Rightarrow> u64 \<Rightarrow> heap \<Rightarrow> slabs \<Rightarrow> (ptr \<times> heap \<times> slabs) option" where
  "slab_alloc ext st env i sz h s \<equiv> map_option (\<lambda>(r, t, h, s). (r, h, s)) (do_slabs_alloc ext st env False sz i h s)"

interpretation slab: chunk_allocator "slabs_inv st" "slab_alloc ext st" "\<lambda>x i sz h s. do_slabs_free ext st x sz i h s"
    "slab_alloc_ok st" plain for ext st
proof unfold_locales
  fix h s L e i sz
  assume a: "slabs_inv st h s L" "slab_alloc_ok st e i sz s"
  from do_slabs_alloc_ok [OF a(1), of i False e sz ext] a(2)
  obtain r h' s' where r: "do_slabs_alloc ext st e False sz i h s = Some (r, Some (requested (cls s i)), h', s')" "\<forall>y\<in>dom L. h' y = h y"
    "case r of None \<Rightarrow> slabs_inv st h' s' L | Some x \<Rightarrow> L x = None \<and> slabs_inv st h' s' (L(x \<mapsto> (i, sz))) \<and> it_flags (h' x) = 0 \<and> slabs_clsid (h' x) = 0 \<and> refcount (h' x) = 1"
    unfolding slab_alloc_ok_def by blast
  then show "\<exists>r h' s'. slab_alloc ext st e i sz h s = Some (r, h', s') \<and> (\<forall>y\<in>dom L. h' y = h y)
      \<and> (case r of None \<Rightarrow> slabs_inv st h' s' L | Some x \<Rightarrow> L x = None \<and> slabs_inv st h' s' (L(x \<mapsto> (i, sz))))"
    by (intro exI [of _ r] exI [of _ h'] exI [of _ s']) (auto split: option.splits)
next
  fix h s L x i sz
  assume "slabs_inv st h s L" "L x = Some (i, sz)" "plain (h x)"
  from do_slabs_free_ok [OF this]
  show "\<exists>h' s'. do_slabs_free ext st x sz i h s = Some (h', s') \<and> slabs_inv st h' s' (L(x := None)) \<and> (\<forall>y\<in>dom L - {x}. h' y = h y)" by blast
next
  fix h s L x it
  assume "slabs_inv st h s L" "L x \<noteq> None"
  then show "slabs_inv st (h(x := it)) s L" by (rule slabs_inv_write)
next
  fix h s L x i n y j m
  assume a: "slabs_inv st h s L" "L x = Some (i, n)" "L y = Some (j, m)" "x \<noteq> y"
  note x = slab_live_okD [OF slabs_invD(3) [OF a(1)] a(2)] and y = slab_live_okD [OF slabs_invD(3) [OF a(1)] a(3)]
  have "{x..<x + unat (sl_size (cls s i))} \<inter> {y..<y + unat (sl_size (cls s j))} = {}"
    by (rule chunks_disjoint [OF slabs_invD(1,2) [OF a(1)] x(3,1,2) y(3,1,2) a(4)])
  moreover have "{x..<x + unat n} \<subseteq> {x..<x + unat (sl_size (cls s i))}" "{y..<y + unat m} \<subseteq> {y..<y + unat (sl_size (cls s j))}"
    using x(4) y(4) by auto
  ultimately show "{x..<x + unat n} \<inter> {y..<y + unat m} = {}" by blast
qed

section \<open>The initial state\<close>

definition class_init :: "slab_settings \<Rightarrow> slabclass \<Rightarrow> bool" where
  "class_init st c \<longleftrightarrow> slots c = None \<and> sl_curr c = 0 \<and> slabs c = 0 \<and> slab_list c = [] \<and> list_size c = 0 \<and> requested c = 0
     \<and> int (unat (sl_size c) * unat (perslab c)) \<le> slab_page_size st"

lemma class_init_size:
  assumes "class_init st c" "0 \<le> slab_page_size st" "slab_page_size st < 2 ^ 31"
  shows "class_init st (c\<lparr>sl_size := n, perslab := word_of_int (slab_page_size st) div n\<rparr>)"
proof -
  have "unat (word_of_int (slab_page_size st) :: u32) = nat (slab_page_size st)" using assms(2,3) by (intro unat_word_of_int) auto
  then have "unat n * unat ((word_of_int (slab_page_size st) :: u32) div n) \<le> nat (slab_page_size st)" by (simp add: unat_div)
  then have "int (unat n * unat ((word_of_int (slab_page_size st) :: u32) div n)) \<le> slab_page_size st" using assms(2) by linarith
  then show ?thesis using assms(1) by (simp add: class_init_def)
qed

lemma init_classes_ok:
  assumes "init_classes st sizes stop grow i sz cs = Some (i', cs')" "0 \<le> slab_page_size st" "slab_page_size st < 2 ^ 31"
    "1 \<le> i" "i \<le> 63" "length cs = 64" "\<And>j. j < 64 \<Longrightarrow> class_init st (cs ! j)" "\<And>j. 1 \<le> j \<Longrightarrow> j < i \<Longrightarrow> 0 < unat (sl_size (cs ! j))"
  shows "1 \<le> i' \<and> i' \<le> 63 \<and> length cs' = 64 \<and> (\<forall>j<64. class_init st (cs' ! j)) \<and> (\<forall>j. 1 \<le> j \<and> j < i' \<longrightarrow> 0 < unat (sl_size (cs' ! j)))"
  using assms
proof (induction st sizes stop grow i sz cs rule: init_classes.induct)
  case (1 st sizes stop grow i sz cs)
  let ?next = "case sizes of None \<Rightarrow> Some (if stop sz then None else Some sz)
                 | Some ss \<Rightarrow> if i - 1 < length ss then Some (if ss ! (i - 1) = 0 then None else Some (ss ! (i - 1))) else None"
  show ?case
  proof (cases "i < 63 \<and> (\<exists>z. ?next = Some (Some z))")
    case True
    then obtain z where i: "i < 63" and z: "?next = Some (Some z)" by blast
    let ?z = "align_size z"
    let ?cs = "cs[i := (cs ! i)\<lparr>sl_size := ?z, perslab := word_of_int (slab_page_size st) div ?z\<rparr>]"
    have nz: "?z \<noteq> 0" and rec: "init_classes st sizes stop grow (i + 1) (if sizes = None then grow ?z else ?z) ?cs = Some (i', cs')"
      using "1.prems"(1) i z by (auto simp: init_classes.simps [of st sizes stop grow i] Let_def split: if_splits)
    have c1: "class_init st (?cs ! j)" if "j < 64" for j
      using that "1.prems"(6,7) class_init_size [OF _ "1.prems"(2,3)] by (cases "j = i") auto
    have c2: "0 < unat (sl_size (?cs ! j))" if "1 \<le> j" "j < i + 1" for j
      using that "1.prems"(6,8) i nz by (cases "j = i") (auto simp: unat_gt_0)
    show ?thesis
      by (rule "1.IH" [OF _ z refl refl nz rec "1.prems"(2,3)]) (use i c1 c2 "1.prems"(4,6) in auto)
  next
    case False
    then have "i' = i" "cs' = cs" using "1.prems"(1,5)
      by (auto simp: init_classes.simps [of st sizes stop grow i] split: option.splits if_splits)
    then show ?thesis using "1.prems" by auto
  qed
qed

lemma slabs_inv_init:
  assumes c: "length (slabclass s) = 64" "\<And>j. j < 64 \<Longrightarrow> class_init st (cls s j)" "\<And>j. 1 \<le> j \<Longrightarrow> j \<le> power_largest s \<Longrightarrow> 0 < unat (sl_size (cls s j))"
    and p: "1 \<le> power_largest s" "power_largest s < 64" "0 < slab_page_size st" "slab_page_size st < 2 ^ 31"
  shows "slabs_inv st h s Map.empty"
proof -
  have "owned s = {}" using c(2) by (auto simp: owned_def class_init_def)
  then have "pages_ok st s" by (simp add: pages_ok_def)
  moreover have "slabs_wf st s" using c p by (auto simp: slabs_wf_def class_init_def cls_wf_def)
  moreover have "free_lists h s (\<lambda>i. [])" using c(2) p(2) by (auto simp: free_lists_def free_ok_def class_init_def)
  moreover have "requested_ok s Map.empty" using c(2) p(2) by (auto simp: requested_ok_def class_init_def live_sum_def)
  ultimately show ?thesis unfolding slabs_inv_def by (auto simp: free_owned_def live_ok_def)
qed

lemma preallocate_ok:
  assumes "slabs_inv st h s Map.empty" "mem_base s \<noteq> None" "distinct is" "maxslabs \<le> power_largest s" "is = [prealloc + 1..<64]"
    "\<And>i. i \<in> set is \<Longrightarrow> sl_curr (cls s i) = 0 \<and> slabs (cls s i) = 0" "slabs_preallocate ext st env maxslabs prealloc is h s = Some (h', s')"
  shows "slabs_inv st h' s' Map.empty \<and> power_largest s' = power_largest s \<and> (\<forall>j. sl_size (cls s' j) = sl_size (cls s j))"
  using assms
proof (induction "is" arbitrary: prealloc h s)
  case (Cons i "is")
  have i: "i = prealloc + 1" "is = [Suc prealloc + 1..<64]" using Cons.prems(5) by (cases "prealloc + 1 < 64"; simp add: upt_conv_Cons)+
  show ?case
  proof (cases "prealloc + 1 > maxslabs")
    case False
    have z: "sl_curr (cls s i) = 0" "slabs (cls s i) = 0" using Cons.prems(6) by auto
    have ii: "1 \<le> i" "i \<le> power_largest s" using i False Cons.prems(4) by auto
    have e: "env_ok st (env i) i s" using Cons.prems(2) z by (auto simp: env_ok_def)
    have r: "unat (sl_curr (cls s i)) + unat (perslab (cls s i)) < 2 ^ 32" using z by simp
    obtain ok h1 s1 where n: "do_slabs_newslab ext st (env i) i h s = Some (ok, h1, s1)" "slabs_inv st h1 s1 Map.empty" "power_largest s1 = power_largest s"
      "mem_base s1 = mem_base s" "\<forall>j. 1 \<le> j \<and> j \<noteq> i \<longrightarrow> cls s1 j = cls s j" "\<forall>j. sl_size (cls s1 j) = sl_size (cls s j)"
      using newslab_ok [OF Cons.prems(1) ii e r] by blast
    have rec: "slabs_preallocate ext st env maxslabs (Suc prealloc) is h1 s1 = Some (h', s')"
      using Cons.prems(7) False n(1) by (auto split: if_splits)
    have "slabs_inv st h' s' Map.empty \<and> power_largest s' = power_largest s1 \<and> (\<forall>j. sl_size (cls s' j) = sl_size (cls s1 j))"
      by (rule Cons.IH [OF n(2) _ _ _ i(2) _ rec]) (use Cons.prems n i in auto)
    then show ?thesis using n(3,6) by simp
  next
    case True
    with Cons.prems(1,7) show ?thesis by simp
  qed
qed auto

lemma slabs_init_ok:
  assumes "slabs_init ext st env huge base im limit stop grow prealloc sizes h = Some (h', s)" "0 < slab_chunk_size_max st"
    "0 < slab_page_size st" "slab_page_size st < 2 ^ 31" "slab_chunk_size_max st < 2 ^ 31" "prealloc \<and> \<not> huge \<longrightarrow> base \<noteq> None"
  shows "slabs_inv st h' s Map.empty \<and> sl_size (cls s (power_largest s)) = word_of_int (slab_chunk_size_max st)"
proof -
  obtain i cs where ic: "init_classes st sizes stop grow POWER_SMALLEST (of_nat sizeof_item + word_of_int (chunk_size_min st)) (replicate 64 zero_class) = Some (i, cs)"
    using assms(1) by (auto simp: slabs_init_def bind_eq_Some_conv)
  have z: "class_init st zero_class" using assms(3) by (simp add: class_init_def zero_class_def)
  have cs: "1 \<le> i" "i \<le> 63" "length cs = 64" "\<And>j. j < 64 \<Longrightarrow> class_init st (cs ! j)" "\<And>j. 1 \<le> j \<Longrightarrow> j < i \<Longrightarrow> 0 < unat (sl_size (cs ! j))"
    using init_classes_ok [OF ic] assms(3,4) z by auto
  let ?b = "if prealloc then base else None" let ?C = "slab_chunk_size_max st"
  define c where "c = (cs ! i)\<lparr>sl_size := word_of_int ?C, perslab := word_of_int (slab_page_size st div ?C)\<rparr>"
  define s0 where "s0 = \<lparr>slabclass = cs[i := c], mem_limit = limit, mem_malloced = (case im of None \<Rightarrow> 0 | Some m \<Rightarrow> m),
     mem_limit_reached = False, power_largest = i, mem_base = ?b, mem_current = (case ?b of None \<Rightarrow> 0 | Some a \<Rightarrow> a), mem_avail = (if ?b = None then 0 else limit)\<rparr>"
  have u: "unat (word_of_int ?C :: u32) = nat ?C" using assms(2,5) by (intro unat_word_of_int) auto
  have m: "slab_page_size st div ?C * ?C \<le> slab_page_size st" using assms(2) by (simp add: minus_mod_eq_div_mult [symmetric])
  have dv: "0 \<le> slab_page_size st div ?C" using assms(2,3) by (simp add: pos_imp_zdiv_nonneg_iff)
  have "slab_page_size st div ?C * 1 \<le> slab_page_size st div ?C * ?C" using dv assms(2) by (intro mult_left_mono) auto
  with m have "slab_page_size st div ?C < 2 ^ 32" using assms(4) by simp
  with dv have u2: "unat (word_of_int (slab_page_size st div ?C) :: u32) = nat (slab_page_size st div ?C)" by (intro unat_word_of_int) auto
  have "int (nat ?C * nat (slab_page_size st div ?C)) \<le> slab_page_size st" using m dv assms(2) by (simp add: mult.commute)
  then have ci: "class_init st c" using cs(2) cs(4) [of i] u u2 by (simp add: c_def class_init_def)
  have inv0: "slabs_inv st h s0 Map.empty"
  proof (rule slabs_inv_init)
    show "class_init st (cls s0 j)" if "j < 64" for j using that cs(2-4) ci by (cases "j = i") (auto simp: s0_def)
    show "0 < unat (sl_size (cls s0 j))" if "1 \<le> j" "j \<le> power_largest s0" for j
      using that cs u assms(2) by (cases "j = i") (auto simp: s0_def c_def)
  qed (use cs assms(3,4) in \<open>auto simp: s0_def\<close>)
  have run: "(if prealloc \<and> (huge \<longrightarrow> base \<noteq> None) then slabs_preallocate ext st env i 0 [1..<64] h s0 else Some (h, s0)) = Some (h', s)"
    using assms(1) ic assms(2) unfolding slabs_init_def s0_def c_def by (simp add: Let_def)
  have l: "sl_size (cls s0 (power_largest s0)) = word_of_int ?C" using cs(2,3) by (simp add: s0_def c_def)
  show ?thesis
  proof (cases "prealloc \<and> (huge \<longrightarrow> base \<noteq> None)")
    case True
    have "sl_curr (cls s0 j) = 0 \<and> slabs (cls s0 j) = 0" if "j < 64" for j using that cs(2-4) ci by (cases "j = i") (auto simp: s0_def class_init_def)
    then have "slabs_inv st h' s Map.empty \<and> power_largest s = power_largest s0 \<and> (\<forall>j. sl_size (cls s j) = sl_size (cls s0 j))"
      using run True assms(6) by (intro preallocate_ok [OF inv0, where prealloc = 0 and maxslabs = i]) (auto simp: s0_def)
    then show ?thesis using l by simp
  qed (use run inv0 l in auto)
qed

lemmas slabs_init_inv = conjunct1 [OF slabs_init_ok]

section \<open>Properties of the allocator\<close>

text \<open>
  C4. The allocator hands out disjoint chunks and never touches live ones. From the state
  \<open>slabs_init\<close> leaves (with any table of sizes, growth factor and preallocation), run any sequence of
  allocations, releases, writes and reads of live chunks, where \<open>malloc\<close> returns blocks outside the
  pages in use and the 32-bit page counters have room. Nothing leaves an array, no assertion fails,
  every new chunk is disjoint from all live chunks, every read returns the last write, and at the end
  the invariant of pages, free lists and requested bytes holds.
\<close>

theorem slab_alloc_store:
  assumes "slabs_init ext st env huge base im limit stop grow prealloc sizes h0 = Some (h, s)" "0 < slab_chunk_size_max st" "slab_chunk_size_max st < 2 ^ 31"
    "0 < slab_page_size st" "slab_page_size st < 2 ^ 31" "prealloc \<and> \<not> huge \<longrightarrow> base \<noteq> None"
    "alloc_legal (slab_alloc ext st) (\<lambda>x i sz h s. do_slabs_free ext st x sz i h s) (slab_alloc_ok st) plain ops h s Map.empty"
  shows "\<exists>out h' s' L. alloc_run (slab_alloc ext st) (\<lambda>x i sz h s. do_slabs_free ext st x sz i h s) ops h s Map.empty = Some (out, h', s', L)
    \<and> store_trace ops out Map.empty Map.empty \<and> slabs_inv st h' s' L"
  by (rule slab.run_store [OF slabs_init_inv [OF assms(1,2,4,5,3,6)] _ assms(7)]) (simp add: slab.stored_def)

lemma clsid_loop_result:
  "clsid_loop s sz res = Some c \<Longrightarrow> res \<le> power_largest s \<Longrightarrow> length (slabclass s) = 64 \<Longrightarrow>
   res \<le> c \<and> c \<le> power_largest s \<and> (\<forall>j. res \<le> j \<and> j < c \<longrightarrow> ucast (sl_size (cls s j)) < sz)
   \<and> (sz \<le> ucast (sl_size (cls s c)) \<or> c = power_largest s)"
proof (induction s sz res rule: clsid_loop.induct)
  case (1 s sz res)
  show ?case
  proof (cases "res < 64 \<and> sz > ucast (sl_size (cls s res)) \<and> res \<noteq> power_largest s")
    case True
    then have "clsid_loop s sz (res + 1) = Some c" using "1.prems" by (simp add: clsid_loop.simps [of s sz res])
    then have "res + 1 \<le> c \<and> c \<le> power_largest s \<and> (\<forall>j. res + 1 \<le> j \<and> j < c \<longrightarrow> ucast (sl_size (cls s j)) < sz)
      \<and> (sz \<le> ucast (sl_size (cls s c)) \<or> c = power_largest s)" using "1.IH" True "1.prems" by simp
    moreover have "ucast (sl_size (cls s j)) < sz" if "res \<le> j" "j < c" for j
      using calculation True that by (cases "j = res") auto
    ultimately show ?thesis by auto
  next
    case False
    then have "c = res \<and> (sz \<le> ucast (sl_size (cls s c)) \<or> c = power_largest s)"
      using "1.prems" by (auto simp: clsid_loop.simps [of s sz res] not_less split: if_splits)
    then show ?thesis using "1.prems" by auto
  qed
qed

lemma clsid_loop_some: "res \<le> power_largest s \<Longrightarrow> power_largest s < length (slabclass s) \<Longrightarrow> \<exists>c. clsid_loop s sz res = Some c"
proof (induction s sz res rule: clsid_loop.induct)
  case (1 s sz res)
  show ?case
  proof (cases "sz > ucast (sl_size (cls s res)) \<and> res \<noteq> power_largest s")
    case True
    then have "\<exists>c. clsid_loop s sz (res + 1) = Some c" using 1 by simp
    with True 1 show ?thesis by (simp add: clsid_loop.simps [of s sz res])
  qed (use 1 in \<open>auto simp: clsid_loop.simps [of s sz res]\<close>)
qed

lemma clsid_first_fit:
  assumes "slabs_wf st s"
  shows "\<exists>c. slabs_clsid_for st s sz = Some c \<and> c \<le> power_largest s
    \<and> (if sz = 0 \<or> sz > word_of_int (item_size_max st) then c = 0
       else 1 \<le> c \<and> (\<forall>j. 1 \<le> j \<and> j < c \<longrightarrow> ucast (sl_size (cls s j)) < sz) \<and> (sz \<le> ucast (sl_size (cls s c)) \<or> c = power_largest s))"
proof -
  have w: "length (slabclass s) = 64" "1 \<le> power_largest s" "power_largest s < 64" using slabs_wfD [OF assms] by auto
  obtain c where c: "clsid_loop s sz 1 = Some c" using clsid_loop_some [of 1 s sz] w by auto
  from clsid_loop_result [OF c] w c show ?thesis by (auto simp: slabs_clsid_for_def)
qed

text \<open>
  \<open>slabs_clsid\<close> picks the first class that fits: for a size between 1 and \<open>item_size_max\<close> the search
  ends inside the table with the least class whose chunks hold the size, or with the largest class
  when none does (large items are then split); other sizes give 0.
\<close>

theorem slabs_clsid_first_fit:
  assumes "slabs_wf st s"
  shows "\<exists>c. slabs_clsid_for st s sz = Some c \<and> c \<le> power_largest s
    \<and> (if sz = 0 \<or> sz > word_of_int (item_size_max st) then c = 0
       else 1 \<le> c \<and> (\<forall>j. 1 \<le> j \<and> j < c \<longrightarrow> ucast (sl_size (cls s j)) < sz) \<and> (sz \<le> ucast (sl_size (cls s c)) \<or> c = power_largest s))"
  by (rule clsid_first_fit [OF assms])

text \<open>
  Releasing a large item with client flags leaks 4 requested bytes. \<open>do_item_alloc\<close> requests the
  header with its 4 bytes of client flags, but \<open>do_slabs_free_chunked\<close> overwrites \<open>it_flags\<close> before it
  evaluates \<open>FLAGS_SIZE(it)\<close>, so the header is given back without them: \<open>requested\<close> of the header's
  class falls by the same amount whether the item has client flags or not.
\<close>

theorem free_chunked_forgets_flags:
  assumes "sch_next (h it) = None" "unat (sch_orig_clsid (h it)) < length (slabclass s)"
  shows "\<exists>h' s'. do_slabs_free_chunked st it h s = Some (h', s')
    \<and> requested (cls s' (unat (sch_orig_clsid (h it))))
      = requested (cls s (unat (sch_orig_clsid (h it)))) - (of_nat (unat (nkey (h it)) + 1 + sizeof_item + sizeof_item_chunk) + (if use_cas st then 8 else 0))"
proof -
  let ?i = "unat (sch_orig_clsid (h it))" let ?h = "h(it := (h it)\<lparr>it_flags := ITEM_SLABBED, slabs_clsid := 0, prv := None\<rparr>)"
  let ?h' = "push_front it (slots (cls s ?i)) ?h"
  note k = same_nodesD(6,8) [OF same_nodes_push [of ?h it "slots (cls s ?i)"], of it]
  show ?thesis
    using assms k by (auto simp: do_slabs_free_chunked_def free_push_def sub_requested_def Let_def cls_upd free_chunk_chain.simps FLAGS_SIZE_def algebra_simps)
qed

section \<open>Moving a page\<close>

text \<open>Splitting a cleared page that is already in the page list.\<close>

lemma split_listed_page:
  assumes inv: "slabs_inv st h s L" and i: "1 \<le> i" "i \<le> power_largest s"
    and new: "\<And>k. k < unat (perslab (cls s i)) \<Longrightarrow> (let x = a + k * unat (sl_size (cls s i)) in it_flags (h x) = 0 \<and> L x = None \<and> chunk_of s i x)"
    and room: "unat (sl_curr (cls s i)) + unat (perslab (cls s i)) < 2 ^ 32"
  shows "\<exists>h' s'. split_slab_page_into_freelist ext st (unat (perslab (cls s i))) a i h s = Some (h', s') \<and> slabs_inv st h' s' L \<and> (\<forall>x\<in>dom L. h' x = h x)"
proof -
  let ?c = "cls s i" let ?z = "unat (sl_size ?c)" let ?P = "unat (perslab ?c)" let ?new = "chunk_list ?P a ?z"
  have wf: "slabs_wf st s" and pg: "pages_ok st s" and lv: "live_ok s L" and rq: "requested_ok s L" using slabs_invD [OF inv] by auto
  obtain fl where fl: "free_lists h s fl" "free_owned s fl L" using slabs_invD(5) [OF inv] by blast
  have il: "i < length (slabclass s)" using class_index [OF wf i(2)] by auto
  have nw: "it_flags (h x) = 0" "L x = None" "chunk_of s i x" if "x \<in> set ?new" for x
    using that new by (auto simp: chunk_list_set Let_def)
  have nf: "it_flags (h x) = 0 \<and> \<not> on_free_list s fl x" if "x \<in> set ?new" for x
    using nw(1) [OF that] free_okD(4) [OF free_listsD(1) [OF fl(1)], of _ x] by (auto simp: on_free_list_def)
  have len: "length (fl i) = unat (sl_curr ?c)" using free_okD(2) [OF free_listsD(1) [OF fl(1) i]] by simp
  obtain h' u v where sp: "split_slab_page_into_freelist ext st ?P a i h s = Some (h', upd_cls i (\<lambda>p. p\<lparr>slots := u, sl_curr := v\<rparr>) s)"
    "free_lists h' (upd_cls i (\<lambda>p. p\<lparr>slots := u, sl_curr := v\<rparr>) s) (fl(i := rev ?new @ fl i))"
    "\<And>y. y \<notin> set ?new \<Longrightarrow> \<not> on_free_list s fl y \<Longrightarrow> h' y = h y"
    using split_page_ok [of h s fl i ?P a ext st, OF fl(1) i il slabs_wfD(7) [OF wf i] nf] len room by auto
  let ?s = "upd_cls i (\<lambda>p. p\<lparr>slots := u, sl_curr := v\<rparr>) s"
  have "same_layout s ?s" by (rule same_layout_upd) (simp_all add: il)
  note sl = same_layoutD [OF this]
  have ch: "chunk_of ?s j x = chunk_of s j x" if "j \<le> power_largest s" for j x using sl(3) class_index [OF wf that] by blast
  have cq: "requested (cls ?s j) = requested (cls s j)" "sl_size (cls ?s j) = sl_size (cls s j)" for j using il by (simp_all add: cls_upd)
  have "free_owned ?s (fl(i := rev ?new @ fl i)) L"
    using free_ownedD [OF fl(2)] ch nw i(2) unfolding free_owned_def sl(6) by (auto split: if_splits)
  moreover have "live_ok ?s L" using lv ch cq(2) unfolding live_ok_def sl(6) by metis
  moreover have "requested_ok ?s L" using rq cq(1) unfolding requested_ok_def sl(6) by simp
  ultimately have "slabs_inv st h' ?s L" using sp(2) sl(1) [OF wf] sl(5) [OF pg] unfolding slabs_inv_def by blast
  moreover have "h' x = h x" if "x \<in> dom L" for x
  proof (rule sp(3))
    show "x \<notin> set ?new" using nw(2) that by auto
    show "\<not> on_free_list s fl x" using free_ownedD [OF fl(2)] that by (fastforce simp: on_free_list_def)
  qed
  ultimately show ?thesis using sp(1) by blast
qed

lemma release_loop_ok:
  assumes "slabs_inv st h s L"
  shows "\<exists>freed s'. release_loop st fr s = Some (freed, s') \<and> slabs_inv st h s' L"
  using assms
proof (induction "unat (slabs (cls s 0))" arbitrary: s fr rule: less_induct)
  case less
  have wf: "slabs_wf st s" and pk: "pages_ok st s" using slabs_invD [OF less.prems] by auto
  obtain pg n where po: "get_page_from_global_pool s = Some (pg, upd_cls 0 (\<lambda>p. p\<lparr>slabs := n\<rparr>) s)"
    "let s' = upd_cls 0 (\<lambda>p. p\<lparr>slabs := n\<rparr>) s
     in slabs_wf st s' \<and> pages_ok st s' \<and> owned s' \<subseteq> owned s \<and> unat n \<le> unat (slabs (cls s 0)) \<and> (pg = None \<longrightarrow> n = slabs (cls s 0)) \<and> (pg \<noteq> None \<longrightarrow> unat n < unat (slabs (cls s 0)))
      \<and> (\<forall>b. page_range st s' b = page_range st s b) \<and> (\<forall>a. pg = Some a \<longrightarrow> fresh_block st s' a (nat (slab_page_size st)))"
    using pool_ok [OF wf pk] by blast
  define s1 where "s1 = upd_cls 0 (\<lambda>p. p\<lparr>slabs := n\<rparr>) s"
  have w1: "slabs_wf st s1" "pages_ok st s1" "pg \<noteq> None \<Longrightarrow> unat n < unat (slabs (cls s 0))" using po(2) unfolding s1_def Let_def by blast+
  have l0: "0 < length (slabclass s)" using slabs_wfD(1) [OF wf] by simp
  have c1: "1 \<le> j \<Longrightarrow> cls s1 j = cls s j" "slabs (cls s1 0) = n" for j using l0 by (simp_all add: s1_def cls_upd)
  have pl1: "power_largest s1 = power_largest s" by (simp add: s1_def)
  have inv1: "slabs_inv st h s1 L"
    by (rule slabs_inv_change [OF less.prems w1(1,2) pl1]) (use c1 in \<open>auto simp: chunk_of_def\<close>)
  have po1: "get_page_from_global_pool s = Some (pg, s1)" using po(1) by (simp add: s1_def)
  show ?case
  proof (cases "mem_malloced s > mem_limit s \<and> pg \<noteq> None")
    case True
    then obtain a where a: "pg = Some a" by blast
    let ?s2 = "s1\<lparr>mem_malloced := mem_malloced s1 - word_of_int (slab_page_size st)\<rparr>"
    have "same_layout s1 ?s2" by (simp add: same_layout_def)
    note sl = same_layoutD [OF this]
    have "slabs_inv st h ?s2 L" by (rule slabs_inv_change [OF inv1 sl(1) [OF w1(1)] sl(5) [OF w1(2)]]) (auto simp: chunk_of_def)
    moreover have "unat (slabs (cls ?s2 0)) < unat (slabs (cls s 0))" using w1(3) a c1(2) by simp
    ultimately have "\<exists>freed s'. release_loop st (fr @ [a]) ?s2 = Some (freed, s') \<and> slabs_inv st h s' L" using less.hyps by blast
    then show ?thesis using True po1 a by (simp add: release_loop.simps [of st fr s])
  next
    case False
    then show ?thesis using less.prems inv1 po1 by (cases pg) (auto simp: release_loop.simps [of st fr s])
  qed
qed

lemma memory_release_ok: "slabs_inv st h s L \<Longrightarrow> \<exists>freed s'. memory_release st s = Some (freed, s') \<and> slabs_inv st h s' L"
  unfolding memory_release_def using release_loop_ok by auto

text \<open>
  The first page of a class whose chunks are all cleared (marked \<open>ITEM_SLABBED|ITEM_FETCHED\<close> by the
  mover, and live for nobody).
\<close>

definition first_page_cleared :: "heap \<Rightarrow> slabs \<Rightarrow> live \<Rightarrow> nat \<Rightarrow> bool" where
  "first_page_cleared h s L i \<longleftrightarrow> (\<forall>k<unat (perslab (cls s i)).
     let x = slab_list (cls s i) ! 0 + k * unat (sl_size (cls s i)) in it_flags (h x) = set_flag ITEM_SLABBED ITEM_FETCHED \<and> L x = None)"

lemma drop_first_page_ok:
  assumes inv: "slabs_inv st h s L" and i: "i \<le> power_largest s" "0 < unat (slabs (cls s i))" and cl: "first_page_cleared h s L i"
  shows "\<exists>s'. drop_first_page i s = Some s' \<and> slabs_inv st h s' L \<and> fresh_block st s' (slab_list (cls s i) ! 0) (page_span st s i)
    \<and> power_largest s' = power_largest s \<and> (\<forall>j. j \<noteq> i \<longrightarrow> cls s' j = cls s j) \<and> page_span st s' = page_span st s"
proof -
  let ?c = "cls s i" let ?n = "unat (slabs ?c)" let ?l = "slab_list ?c"
  have wf: "slabs_wf st s" and pg: "pages_ok st s" using slabs_invD [OF inv] by auto
  have i64: "i < 64" and il: "i < length (slabclass s)" using class_index [OF wf i(1)] by auto
  have c: "cls_wf st ?c" using slabs_wfD(6) [OF wf i64] .
  have n: "unat (slabs ?c - 1) = ?n - 1" using i(2) by (subst unat_sub_no_wrap) auto
  let ?l' = "take (?n - 1) (drop 1 ?l) @ drop (?n - 1) ?l"
  let ?f = "\<lambda>p :: slabclass. p\<lparr>slabs := slabs ?c - 1, slab_list := ?l'\<rparr>"
  define s' where "s' = upd_cls i ?f s"
  have nl: "?n \<le> length ?l" using c by (simp add: cls_wf_def)
  have l': "length ?l' = length ?l" "\<And>k. k < ?n - 1 \<Longrightarrow> ?l' ! k = ?l ! Suc k" using i(2) nl by (auto simp: nth_append)
  have run: "drop_first_page i s = Some s'" using nl i(2) by (simp add: drop_first_page_def n s'_def upd_cls_def Let_def)
  have cls': "cls s' j = (if j = i then ?f ?c else cls s j)" for j using il by (simp add: s'_def cls_upd)
  have f: "sl_size (cls s' j) = sl_size (cls s j)" "perslab (cls s' j) = perslab (cls s j)" "slots (cls s' j) = slots (cls s j)"
    "sl_curr (cls s' j) = sl_curr (cls s j)" "requested (cls s' j) = requested (cls s j)" for j by (simp_all add: cls')
  have span: "page_span st s' = page_span st s" by (auto simp: page_span_def page_len_def f fun_eq_iff)
  define up where "up = (\<lambda>(j, k). if j = i then (j, Suc k) else (j, k :: nat))"
  have up: "up b \<in> owned s" "page_range st s' b = page_range st s (up b)" "up b \<noteq> (i, 0)" if "b \<in> owned s'" for b
    using that l'(2) n by (cases b; auto simp: owned_def up_def page_range_def span cls' split: if_splits)+
  have upi: "b \<noteq> d \<Longrightarrow> up b \<noteq> up d" for b d by (auto simp: up_def split: prod.splits if_splits)
  have i0: "(i, 0) \<in> owned s" using i(2) i64 by (simp add: owned_def)
  have le: "(?n - 1) * unat (perslab ?c) \<le> ?n * unat (perslab ?c)" by (rule mult_le_mono1) simp
  have rm: "(?n - 1) * unat (perslab ?c) < 2 ^ 32" by (rule le_less_trans [OF le]) (use c in \<open>simp add: cls_wf_def\<close>)
  have "cls_wf st (?f ?c)" using c n rm l'(1) by (auto simp: cls_wf_def)
  then have wf': "slabs_wf st s'" unfolding s'_def by (intro slabs_wf_upd [OF wf i64]) simp_all
  have m: "mem_base s' = mem_base s" "mem_current s' = mem_current s" "mem_avail s' = mem_avail s" "power_largest s' = power_largest s" by (simp_all add: s'_def)
  have pd: "page_range st s b \<inter> page_range st s d = {}" if "b \<in> owned s" "d \<in> owned s" "b \<noteq> d" for b d using pg that by (simp add: pages_ok_def)
  have pm: "page_range st s b \<inter> {mem_current s..<mem_current s + unat (mem_avail s)} = {}" if "b \<in> owned s" "mem_base s \<noteq> None" for b
    using pg that by (simp add: pages_ok_def)
  have pg': "pages_ok st s'" unfolding pages_ok_def m using up upi pd pm by simp
  have fb: "fresh_block st s' (?l ! 0) (page_span st s i)"
  proof -
    have r0: "page_range st s (i, 0) = {?l ! 0..<?l ! 0 + page_span st s i}" by (simp add: page_range_def)
    show ?thesis unfolding fresh_block_def m r0 [symmetric] using up pd pm i0 by simp
  qed
  have keep: "chunk_of s' j x" if x: "chunk_of s j x" and nc: "j = i \<Longrightarrow> \<forall>k<unat (perslab ?c). x \<noteq> ?l ! 0 + k * unat (sl_size ?c)" for j x
  proof (cases "j = i")
    case True
    obtain k a where k: "k < ?n" "a < unat (perslab ?c)" "x = ?l ! k + a * unat (sl_size ?c)" using x True by (auto simp: chunk_of_def)
    then obtain k' where k': "k = Suc k'" using nc True by (cases k) auto
    then have "?l' ! k' = ?l ! k" "k' < ?n - 1" using l'(2) [of k'] k(1) by auto
    with k True n show ?thesis unfolding chunk_of_def cls' by (intro exI [of _ k'] conjI exI [of _ a]) simp_all
  qed (use x in \<open>simp add: chunk_of_def cls'\<close>)
  obtain fl where fl: "free_lists h s fl" "free_owned s fl L" using slabs_invD(5) [OF inv] by blast
  have "free_lists h s' fl" by (rule free_lists_cong [OF fl(1)]) (simp_all add: m f)
  moreover have "free_owned s' fl L" unfolding free_owned_def m
  proof (intro allI impI)
    fix j x assume a: "1 \<le> j \<and> j \<le> power_largest s \<and> x \<in> set (fl j)"
    then have "it_flags (h x) = ITEM_SLABBED" using free_okD(4) [OF free_listsD(1) [OF fl(1)]] by blast
    then have "\<forall>k<unat (perslab ?c). x \<noteq> ?l ! 0 + k * unat (sl_size ?c)"
      using cl by (auto simp: first_page_cleared_def Let_def set_flag_def)
    then show "chunk_of s' j x \<and> L x = None" using a free_ownedD [OF fl(2)] keep by blast
  qed
  moreover have "live_ok s' L" unfolding live_ok_def m f
  proof (intro conjI allI impI)
    fix x j k assume x: "L x = Some (j, k)"
    have "\<forall>k<unat (perslab ?c). x \<noteq> ?l ! 0 + k * unat (sl_size ?c)" using cl x by (auto simp: first_page_cleared_def Let_def)
    with slab_live_okD [OF slabs_invD(3) [OF inv] x] keep
    show "1 \<le> j" "j \<le> power_largest s" "chunk_of s' j x" "unat k \<le> unat (sl_size (cls s j))" by auto
  qed (use slabs_invD(3) [OF inv] in \<open>simp add: live_ok_def\<close>)
  moreover have "requested_ok s' L" using slabs_invD(4) [OF inv] by (simp add: requested_ok_def m f)
  ultimately have "slabs_inv st h s' L" using wf' pg' unfolding slabs_inv_def by blast
  then show ?thesis using run fb m span cls' by auto
qed

lemma slabs_inv_flag:
  assumes "slabs_inv st h s L"
  shows "slabs_inv st h (s\<lparr>mem_limit_reached := f\<rparr>) L"
proof -
  have "same_layout s (s\<lparr>mem_limit_reached := f\<rparr>)" by (simp add: same_layout_def)
  note sl = same_layoutD [OF this]
  show ?thesis
    by (rule slabs_inv_change [OF assms sl(1) [OF slabs_invD(1) [OF assms]] sl(5) [OF slabs_invD(2) [OF assms]]]) (auto simp: chunk_of_def)
qed

lemma page_chunk_range:
  assumes wf: "slabs_wf st s" and b: "1 \<le> b" "b \<le> power_largest s" and k: "k < unat (perslab (cls s b))"
  shows "p + k * unat (sl_size (cls s b)) \<in> {p..<p + nat (slab_page_size st)}"
proof -
  let ?z = "unat (sl_size (cls s b))" let ?P = "unat (perslab (cls s b))"
  have "int (?z * ?P) \<le> slab_page_size st" using slabs_wfD(6) [OF wf] class_index [OF wf b(2)] by (simp add: cls_wf_def)
  then have "?z * ?P \<le> nat (slab_page_size st)" by linarith
  then have "?P * ?z \<le> nat (slab_page_size st)" by (simp add: mult.commute)
  moreover have "p + k * ?z \<in> set (chunk_list ?P p ?z)" using k by (auto simp: chunk_list_set)
  ultimately show ?thesis using chunk_list_range slabs_wfD(7) [OF wf b] by blast
qed

text \<open>The page leaves the source and enters the destination's list.\<close>

lemma move_page_ok:
  assumes inv: "slabs_inv st h s L" and cl: "a \<noteq> b" "a \<le> power_largest s" "b \<le> power_largest s" and re: "slab_reassign st"
    and pgs: "0 < unat (slabs (cls s a))" "first_page_cleared h s L a"
    and room: "unat (slabs (cls s b)) < length (slab_list (cls s b))" "(unat (slabs (cls s b)) + 1) * unat (perslab (cls s b)) < 2 ^ 32"
  defines "pg \<equiv> slab_list (cls s a) ! 0" and "len \<equiv> nat (slab_page_size st)"
  obtains s1 s2 where "drop_first_page a s = Some s1" "add_page b pg s1 = Some s2" "slabs_inv st h s2 L" "slabs_inv st (memset0 pg len h) s2 L"
    "\<And>x. x \<in> dom L \<Longrightarrow> x \<notin> {pg..<pg + len}" "\<And>k. k < unat (perslab (cls s b)) \<Longrightarrow> chunk_of s2 b (pg + k * unat (sl_size (cls s b)))"
    "power_largest s2 = power_largest s" "perslab (cls s2 b) = perslab (cls s b)" "sl_size (cls s2 b) = sl_size (cls s b)" "sl_curr (cls s2 b) = sl_curr (cls s b)"
proof -
  obtain s1 where d: "drop_first_page a s = Some s1" "slabs_inv st h s1 L" "fresh_block st s1 pg (page_span st s a)" "power_largest s1 = power_largest s"
    "\<And>j. j \<noteq> a \<Longrightarrow> cls s1 j = cls s j" "page_span st s1 = page_span st s"
    using drop_first_page_ok [OF inv cl(2) pgs] unfolding pg_def by blast
  have span: "page_span st s j = len" for j using re by (simp add: page_span_def page_len_def len_def)
  have b1: "cls s1 b = cls s b" using d(5) cl(1) by simp
  have wf1: "slabs_wf st s1" and pk1: "pages_ok st s1" using slabs_invD [OF d(2)] by auto
  have b64: "b < 64" using class_index [OF wf1] cl(3) d(4) by simp
  obtain s2 where ad: "add_page b pg s1 = Some s2" "slabs_wf st s2" "pages_ok st s2" "power_largest s2 = power_largest s"
    "\<And>j. slots (cls s2 j) = slots (cls s1 j) \<and> sl_curr (cls s2 j) = sl_curr (cls s1 j) \<and> requested (cls s2 j) = requested (cls s1 j)
           \<and> sl_size (cls s2 j) = sl_size (cls s1 j) \<and> perslab (cls s2 j) = perslab (cls s1 j)"
    "\<And>j x. chunk_of s1 j x \<Longrightarrow> chunk_of s2 j x" "\<And>k. k < unat (perslab (cls s b)) \<Longrightarrow> chunk_of s2 b (pg + k * unat (sl_size (cls s b)))"
    using add_page_ok [OF wf1 pk1 b64, of pg] d(3,4,6) span room unfolding b1 by metis
  have old: "x \<notin> {pg..<pg + len}" if "chunk_of s1 j x" "1 \<le> j" "j \<le> power_largest s1" for x j
    using chunk_not_fresh [OF wf1 d(3) that] by (simp add: span)
  have Lold: "x \<notin> {pg..<pg + len}" if lx: "x \<in> dom L" for x
  proof -
    obtain j n where "L x = Some (j, n)" using lx by auto
    then show ?thesis using slab_live_okD [OF slabs_invD(3) [OF d(2)]] old by blast
  qed
  have inv2: "slabs_inv st h s2 L" by (rule slabs_inv_change [OF d(2) ad(2,3)]) (use ad(4-6) d(4) in auto)
  have inv2': "slabs_inv st (memset0 pg len h) s2 L"
  proof (rule slabs_inv_change [OF d(2) ad(2,3)])
    show "memset0 pg len h x = h x" if "1 \<le> j" "j \<le> power_largest s1" "chunk_of s1 j x" for j x using old [OF that(3,1,2)] by (auto simp: memset0_def)
  qed (use ad(4-6) d(4) in auto)
  show thesis by (rule that [OF d(1) ad(1) inv2 inv2' Lold ad(7,4)]) (use ad(5) [of b] b1 in auto)
qed

text \<open>
  C20. Finishing a page move keeps the allocator intact. When every chunk of the source class's first
  page has been cleared and the destination has a free place in its page list,
  \<open>slab_rebalance_finish\<close> moves the page (to a class, splitting it, or to the global pool, then handing
  surplus pages back to the system; that loop ends) without leaving an array or failing an assertion;
  the invariant holds with the same live chunks, whose contents do not change, and the mover is idle.
\<close>

theorem slab_rebalance_finish_ok:
  assumes inv: "slabs_inv st h s L" and cl: "s_clsid r = int a" "d_clsid r = int b" "a \<noteq> b" "a \<le> power_largest s" "b \<le> power_largest s"
    and re: "slab_reassign st" and pgs: "slab_start r = Some (slab_list (cls s a) ! 0)" "0 < unat (slabs (cls s a))" "first_page_cleared h s L a"
    and room: "unat (slabs (cls s b)) < length (slab_list (cls s b))" "(unat (slabs (cls s b)) + 1) * unat (perslab (cls s b)) < 2 ^ 32"
      "unat (sl_curr (cls s b)) + unat (perslab (cls s b)) < 2 ^ 32"
  shows "\<exists>freed h' s' r'. slab_rebalance_finish ext st h s r = Some (freed, h', s', r') \<and> slabs_inv st h' s' L \<and> (\<forall>x\<in>dom L. h' x = h x)
    \<and> slab_rebalance_signal r' = 0"
proof -
  let ?pg = "slab_list (cls s a) ! 0" let ?len = "nat (slab_page_size st)" let ?h1 = "memset0 ?pg ?len h"
  obtain s1 s2 where mv: "drop_first_page a s = Some s1" "add_page b ?pg s1 = Some s2" "slabs_inv st h s2 L" "slabs_inv st ?h1 s2 L"
    "\<And>x. x \<in> dom L \<Longrightarrow> x \<notin> {?pg..<?pg + ?len}" "\<And>k. k < unat (perslab (cls s b)) \<Longrightarrow> chunk_of s2 b (?pg + k * unat (sl_size (cls s b)))"
    "power_largest s2 = power_largest s" and eqs: "perslab (cls s2 b) = perslab (cls s b)" "sl_size (cls s2 b) = sl_size (cls s b)" "sl_curr (cls s2 b) = sl_curr (cls s b)"
    using move_page_ok [OF inv cl(3-5) re pgs(2,3) room(1,2)] by blast
  show ?thesis
  proof (cases "b = 0")
    case True
    obtain freed s4 where "memory_release st (s2\<lparr>mem_limit_reached := False\<rparr>) = Some (freed, s4)" "slabs_inv st h s4 L"
      using memory_release_ok [OF slabs_inv_flag [OF mv(3)]] by blast
    then show ?thesis using mv(1,2) True cl(1,2) pgs(1) by (auto simp: slab_rebalance_finish_def)
  next
    case False
    have b: "1 \<le> b" "b \<le> power_largest s2" using False cl(5) mv(7) by auto
    have new: "let x = ?pg + k * unat (sl_size (cls s2 b)) in it_flags (?h1 x) = 0 \<and> L x = None \<and> chunk_of s2 b x" if k: "k < unat (perslab (cls s2 b))" for k
    proof -
      let ?x = "?pg + k * unat (sl_size (cls s b))"
      have "?x \<in> {?pg..<?pg + ?len}" by (rule page_chunk_range [OF slabs_invD(1) [OF mv(3)] b k, unfolded eqs])
      then have "it_flags (?h1 ?x) = 0" "L ?x = None" using mv(5) [of ?x] by (auto simp: memset0_def zero_item_def)
      then show ?thesis using mv(6) k eqs by (simp add: Let_def)
    qed
    obtain h' s3 where sp: "split_slab_page_into_freelist ext st (unat (perslab (cls s2 b))) ?pg b ?h1 s2 = Some (h', s3)" "slabs_inv st h' s3 L" "\<forall>x\<in>dom L. h' x = ?h1 x"
      using split_listed_page [OF mv(4) b new, of ext] room(3) eqs by auto
    have "h' x = h x" if "x \<in> dom L" for x using sp(3) mv(5) [OF that] that by (auto simp: memset0_def)
    with sp(1,2) show ?thesis using mv(1,2) False cl(1,2) pgs(1) by (auto simp: slab_rebalance_finish_def)
  qed
qed

text \<open>The search for a source class.\<close>

lemma pick_any_range:
  "pick_any_loop s dst n cur = (res, cur') \<Longrightarrow> 0 \<le> cur \<Longrightarrow> cur \<le> int (power_largest s) \<Longrightarrow> 1 \<le> power_largest s \<Longrightarrow>
   0 \<le> cur' \<and> cur' \<le> int (power_largest s) \<and> (res = -1 \<or> 1 \<le> res \<and> res \<le> int (power_largest s) \<and> res \<noteq> dst \<and> 1 < slabs (cls s (nat res)))"
proof (induction n arbitrary: cur)
  case (Suc n)
  let ?c = "if cur + 1 > int (power_largest s) then 1 else cur + 1"
  have c: "1 \<le> ?c" "?c \<le> int (power_largest s)" using Suc.prems by auto
  show ?case
  proof (cases "?c \<noteq> dst \<and> slabs (cls s (nat ?c)) > 1")
    case True
    then have "res = ?c" "cur' = ?c" using Suc.prems(1) by (auto simp: Let_def split: if_splits)
    then show ?thesis using True c by simp
  next
    case False
    then have "pick_any_loop s dst n ?c = (res, cur')" using Suc.prems(1) by (simp add: Let_def split: if_splits)
    then show ?thesis using Suc.IH [of ?c] c Suc.prems(4) by simp
  qed
qed auto

text \<open>
  An accepted reassignment can start. When \<open>do_slabs_reassign\<close> answers \<open>REASSIGN_OK\<close> (for given
  classes, or with source -1, for one it picks), source and destination are different classes of the
  table, the source has a page to spare, and the mover's \<open>slab_rebalance_start\<close> accepts the move and
  takes the source's first page, unless the destination's page list cannot grow.
\<close>

theorem slabs_reassign_starts:
  assumes "slabs_inv st h s L" "0 \<le> pick_cur r" "pick_cur r \<le> int (power_largest s)" "do_slabs_reassign src dst s r = (REASSIGN_OK, r')"
  shows "0 \<le> s_clsid r' \<and> s_clsid r' \<le> int (power_largest s) \<and> 0 \<le> d_clsid r' \<and> d_clsid r' \<le> int (power_largest s) \<and> s_clsid r' \<noteq> d_clsid r'
    \<and> 2 \<le> slabs (cls s (nat (s_clsid r')))
    \<and> (\<exists>s'' r''. slab_rebalance_start True s r' = Some (0, s'', r'') \<and> slab_start r'' = Some (slab_list (cls s (nat (s_clsid r'))) ! 0) \<and> slab_rebalance_signal r'' = 2)"
proof -
  have wf: "slabs_wf st s" using slabs_invD [OF assms(1)] by auto
  have w: "length (slabclass s) = 64" "1 \<le> power_largest s" "power_largest s < 64" using slabs_wfD [OF wf] by auto
  obtain src1 r1 where p: "(if src = -1 then slabs_reassign_pick_any dst s r else (src, r)) = (src1, r1)" by fastforce
  have ne: "src \<noteq> dst" using assms(4) by (auto simp: do_slabs_reassign_def split: if_splits)
  have s1: "src1 \<noteq> dst" if "src1 \<noteq> -1"
  proof (cases "src = -1")
    case True
    define n where "n = power_largest s - 1 + 1"
    obtain cur' where "pick_any_loop s dst n (pick_cur r) = (src1, cur')"
      using p True by (cases "pick_any_loop s dst n (pick_cur r)") (auto simp: slabs_reassign_pick_any_def n_def [symmetric] simp del: pick_any_loop.simps One_nat_def)
    from pick_any_range [OF this assms(2,3) w(2)] \<open>src1 \<noteq> -1\<close> show ?thesis by blast
  qed (use p ne in auto)
  have r': "r' = r1\<lparr>s_clsid := src1, d_clsid := dst, slab_rebalance_signal := 1\<rparr>" and rng: "0 \<le> src1" "src1 \<le> int (power_largest s)" "0 \<le> dst" "dst \<le> int (power_largest s)"
    and two: "\<not> slabs (cls s (nat src1)) < 2"
    using assms(4) p by (auto simp: do_slabs_reassign_def Let_def split: if_splits)
  have neq: "src1 \<noteq> dst" using s1 rng(1) by simp
  let ?i = "nat src1" let ?c = "cls s ?i"
  have ni: "?i < 64" "nat dst < 64" "nat dst \<noteq> ?i" using rng w(3) neq by auto
  have nl: "slab_list ?c \<noteq> []" using two slabs_wfD(6) [OF wf ni(1)] by (auto simp: cls_wf_def word_less_nat_alt)
  define s2 where "s2 = snd (grow_slab_list True (nat dst) s)"
  have "fst (grow_slab_list True (nat dst) s)" "cls s2 ?i = ?c" "power_largest s2 = power_largest s"
    using ni w(1) by (simp_all add: s2_def grow_slab_list_def Let_def cls_upd)
  then have g: "grow_slab_list True (nat dst) s = (True, s2)" "cls s2 ?i = ?c" "power_largest s2 = power_largest s" unfolding s2_def by (metis prod.collapse)+
  have "slab_rebalance_start True s r' = Some (0, s2, r'\<lparr>slab_start := Some (slab_list ?c ! 0), slab_end := Some (slab_list ?c ! 0 + unat (sl_size ?c * perslab ?c)),
      slab_pos := Some (slab_list ?c ! 0), rebal_done := (if src1 = 0 then 1 else 0), slab_rebalance_signal := 2, slab_reassign_running := True\<rparr>)"
    using rng ni w two nl g neq unfolding slab_rebalance_start_def r' by (simp add: Let_def)
  then show ?thesis using rng two neq unfolding r' by (auto simp: not_less)
qed

end
