(* ===== verification/Items_Proof.thy ===== *)
theory Items_Proof
  imports Items Slabs_Proof
begin

text \<open>
  Correctness of the item layer (\<open>Items\<close>): the LRU lists, and the invariant that ties the hash table, the
  LRU lists, the allocator and the reference counts together, kept by every operation.
\<close>

section \<open>What the components below read of an item\<close>

lemma slabs_inv_cong:
  assumes inv: "slabs_inv st h s L"
    and eq: "\<And>x. L x = None \<Longrightarrow> nxt (h' x) = nxt (h x) \<and> prv (h' x) = prv (h x) \<and> it_flags (h' x) = it_flags (h x) \<and> slabs_clsid (h' x) = slabs_clsid (h x)"
  shows "slabs_inv st h' s L"
proof -
  obtain fl where fl: "free_lists h s fl" "free_owned s fl L" using slabs_invD(5) [OF inv] by blast
  have "free_ok h' (cls s i) (fl i)" if i: "1 \<le> i" "i \<le> power_largest s" for i
  proof -
    have e: "nxt (h' x) = nxt (h x) \<and> prv (h' x) = prv (h x) \<and> it_flags (h' x) = it_flags (h x) \<and> slabs_clsid (h' x) = slabs_clsid (h x)"
      if "x \<in> set (fl i)" for x by (rule eq) (use free_ownedD [OF fl(2) i] that in blast)
    note f = free_listsD(1) [OF fl(1) i]
    have "dll h' (slots (cls s i)) (fl i)" by (rule dll_cong [OF free_okD(1) [OF f]]) (use e in blast)
    with f e show ?thesis by (simp add: free_ok_def)
  qed
  then have "free_lists h' s fl" using fl(1) by (simp add: free_lists_def)
  with fl(2) slabs_invD [OF inv] show ?thesis by (auto simp: slabs_inv_def)
qed

lemma table_cong:
  assumes t: "table hf h a C"
    and eq: "\<And>x. x \<in> C \<Longrightarrow> h_next (h' x) = h_next (h x) \<and> nkey (h' x) = nkey (h x) \<and> ikey (h' x) = ikey (h x)"
  shows "table hf h' a C"
proof -
  obtain lay where l: "layout hf h a lay" and C: "C = (\<Union>l. set (lay l))" using t by (auto simp: table_def)
  have e: "h_next (h' x) = h_next (h x)" "ITEM_key (h' x) = ITEM_key (h x)" "wf_item (h' x) = wf_item (h x)" if "x \<in> set (lay l)" for x l
  proof -
    have "x \<in> C" using that C by blast
    with eq [of x] show "h_next (h' x) = h_next (h x)" "ITEM_key (h' x) = ITEM_key (h x)" "wf_item (h' x) = wf_item (h x)"
      by (auto simp: ITEM_key_def wf_item_def)
  qed
  have "chain (hnext h') p (lay l)" if "chain (hnext h) p (lay l)" for p l
    by (rule chain_cong [OF that]) (use e in simp)
  then have "valid a l \<Longrightarrow> \<exists>p. get_bucket a l = Some p \<and> chain (hnext h') p (lay l)" for l using layoutD(1) [OF l] by blast
  moreover have "distinct (map (\<lambda>x. ITEM_key (h' x)) (lay l))" for l
    using layoutD(5) [OF l, of l] e(2) by (metis (no_types, lifting) map_cong)
  ultimately have "layout hf h' a lay" using layoutD [OF l] e unfolding layout_def by simp
  with t C show ?thesis by (auto simp: table_def)
qed

section \<open>LRU lists\<close>

definition lru_ok :: "globals \<Rightarrow> cache \<Rightarrow> (u8 \<Rightarrow> nat list) \<Rightarrow> bool" where
  "lru_ok g c ls \<longleftrightarrow> (\<forall>i. dll (hp c) (heads c i) (ls i) \<and> tails c i = last_ptr (ls i) None \<and> lru_sizes c i = of_nat (length (ls i))
     \<and> sizes_bytes c i = (\<Sum>x\<leftarrow>ls i. lru_bytes g (hp c x)) \<and> (\<forall>x\<in>set (ls i). slabs_clsid (hp c x) = i))"

lemma lru_okD:
  assumes "lru_ok g c ls"
  shows "dll (hp c) (heads c i) (ls i)" "tails c i = last_ptr (ls i) None" "lru_sizes c i = of_nat (length (ls i))"
    "sizes_bytes c i = (\<Sum>x\<leftarrow>ls i. lru_bytes g (hp c x))" "x \<in> set (ls i) \<Longrightarrow> slabs_clsid (hp c x) = i" "distinct (ls i)"
  using assms by (auto simp: lru_ok_def dll_def)

lemma lru_ok_cong:
  assumes l: "lru_ok g c ls"
    and c: "heads c' = heads c" "tails c' = tails c" "lru_sizes c' = lru_sizes c" "sizes_bytes c' = sizes_bytes c"
    and h: "\<And>x i. x \<in> set (ls i) \<Longrightarrow> nxt (hp c' x) = nxt (hp c x) \<and> prv (hp c' x) = prv (hp c x) \<and> slabs_clsid (hp c' x) = slabs_clsid (hp c x)
        \<and> lru_bytes g (hp c' x) = lru_bytes g (hp c x)"
  shows "lru_ok g c' ls"
proof -
  have "dll (hp c') (heads c i) (ls i)" for i by (rule dll_cong [OF lru_okD(1) [OF l]]) (use h in blast)
  moreover have "(\<Sum>x\<leftarrow>ls i. lru_bytes g (hp c' x)) = (\<Sum>x\<leftarrow>ls i. lru_bytes g (hp c x))" for i
    by (intro arg_cong [where f = sum_list] map_cong refl) (use h in blast)
  ultimately show ?thesis using l h unfolding lru_ok_def c by simp
qed

lemma lru_bytes_same_nodes: "same_nodes h h' \<Longrightarrow> lru_bytes g (h' x) = lru_bytes g (h x)"
  by (simp add: lru_bytes_def ITEM_ntotal_def same_nodesD)

text \<open>A cache whose list \<open>i\<close> is replaced, the others left alone.\<close>

lemma lru_ok_upd:
  assumes l: "lru_ok g c ls"
    and i: "dll (hp c') (heads c' i) xs" "tails c' i = last_ptr xs None" "lru_sizes c' i = of_nat (length xs)"
      "sizes_bytes c' i = (\<Sum>x\<leftarrow>xs. lru_bytes g (hp c x))" "\<And>x. x \<in> set xs \<Longrightarrow> slabs_clsid (hp c x) = i"
    and j: "\<And>j. j \<noteq> i \<Longrightarrow> heads c' j = heads c j \<and> tails c' j = tails c j \<and> lru_sizes c' j = lru_sizes c j \<and> sizes_bytes c' j = sizes_bytes c j"
    and sn: "same_nodes (hp c) (hp c')" and fr: "\<And>x. slabs_clsid (hp c x) \<noteq> i \<Longrightarrow> hp c' x = hp c x"
  shows "lru_ok g c' (ls(i := xs))"
proof -
  note nb = lru_bytes_same_nodes [OF sn]
  have "dll (hp c') (heads c' k) ((ls(i := xs)) k) \<and> tails c' k = last_ptr ((ls(i := xs)) k) None \<and> lru_sizes c' k = of_nat (length ((ls(i := xs)) k))
     \<and> sizes_bytes c' k = (\<Sum>x\<leftarrow>(ls(i := xs)) k. lru_bytes g (hp c' x)) \<and> (\<forall>x\<in>set ((ls(i := xs)) k). slabs_clsid (hp c' x) = k)" for k
  proof (cases "k = i")
    case True
    then show ?thesis using i by (simp add: nb same_nodesD [OF sn])
  next
    case False
    have "hp c' x = hp c x" if "x \<in> set (ls k)" for x by (rule fr) (use lru_okD(5) [OF l that] False in simp)
    then have "dll (hp c') (heads c k) (ls k)" by (intro dll_cong [OF lru_okD(1) [OF l]]) simp
    then show ?thesis using False j [OF False] lru_okD [OF l, where i = k] by (simp add: nb same_nodesD [OF sn])
  qed
  then show ?thesis unfolding lru_ok_def by blast
qed

text \<open>What the list operations leave alone.\<close>

definition q_frame :: "cache \<Rightarrow> cache \<Rightarrow> bool" where
  "q_frame c c' \<longleftrightarrow> (\<exists>h hs ts n b. c' = c\<lparr>hp := h, heads := hs, tails := ts, lru_sizes := n, sizes_bytes := b\<rparr>)"

lemma do_item_link_q_ok:
  assumes l: "lru_ok g c ls" and it: "it \<notin> set (ls (slabs_clsid (hp c it)))" "\<not> has_flag (it_flags (hp c it)) ITEM_SLABBED"
  defines "i \<equiv> slabs_clsid (hp c it)"
  shows "\<exists>c'. do_item_link_q g it c = Some c' \<and> lru_ok g c' (ls(i := it # ls i)) \<and> same_nodes (hp c) (hp c') \<and> q_frame c c'
    \<and> (\<forall>x. x \<noteq> it \<and> x \<notin> set (ls i) \<longrightarrow> hp c' x = hp c x)"
proof -
  note d = lru_okD [OF l, where i = i]
  let ?c = "c\<lparr>hp := push_front it (heads c i) (hp c), heads := (heads c)(i := Some it),
                      tails := (tails c)(i := (if tails c i = None then Some it else tails c i)),
                      lru_sizes := (lru_sizes c)(i := lru_sizes c i + 1),
                      sizes_bytes := (sizes_bytes c)(i := sizes_bytes c i + lru_bytes g (hp c it))\<rparr>"
  have hd: "heads c i = first_ptr (ls i) None" using d(1) by (simp add: dll_def)
  have "heads c i \<noteq> Some it" using hd first_ptr_in it(1) by (auto simp: i_def)
  then have e: "do_item_link_q g it c = Some ?c" using it(2) hd d(2) unfolding do_item_link_q_def i_def [symmetric] by (simp add: Let_def)
  have fr: "push_front it (heads c i) (hp c) x = hp c x" if "x \<noteq> it" "x \<notin> set (ls i)" for x by (rule push_front_other [OF d(1) that])
  have "lru_ok g ?c (ls(i := it # ls i))"
  proof (rule lru_ok_upd [OF l])
    show "dll (hp ?c) (heads ?c i) (it # ls i)" using push_front_dll [OF d(1)] it(1) by (simp add: i_def)
    show "tails ?c i = last_ptr (it # ls i) None" using d(2) by (cases "ls i") (auto simp: last_ptr_def)
    show "same_nodes (hp c) (hp ?c)" by (simp add: same_nodes_push)
    show "hp ?c x = hp c x" if "slabs_clsid (hp c x) \<noteq> i" for x using fr [of x] that d(5) by (auto simp: i_def)
    show "slabs_clsid (hp c x) = i" if "x \<in> set (it # ls i)" for x using that d(5) by (auto simp: i_def)
  qed (use d(3,4) in \<open>auto simp: add.commute\<close>)
  moreover have "q_frame c ?c" unfolding q_frame_def by blast
  ultimately show ?thesis using e fr same_nodes_push [of "hp c"] by (intro exI [of _ ?c]) simp
qed

lemma do_item_unlink_q_ok:
  assumes l: "lru_ok g c ls" and it: "ls (slabs_clsid (hp c it)) = xs @ it # ys"
  defines "i \<equiv> slabs_clsid (hp c it)"
  shows "\<exists>c'. do_item_unlink_q g it c = Some c' \<and> lru_ok g c' (ls(i := xs @ ys)) \<and> same_nodes (hp c) (hp c') \<and> q_frame c c'
    \<and> (\<forall>x. x \<notin> set (xs @ ys) \<longrightarrow> hp c' x = hp c x)"
proof -
  note d = lru_okD [OF l, where i = i, unfolded i_def it, folded i_def]
  note k = cut_out_links [OF d(1)]
  let ?n = "nxt (hp c it)" and ?p = "prv (hp c it)"
  let ?c = "c\<lparr>hp := cut_out it (hp c), heads := (heads c)(i := (if heads c i = Some it then ?n else heads c i)),
              tails := (tails c)(i := (if tails c i = Some it then ?p else tails c i)),
              lru_sizes := (lru_sizes c)(i := lru_sizes c i - 1), sizes_bytes := (sizes_bytes c)(i := sizes_bytes c i - lru_bytes g (hp c it))\<rparr>"
  have ni: "it \<notin> set xs" "it \<notin> set ys" using d(6) by auto
  have t: "tails c i = Some it \<longleftrightarrow> ys = []" using d(2) ni by (auto simp: last_ptr_def)
  have ne: "?n \<noteq> Some it" "?p \<noteq> Some it" using k(1,2) ni first_ptr_in last_ptr_in by fastforce+
  have e: "do_item_unlink_q g it c = Some ?c"
    using k t ne unfolding do_item_unlink_q_def i_def [symmetric] by (auto simp: Let_def)
  have fr: "cut_out it (hp c) x = hp c x" if "x \<notin> set (xs @ ys)" for x by (rule cut_out_other [OF d(1)]) (use that in auto)
  have "lru_ok g ?c (ls(i := xs @ ys))"
  proof (rule lru_ok_upd [OF l])
    show "dll (hp ?c) (heads ?c i) (xs @ ys)" using cut_out_dll [OF d(1)] by simp
    show "tails ?c i = last_ptr (xs @ ys) None" using d(2) t k(2) by (auto simp: last_ptr_def)
    show "same_nodes (hp c) (hp ?c)" by (simp add: same_nodes_cut)
    show "hp ?c x = hp c x" if "slabs_clsid (hp c x) \<noteq> i" for x using fr [of x] that d(5) by auto
    show "slabs_clsid (hp c x) = i" if "x \<in> set (xs @ ys)" for x using that d(5) by auto
  qed (use d(3,4) in \<open>auto simp: algebra_simps\<close>)
  moreover have "q_frame c ?c" unfolding q_frame_def by blast
  ultimately show ?thesis using e fr same_nodes_cut [of "hp c"] by (intro exI [of _ ?c]) simp
qed

section \<open>The invariant of the cache\<close>

text \<open>
  \<open>C\<close> are the linked items, \<open>D\<close> those of them that are between two LRU lists, \<open>L\<close> the live chunks, and
  \<open>R\<close> counts the references held outside the table. An item is live as long as it is linked or
  referenced. \<open>K\<close> are the chunk sizes, which no operation changes.
\<close>

definition classes :: "slabs \<Rightarrow> nat \<times> u32 list" where
  "classes s = (power_largest s, map sl_size (slabclass s))"

lemma classes_upd:
  assumes "\<And>p. sl_size (f p) = sl_size p"
  shows "classes (upd_cls i f s) = classes s"
  by (cases "i < length (slabclass s)") (auto simp: classes_def upd_cls_def assms map_update list_update_same_conv list_update_beyond)

lemma classes_free:
  assumes "do_slabs_free ext st x sz i h s = Some (h', s')" "\<not> has_flag (it_flags (h x)) ITEM_CHUNKED"
  shows "classes s' = classes s"
  using assms by (auto simp: do_slabs_free_def free_push_def sub_requested_def Let_def classes_upd split: if_splits)

definition hist_ok :: "cache \<Rightarrow> bool" where
  "hist_ok c \<longleftrightarrow> (\<forall>h. stats_sizes_hist c = Some h \<longrightarrow> int (length h) = stats_sizes_buckets c)"

definition item_ok :: "item \<Rightarrow> bool \<Rightarrow> nat \<times> u64 \<Rightarrow> nat \<Rightarrow> bool" where
  "item_ok it linked l r \<longleftrightarrow> has_flag (it_flags it) ITEM_LINKED = linked \<and> \<not> has_flag (it_flags it) ITEM_SLABBED \<and> plain it \<and> wf_item it \<and> 2 \<le> nbytes it
     \<and> unat (refcount it) = (if linked then 1 else 0) + r \<and> (linked \<or> 0 < r) \<and> l = (unat (ITEM_clsid it), ITEM_ntotal it)"

definition cache_inv :: "globals \<Rightarrow> nat \<times> u32 list \<Rightarrow> cache \<Rightarrow> nat set \<Rightarrow> nat set \<Rightarrow> live \<Rightarrow> (nat \<Rightarrow> nat) \<Rightarrow> bool" where
  "cache_inv g K c C D L R \<longleftrightarrow> table (hash g) (hp c) (tab c) C \<and> slabs_inv (slab_set g) (hp c) (slb c) L
     \<and> (\<exists>ls. lru_ok g c ls \<and> (\<Union>i. set (ls i)) = C - D) \<and> C \<subseteq> dom L \<and> D \<subseteq> C
     \<and> (\<forall>x l. L x = Some l \<longrightarrow> item_ok (hp c x) (x \<in> C) l (R x)) \<and> (\<forall>x. L x = None \<longrightarrow> R x = 0)
     \<and> curr_items c = of_nat (card C) \<and> curr_bytes c = (\<Sum>x\<in>C. ITEM_ntotal (hp c x)) \<and> hist_ok c
     \<and> classes (slb c) = K"

lemma cache_invD:
  assumes "cache_inv g K c C D L R"
  shows "table (hash g) (hp c) (tab c) C" "slabs_inv (slab_set g) (hp c) (slb c) L" "\<exists>ls. lru_ok g c ls \<and> (\<Union>i. set (ls i)) = C - D"
    "C \<subseteq> dom L" "D \<subseteq> C" "L x = Some l \<Longrightarrow> item_ok (hp c x) (x \<in> C) l (R x)" "L x = None \<Longrightarrow> R x = 0"
    "curr_items c = of_nat (card C)" "curr_bytes c = (\<Sum>x\<in>C. ITEM_ntotal (hp c x))" "hist_ok c" "classes (slb c) = K"
  using assms unfolding cache_inv_def by blast+

lemma cache_inv_finite: "cache_inv g K c C D L R \<Longrightarrow> finite C"
proof -
  assume inv: "cache_inv g K c C D L R"
  have "finite (dom L)" using slabs_invD(3) [OF cache_invD(2) [OF inv]] by (simp add: live_ok_def)
  with cache_invD(4) [OF inv] show ?thesis by (rule finite_subset)
qed

lemma item_okD:
  assumes "item_ok it linked l r"
  shows "has_flag (it_flags it) ITEM_LINKED = linked" "\<not> has_flag (it_flags it) ITEM_SLABBED" "plain it" "wf_item it" "2 \<le> nbytes it"
    "unat (refcount it) = (if linked then 1 else 0) + r" "0 < unat (refcount it)" "l = (unat (ITEM_clsid it), ITEM_ntotal it)"
  using assms by (auto simp: item_ok_def)

text \<open>Live items: linked or referenced.\<close>

lemma live_iff:
  assumes inv: "cache_inv g K c C D L R"
  shows "L x \<noteq> None \<longleftrightarrow> x \<in> C \<or> 0 < R x"
proof (cases "L x")
  case None
  then show ?thesis using cache_invD(7) [OF inv None] cache_invD(4) [OF inv] by auto
next
  case (Some l)
  then show ?thesis using item_okD(6,7) [OF cache_invD(6) [OF inv Some]] by (auto split: if_splits)
qed

text \<open>The counters and the page mover's state are not part of the invariant.\<close>

lemma cache_inv_upd_is [simp]: "cache_inv g K (upd_is i f c) C D L R = cache_inv g K c C D L R"
  "cache_inv g K (c\<lparr>rbl := r\<rparr>) C D L R = cache_inv g K c C D L R"
  by (simp_all add: cache_inv_def lru_ok_def hist_ok_def upd_is_def)

lemma upd_is_simps [simp]: "hp (upd_is i f c) = hp c" "tab (upd_is i f c) = tab c" "slb (upd_is i f c) = slb c" "heads (upd_is i f c) = heads c" "tails (upd_is i f c) = tails c"
  "rbl (upd_is i f c) = rbl c" "lru_sizes (upd_is i f c) = lru_sizes c" "sizes_bytes (upd_is i f c) = sizes_bytes c"
  by (simp_all add: upd_is_def)

lemma upd_it_simps [simp]: "hp (upd_it x f c) = (hp c)(x := f (hp c x))" "tab (upd_it x f c) = tab c" "slb (upd_it x f c) = slb c" "heads (upd_it x f c) = heads c"
  "tails (upd_it x f c) = tails c" "rbl (upd_it x f c) = rbl c" "lru_sizes (upd_it x f c) = lru_sizes c" "sizes_bytes (upd_it x f c) = sizes_bytes c"
  "curr_bytes (upd_it x f c) = curr_bytes c" "curr_items (upd_it x f c) = curr_items c" "stats_sizes_hist (upd_it x f c) = stats_sizes_hist c"
  "stats_sizes_buckets (upd_it x f c) = stats_sizes_buckets c"
  by (simp_all add: upd_it_def)

text \<open>The part of an item that its clients see.\<close>

definition pay :: "item \<Rightarrow> u8 \<times> byte list \<times> int \<times> u32 \<times> byte list \<times> u64 \<times> u32" where
  "pay it = (nkey it, ikey it, nbytes it, cflags it, idata it, cas it, exptime it)"

text \<open>An operation on \<open>x\<close> keeps what clients see of every live item, and the other items altogether but for links.\<close>

definition kept :: "nat \<Rightarrow> live \<Rightarrow> heap \<Rightarrow> heap \<Rightarrow> bool" where
  "kept x L h h' \<longleftrightarrow> (\<forall>y. L y \<noteq> None \<longrightarrow> pay (h' y) = pay (h y)
     \<and> (y \<noteq> x \<longrightarrow> time (h' y) = time (h y) \<and> it_flags (h' y) = it_flags (h y) \<and> slabs_clsid (h' y) = slabs_clsid (h y)))"

lemma kept_refl [simp]: "kept x L h h"
  by (simp add: kept_def)

lemma kept_trans: "kept x L h h' \<Longrightarrow> kept x L h' h'' \<Longrightarrow> kept x L h h''"
  by (simp add: kept_def)

lemma kept_mono: "kept x L h h' \<Longrightarrow> (\<And>x. L' x \<noteq> None \<Longrightarrow> L x \<noteq> None) \<Longrightarrow> kept x L' h h'"
  by (simp add: kept_def)

lemma kept_same_nodes: "same_nodes h h' \<Longrightarrow> kept x L h h'"
  by (simp add: kept_def pay_def same_nodesD)

lemma kept_upd: "pay it = pay (h x) \<Longrightarrow> kept x L h (h(x := it))"
  by (simp add: kept_def)

lemma pay_key: "pay it' = pay it \<Longrightarrow> ITEM_key it' = ITEM_key it"
  by (simp add: pay_def ITEM_key_def)

text \<open>Writes to one live item.\<close>

definition same_flags :: "item \<Rightarrow> item \<Rightarrow> bool" where
  "same_flags i i' \<longleftrightarrow> (\<forall>f\<in>{ITEM_LINKED, ITEM_CAS, ITEM_SLABBED, ITEM_CHUNKED, ITEM_HDR, ITEM_CFLAGS}. has_flag (it_flags i') f = has_flag (it_flags i) f)"

lemma ntotal_same_flags: "same_flags i i' \<Longrightarrow> nkey i' = nkey i \<Longrightarrow> nbytes i' = nbytes i \<Longrightarrow> ITEM_ntotal i' = ITEM_ntotal i \<and> lru_bytes g i' = lru_bytes g i"
  by (simp add: same_flags_def ITEM_ntotal_def lru_bytes_def)

lemma cache_inv_write:
  assumes inv: "cache_inv g K c C D L R" and x: "L x \<noteq> None"
    and f: "same_flags (hp c x) (f (hp c x))" "nkey (f (hp c x)) = nkey (hp c x)" "ikey (f (hp c x)) = ikey (hp c x)" "nbytes (f (hp c x)) = nbytes (hp c x)"
      "ITEM_clsid (f (hp c x)) = ITEM_clsid (hp c x)"
    and q: "x \<in> C - D \<Longrightarrow> nxt (f (hp c x)) = nxt (hp c x) \<and> prv (f (hp c x)) = prv (hp c x) \<and> slabs_clsid (f (hp c x)) = slabs_clsid (hp c x)"
    and hn: "x \<in> C \<Longrightarrow> h_next (f (hp c x)) = h_next (hp c x)"
    and r: "unat (refcount (f (hp c x))) = (if x \<in> C then 1 else 0) + r" "0 < unat (refcount (f (hp c x)))"
  shows "cache_inv g K (upd_it x f c) C D L (R(x := r))"
proof -
  let ?c = "upd_it x f c"
  have nt: "ITEM_ntotal (f (hp c x)) = ITEM_ntotal (hp c x) \<and> lru_bytes g (f (hp c x)) = lru_bytes g (hp c x)" by (rule ntotal_same_flags [OF f(1,2,4)])
  obtain ls where ls: "lru_ok g c ls" "(\<Union>i. set (ls i)) = C - D" using cache_invD(3) [OF inv] by blast
  have "lru_ok g ?c ls"
  proof (rule lru_ok_cong [OF ls(1)])
    fix y i assume "y \<in> set (ls i)"
    then have "y \<in> C - D" using ls(2) by blast
    then show "nxt (hp ?c y) = nxt (hp c y) \<and> prv (hp ?c y) = prv (hp c y) \<and> slabs_clsid (hp ?c y) = slabs_clsid (hp c y) \<and> lru_bytes g (hp ?c y) = lru_bytes g (hp c y)"
      using q nt by (cases "y = x") auto
  qed simp_all
  moreover have "table (hash g) (hp ?c) (tab ?c) C" unfolding upd_it_simps by (rule table_cong [OF cache_invD(1) [OF inv]]) (use f hn in auto)
  moreover have "slabs_inv (slab_set g) (hp ?c) (slb ?c) L" using slabs_inv_write [OF cache_invD(2) [OF inv] x] by simp
  moreover have "item_ok (hp ?c y) (y \<in> C) l ((R(x := r)) y)" if "L y = Some l" for y l
  proof (cases "y = x")
    case True
    note i = item_okD [OF cache_invD(6) [OF inv that]]
    have "x \<in> C \<or> 0 < r" using r by (auto split: if_splits)
    then show ?thesis using i f r nt True unfolding item_ok_def by (simp add: same_flags_def plain_def wf_item_def)
  qed (use cache_invD(6) [OF inv that] in simp)
  moreover have "(\<Sum>y\<in>C. ITEM_ntotal (hp ?c y)) = (\<Sum>y\<in>C. ITEM_ntotal (hp c y))" by (rule sum.cong) (use nt in auto)
  moreover have "hist_ok ?c" using cache_invD(10) [OF inv] by (simp add: hist_ok_def)
  ultimately show ?thesis using ls(2) cache_invD(4,5,7,8,9,11) [OF inv] x unfolding cache_inv_def by (auto simp del: upd_it_simps(1))
qed

text \<open>Writes that keep the links and the reference count, and a new reference.\<close>

lemma cache_inv_touch:
  assumes inv: "cache_inv g K c C D L R" and x: "L x \<noteq> None"
    and f: "same_flags (hp c x) (f (hp c x))" "\<And>i. nkey (f i) = nkey i \<and> ikey (f i) = ikey i \<and> nbytes (f i) = nbytes i \<and> slabs_clsid (f i) = slabs_clsid i
      \<and> nxt (f i) = nxt i \<and> prv (f i) = prv i \<and> h_next (f i) = h_next i \<and> refcount (f i) = refcount i"
  shows "cache_inv g K (upd_it x f c) C D L R"
proof -
  obtain l where "L x = Some l" using x by blast
  note i = item_okD [OF cache_invD(6) [OF inv this]]
  have "cache_inv g K (upd_it x f c) C D L (R(x := R x))"
    by (rule cache_inv_write [where f = f, OF inv x f(1)]) (use f(2) i in \<open>simp_all add: ITEM_clsid_def\<close>)
  then show ?thesis by simp
qed

lemma cache_inv_incr:
  assumes inv: "cache_inv g K c C D L R" and x: "L x \<noteq> None" and r: "R x < 65534"
  shows "cache_inv g K (upd_it x (\<lambda>i. i\<lparr>refcount := refcount i + 1\<rparr>) c) C D L (R(x := R x + 1))"
proof -
  obtain l where "L x = Some l" using x by blast
  note i = item_okD [OF cache_invD(6) [OF inv this]]
  have "unat (refcount (hp c x) + 1) = unat (refcount (hp c x)) + 1" using i(6) r by (subst unat_add_no_wrap) (auto split: if_splits)
  then show ?thesis by (intro cache_inv_write [where f = "\<lambda>i. i\<lparr>refcount := refcount i + 1\<rparr>", OF inv x]) (use i(6) in \<open>simp_all add: same_flags_def ITEM_clsid_def\<close>)
qed

section \<open>Moving between LRU lists\<close>

lemma q_frameD:
  assumes "q_frame c c'"
  shows "tab c' = tab c" "slb c' = slb c" "rbl c' = rbl c" "curr_items c' = curr_items c" "curr_bytes c' = curr_bytes c" "hist_ok c' = hist_ok c"
    "stats_sizes_hist c' = stats_sizes_hist c" "stats_sizes_buckets c' = stats_sizes_buckets c"
  using assms by (auto simp: q_frame_def hist_ok_def)

text \<open>The invariant after a change of the lists: only links of listed items are written.\<close>

lemma cache_inv_q:
  assumes inv: "cache_inv g K c C D L R" and l: "lru_ok g c' ls" "(\<Union>i. set (ls i)) = C - D'" "D' \<subseteq> C"
    and f: "same_nodes (hp c) (hp c')" "q_frame c c'" and fr: "\<And>x. x \<notin> C \<Longrightarrow> hp c' x = hp c x"
  shows "cache_inv g K c' C D' L R"
proof -
  note sn = same_nodesD [OF f(1)]
  have "table (hash g) (hp c') (tab c') C" unfolding q_frameD [OF f(2)] by (rule table_cong [OF cache_invD(1) [OF inv]]) (simp add: sn)
  moreover have "slabs_inv (slab_set g) (hp c') (slb c') L" unfolding q_frameD [OF f(2)]
  proof (rule slabs_inv_cong [OF cache_invD(2) [OF inv]])
    fix x assume "L x = None"
    then have "x \<notin> C" using cache_invD(4) [OF inv] by blast
    then show "nxt (hp c' x) = nxt (hp c x) \<and> prv (hp c' x) = prv (hp c x) \<and> it_flags (hp c' x) = it_flags (hp c x) \<and> slabs_clsid (hp c' x) = slabs_clsid (hp c x)"
      using fr by simp
  qed
  moreover have "item_ok (hp c' x) (x \<in> C) k (R x)" if "L x = Some k" for x k
    using cache_invD(6) [OF inv that] unfolding item_ok_def plain_def wf_item_def ITEM_clsid_def ITEM_ntotal_def sn .
  moreover have "(\<Sum>x\<in>C. ITEM_ntotal (hp c' x)) = (\<Sum>x\<in>C. ITEM_ntotal (hp c x))" by (simp add: sn ITEM_ntotal_def)
  ultimately show ?thesis using l cache_invD(4,7-11) [OF inv] unfolding cache_inv_def q_frameD [OF f(2)] by auto
qed

lemma cache_link_q:
  assumes inv: "cache_inv g K c C D L R" and x: "x \<in> D"
  obtains c' where "do_item_link_q g x c = Some c'" "cache_inv g K c' C (D - {x}) L R" "same_nodes (hp c) (hp c')" "q_frame c c'"
proof -
  obtain ls where ls: "lru_ok g c ls" "(\<Union>i. set (ls i)) = C - D" using cache_invD(3) [OF inv] by blast
  have xC: "x \<in> C" using x cache_invD(5) [OF inv] by blast
  obtain l where "L x = Some l" using xC cache_invD(4) [OF inv] by blast
  note i = item_okD [OF cache_invD(6) [OF inv this]]
  let ?i = "slabs_clsid (hp c x)"
  have nl: "x \<notin> set (ls ?i)" using ls(2) x by blast
  obtain c' where c': "do_item_link_q g x c = Some c'" "lru_ok g c' (ls(?i := x # ls ?i))" "same_nodes (hp c) (hp c')" "q_frame c c'"
    "\<forall>y. y \<noteq> x \<and> y \<notin> set (ls ?i) \<longrightarrow> hp c' y = hp c y"
    using do_item_link_q_ok [OF ls(1) nl i(2)] by blast
  have "(\<Union>i. set ((ls(?i := x # ls ?i)) i)) = insert x (\<Union>i. set (ls i))" by (auto split: if_splits)
  then have u: "(\<Union>i. set ((ls(?i := x # ls ?i)) i)) = C - (D - {x})" using ls(2) xC by auto
  have "cache_inv g K c' C (D - {x}) L R"
  proof (rule cache_inv_q [OF inv c'(2) u _ c'(3,4)])
    show "hp c' y = hp c y" if "y \<notin> C" for y
    proof -
      have "y \<noteq> x" "y \<notin> set (ls ?i)" using that xC ls(2) by blast+
      then show ?thesis using c'(5) by blast
    qed
  qed (use cache_invD(5) [OF inv] in auto)
  with c' show thesis using that by blast
qed

lemma cache_unlink_q:
  assumes inv: "cache_inv g K c C D L R" and x: "x \<in> C - D"
  obtains c' where "do_item_unlink_q g x c = Some c'" "cache_inv g K c' C (insert x D) L R" "same_nodes (hp c) (hp c')" "q_frame c c'"
proof -
  obtain ls where ls: "lru_ok g c ls" "(\<Union>i. set (ls i)) = C - D" using cache_invD(3) [OF inv] by blast
  let ?i = "slabs_clsid (hp c x)"
  obtain j where "x \<in> set (ls j)" using ls(2) x by blast
  then have xi: "x \<in> set (ls ?i)" using lru_okD(5) [OF ls(1)] by blast
  then obtain xs ys where xy: "ls ?i = xs @ x # ys" by (meson split_list)
  obtain c' where c': "do_item_unlink_q g x c = Some c'" "lru_ok g c' (ls(?i := xs @ ys))" "same_nodes (hp c) (hp c')" "q_frame c c'"
    "\<forall>y. y \<notin> set (xs @ ys) \<longrightarrow> hp c' y = hp c y"
    using do_item_unlink_q_ok [OF ls(1) xy] by blast
  have s: "set (xs @ ys) = set (ls ?i) - {x}" using lru_okD(6) [OF ls(1), of ?i] xy by auto
  have "x \<notin> set (ls k)" if "k \<noteq> ?i" for k using lru_okD(5) [OF ls(1)] that by blast
  then have "(\<Union>i. set ((ls(?i := xs @ ys)) i)) = (\<Union>i. set (ls i)) - {x}" using s by (auto split: if_splits)
  then have u: "(\<Union>i. set ((ls(?i := xs @ ys)) i)) = C - insert x D" using ls(2) by auto
  have "cache_inv g K c' C (insert x D) L R"
  proof (rule cache_inv_q [OF inv c'(2) u _ c'(3,4)])
    show "hp c' y = hp c y" if "y \<notin> C" for y using c'(5) s that ls(2) by blast
  qed (use x cache_invD(5) [OF inv] in auto)
  with c' show thesis using that by blast
qed

section \<open>Releasing a reference\<close>

lemma drop_in_C: "cache_inv g K c C D L R \<Longrightarrow> x \<notin> C \<Longrightarrow> heads c i \<noteq> Some x \<and> tails c i \<noteq> Some x"
proof -
  assume inv: "cache_inv g K c C D L R" and x: "x \<notin> C"
  obtain ls where ls: "lru_ok g c ls" "(\<Union>i. set (ls i)) = C - D" using cache_invD(3) [OF inv] by blast
  have "x \<notin> set (ls i)" using ls(2) x by blast
  moreover have "heads c i = first_ptr (ls i) None" "tails c i = last_ptr (ls i) None" using lru_okD(1,2) [OF ls(1), where i = i] by (auto simp: dll_def)
  ultimately show ?thesis using first_ptr_in last_ptr_in by metis
qed

text \<open>The live chunks after a reference to \<open>x\<close> is given up.\<close>

definition drop_live :: "nat \<Rightarrow> nat set \<Rightarrow> live \<Rightarrow> (nat \<Rightarrow> nat) \<Rightarrow> live" where
  "drop_live x C L R = (if x \<notin> C \<and> R x = 1 then L(x := None) else L)"

lemma cache_free:
  assumes inv: "cache_inv g K c C D L R" and x: "x \<notin> C" "R x = 1"
  defines "c0 \<equiv> upd_it x (\<lambda>i. i\<lparr>refcount := 0\<rparr>) c"
  obtains c' where "item_free g x c0 = Some c'" "cache_inv g K c' C D (L(x := None)) (R(x := 0))" "\<forall>y. L y \<noteq> None \<and> y \<noteq> x \<longrightarrow> hp c' y = hp c y"
proof -
  obtain l where Lx: "L x = Some l" using live_iff [OF inv, of x] x by auto
  note i = item_okD [OF cache_invD(6) [OF inv Lx]]
  let ?h = "hp c0"
  have h: "?h = (hp c)(x := (hp c x)\<lparr>refcount := 0\<rparr>)" by (simp add: c0_def)
  have nt: "ITEM_ntotal (?h x) = ITEM_ntotal (hp c x)" "ITEM_clsid (?h x) = ITEM_clsid (hp c x)" by (simp_all add: h ITEM_ntotal_def ITEM_clsid_def)
  have Lx': "L x = Some (unat (ITEM_clsid (?h x)), ITEM_ntotal (?h x))" using Lx i(8) nt by simp
  have sl: "slabs_inv (slab_set g) ?h (slb c) L" unfolding h by (rule slabs_inv_write [OF cache_invD(2) [OF inv]]) (use Lx in simp)
  have "plain (?h x)" using i(3) by (simp add: h plain_def)
  then obtain h' s' where f: "do_slabs_free (extstore g) (slab_set g) x (ITEM_ntotal (?h x)) (unat (ITEM_clsid (?h x))) ?h (slb c) = Some (h', s')"
    "slabs_inv (slab_set g) h' s' (L(x := None))" "\<forall>y\<in>dom L - {x}. h' y = ?h y"
    using slab.free_law [OF sl Lx', where ext = "extstore g"] by blast
  have fr: "h' y = hp c y" if "L y \<noteq> None" "y \<noteq> x" for y using f(3) that by (auto simp: h)
  have frC: "h' y = hp c y" if "y \<in> C" for y by (rule fr) (use that x cache_invD(4) [OF inv] in auto)
  let ?c = "c0\<lparr>hp := h', slb := s'\<rparr>"
  have "item_free g x c0 = Some ?c"
    using i(1) x drop_in_C [OF inv x(1)] f(1) unfolding item_free_def by (simp add: c0_def Let_def)
  moreover have "cache_inv g K ?c C D (L(x := None)) (R(x := 0))"
  proof -
    obtain ls where ls: "lru_ok g c ls" "(\<Union>i. set (ls i)) = C - D" using cache_invD(3) [OF inv] by blast
    have "lru_ok g ?c ls"
    proof (rule lru_ok_cong [OF ls(1)])
      fix y i assume "y \<in> set (ls i)"
      then have "hp ?c y = hp c y" using frC ls(2) by auto
      then show "nxt (hp ?c y) = nxt (hp c y) \<and> prv (hp ?c y) = prv (hp c y) \<and> slabs_clsid (hp ?c y) = slabs_clsid (hp c y) \<and> lru_bytes g (hp ?c y) = lru_bytes g (hp c y)"
        by simp
    qed (simp_all add: c0_def)
    moreover have "table (hash g) (hp ?c) (tab ?c) C"
    proof -
      have "table (hash g) h' (tab c) C" by (rule table_cong [OF cache_invD(1) [OF inv]]) (use frC in simp)
      then show ?thesis by (simp add: c0_def)
    qed
    moreover have "item_ok (hp ?c y) (y \<in> C) k ((R(x := 0)) y)" if "(L(x := None)) y = Some k" for y k
    proof -
      have "y \<noteq> x" "L y = Some k" using that by (auto split: if_splits)
      then show ?thesis using cache_invD(6) [OF inv, of y k] fr [of y] by simp
    qed
    moreover have "(\<Sum>y\<in>C. ITEM_ntotal (hp ?c y)) = (\<Sum>y\<in>C. ITEM_ntotal (hp c y))" by (rule sum.cong) (use frC in auto)
    moreover have "hist_ok ?c" using cache_invD(10) [OF inv] by (simp add: hist_ok_def c0_def)
    moreover have "classes s' = K" using classes_free [OF f(1)] \<open>plain (?h x)\<close> cache_invD(11) [OF inv] by (simp add: plain_def)
    moreover have "curr_items ?c = curr_items c" "curr_bytes ?c = curr_bytes c" by (simp_all add: c0_def)
    ultimately show ?thesis using f(2) ls(2) x(1) cache_invD(4,5,7,8,9) [OF inv] unfolding cache_inv_def by auto
  qed
  ultimately show thesis using that fr by simp
qed

lemma cache_remove:
  assumes inv: "cache_inv g K c C D L R" and x: "0 < R x"
  obtains c' where "do_item_remove g x c = Some c'" "cache_inv g K c' C D (drop_live x C L R) (R(x := R x - 1))" "kept x (drop_live x C L R) (hp c) (hp c')"
proof -
  have "L x \<noteq> None" using live_iff [OF inv, of x] x by auto
  then obtain l where Lx: "L x = Some l" by blast
  note i = item_okD [OF cache_invD(6) [OF inv Lx]]
  let ?c = "upd_it x (\<lambda>i. i\<lparr>refcount := refcount i - 1\<rparr>) c"
  have u: "unat (refcount (hp c x) - 1) = unat (refcount (hp c x)) - 1" using i(7) by (subst unat_sub_no_wrap) auto
  have e: "do_item_remove g x c = (if refcount (hp c x) - 1 = 0 then item_free g x ?c else Some ?c)"
    using i(2,7) unfolding do_item_remove_def by (auto simp: Let_def)
  show thesis
  proof (cases "x \<notin> C \<and> R x = 1")
    case True
    then have "unat (refcount (hp c x) - 1) = 0" using u i(6) by simp
    then have z: "refcount (hp c x) - 1 = 0" by (simp only: unat_eq_0)
    have "?c = upd_it x (\<lambda>i. i\<lparr>refcount := 0\<rparr>) c" using z by (simp add: upd_it_def)
    then have e': "do_item_remove g x c = item_free g x (upd_it x (\<lambda>i. i\<lparr>refcount := 0\<rparr>) c)" using e z by simp
    from True have x': "x \<notin> C" "R x = 1" by auto
    obtain c' where c': "do_item_remove g x c = Some c'" "cache_inv g K c' C D (L(x := None)) (R(x := 0))" "\<forall>y. L y \<noteq> None \<and> y \<noteq> x \<longrightarrow> hp c' y = hp c y"
      unfolding e' by (rule cache_free [OF inv x'])
    moreover have "kept x (L(x := None)) (hp c) (hp c')" using c'(3) by (simp add: kept_def)
    ultimately show thesis using that True by (simp add: drop_live_def)
  next
    case False
    then have "unat (refcount (hp c x) - 1) \<noteq> 0" using u i(6) x by (auto split: if_splits)
    then have "refcount (hp c x) - 1 \<noteq> 0" by (metis unat_0)
    moreover have "cache_inv g K ?c C D L (R(x := R x - 1))"
    proof (rule cache_inv_write [where f = "\<lambda>i. i\<lparr>refcount := refcount i - 1\<rparr>", OF inv \<open>L x \<noteq> None\<close>])
      show "unat (refcount ((hp c x)\<lparr>refcount := refcount (hp c x) - 1\<rparr>)) = (if x \<in> C then 1 else 0) + (R x - 1)" using u i(6) x by simp
      show "0 < unat (refcount ((hp c x)\<lparr>refcount := refcount (hp c x) - 1\<rparr>))" using \<open>unat (refcount (hp c x) - 1) \<noteq> 0\<close> by simp
    qed (simp_all add: same_flags_def ITEM_clsid_def)
    moreover have "kept x L (hp c) (hp ?c)" by (simp add: kept_def pay_def)
    moreover have "drop_live x C L R = L" using False by (auto simp: drop_live_def)
    ultimately show thesis using that e by simp
  qed
qed

section \<open>Unlinking\<close>

lemma live_size:
  assumes "slabs_inv st h s L" "L x = Some (i, n)"
  shows "unat n < 2 ^ 31"
proof -
  note wf = slabs_invD(1) [OF assms(1)]
  note l = slab_live_okD [OF slabs_invD(3) [OF assms(1)] assms(2)]
  have c: "cls_wf st (cls s i)" using slabs_wfD(6) [OF wf] class_index [OF wf l(2)] by blast
  have "0 < unat (perslab (cls s i))" using l(3) by (auto simp: chunk_of_def)
  then have "unat (sl_size (cls s i)) \<le> unat (sl_size (cls s i)) * unat (perslab (cls s i))" by simp
  moreover have "int (unat (sl_size (cls s i)) * unat (perslab (cls s i))) < 2 ^ 31" using c slabs_wfD(5) [OF wf] unfolding cls_wf_def by linarith
  then have "unat (sl_size (cls s i)) * unat (perslab (cls s i)) < 2 ^ 31" by (metis of_nat_less_numeral_power_cancel_iff)
  ultimately show ?thesis using l(4) by linarith
qed

lemma item_size: "cache_inv g K c C D L R \<Longrightarrow> L x \<noteq> None \<Longrightarrow> unat (ITEM_ntotal (hp c x)) < 2 ^ 31"
proof -
  assume inv: "cache_inv g K c C D L R" and "L x \<noteq> None"
  then obtain l where l: "L x = Some l" by blast
  then show ?thesis using live_size [OF cache_invD(2) [OF inv]] item_okD(8) [OF cache_invD(6) [OF inv l]] by metis
qed

lemma upd_sizes_hist_ok:
  assumes "hist_ok c" "unat (ITEM_ntotal it) < 2 ^ 31"
  obtains h where "upd_sizes_hist d it c = Some (c\<lparr>stats_sizes_hist := h\<rparr>)" "hist_ok (c\<lparr>stats_sizes_hist := h\<rparr>)"
proof (cases "stats_sizes_hist c")
  case None
  then show thesis using assms that [of "stats_sizes_hist c"] by (simp add: upd_sizes_hist_def hist_ok_def)
next
  case (Some hist)
  have "c_int (ITEM_ntotal it) = int (unat (ITEM_ntotal it))" by (rule c_int_small) (rule assms(2))
  then have "0 \<le> sizes_bucket it" by (simp add: sizes_bucket_def Let_def signed_divide_int_def sgn_if)
  moreover have l: "int (length hist) = stats_sizes_buckets c" using assms(1) Some by (simp add: hist_ok_def)
  moreover have s: "c\<lparr>stats_sizes_hist := stats_sizes_hist c\<rparr> = c" by simp
  show thesis
  proof (cases "stats_sizes_cas_min c > ITEM_get_cas it \<or> \<not> sizes_bucket it < stats_sizes_buckets c")
    case True
    then show thesis using that [of "stats_sizes_hist c"] Some assms(1) unfolding s by (simp add: upd_sizes_hist_def Let_def)
  next
    case False
    let ?h = "Some (hist[nat (sizes_bucket it) := hist ! nat (sizes_bucket it) + d])"
    have "nat (sizes_bucket it) < length hist" using False l \<open>0 \<le> sizes_bucket it\<close> by linarith
    then have "upd_sizes_hist d it c = Some (c\<lparr>stats_sizes_hist := ?h\<rparr>)" using False Some \<open>0 \<le> sizes_bucket it\<close> l by (simp add: upd_sizes_hist_def Let_def)
    moreover have "hist_ok (c\<lparr>stats_sizes_hist := ?h\<rparr>)" using l by (simp add: hist_ok_def)
    ultimately show thesis by (rule that)
  qed
qed

lemma same_itemsD:
  assumes "same_items h h'"
  shows "nxt (h' x) = nxt (h x)" "prv (h' x) = prv (h x)" "time (h' x) = time (h x)" "exptime (h' x) = exptime (h x)" "nbytes (h' x) = nbytes (h x)"
    "refcount (h' x) = refcount (h x)" "it_flags (h' x) = it_flags (h x)" "slabs_clsid (h' x) = slabs_clsid (h x)"
    "nkey (h' x) = nkey (h x)" "ikey (h' x) = ikey (h x)" "cas (h' x) = cas (h x)" "cflags (h' x) = cflags (h x)" "idata (h' x) = idata (h x)"
proof -
  have e: "h' x = (h x)\<lparr>h_next := h_next (h' x)\<rparr>" using assms by (simp add: same_items_def)
  show "nxt (h' x) = nxt (h x)" "prv (h' x) = prv (h x)" "time (h' x) = time (h x)" "exptime (h' x) = exptime (h x)" "nbytes (h' x) = nbytes (h x)"
    "refcount (h' x) = refcount (h x)" "it_flags (h' x) = it_flags (h x)" "slabs_clsid (h' x) = slabs_clsid (h x)"
    "nkey (h' x) = nkey (h x)" "ikey (h' x) = ikey (h x)" "cas (h' x) = cas (h x)" "cflags (h' x) = cflags (h x)" "idata (h' x) = idata (h x)"
    by (subst e, simp)+
qed

text \<open>Everything a live item needs but the links.\<close>

lemma item_ok_cong:
  assumes "item_ok i linked l r" "same_flags i i'" "nbytes i' = nbytes i" "nkey i' = nkey i" "ikey i' = ikey i" "slabs_clsid i' = slabs_clsid i" "refcount i' = refcount i"
  shows "item_ok i' linked l r"
  using assms unfolding item_ok_def same_flags_def plain_def wf_item_def ITEM_clsid_def ITEM_ntotal_def by simp

lemma cache_unlink_body:
  assumes inv: "cache_inv g K c C D L R" and x: "x \<in> C - D"
  defines "c1 \<equiv> upd_it x (\<lambda>i. i\<lparr>it_flags := clear_flag (it_flags i) ITEM_LINKED\<rparr>) c"
  defines "c2 \<equiv> c1\<lparr>curr_bytes := curr_bytes c1 - ITEM_ntotal (hp c1 x), curr_items := curr_items c1 - 1\<rparr>"
  obtains c3 c4 c5 where "item_stats_sizes_remove x c2 = Some c3" "item_assoc_delete (ITEM_key (hp c3 x)) (hash g (ITEM_key (hp c x))) c3 = Some c4"
    "do_item_unlink_q g x c4 = Some c5" "cache_inv g K c5 (C - {x}) D L (R(x := R x + 1))" "kept x L (hp c) (hp c5)"
proof -
  have Lx: "L x \<noteq> None" using x cache_invD(4) [OF inv] by blast
  obtain l where l: "L x = Some l" using Lx by blast
  note i = item_okD [OF cache_invD(6) [OF inv l]]
  have h2: "hp c2 = (hp c)(x := (hp c x)\<lparr>it_flags := clear_flag (it_flags (hp c x)) ITEM_LINKED\<rparr>)" by (simp add: c2_def c1_def)
  have t2: "tab c2 = tab c" by (simp add: c2_def c1_def)
  have nt: "ITEM_ntotal (hp c2 y) = ITEM_ntotal (hp c y)" "lru_bytes g (hp c2 y) = lru_bytes g (hp c y)" "ITEM_key (hp c2 y) = ITEM_key (hp c y)" for y
    by (auto simp: h2 ITEM_ntotal_def lru_bytes_def ITEM_key_def)
  have k2: "kept x L (hp c) (hp c2)" by (simp add: h2 kept_def pay_def)
  obtain hi where c3: "item_stats_sizes_remove x c2 = Some (c2\<lparr>stats_sizes_hist := hi\<rparr>)" "hist_ok (c2\<lparr>stats_sizes_hist := hi\<rparr>)"
  proof -
    have "hist_ok c2" using cache_invD(10) [OF inv] by (simp add: hist_ok_def c2_def c1_def)
    moreover have "unat (ITEM_ntotal (hp c2 x)) < 2 ^ 31" using item_size [OF inv Lx] by (simp add: nt)
    ultimately show thesis using upd_sizes_hist_ok [of c2 "hp c2 x" "-1"] that unfolding item_stats_sizes_remove_def by blast
  qed
  let ?c3 = "c2\<lparr>stats_sizes_hist := hi\<rparr>"
  have "table (hash g) (hp c2) (tab c) C" by (rule table_cong [OF cache_invD(1) [OF inv]]) (simp add: h2)
  then obtain h4 a4 where d: "assoc_delete (ITEM_key (hp c2 x)) (hash g (ITEM_key (hp c2 x))) (hp c2) (tab c) = Some (h4, a4)" "table (hash g) h4 a4 (C - {x})"
    "same_items (hp c2) h4" using assoc.tbl_del [of "hash g" "hp c2" "tab c" C x] x by blast
  note si = same_itemsD [OF d(3)]
  let ?c4 = "?c3\<lparr>hp := h4, tab := a4\<rparr>"
  have c4: "item_assoc_delete (ITEM_key (hp ?c3 x)) (hash g (ITEM_key (hp c x))) ?c3 = Some ?c4"
    using d(1) unfolding item_assoc_delete_def by (simp add: nt t2)
  obtain ls where ls: "lru_ok g c ls" "(\<Union>i. set (ls i)) = C - D" using cache_invD(3) [OF inv] by blast
  have l4: "lru_ok g ?c4 ls"
  proof (rule lru_ok_cong [OF ls(1)])
    fix y i assume "y \<in> set (ls i)"
    have "lru_bytes g (h4 y) = lru_bytes g (hp c y)" unfolding nt(2) [symmetric] by (simp add: lru_bytes_def ITEM_ntotal_def si)
    then show "nxt (hp ?c4 y) = nxt (hp c y) \<and> prv (hp ?c4 y) = prv (hp c y) \<and> slabs_clsid (hp ?c4 y) = slabs_clsid (hp c y) \<and> lru_bytes g (hp ?c4 y) = lru_bytes g (hp c y)"
      by (simp add: si nt h2)
  qed (simp_all add: c2_def c1_def)
  let ?i = "slabs_clsid (hp ?c4 x)"
  obtain j where "x \<in> set (ls j)" using ls(2) x by blast
  then have xi: "x \<in> set (ls ?i)" using lru_okD(5) [OF l4] by blast
  then obtain xs ys where xy: "ls ?i = xs @ x # ys" by (meson split_list)
  obtain c5 where c5: "do_item_unlink_q g x ?c4 = Some c5" "lru_ok g c5 (ls(?i := xs @ ys))" "same_nodes (hp ?c4) (hp c5)" "q_frame ?c4 c5"
    "\<forall>y. y \<notin> set (xs @ ys) \<longrightarrow> hp c5 y = hp ?c4 y"
    using do_item_unlink_q_ok [OF l4 xy] by blast
  note sn = same_nodesD [OF c5(3)] and qf = q_frameD [OF c5(4)]
  have fields: "nbytes (hp c5 y) = nbytes (hp c y)" "nkey (hp c5 y) = nkey (hp c y)" "ikey (hp c5 y) = ikey (hp c y)" "slabs_clsid (hp c5 y) = slabs_clsid (hp c y)"
    "refcount (hp c5 y) = refcount (hp c y)" "it_flags (hp c5 y) = (if y = x then clear_flag (it_flags (hp c x)) ITEM_LINKED else it_flags (hp c y))" for y
    by (simp_all add: sn si h2)
  have nt5: "ITEM_ntotal (hp c5 y) = ITEM_ntotal (hp c y)" for y by (simp add: ITEM_ntotal_def fields)
  have "kept x L (hp c2) h4" by (simp add: kept_def pay_def si)
  then have k: "kept x L (hp c) (hp c5)" using kept_trans [OF k2] kept_trans kept_same_nodes [OF c5(3)] by fastforce
  have s: "set (xs @ ys) = set (ls ?i) - {x}" using lru_okD(6) [OF ls(1), of ?i] xy by auto
  have "cache_inv g K c5 (C - {x}) D L (R(x := R x + 1))"
  proof -
    have "x \<notin> set (ls k)" if "k \<noteq> ?i" for k using lru_okD(5) [OF l4] that by blast
    then have "(\<Union>i. set ((ls(?i := xs @ ys)) i)) = (\<Union>i. set (ls i)) - {x}" using s by (auto split: if_splits)
    then have u: "(\<Union>i. set ((ls(?i := xs @ ys)) i)) = (C - {x}) - D" using ls(2) by auto
    have "table (hash g) (hp c5) (tab c5) (C - {x})" unfolding qf by (simp, rule table_cong [OF d(2)]) (simp add: sn)
    moreover have "slabs_inv (slab_set g) (hp c5) (slb c5) L"
    proof -
      have "slabs_inv (slab_set g) (hp c5) (slb c) L"
      proof (rule slabs_inv_cong [OF cache_invD(2) [OF inv]])
        fix y assume "L y = None"
        then have "y \<notin> C" "y \<noteq> x" using Lx cache_invD(4) [OF inv] by auto
        moreover from this have "y \<notin> set (ls ?i)" using ls(2) by blast
        ultimately have "hp c5 y = h4 y" "hp c2 y = hp c y" using c5(5) s by (auto simp: h2)
        then show "nxt (hp c5 y) = nxt (hp c y) \<and> prv (hp c5 y) = prv (hp c y) \<and> it_flags (hp c5 y) = it_flags (hp c y) \<and> slabs_clsid (hp c5 y) = slabs_clsid (hp c y)"
          by (simp add: si)
      qed
      then show ?thesis unfolding qf by (simp add: c2_def c1_def)
    qed
    moreover have "item_ok (hp c5 y) (y \<in> C - {x}) k ((R(x := R x + 1)) y)" if "L y = Some k" for y k
    proof (cases "y = x")
      case True
      have "k = l" using True that l by simp
      then show ?thesis using i x True unfolding item_ok_def plain_def wf_item_def ITEM_clsid_def nt5 fields by simp
    next
      case False
      have "item_ok (hp c5 y) (y \<in> C) k (R y)" by (rule item_ok_cong [OF cache_invD(6) [OF inv that]]) (simp_all add: fields False same_flags_def)
      then show ?thesis using False by simp
    qed
    moreover have "curr_items c5 = of_nat (card (C - {x}))"
    proof -
      have "card C = Suc (card (C - {x}))" using x cache_inv_finite [OF inv] by (metis DiffD1 card.remove)
      then show ?thesis unfolding qf using cache_invD(8) [OF inv] by (simp add: c2_def c1_def)
    qed
    moreover have "curr_bytes c5 = (\<Sum>y\<in>C - {x}. ITEM_ntotal (hp c5 y))"
    proof -
      have "(\<Sum>y\<in>C. ITEM_ntotal (hp c y)) = ITEM_ntotal (hp c x) + (\<Sum>y\<in>C - {x}. ITEM_ntotal (hp c y))"
        using x cache_inv_finite [OF inv] by (intro sum.remove) auto
      then show ?thesis unfolding qf nt5 using cache_invD(9) [OF inv] nt(1) [of x] by (simp add: c2_def c1_def)
    qed
    moreover have "hist_ok c5" unfolding qf using c3(2) by (simp add: hist_ok_def)
    moreover have "D \<subseteq> C - {x}" "C - {x} \<subseteq> dom L" using x cache_invD(4,5) [OF inv] by auto
    moreover have "(R(x := R x + 1)) y = 0" if "L y = None" for y using that Lx cache_invD(7) [OF inv] by auto
    moreover have "classes (slb c5) = K" unfolding qf using cache_invD(11) [OF inv] by (simp add: c2_def c1_def)
    ultimately show ?thesis using c5(2) u unfolding cache_inv_def by blast
  qed
  with c3(1) c4 c5(1) k show thesis using that by blast
qed

text \<open>Unlinking gives the table's reference up.\<close>

lemma cache_unlink_remove:
  assumes inv: "cache_inv g K c C D L R" and x: "x \<in> C - D"
  obtains c5 where "do_item_unlink g x (hash g (ITEM_key (hp c x))) c = do_item_remove g x c5" "cache_inv g K c5 (C - {x}) D L (R(x := R x + 1))" "kept x L (hp c) (hp c5)"
proof -
  have "L x \<noteq> None" using x cache_invD(4) [OF inv] by blast
  then obtain l where l: "L x = Some l" by blast
  note i = item_okD [OF cache_invD(6) [OF inv l]]
  let ?R = "R(x := R x + 1)"
  obtain c3 c4 c5 where c: "item_stats_sizes_remove x ((upd_it x (\<lambda>i. i\<lparr>it_flags := clear_flag (it_flags i) ITEM_LINKED\<rparr>) c)
      \<lparr>curr_bytes := curr_bytes (upd_it x (\<lambda>i. i\<lparr>it_flags := clear_flag (it_flags i) ITEM_LINKED\<rparr>) c) - ITEM_ntotal (hp (upd_it x (\<lambda>i. i\<lparr>it_flags := clear_flag (it_flags i) ITEM_LINKED\<rparr>) c) x),
       curr_items := curr_items (upd_it x (\<lambda>i. i\<lparr>it_flags := clear_flag (it_flags i) ITEM_LINKED\<rparr>) c) - 1\<rparr>) = Some c3"
    "item_assoc_delete (ITEM_key (hp c3 x)) (hash g (ITEM_key (hp c x))) c3 = Some c4"
    "do_item_unlink_q g x c4 = Some c5" "cache_inv g K c5 (C - {x}) D L ?R" "kept x L (hp c) (hp c5)"
    by (rule cache_unlink_body [OF inv x])
  have "do_item_unlink g x (hash g (ITEM_key (hp c x))) c = do_item_remove g x c5"
    using c(1-3) i(1) x unfolding do_item_unlink_def item_unlink_q_def by (simp add: Let_def)
  then show thesis using that c(4,5) by blast
qed

lemma cache_unlink:
  assumes inv: "cache_inv g K c C D L R" and x: "x \<in> C - D"
  defines "L' \<equiv> (if R x = 0 then L(x := None) else L)"
  obtains c' where "do_item_unlink g x (hash g (ITEM_key (hp c x))) c = Some c'" "cache_inv g K c' (C - {x}) D L' R" "kept x L' (hp c) (hp c')"
proof -
  let ?R = "R(x := R x + 1)"
  obtain c5 where c: "do_item_unlink g x (hash g (ITEM_key (hp c x))) c = do_item_remove g x c5" "cache_inv g K c5 (C - {x}) D L ?R" "kept x L (hp c) (hp c5)"
    by (rule cache_unlink_remove [OF inv x])
  obtain c' where r: "do_item_remove g x c5 = Some c'" "cache_inv g K c' (C - {x}) D (drop_live x (C - {x}) L ?R) (?R(x := ?R x - 1))"
    "kept x (drop_live x (C - {x}) L ?R) (hp c5) (hp c')" using cache_remove [OF c(2), of x] by auto
  have L': "drop_live x (C - {x}) L ?R = L'" by (auto simp: drop_live_def L'_def)
  have "kept x L' (hp c) (hp c5)" by (rule kept_mono [OF c(3)]) (auto simp: L'_def split: if_splits)
  then have "kept x L' (hp c) (hp c')" using r(3) unfolding L' by (rule kept_trans)
  then show thesis using that c(1) r(1,2) L' by simp
qed

lemma unlink_nolock_eq: "do_item_unlink_nolock = do_item_unlink"
  by (simp add: fun_eq_iff do_item_unlink_nolock_def do_item_unlink_def item_unlink_q_def)

lemma unlink_not_linked: "\<not> has_flag (it_flags (hp c x)) ITEM_LINKED \<Longrightarrow> do_item_unlink g x hv c = Some c"
  by (simp add: do_item_unlink_def)

section \<open>Linking\<close>

text \<open>The item as \<open>do_item_link\<close> leaves it, but for its links.\<close>

definition linked_item :: "globals \<Rightarrow> u64 \<Rightarrow> item \<Rightarrow> item" where
  "linked_item g cid i = ITEM_set_cas cid (i\<lparr>it_flags := set_flag (it_flags i) ITEM_LINKED, time := current_time g\<rparr>)"

lemma linked_item_simps [simp]:
  "nkey (linked_item g cid i) = nkey i" "ikey (linked_item g cid i) = ikey i" "nbytes (linked_item g cid i) = nbytes i" "nxt (linked_item g cid i) = nxt i"
  "prv (linked_item g cid i) = prv i" "refcount (linked_item g cid i) = refcount i" "slabs_clsid (linked_item g cid i) = slabs_clsid i"
  "it_flags (linked_item g cid i) = set_flag (it_flags i) ITEM_LINKED" "cflags (linked_item g cid i) = cflags i" "idata (linked_item g cid i) = idata i"
  "exptime (linked_item g cid i) = exptime i" "h_next (linked_item g cid i) = h_next i" "time (linked_item g cid i) = current_time g"
  by (simp_all add: linked_item_def ITEM_set_cas_def)

definition next_cas :: "globals \<Rightarrow> cache \<Rightarrow> u64" where
  "next_cas g c = (if use_cas (slab_set g) then cas_id c + 1 else 0)"

lemma do_item_link_eq:
  assumes "\<not> has_flag (it_flags (hp c x)) ITEM_LINKED" "\<not> has_flag (it_flags (hp c x)) ITEM_SLABBED"
  shows "do_item_link g x hv c =
    (let c = c\<lparr>hp := (hp c)(x := linked_item g (next_cas g c) (hp c x)), curr_bytes := curr_bytes c + ITEM_ntotal (hp c x), curr_items := curr_items c + 1,
               total_items := total_items c + 1, cas_id := (if use_cas (slab_set g) then cas_id c + 1 else cas_id c)\<rparr>
     in do { c \<leftarrow> item_assoc_insert x hv c; c \<leftarrow> do_item_link_q g x c;
             item_stats_sizes_add x (upd_it x (\<lambda>i. i\<lparr>refcount := refcount i + 1\<rparr>) c) })"
proof -
  have "ITEM_ntotal ((hp c x)\<lparr>it_flags := set_flag (it_flags (hp c x)) ITEM_LINKED, time := current_time g\<rparr>) = ITEM_ntotal (hp c x)"
    by (simp add: ITEM_ntotal_def)
  then show ?thesis using assms unfolding do_item_link_def item_link_q_def
    by (cases c) (simp add: Let_def get_cas_id_def upd_it_def linked_item_def next_cas_def)
qed

lemma cache_link:
  assumes inv: "cache_inv g K c C D L R" and x: "x \<notin> C" "0 < R x" "R x < 65535" and key: "\<And>y. y \<in> C \<Longrightarrow> ITEM_key (hp c y) \<noteq> ITEM_key (hp c x)"
  obtains c' where "do_item_link g x (hash g (ITEM_key (hp c x))) c = Some c'" "cache_inv g K c' (insert x C) D L R"
    "kept x L ((hp c)(x := linked_item g (next_cas g c) (hp c x))) (hp c')"
proof -
  have Lx: "L x \<noteq> None" using live_iff [OF inv, of x] x by auto
  obtain l where l: "L x = Some l" using Lx by blast
  note i = item_okD [OF cache_invD(6) [OF inv l]]
  let ?it = "linked_item g (next_cas g c) (hp c x)"
  let ?h3 = "(hp c)(x := ?it)"
  let ?c3 = "c\<lparr>hp := ?h3, curr_bytes := curr_bytes c + ITEM_ntotal (hp c x), curr_items := curr_items c + 1,
               total_items := total_items c + 1, cas_id := (if use_cas (slab_set g) then cas_id c + 1 else cas_id c)\<rparr>"
  have nt3: "ITEM_ntotal (?h3 y) = ITEM_ntotal (hp c y)" "ITEM_key (?h3 y) = ITEM_key (hp c y)" "wf_item (?h3 y) = wf_item (hp c y)" for y
    by (simp_all add: ITEM_ntotal_def ITEM_key_def wf_item_def)
  have "table (hash g) ?h3 (tab c) C" by (rule table_cong [OF cache_invD(1) [OF inv]]) (use x in auto)
  moreover have "wf_item (?h3 x)" using i(4) unfolding nt3 .
  moreover have "ITEM_key (?h3 y) \<noteq> ITEM_key (?h3 x)" if "y \<in> C" for y using key [OF that] unfolding nt3 .
  ultimately obtain h4 a4 where d: "assoc_insert x (hash g (ITEM_key (?h3 x))) ?h3 (tab c) = Some (h4, a4)" "table (hash g) h4 a4 (insert x C)" "same_items ?h3 h4"
    using assoc.tbl_ins [of "hash g" ?h3 "tab c" C x] by blast
  note si = same_itemsD [OF d(3)]
  let ?c4 = "?c3\<lparr>hp := h4, tab := a4\<rparr>"
  have c4: "item_assoc_insert x (hash g (ITEM_key (hp c x))) ?c3 = Some ?c4" using d(1) unfolding item_assoc_insert_def nt3 by simp
  obtain ls where ls: "lru_ok g c ls" "(\<Union>i. set (ls i)) = C - D" using cache_invD(3) [OF inv] by blast
  have xl: "x \<notin> set (ls j)" for j using ls(2) x(1) by blast
  have l4: "lru_ok g ?c4 ls"
  proof (rule lru_ok_cong [OF ls(1)])
    fix y i assume "y \<in> set (ls i)"
    then have "y \<noteq> x" using xl by blast
    then have "lru_bytes g (h4 y) = lru_bytes g (hp c y)" by (simp add: lru_bytes_def ITEM_ntotal_def si)
    then show "nxt (hp ?c4 y) = nxt (hp c y) \<and> prv (hp ?c4 y) = prv (hp c y) \<and> slabs_clsid (hp ?c4 y) = slabs_clsid (hp c y) \<and> lru_bytes g (hp ?c4 y) = lru_bytes g (hp c y)"
      using \<open>y \<noteq> x\<close> by (simp add: si)
  qed simp_all
  let ?i = "slabs_clsid (hp ?c4 x)"
  have ns: "\<not> has_flag (it_flags (hp ?c4 x)) ITEM_SLABBED" using i(2) by (simp add: si)
  obtain c5 where c5: "do_item_link_q g x ?c4 = Some c5" "lru_ok g c5 (ls(?i := x # ls ?i))" "same_nodes (hp ?c4) (hp c5)" "q_frame ?c4 c5"
    "\<forall>y. y \<noteq> x \<and> y \<notin> set (ls ?i) \<longrightarrow> hp c5 y = hp ?c4 y"
    using do_item_link_q_ok [OF l4 xl ns] by blast
  note sn = same_nodesD [OF c5(3)] and qf = q_frameD [OF c5(4)]
  let ?c6 = "upd_it x (\<lambda>i. i\<lparr>refcount := refcount i + 1\<rparr>) c5"
  have fields: "nbytes (hp ?c6 y) = nbytes (hp c y)" "nkey (hp ?c6 y) = nkey (hp c y)" "ikey (hp ?c6 y) = ikey (hp c y)" "slabs_clsid (hp ?c6 y) = slabs_clsid (hp c y)"
    "refcount (hp ?c6 y) = (if y = x then refcount (hp c x) + 1 else refcount (hp c y))"
    "it_flags (hp ?c6 y) = (if y = x then set_flag (it_flags (hp c x)) ITEM_LINKED else it_flags (hp c y))" for y
    by (simp_all add: sn si)
  have nt6: "ITEM_ntotal (hp ?c6 y) = ITEM_ntotal (hp c y)" for y unfolding ITEM_ntotal_def fields by simp
  have "hist_ok ?c6" using cache_invD(10) [OF inv] qf(7,8) by (simp add: hist_ok_def)
  moreover have "unat (ITEM_ntotal (hp ?c6 x)) < 2 ^ 31" using item_size [OF inv Lx] unfolding nt6 .
  ultimately obtain hi where hi: "item_stats_sizes_add x ?c6 = Some (?c6\<lparr>stats_sizes_hist := hi\<rparr>)" "hist_ok (?c6\<lparr>stats_sizes_hist := hi\<rparr>)"
    using upd_sizes_hist_ok [of ?c6 "hp ?c6 x" 1] unfolding item_stats_sizes_add_def by blast
  let ?c7 = "?c6\<lparr>stats_sizes_hist := hi\<rparr>"
  have e: "do_item_link g x (hash g (ITEM_key (hp c x))) c = Some ?c7"
    using i(1,2) x(1) c4 c5(1) hi(1) by (subst do_item_link_eq) (simp_all add: Let_def)
  have "kept x L ?h3 (hp ?c7)" by (simp add: kept_def pay_def sn si)
  moreover have "cache_inv g K ?c7 (insert x C) D L R"
  proof -
    have "(\<Union>i. set ((ls(?i := x # ls ?i)) i)) = insert x (\<Union>i. set (ls i))" by (auto split: if_splits)
    then have u: "(\<Union>i. set ((ls(?i := x # ls ?i)) i)) = insert x C - D" using ls(2) x(1) cache_invD(5) [OF inv] by auto
    have l7: "lru_ok g ?c7 (ls(?i := x # ls ?i))"
      by (rule lru_ok_cong [OF c5(2)]) (simp_all add: lru_bytes_def ITEM_ntotal_def)
    have "table (hash g) (hp ?c7) (tab ?c7) (insert x C)"
    proof -
      have "table (hash g) (hp ?c6) a4 (insert x C)" by (rule table_cong [OF d(2)]) (simp add: sn)
      then show ?thesis using qf(1) by simp
    qed
    moreover have "slabs_inv (slab_set g) (hp ?c7) (slb ?c7) L"
    proof -
      have "slabs_inv (slab_set g) (hp ?c6) (slb c) L"
      proof (rule slabs_inv_cong [OF cache_invD(2) [OF inv]])
        fix y assume "L y = None"
        then have "y \<notin> C" "y \<noteq> x" using Lx cache_invD(4) [OF inv] by auto
        moreover from this have "y \<notin> set (ls ?i)" using ls(2) by blast
        ultimately have "hp ?c6 y = h4 y" "?h3 y = hp c y" using c5(5) by auto
        then show "nxt (hp ?c6 y) = nxt (hp c y) \<and> prv (hp ?c6 y) = prv (hp c y) \<and> it_flags (hp ?c6 y) = it_flags (hp c y) \<and> slabs_clsid (hp ?c6 y) = slabs_clsid (hp c y)"
          by (simp only: si)
      qed
      then show ?thesis using qf(2) by simp
    qed
    moreover have "item_ok (hp ?c7 y) (y \<in> insert x C) k (R y)" if "L y = Some k" for y k
    proof (cases "y = x")
      case True
      have "k = l" using True that l by simp
      moreover have "unat (refcount (hp c x) + 1) = unat (refcount (hp c x)) + 1" using i(6) x by (subst unat_add_no_wrap) auto
      ultimately show ?thesis using i x True nt6 [of x] fields [of x] unfolding item_ok_def plain_def wf_item_def ITEM_clsid_def by simp
    next
      case False
      have "item_ok (hp ?c7 y) (y \<in> C) k (R y)" by (rule item_ok_cong [OF cache_invD(6) [OF inv that]]) (use fields [of y] False in \<open>simp_all add: same_flags_def\<close>)
      then show ?thesis using False by simp
    qed
    moreover have "curr_items ?c7 = of_nat (card (insert x C))"
      using cache_invD(8) [OF inv] qf(4) x(1) cache_inv_finite [OF inv] by (simp add: add.commute)
    moreover have "curr_bytes ?c7 = (\<Sum>y\<in>insert x C. ITEM_ntotal (hp ?c7 y))"
    proof -
      have "curr_bytes ?c7 = (\<Sum>y\<in>insert x C. ITEM_ntotal (hp c y))"
        using cache_invD(9) [OF inv] qf(5) x(1) cache_inv_finite [OF inv] by (simp add: add.commute)
      also have "\<dots> = (\<Sum>y\<in>insert x C. ITEM_ntotal (hp ?c6 y))" unfolding nt6 ..
      finally show ?thesis by simp
    qed
    moreover have "insert x C \<subseteq> dom L" "D \<subseteq> insert x C" using Lx cache_invD(4,5) [OF inv] by auto
    moreover have "classes (slb ?c7) = K" using qf(2) cache_invD(11) [OF inv] by simp
    ultimately show ?thesis using l7 u hi(2) cache_invD(7) [OF inv] unfolding cache_inv_def by blast
  qed
  ultimately show thesis using that e by blast
qed

end
