(* ===== verification/Cache.thy ===== *)
theory Cache
  imports Items_Proof
begin

text \<open>
  The item cache as a whole: position updates, lookup with lazy expiry, eviction and allocation keep the
  invariant of \<open>Items_Proof\<close>, and any sequence of item operations implements a map from keys to items that
  may lose entries only by expiry, flush or eviction, and in which no item is freed while it is linked
  or referenced.
\<close>

section \<open>Position updates\<close>

lemma clsid_or_lru [simp]:
  assumes "GET_LRU m = m"
  shows "ITEM_clsid (i\<lparr>slabs_clsid := ITEM_clsid i OR m\<rparr>) = ITEM_clsid i"
  using lru_id_parts [of "ITEM_clsid i" m] assms by (simp add: ITEM_clsid_def CLEAR_LRU_def and.assoc)

lemma GET_LRU_ids [simp]: "GET_LRU WARM_LRU = WARM_LRU" "GET_LRU COLD_LRU = COLD_LRU" "GET_LRU 0 = 0"
  by (simp_all add: GET_LRU_def)

lemma same_flags_active: "same_flags i (i\<lparr>it_flags := clear_flag (it_flags i) ITEM_ACTIVE\<rparr>)"
  "same_flags i (i\<lparr>it_flags := set_flag (it_flags i) ITEM_ACTIVE\<rparr>)" "same_flags i (i\<lparr>it_flags := set_flag (it_flags i) ITEM_FETCHED\<rparr>)"
  "same_flags i (i\<lparr>time := t\<rparr>)" "same_flags i (i\<lparr>exptime := e\<rparr>)"
  by (simp_all add: same_flags_def)

lemma live_linked: "cache_inv g K c C D L R \<Longrightarrow> x \<in> C \<Longrightarrow> L x \<noteq> None"
  using cache_invD(4) [of g K c C D L R] by auto

lemma linked_flag: "cache_inv g K c C D L R \<Longrightarrow> L x \<noteq> None \<Longrightarrow> has_flag (it_flags (hp c x)) ITEM_LINKED \<longleftrightarrow> x \<in> C"
  using item_okD(1) [OF cache_invD(6)] by (metis not_Some_eq)

lemma live_not_slabbed: "cache_inv g K c C D L R \<Longrightarrow> L x \<noteq> None \<Longrightarrow> \<not> has_flag (it_flags (hp c x)) ITEM_SLABBED"
  using item_okD(2) [OF cache_invD(6)] by (metis not_Some_eq)

lemma cache_inv_time: "cache_inv g K c C D L R \<Longrightarrow> L x \<noteq> None \<Longrightarrow> cache_inv g K (upd_it x (\<lambda>i. i\<lparr>time := t\<rparr>) c) C D L R"
  by (rule cache_inv_touch [where f = "\<lambda>i. i\<lparr>time := t\<rparr>"]) (simp_all add: same_flags_active)

lemma cache_inv_flag:
  assumes "cache_inv g K c C D L R" "L x \<noteq> None"
  shows "cache_inv g K (upd_it x (\<lambda>i. i\<lparr>it_flags := clear_flag (it_flags i) ITEM_ACTIVE\<rparr>) c) C D L R"
    "cache_inv g K (upd_it x (\<lambda>i. i\<lparr>it_flags := set_flag (it_flags i) ITEM_ACTIVE\<rparr>) c) C D L R"
    "cache_inv g K (upd_it x (\<lambda>i. i\<lparr>it_flags := set_flag (it_flags i) ITEM_FETCHED\<rparr>) c) C D L R"
  by (rule cache_inv_touch [OF assms]; simp add: same_flags_active)+

lemma cache_inv_exptime: "cache_inv g K c C D L R \<Longrightarrow> L x \<noteq> None \<Longrightarrow> cache_inv g K (upd_it x (\<lambda>i. i\<lparr>exptime := t\<rparr>) c) C D L R"
  by (rule cache_inv_touch [where f = "\<lambda>i. i\<lparr>exptime := t\<rparr>"]) (simp_all add: same_flags_active)

text \<open>An item between two lists may change its LRU.\<close>

lemma cache_inv_move:
  assumes inv: "cache_inv g K c C D L R" and x: "x \<in> D" and m: "GET_LRU m = m"
  shows "cache_inv g K (upd_it x (\<lambda>i. i\<lparr>slabs_clsid := ITEM_clsid i OR m\<rparr>) c) C D L R"
proof -
  have "x \<in> C" using x cache_invD(5) [OF inv] by blast
  then have Lx: "L x \<noteq> None" by (rule live_linked [OF inv])
  then obtain l where l: "L x = Some l" by blast
  note i = item_okD [OF cache_invD(6) [OF inv l]]
  have "cache_inv g K (upd_it x (\<lambda>i. i\<lparr>slabs_clsid := ITEM_clsid i OR m\<rparr>) c) C D L (R(x := R x))"
    by (rule cache_inv_write [where f = "\<lambda>i. i\<lparr>slabs_clsid := ITEM_clsid i OR m\<rparr>", OF inv Lx]) (use x m i in \<open>simp_all add: same_flags_def\<close>)
  then show ?thesis by simp
qed

lemma cache_relink:
  assumes inv: "cache_inv g K c C D L R" and x: "x \<in> C - D"
  obtains c1 where "do_item_unlink_q g x c = Some c1" "cache_inv g K c1 C (insert x D) L R" "kept x L (hp c) (hp c1)"
    "\<And>c2. cache_inv g K c2 C (insert x D) L R \<Longrightarrow> kept x L (hp c1) (hp c2) \<Longrightarrow> \<exists>c3. do_item_link_q g x c2 = Some c3 \<and> cache_inv g K c3 C D L R \<and> kept x L (hp c) (hp c3)"
proof -
  obtain c1 where c1: "do_item_unlink_q g x c = Some c1" "cache_inv g K c1 C (insert x D) L R" "same_nodes (hp c) (hp c1)" "q_frame c c1"
    by (rule cache_unlink_q [OF inv x])
  have k1: "kept x L (hp c) (hp c1)" by (rule kept_same_nodes [OF c1(3)])
  show thesis
  proof (rule that [OF c1(1,2) k1])
    fix c2 assume c2: "cache_inv g K c2 C (insert x D) L R" "kept x L (hp c1) (hp c2)"
    obtain c3 where c3: "do_item_link_q g x c2 = Some c3" "cache_inv g K c3 C (insert x D - {x}) L R" "same_nodes (hp c2) (hp c3)"
      by (rule cache_link_q [OF c2(1), of x]) auto
    have "insert x D - {x} = D" using x by auto
    then show "\<exists>c3. do_item_link_q g x c2 = Some c3 \<and> cache_inv g K c3 C D L R \<and> kept x L (hp c) (hp c3)"
      using c3 kept_trans [OF kept_trans [OF k1 c2(2)] kept_same_nodes [OF c3(3)]] by auto
  qed
qed

lemma kept_touch: "(\<And>i. pay (f i) = pay i) \<Longrightarrow> kept x L (hp c) (hp (upd_it x f c))"
  by (simp add: kept_upd)

lemma cache_update_nolock:
  assumes inv: "cache_inv g K c C D L R" and x: "L x \<noteq> None" "x \<notin> D"
  obtains c' where "do_item_update_nolock g x c = Some c'" "cache_inv g K c' C D L R" "kept x L (hp c) (hp c')"
proof (cases "time (hp c x) < current_time g - ITEM_UPDATE_INTERVAL \<and> x \<in> C")
  case True
  then have xc: "x \<in> C - D" using x by blast
  obtain c1 where c1: "do_item_unlink_q g x c = Some c1" "cache_inv g K c1 C (insert x D) L R"
    "\<And>c2. cache_inv g K c2 C (insert x D) L R \<Longrightarrow> kept x L (hp c1) (hp c2) \<Longrightarrow> \<exists>c3. do_item_link_q g x c2 = Some c3 \<and> cache_inv g K c3 C D L R \<and> kept x L (hp c) (hp c3)"
    by (rule cache_relink [OF inv xc]) blast
  obtain c3 where c3: "do_item_link_q g x (upd_it x (\<lambda>i. i\<lparr>time := current_time g\<rparr>) c1) = Some c3" "cache_inv g K c3 C D L R" "kept x L (hp c) (hp c3)"
    using c1(3) [OF cache_inv_time [OF c1(2) x(1), of "current_time g"] kept_touch [where f = "\<lambda>i. i\<lparr>time := current_time g\<rparr>"]]
    by (auto simp: pay_def)
  have "do_item_update_nolock g x c = Some c3"
    using True live_not_slabbed [OF inv x(1)] linked_flag [OF inv x(1)] c1(1) c3(1) by (simp add: do_item_update_nolock_def)
  with c3 show thesis using that by blast
next
  case False
  then have "do_item_update_nolock g x c = Some c"
    using live_not_slabbed [OF inv x(1)] linked_flag [OF inv x(1)] by (auto simp: do_item_update_nolock_def)
  with inv show thesis using that by simp
qed

lemma cache_update:
  assumes inv: "cache_inv g K c C D L R" and x: "L x \<noteq> None" "x \<notin> D"
  obtains c' where "do_item_update g x c = Some c'" "cache_inv g K c' C D L R" "kept x L (hp c) (hp c')"
proof -
  note ns = live_not_slabbed [OF inv x(1)] and lf = linked_flag [OF inv x(1)]
  let ?t = "upd_it x (\<lambda>i. i\<lparr>time := current_time g\<rparr>) c"
  have it: "cache_inv g K ?t C D L R" by (rule cache_inv_time [OF inv x(1)])
  have kt: "kept x L (hp c) (hp ?t)" by (rule kept_touch) (simp add: pay_def)
  consider (move) "lru_segmented g" "x \<in> C" "ITEM_lruid (hp c x) = COLD_LRU" "has_flag (it_flags (hp c x)) ITEM_ACTIVE"
    | (bump) "\<not> lru_segmented g" "x \<in> C" "time (hp c x) < current_time g - ITEM_UPDATE_INTERVAL"
    | (stamp) "do_item_update g x c = Some ?t" | (none) "do_item_update g x c = Some c"
  proof -
    assume a: "\<lbrakk>lru_segmented g; x \<in> C; ITEM_lruid (hp c x) = COLD_LRU; has_flag (it_flags (hp c x)) ITEM_ACTIVE\<rbrakk> \<Longrightarrow> thesis"
      "\<lbrakk>\<not> lru_segmented g; x \<in> C; time (hp c x) < current_time g - ITEM_UPDATE_INTERVAL\<rbrakk> \<Longrightarrow> thesis"
      "do_item_update g x c = Some ?t \<Longrightarrow> thesis" "do_item_update g x c = Some c \<Longrightarrow> thesis"
    have "do_item_update g x c = Some ?t \<or> do_item_update g x c = Some c"
      if "\<not> (lru_segmented g \<and> x \<in> C \<and> ITEM_lruid (hp c x) = COLD_LRU \<and> has_flag (it_flags (hp c x)) ITEM_ACTIVE)"
        "\<not> (\<not> lru_segmented g \<and> x \<in> C \<and> time (hp c x) < current_time g - ITEM_UPDATE_INTERVAL)"
      using that ns lf by (cases "lru_segmented g"; cases "x \<in> C"; cases "time (hp c x) < current_time g - ITEM_UPDATE_INTERVAL";
        cases "has_flag (it_flags (hp c x)) ITEM_ACTIVE"; simp add: do_item_update_def Let_def)
    with a show thesis by blast
  qed
  then show thesis
  proof cases
    case move
    then have xc: "x \<in> C - D" using x by blast
    obtain c1 where c1: "do_item_unlink_q g x ?t = Some c1" "cache_inv g K c1 C (insert x D) L R"
      "\<And>c2. cache_inv g K c2 C (insert x D) L R \<Longrightarrow> kept x L (hp c1) (hp c2) \<Longrightarrow> \<exists>c3. do_item_link_q g x c2 = Some c3 \<and> cache_inv g K c3 C D L R \<and> kept x L (hp ?t) (hp c3)"
      by (rule cache_relink [OF it xc]) blast
    let ?c2 = "upd_it x (\<lambda>i. i\<lparr>slabs_clsid := ITEM_clsid i OR WARM_LRU, it_flags := clear_flag (it_flags i) ITEM_ACTIVE\<rparr>) c1"
    have "?c2 = upd_it x (\<lambda>i. i\<lparr>it_flags := clear_flag (it_flags i) ITEM_ACTIVE\<rparr>) (upd_it x (\<lambda>i. i\<lparr>slabs_clsid := ITEM_clsid i OR WARM_LRU\<rparr>) c1)"
      by (simp add: upd_it_def)
    then have "cache_inv g K ?c2 C (insert x D) L R"
      using cache_inv_flag(1) [OF cache_inv_move [OF c1(2), of x WARM_LRU] x(1)] by simp
    moreover have "kept x L (hp c1) (hp ?c2)" by (rule kept_touch) (simp add: pay_def)
    ultimately obtain c3 where c3: "do_item_link_q g x ?c2 = Some c3" "cache_inv g K c3 C D L R" "kept x L (hp ?t) (hp c3)"
      using c1(3) by blast
    have "\<exists>i f. do_item_update g x c = Some (upd_is i f c3)"
      using move ns lf c1(1) c3(1) unfolding do_item_update_def item_unlink_q_def item_link_q_warm_def by (auto simp: Let_def)
    then show thesis using that c3(2) kept_trans [OF kt c3(3)] by auto
  next
    case bump
    then have xc: "x \<in> C - D" using x by blast
    obtain c1 where c1: "do_item_unlink_q g x ?t = Some c1" "cache_inv g K c1 C (insert x D) L R"
      "\<And>c2. cache_inv g K c2 C (insert x D) L R \<Longrightarrow> kept x L (hp c1) (hp c2) \<Longrightarrow> \<exists>c3. do_item_link_q g x c2 = Some c3 \<and> cache_inv g K c3 C D L R \<and> kept x L (hp ?t) (hp c3)"
      by (rule cache_relink [OF it xc]) blast
    obtain c3 where c3: "do_item_link_q g x c1 = Some c3" "cache_inv g K c3 C D L R" "kept x L (hp ?t) (hp c3)" using c1(3) [OF c1(2)] by auto
    have "do_item_update g x c = Some c3"
      using bump ns lf c1(1) c3(1) unfolding do_item_update_def item_unlink_q_def item_link_q_def by (auto simp: Let_def)
    then show thesis using that c3(2) kept_trans [OF kt c3(3)] by auto
  next
    case stamp
    then show thesis using that it kt by blast
  next
    case none
    then show thesis using that inv by simp
  qed
qed

section \<open>Pulling one item\<close>

lemma unlink_held:
  assumes inv: "cache_inv g K c C D L R" and x: "x \<in> C - D" "0 < R x"
  obtains c' where "do_item_unlink g x (hash g (ITEM_key (hp c x))) c = Some c'" "cache_inv g K c' (C - {x}) D L R" "kept x L (hp c) (hp c')"
  using cache_unlink [OF inv x(1)] x(2) by auto

lemma drop_live_mono: "drop_live x C L R \<subseteq>\<^sub>m L"
  by (auto simp: drop_live_def map_le_def)

lemma kept_le:
  assumes "kept x L h h'" "L' \<subseteq>\<^sub>m L"
  shows "kept x L' h h'"
  by (rule kept_mono [OF assms(1)]) (use map_le_implies_dom_le [OF assms(2)] in blast)

lemma expired_cong:
  "exptime i' = exptime i \<Longrightarrow> time i' = time i \<Longrightarrow> cas i' = cas i \<Longrightarrow> has_flag (it_flags i') ITEM_CAS = has_flag (it_flags i) ITEM_CAS \<Longrightarrow>
   expired_or_flushed g i' = expired_or_flushed g i"
  by (simp add: expired_or_flushed_def item_is_flushed_def ITEM_get_cas_def)

text \<open>What one turn on item \<open>x\<close> leaves behind; a stop keeps the reference taken on the way.\<close>

definition pulled :: "globals \<Rightarrow> nat \<times> u32 list \<Rightarrow> cache \<Rightarrow> nat set \<Rightarrow> live \<Rightarrow> (nat \<Rightarrow> nat) \<Rightarrow> nat \<Rightarrow> pull_end \<Rightarrow> cache \<Rightarrow> nat set \<Rightarrow> live \<Rightarrow> bool" where
  "pulled g K c C L R x e c' C' L' \<longleftrightarrow> (C' = C \<or> C' = C - {x}) \<and> L' \<subseteq>\<^sub>m L \<and> kept x L' (hp c) (hp c')
     \<and> (case e of Go_on \<Rightarrow> cache_inv g K c' C' {} L' R
        | Stop_at y m \<Rightarrow> y = x \<and> GET_LRU m = m \<and> cache_inv g K c' C' (if m \<noteq> 0 then {x} else {}) L' (R(x := R x + 1)))"

lemma pulled_reclaim:
  assumes inv: "cache_inv g K c C {} L (R(x := R x + 1))" and x: "x \<in> C"
  shows "\<exists>c' L'. pull_reclaim g a x (hash g (ITEM_key (hp c x))) c = Some c' \<and> pulled g K c C L R x Go_on c' (C - {x}) L'"
proof -
  let ?R = "R(x := R x + 1)"
  obtain f where e: "pull_reclaim g a x (hash g (ITEM_key (hp c x))) c = do { c \<leftarrow> do_item_unlink g x (hash g (ITEM_key (hp c x))) (upd_is (pull_id a) f c); do_item_remove g x c }"
    unfolding pull_reclaim_def unlink_nolock_eq by blast
  have i1: "cache_inv g K (upd_is (pull_id a) f c) C {} L ?R" using inv by simp
  obtain c1 where c1: "do_item_unlink g x (hash g (ITEM_key (hp c x))) (upd_is (pull_id a) f c) = Some c1" "cache_inv g K c1 (C - {x}) {} L ?R" "kept x L (hp c) (hp c1)"
    using unlink_held [OF i1, of x] x by auto
  obtain c2 where c2: "do_item_remove g x c1 = Some c2" "cache_inv g K c2 (C - {x}) {} (drop_live x (C - {x}) L ?R) (?R(x := ?R x - 1))"
    "kept x (drop_live x (C - {x}) L ?R) (hp c1) (hp c2)" using cache_remove [OF c1(2), of x] by auto
  have "kept x (drop_live x (C - {x}) L ?R) (hp c) (hp c2)" by (rule kept_trans [OF kept_le [OF c1(3) drop_live_mono] c2(3)])
  then show ?thesis using e c1(1) c2(1,2) drop_live_mono [of x "C - {x}" L ?R] unfolding pulled_def
    by (intro exI [of _ c2] exI [of _ "drop_live x (C - {x}) L ?R"]) simp
qed

lemma pulled_stop: "cache_inv g K c C {} L (R(x := R x + 1)) \<Longrightarrow> pulled g K c C L R x (Stop_at x 0) c C L"
  by (simp add: pulled_def)

text \<open>An item taken off its list to be moved to LRU \<open>m\<close>.\<close>

lemma pulled_move:
  assumes inv: "cache_inv g K c C {} L (R(x := R x + 1))" and x: "x \<in> C" and m: "m = WARM_LRU \<or> m = COLD_LRU" and k: "kept x L (hp cc) (hp c)"
  obtains c' where "do_item_unlink_q g x c = Some c'" "pulled g K cc C L R x (Stop_at x m) c' C L"
proof -
  obtain c1 where c1: "do_item_unlink_q g x c = Some c1" "cache_inv g K c1 C (insert x {}) L (R(x := R x + 1))" "same_nodes (hp c) (hp c1)"
    using cache_unlink_q [OF inv, of x] x by auto
  have "GET_LRU m = m" "m \<noteq> 0" using m by auto
  then show thesis using that [OF c1(1)] c1(2) kept_trans [OF k kept_same_nodes [OF c1(3)]] unfolding pulled_def by simp
qed

lemma pull_hot_warm_ok:
  assumes inv: "cache_inv g K c C {} L (R(x := R x + 1))" and x: "x \<in> C"
  shows "\<exists>e n c'. pull_hot_warm g a x c = Some (e, n, c') \<and> pulled g K c C L R x e c' C L"
proof -
  let ?R = "R(x := R x + 1)" and ?f = "\<lambda>i. i\<lparr>it_flags := clear_flag (it_flags i) ITEM_ACTIVE\<rparr>"
  have Lx: "L x \<noteq> None" by (rule live_linked [OF inv x])
  have ia: "cache_inv g K (upd_is i f (upd_it x ?f c)) C {} L ?R" for i f using cache_inv_flag(1) [OF inv Lx] by simp
  have ka: "kept x L (hp c) (hp (upd_is i f (upd_it x ?f c)))" for i f unfolding upd_is_simps by (rule kept_touch) (simp add: pay_def)
  consider (warm) "has_flag (it_flags (hp c x)) ITEM_ACTIVE" "cur_lru a = WARM_LRU" | (hot) "has_flag (it_flags (hp c x)) ITEM_ACTIVE" "cur_lru a \<noteq> WARM_LRU"
    | (cold) "\<not> has_flag (it_flags (hp c x)) ITEM_ACTIVE" "sizes_bytes c (pull_id a) > lru_limit g a \<or> current_time g - time (hp c x) > max_age a"
    | (stay) "\<not> has_flag (it_flags (hp c x)) ITEM_ACTIVE" "\<not> (sizes_bytes c (pull_id a) > lru_limit g a \<or> current_time g - time (hp c x) > max_age a)" by blast
  then show ?thesis
  proof cases
    case warm
    let ?c = "upd_is (pull_id a) (\<lambda>s. s\<lparr>is_moves_within_lru := is_moves_within_lru s + 1\<rparr>) (upd_it x ?f c)"
    obtain c1 where c1: "do_item_update_nolock g x ?c = Some c1" "cache_inv g K c1 C {} L ?R" "kept x L (hp ?c) (hp c1)"
      by (rule cache_update_nolock [OF ia Lx]) auto
    obtain c2 where c2: "do_item_remove g x c1 = Some c2" "cache_inv g K c2 C {} (drop_live x C L ?R) (?R(x := ?R x - 1))" "kept x (drop_live x C L ?R) (hp c1) (hp c2)"
      using cache_remove [OF c1(2), of x] by auto
    have dl: "drop_live x C L ?R = L" using x by (simp add: drop_live_def)
    have "pull_hot_warm g a x c = Some (Go_on, 1, c2)" using warm c1(1) c2(1) unfolding pull_hot_warm_def by (simp add: Let_def)
    moreover have "kept x L (hp c) (hp c2)" using kept_trans [OF kept_trans [OF ka c1(3)]] c2(3) unfolding dl by blast
    ultimately show ?thesis using c2(2) unfolding pulled_def dl by simp
  next
    case hot
    obtain c1 where "do_item_unlink_q g x (upd_is (pull_id a) (\<lambda>s. s\<lparr>is_moves_to_warm := is_moves_to_warm s + 1\<rparr>) (upd_it x ?f c)) = Some c1"
      "pulled g K c C L R x (Stop_at x WARM_LRU) c1 C L" by (rule pulled_move [OF ia x _ ka, where m = WARM_LRU]) auto
    then show ?thesis using hot unfolding pull_hot_warm_def by (simp add: Let_def)
  next
    case cold
    have ic: "cache_inv g K (upd_is (pull_id a) (\<lambda>s. s\<lparr>is_moves_to_cold := is_moves_to_cold s + 1\<rparr>) c) C {} L ?R" using inv by simp
    obtain c1 where "do_item_unlink_q g x (upd_is (pull_id a) (\<lambda>s. s\<lparr>is_moves_to_cold := is_moves_to_cold s + 1\<rparr>) c) = Some c1"
      "pulled g K c C L R x (Stop_at x COLD_LRU) c1 C L" by (rule pulled_move [OF ic x, where cc = c and m = COLD_LRU]) auto
    then show ?thesis using cold unfolding pull_hot_warm_def by (simp add: Let_def)
  next
    case stay
    then show ?thesis using pulled_stop [OF inv] unfolding pull_hot_warm_def by (simp add: Let_def)
  qed
qed

lemma pull_cold_ok:
  assumes inv: "cache_inv g K c C {} L (R(x := R x + 1))" and x: "x \<in> C"
  shows "\<exists>e n c' C' L'. pull_cold g a x (hash g (ITEM_key (hp c x))) c = Some (e, n, c') \<and> pulled g K c C L R x e c' C' L'
    \<and> (C' \<noteq> C \<longrightarrow> has_flag (pull_flags a) LRU_PULL_EVICT \<and> evict_to_free g \<and> n = 1)"
proof -
  let ?R = "R(x := R x + 1)" and ?f = "\<lambda>i. i\<lparr>it_flags := clear_flag (it_flags i) ITEM_ACTIVE\<rparr>"
  have Lx: "L x \<noteq> None" by (rule live_linked [OF inv x])
  consider (evict) "has_flag (pull_flags a) LRU_PULL_EVICT" "evict_to_free g"
    | (move) "\<not> has_flag (pull_flags a) LRU_PULL_EVICT" "\<not> has_flag (pull_flags a) LRU_PULL_RETURN_ITEM" "has_flag (it_flags (hp c x)) ITEM_ACTIVE" "lru_segmented g"
    | (stay) "pull_cold g a x (hash g (ITEM_key (hp c x))) c = Some (Stop_at x 0, 0, c)"
  proof -
    assume a: "\<lbrakk>has_flag (pull_flags a) LRU_PULL_EVICT; evict_to_free g\<rbrakk> \<Longrightarrow> thesis"
      "\<lbrakk>\<not> has_flag (pull_flags a) LRU_PULL_EVICT; \<not> has_flag (pull_flags a) LRU_PULL_RETURN_ITEM; has_flag (it_flags (hp c x)) ITEM_ACTIVE; lru_segmented g\<rbrakk> \<Longrightarrow> thesis"
      "pull_cold g a x (hash g (ITEM_key (hp c x))) c = Some (Stop_at x 0, 0, c) \<Longrightarrow> thesis"
    show thesis
    proof (cases "has_flag (pull_flags a) LRU_PULL_EVICT")
      case True
      then show thesis using a(1,3) by (cases "evict_to_free g") (simp_all add: pull_cold_def)
    next
      case False
      then show thesis using a(2,3)
        by (cases "has_flag (pull_flags a) LRU_PULL_RETURN_ITEM"; cases "has_flag (it_flags (hp c x)) ITEM_ACTIVE \<and> lru_segmented g") (simp_all add: pull_cold_def)
    qed
  qed
  then show ?thesis
  proof cases
    case evict
    have ie: "cache_inv g K (upd_is (pull_id a) (count_eviction g (hp c x)) c) C {} L ?R" using inv by simp
    obtain c1 where c1: "do_item_unlink g x (hash g (ITEM_key (hp c x))) (upd_is (pull_id a) (count_eviction g (hp c x)) c) = Some c1"
      "cache_inv g K c1 (C - {x}) {} L ?R" "kept x L (hp c) (hp c1)" using unlink_held [OF ie, of x] x by auto
    have "\<exists>r. pull_cold g a x (hash g (ITEM_key (hp c x))) c = Some (Stop_at x 0, 1, c1\<lparr>rbl := r\<rparr>)"
    proof (cases "slab_automove_mode g = 2")
      case True
      then show ?thesis using evict c1(1) unfolding pull_cold_def unlink_nolock_eq by (simp add: Let_def) blast
    next
      case False
      then have "pull_cold g a x (hash g (ITEM_key (hp c x))) c = Some (Stop_at x 0, 1, c1\<lparr>rbl := rbl c1\<rparr>)"
        using evict c1(1) unfolding pull_cold_def unlink_nolock_eq by (simp add: Let_def)
      then show ?thesis ..
    qed
    then obtain r where "pull_cold g a x (hash g (ITEM_key (hp c x))) c = Some (Stop_at x 0, 1, c1\<lparr>rbl := r\<rparr>)" ..
    moreover have "pulled g K c C L R x (Stop_at x 0) (c1\<lparr>rbl := r\<rparr>) (C - {x}) L" using c1 by (simp add: pulled_def)
    ultimately show ?thesis using evict by blast
  next
    case move
    have im: "cache_inv g K (upd_it x ?f (upd_is (pull_id a) (\<lambda>s. s\<lparr>is_moves_to_warm := is_moves_to_warm s + 1\<rparr>) c)) C {} L ?R"
      by (rule cache_inv_flag(1) [where L = L and x = x, OF _ Lx]) (use inv in simp)
    have "kept x L (hp c) (hp (upd_it x ?f (upd_is (pull_id a) (\<lambda>s. s\<lparr>is_moves_to_warm := is_moves_to_warm s + 1\<rparr>) c)))"
      by (simp add: kept_def pay_def)
    then obtain c1 where "do_item_unlink_q g x (upd_it x ?f (upd_is (pull_id a) (\<lambda>s. s\<lparr>is_moves_to_warm := is_moves_to_warm s + 1\<rparr>) c)) = Some c1"
      "pulled g K c C L R x (Stop_at x WARM_LRU) c1 C L" by (rule pulled_move [where m = WARM_LRU, OF im x, rotated]) auto
    then have "pull_cold g a x (hash g (ITEM_key (hp c x))) c = Some (Stop_at x WARM_LRU, 1, c1) \<and> pulled g K c C L R x (Stop_at x WARM_LRU) c1 C L"
      using move unfolding pull_cold_def by (simp add: Let_def)
    then show ?thesis by blast
  next
    case stay
    then show ?thesis using pulled_stop [OF inv] by blast
  qed
qed

text \<open>What may be taken from the cache without an eviction: expired items, and anything while a flush is in effect.\<close>

definition may_drop :: "globals \<Rightarrow> item \<Rightarrow> bool" where
  "may_drop g it \<longleftrightarrow> exptime it \<noteq> 0 \<and> exptime it < current_time g \<or> oldest_live g \<noteq> 0 \<and> oldest_live g \<le> current_time g"

definition evicting :: "globals \<Rightarrow> pull \<Rightarrow> bool" where
  "evicting g a \<longleftrightarrow> cur_lru a = COLD_LRU \<and> has_flag (pull_flags a) LRU_PULL_EVICT \<and> evict_to_free g"

lemma expired_may_drop: "expired_or_flushed g it \<Longrightarrow> may_drop g it"
  by (auto simp: expired_or_flushed_def may_drop_def item_is_flushed_def split: if_splits)

lemma may_drop_pay: "pay it' = pay it \<Longrightarrow> may_drop g it' = may_drop g it"
  by (simp add: may_drop_def pay_def)

lemma pulled_trans: "kept x L (hp c) (hp c1) \<Longrightarrow> pulled g K c1 C L R x e c' C' L' \<Longrightarrow> pulled g K c C L R x e c' C' L'"
  unfolding pulled_def using kept_trans kept_le by blast

lemma pull_cold_stops: "pull_cold g a x hv c = Some (e, n, c') \<Longrightarrow> e \<noteq> Go_on"
  unfolding pull_cold_def Let_def by (auto simp: bind_eq_Some_conv split: if_splits)

lemma pull_item_ok:
  assumes inv: "cache_inv g K c C {} L R" and x: "x \<in> C" "R x < 65534" and tr: "tail_repair_time g = 0"
  shows "\<exists>e n c' C' L'. pull_item g a x (hash g (ITEM_key (hp c x))) c = Some (e, n, c') \<and> pulled g K c C L R x e c' C' L'
    \<and> (C' \<noteq> C \<longrightarrow> may_drop g (hp c x) \<or> evicting g a \<and> e \<noteq> Go_on)"
proof -
  let ?R = "R(x := R x + 1)"
  have Lx: "L x \<noteq> None" by (rule live_linked [OF inv x(1)])
  define c1 where "c1 = upd_it x (\<lambda>i. i\<lparr>refcount := refcount i + 1\<rparr>) c"
  define c2 where "c2 = (if refcount (hp c1 x) \<noteq> 2 then upd_is (pull_id a) (\<lambda>s. s\<lparr>is_lrutail_reflocked := is_lrutail_reflocked s + 1\<rparr>) c1 else c1)"
  have i2: "cache_inv g K c2 C {} L ?R" using cache_inv_incr [OF inv Lx x(2)] by (simp add: c1_def c2_def)
  have h2: "hp c2 = (hp c)(x := (hp c x)\<lparr>refcount := refcount (hp c x) + 1\<rparr>)" by (simp add: c1_def c2_def)
  have k2: "kept x L (hp c) (hp c2)" unfolding h2 by (rule kept_upd) (simp add: pay_def)
  have ky: "ITEM_key (hp c2 x) = ITEM_key (hp c x)" unfolding h2 by (simp add: ITEM_key_def)
  have ex: "expired_or_flushed g (hp c2 x) = expired_or_flushed g (hp c x)" unfolding h2 by (rule expired_cong) simp_all
  have eq: "pull_item g a x (hash g (ITEM_key (hp c x))) c =
      (if expired_or_flushed g (hp c x) then do { c \<leftarrow> pull_reclaim g a x (hash g (ITEM_key (hp c2 x))) c2; Some (Go_on, 1, c) }
       else if cur_lru a = HOT_LRU \<or> cur_lru a = WARM_LRU then pull_hot_warm g a x c2
       else if cur_lru a = COLD_LRU then pull_cold g a x (hash g (ITEM_key (hp c2 x))) c2
       else Some (Stop_at x 0, 0, c2))"
    unfolding pull_item_def Let_def c1_def [symmetric] c2_def [symmetric] ky ex using tr by simp
  consider (ex) "expired_or_flushed g (hp c x)" | (hw) "\<not> expired_or_flushed g (hp c x)" "cur_lru a = HOT_LRU \<or> cur_lru a = WARM_LRU"
    | (cold) "\<not> expired_or_flushed g (hp c x)" "cur_lru a = COLD_LRU"
    | (temp) "\<not> expired_or_flushed g (hp c x)" "cur_lru a \<noteq> HOT_LRU" "cur_lru a \<noteq> WARM_LRU" "cur_lru a \<noteq> COLD_LRU" by blast
  then show ?thesis
  proof cases
    case ex
    obtain c' L' where p: "pull_reclaim g a x (hash g (ITEM_key (hp c2 x))) c2 = Some c'" "pulled g K c2 C L R x Go_on c' (C - {x}) L'"
      using pulled_reclaim [OF i2 x(1)] by blast
    have "pull_item g a x (hash g (ITEM_key (hp c x))) c = Some (Go_on, 1, c')" unfolding eq using ex p(1) by simp
    then show ?thesis using expired_may_drop [OF ex] pulled_trans [OF k2 p(2)] by blast
  next
    case hw
    obtain e n c' where p: "pull_hot_warm g a x c2 = Some (e, n, c')" "pulled g K c2 C L R x e c' C L"
      using pull_hot_warm_ok [OF i2 x(1)] by blast
    have "pull_item g a x (hash g (ITEM_key (hp c x))) c = Some (e, n, c')" unfolding eq using hw p(1) by simp
    with pulled_trans [OF k2 p(2)] show ?thesis by blast
  next
    case cold
    obtain e n c' C' L' where p: "pull_cold g a x (hash g (ITEM_key (hp c2 x))) c2 = Some (e, n, c')" "pulled g K c2 C L R x e c' C' L'"
      "C' \<noteq> C \<longrightarrow> has_flag (pull_flags a) LRU_PULL_EVICT \<and> evict_to_free g \<and> n = 1"
      using pull_cold_ok [OF i2 x(1)] by blast
    have "pull_item g a x (hash g (ITEM_key (hp c x))) c = Some (e, n, c')" unfolding eq using cold p(1) by simp
    moreover have "e \<noteq> Go_on" using p(1) by (rule pull_cold_stops)
    ultimately show ?thesis using pulled_trans [OF k2 p(2)] p(3) cold(2) unfolding evicting_def by blast
  next
    case temp
    then have "pull_item g a x (hash g (ITEM_key (hp c x))) c = Some (Stop_at x 0, 0, c2)" unfolding eq by simp
    then show ?thesis using pulled_trans [OF k2 pulled_stop [OF i2]] by blast
  qed
qed

section \<open>The walk from the tail\<close>

lemma prev_linked:
  assumes inv: "cache_inv g K c C {} L R" and x: "x \<in> C" and p: "prv (hp c x) = Some p"
  shows "p \<in> C \<and> p \<noteq> x"
proof -
  obtain ls where ls: "lru_ok g c ls" "(\<Union>i. set (ls i)) = C - {}" using cache_invD(3) [OF inv] by blast
  then obtain i where "x \<in> set (ls i)" using x by blast
  then obtain xs ys where xy: "ls i = xs @ x # ys" by (meson split_list)
  have d: "dll (hp c) (heads c i) (xs @ x # ys)" using lru_okD(1) [OF ls(1), of i] xy by simp
  have "p \<in> set xs" using cut_out_links(2) [OF d] p last_ptr_in by metis
  moreover have "p \<in> set (ls i)" using \<open>p \<in> set xs\<close> xy by simp
  ultimately show ?thesis using d ls(2) by (auto simp: dll_def)
qed

lemma not_crawler: "cache_inv g K c C D L R \<Longrightarrow> L x \<noteq> None \<Longrightarrow> \<not> is_crawler (hp c x)"
  using item_okD(5) [OF cache_invD(6)] by (fastforce simp: is_crawler_def)

definition pays :: "live \<Rightarrow> heap \<Rightarrow> heap \<Rightarrow> bool" where
  "pays L h h' \<longleftrightarrow> (\<forall>y. L y \<noteq> None \<longrightarrow> pay (h' y) = pay (h y))"

lemma kept_pays: "kept x L h h' \<Longrightarrow> pays L h h'"
  by (simp add: kept_def pays_def)

lemma pays_trans:
  assumes "pays L h h'" "L' \<subseteq>\<^sub>m L" "pays L' h' h''"
  shows "pays L' h h''"
proof -
  have "L y \<noteq> None" if "L' y \<noteq> None" for y using map_le_implies_dom_le [OF assms(2)] that by blast
  with assms(1,3) show ?thesis by (simp add: pays_def)
qed

text \<open>
  The walk: it ends, keeps the invariant, and takes away only what may be dropped, and at most the item it
  stops at when it evicts.
\<close>

definition walked :: "globals \<Rightarrow> nat \<times> u32 list \<Rightarrow> pull \<Rightarrow> cache \<Rightarrow> nat set \<Rightarrow> live \<Rightarrow> (nat \<Rightarrow> nat) \<Rightarrow> pull_end \<Rightarrow> cache \<Rightarrow> nat set \<Rightarrow> live \<Rightarrow> bool" where
  "walked g K a c C L R e c' C' L' \<longleftrightarrow> C' \<subseteq> C \<and> L' \<subseteq>\<^sub>m L \<and> pays L' (hp c) (hp c')
     \<and> (\<forall>y\<in>C - C'. may_drop g (hp c y) \<or> evicting g a \<and> (\<exists>m. e = Stop_at y m))
     \<and> (case e of Go_on \<Rightarrow> cache_inv g K c' C' {} L' R
        | Stop_at y m \<Rightarrow> y \<in> C \<and> GET_LRU m = m \<and> cache_inv g K c' C' (if m \<noteq> 0 then {y} else {}) L' (R(y := R y + 1)))"

lemma walked_refl: "cache_inv g K c C {} L R \<Longrightarrow> walked g K a c C L R Go_on c C L"
  by (simp add: walked_def pays_def)

lemma pulled_walked:
  assumes p: "pulled g K c C L R x e c' C' L'" and x: "x \<in> C" and d: "C' \<noteq> C \<longrightarrow> may_drop g (hp c x) \<or> evicting g a \<and> e \<noteq> Go_on"
  shows "walked g K a c C L R e c' C' L'"
  using p x d kept_pays unfolding pulled_def walked_def by (auto split: pull_end.splits)

lemma walked_trans:
  assumes w1: "walked g K a c C L R Go_on c1 C1 L1" and w2: "walked g K a c1 C1 L1 R e c' C' L'" and inv: "C \<subseteq> dom L" "C1 \<subseteq> dom L1"
  shows "walked g K a c C L R e c' C' L'"
proof -
  have "may_drop g (hp c y) \<or> evicting g a \<and> (\<exists>m. e = Stop_at y m)" if y: "y \<in> C - C'" for y
  proof (cases "y \<in> C1")
    case True
    then have "L1 y \<noteq> None" using inv(2) by blast
    then have "pay (hp c1 y) = pay (hp c y)" using w1 unfolding walked_def pays_def by blast
    then show ?thesis using may_drop_pay [of "hp c1 y" "hp c y" g] w2 True y unfolding walked_def by fastforce
  next
    case False
    then show ?thesis using w1 y unfolding walked_def by fastforce
  qed
  moreover have "pays L' (hp c) (hp c')" using w1 w2 pays_trans unfolding walked_def by blast
  moreover have "C' \<subseteq> C" "L' \<subseteq>\<^sub>m L" using w1 w2 map_le_trans unfolding walked_def by blast+
  ultimately show ?thesis using w1 w2 unfolding walked_def by (auto split: pull_end.splits)
qed

lemma pull_loop_ok:
  assumes "cache_inv g K c C {} L R" "\<And>s. search = Some s \<Longrightarrow> s \<in> C" "\<And>y. y \<in> C \<Longrightarrow> R y < 65534" "tail_repair_time g = 0"
  shows "\<exists>e n c' C' L'. pull_loop g a tries search rem c = Some (Some e, n, c') \<and> walked g K a c C L R e c' C' L'"
  using assms
proof (induction tries arbitrary: search rem c C L)
  case 0
  show ?case using walked_refl [OF "0.prems"(1)] by (subst pull_loop.simps) (auto split: option.splits)
next
  case (Suc tries)
  note inv = Suc.prems(1)
  show ?case
  proof (cases search)
    case None
    then show ?thesis using walked_refl [OF inv] by (subst pull_loop.simps) auto
  next
    case (Some x)
    have x: "x \<in> C" by (rule Suc.prems(2) [OF Some])
    have nc: "\<not> is_crawler (hp c x)" by (rule not_crawler [OF inv live_linked [OF inv x]])
    let ?hv = "hash g (ITEM_key (hp c x))" and ?n = "prv (hp c x)"
    have nx: "s \<in> C \<and> s \<noteq> x" if "?n = Some s" for s by (rule prev_linked [OF inv x that])
    show ?thesis
    proof (cases "item_trylock a (Suc tries) ?hv")
      case False
      have "pull_loop g a (Suc tries) search rem c = pull_loop g a tries ?n rem c" using Some nc False by (subst pull_loop.simps) (simp add: Let_def)
      then show ?thesis using Suc.IH [OF inv, of ?n rem] nx Suc.prems(3,4) by simp
    next
      case True
      obtain e n c1 C1 L1 where p: "pull_item g a x ?hv c = Some (e, n, c1)" "pulled g K c C L R x e c1 C1 L1"
        "C1 \<noteq> C \<longrightarrow> may_drop g (hp c x) \<or> evicting g a \<and> e \<noteq> Go_on"
        using pull_item_ok [OF inv x Suc.prems(3) [OF x] Suc.prems(4)] by blast
      have w: "walked g K a c C L R e c1 C1 L1" by (rule pulled_walked [OF p(2) x p(3)])
      show ?thesis
      proof (cases e)
        case Go_on
        have i1: "cache_inv g K c1 C1 {} L1 R" and C1: "C1 = C \<or> C1 = C - {x}" using p(2) Go_on unfolding pulled_def by auto
        have "pull_loop g a (Suc tries) search rem c = pull_loop g a tries ?n (rem + n) c1"
          using Some nc True p(1) Go_on by (subst pull_loop.simps) (simp add: Let_def)
        moreover obtain e' n' c' C' L' where l: "pull_loop g a tries ?n (rem + n) c1 = Some (Some e', n', c')" "walked g K a c1 C1 L1 R e' c' C' L'"
          using Suc.IH [OF i1, of ?n "rem + n"] nx C1 Suc.prems(3,4) by blast
        moreover have "walked g K a c C L R e' c' C' L'"
          by (rule walked_trans [OF w [unfolded Go_on] l(2) cache_invD(4) [OF inv] cache_invD(4) [OF i1]])
        ultimately show ?thesis by auto
      next
        case (Stop_at y m)
        have "pull_loop g a (Suc tries) search rem c = Some (Some e, rem + n, c1)"
          using Some nc True p(1) Stop_at by (subst pull_loop.simps) (simp add: Let_def)
        with w show ?thesis by blast
      qed
    qed
  qed
qed

section \<open>The pull as a whole\<close>

text \<open>The items lost: those that may be dropped, and at most one more when evicting.\<close>

definition loses :: "globals \<Rightarrow> bool \<Rightarrow> heap \<Rightarrow> nat set \<Rightarrow> nat set \<Rightarrow> bool" where
  "loses g ev h C C' \<longleftrightarrow> C' \<subseteq> C \<and> (\<exists>z. \<forall>y\<in>C - C'. may_drop g (h y) \<or> ev \<and> y = z)"

lemma tail_linked: "cache_inv g K c C {} L R \<Longrightarrow> tails c i = Some s \<Longrightarrow> s \<in> C"
proof -
  assume inv: "cache_inv g K c C {} L R" and t: "tails c i = Some s"
  obtain ls where ls: "lru_ok g c ls" "(\<Union>i. set (ls i)) = C - {}" using cache_invD(3) [OF inv] by blast
  then have "s \<in> set (ls i)" using lru_okD(2) [OF ls(1)] t last_ptr_in by metis
  with ls(2) show ?thesis by blast
qed

lemma walked_loses: "walked g K a c C L R e c' C' L' \<Longrightarrow> loses g (evicting g a) (hp c) C C'"
  unfolding walked_def loses_def by (cases e) auto

text \<open>Putting a stopped item back: it enters the list it is moved to.\<close>

lemma walked_relink:
  assumes w: "walked g K a c C L R (Stop_at y m) c1 C1 L1"
  obtains c2 where "(if m \<noteq> 0 then item_link_q g y (upd_it y (\<lambda>i. i\<lparr>slabs_clsid := ITEM_clsid i OR m\<rparr>) c1) else Some c1) = Some c2"
    "cache_inv g K c2 C1 {} L1 (R(y := R y + 1))" "pays L1 (hp c) (hp c2)" "L1 \<subseteq>\<^sub>m L" "loses g (evicting g a) (hp c) C C1"
proof -
  let ?R = "R(y := R y + 1)"
  have p: "pays L1 (hp c) (hp c1)" and L1: "L1 \<subseteq>\<^sub>m L" and m: "GET_LRU m = m" and i1: "cache_inv g K c1 C1 (if m \<noteq> 0 then {y} else {}) L1 ?R"
    using w unfolding walked_def by auto
  note l = walked_loses [OF w]
  show thesis
  proof (cases "m = 0")
    case True
    then show thesis using that [of c1] i1 p L1 l by simp
  next
    case False
    then have "cache_inv g K (upd_it y (\<lambda>i. i\<lparr>slabs_clsid := ITEM_clsid i OR m\<rparr>) c1) C1 {y} L1 ?R" using i1 cache_inv_move [OF _ _ m, where x = y] by simp
    then obtain c2 where c2: "do_item_link_q g y (upd_it y (\<lambda>i. i\<lparr>slabs_clsid := ITEM_clsid i OR m\<rparr>) c1) = Some c2" "cache_inv g K c2 C1 ({y} - {y}) L1 ?R"
      "same_nodes (hp (upd_it y (\<lambda>i. i\<lparr>slabs_clsid := ITEM_clsid i OR m\<rparr>) c1)) (hp c2)" by (rule cache_link_q [where x = y]) auto
    have "pays L1 (hp c1) (hp c2)"
      using same_nodesD [OF c2(3)] unfolding pays_def pay_def by simp
    then have "pays L1 (hp c) (hp c2)" using pays_trans [OF p map_le_refl] by blast
    with c2 False L1 l show thesis using that [of c2] by (simp add: item_link_q_def)
  qed
qed

lemma lru_pull_tail_ok:
  assumes inv: "cache_inv g K c C {} L R" and r: "\<And>y. y \<in> C \<Longrightarrow> R y < 65534" and tr: "tail_repair_time g = 0"
    and fl: "\<not> has_flag (pull_flags a) LRU_PULL_RETURN_ITEM"
  shows "\<exists>n c' C' L'. lru_pull_tail g a c = Some (n, None, c') \<and> cache_inv g K c' C' {} L' R \<and> L' \<subseteq>\<^sub>m L \<and> pays L' (hp c) (hp c') \<and> loses g (evicting g a) (hp c) C C'"
proof (cases "orig_id a = 0")
  case True
  then show ?thesis using inv by (intro exI [of _ 0] exI [of _ c] exI [of _ C] exI [of _ L]) (simp add: lru_pull_tail_def loses_def pays_def)
next
  case False
  obtain e n c1 C1 L1 where w: "pull_loop g a 5 (tails c (pull_id a)) 0 c = Some (Some e, n, c1)" "walked g K a c C L R e c1 C1 L1"
    using pull_loop_ok [where search = "tails c (pull_id a)" and tries = 5 and rem = 0 and a = a, OF inv tail_linked [OF inv, where i = "pull_id a"] r tr] by blast
  show ?thesis
  proof (cases e)
    case Go_on
    then have "lru_pull_tail g a c = Some (n, None, c1)" using w(1) False by (simp add: lru_pull_tail_def)
    then show ?thesis using w(2) walked_loses [OF w(2)] Go_on unfolding walked_def by auto
  next
    case (Stop_at y m)
    obtain c2 where c2: "(if m \<noteq> 0 then item_link_q g y (upd_it y (\<lambda>i. i\<lparr>slabs_clsid := ITEM_clsid i OR m\<rparr>) c1) else Some c1) = Some c2"
      "cache_inv g K c2 C1 {} L1 (R(y := R y + 1))" "pays L1 (hp c) (hp c2)" "L1 \<subseteq>\<^sub>m L" "loses g (evicting g a) (hp c) C C1"
      by (rule walked_relink [OF w(2) [unfolded Stop_at]])
    let ?L = "drop_live y C1 L1 (R(y := R y + 1))"
    obtain c3 where c3: "do_item_remove g y c2 = Some c3" "cache_inv g K c3 C1 {} ?L ((R(y := R y + 1))(y := (R(y := R y + 1)) y - 1))" "kept y ?L (hp c2) (hp c3)"
      using cache_remove [OF c2(2), of y] by auto
    have "lru_pull_tail g a c = Some (n, None, c3)" using w(1) False Stop_at c2(1) c3(1) fl unfolding lru_pull_tail_def by (simp add: bind_eq_Some_conv)
    moreover have "pays ?L (hp c) (hp c3)" by (rule pays_trans [OF c2(3) drop_live_mono kept_pays [OF c3(3)]])
    moreover have "?L \<subseteq>\<^sub>m L" using map_le_trans [OF drop_live_mono c2(4)] .
    ultimately show ?thesis using c3(2) c2(5) by auto
  qed
qed

text \<open>The variant of the external storage: the tail item is handed out with a reference.\<close>

lemma lru_pull_tail_return:
  assumes inv: "cache_inv g K c C {} L R" and r: "\<And>y. y \<in> C \<Longrightarrow> R y < 65534" and tr: "tail_repair_time g = 0"
    and fl: "has_flag (pull_flags a) LRU_PULL_RETURN_ITEM" "\<not> has_flag (pull_flags a) LRU_PULL_EVICT" "cur_lru a = COLD_LRU"
  shows "\<exists>n ret c' C' L'. lru_pull_tail g a c = Some (n, ret, c') \<and> L' \<subseteq>\<^sub>m L \<and> pays L' (hp c) (hp c') \<and> loses g False (hp c) C C'
    \<and> (case ret of None \<Rightarrow> cache_inv g K c' C' {} L' R
       | Some (y, hv) \<Rightarrow> y \<in> C \<and> hv = hash g (ITEM_key (hp c' y)) \<and> cache_inv g K c' C' {} L' (R(y := R y + 1)))"
proof (cases "orig_id a = 0")
  case True
  then show ?thesis using inv by (intro exI [of _ 0] exI [of _ None] exI [of _ c] exI [of _ C] exI [of _ L]) (simp add: lru_pull_tail_def loses_def pays_def)
next
  case False
  have ev: "evicting g a = False" using fl by (simp add: evicting_def)
  obtain e n c1 C1 L1 where w: "pull_loop g a 5 (tails c (pull_id a)) 0 c = Some (Some e, n, c1)" "walked g K a c C L R e c1 C1 L1"
    using pull_loop_ok [where search = "tails c (pull_id a)" and tries = 5 and rem = 0 and a = a, OF inv tail_linked [OF inv, where i = "pull_id a"] r tr] by blast
  show ?thesis
  proof (cases e)
    case Go_on
    then have "lru_pull_tail g a c = Some (n, None, c1)" using w(1) False by (simp add: lru_pull_tail_def)
    then show ?thesis using w(2) walked_loses [OF w(2)] Go_on ev unfolding walked_def by auto
  next
    case (Stop_at y m)
    obtain c2 where c2: "(if m \<noteq> 0 then item_link_q g y (upd_it y (\<lambda>i. i\<lparr>slabs_clsid := ITEM_clsid i OR m\<rparr>) c1) else Some c1) = Some c2"
      "cache_inv g K c2 C1 {} L1 (R(y := R y + 1))" "pays L1 (hp c) (hp c2)" "L1 \<subseteq>\<^sub>m L" "loses g (evicting g a) (hp c) C C1"
      by (rule walked_relink [OF w(2) [unfolded Stop_at]])
    have "lru_pull_tail g a c = Some (n, Some (y, hash g (ITEM_key (hp c2 y))), c2)"
      using w(1) False Stop_at c2(1) fl unfolding lru_pull_tail_def by (simp add: bind_eq_Some_conv)
    moreover have "y \<in> C" using w(2) Stop_at by (simp add: walked_def)
    ultimately show ?thesis using c2 ev by auto
  qed
qed

end
