(* ===== verification/Lookup.thy ===== *)
theory Lookup
  imports Cache
begin

text \<open>
  Lookup of items and the asynchronous bumps: the entries queued in the bump buffers are whole and hold a
  reference each, and lookups, touches and the maintainer's processing of the entries keep the
  invariant of the cache.
\<close>

section \<open>Entries of a bump buffer\<close>

function entries :: "byte list \<Rightarrow> byte list list" where
  "entries bs = (if length bs < 16 then [] else take 16 bs # entries (drop 16 bs))"
  by pat_completeness auto
termination by (relation "measure length") auto

declare entries.simps [simp del]

lemma entries_short [simp]: "length bs < 16 \<Longrightarrow> entries bs = []"
  by (subst entries.simps) simp

lemma entries_step: "16 \<le> length bs \<Longrightarrow> entries bs = take 16 bs # entries (drop 16 bs)"
  by (subst entries.simps) simp

lemma entries_append: "16 dvd length as \<Longrightarrow> entries (as @ bs) = entries as @ entries bs"
proof (induction as rule: entries.induct)
  case (1 as)
  show ?case
  proof (cases "length as < 16")
    case True
    with 1(2) have "as = []" by (metis dvd_imp_le length_0_conv not_le neq0_conv)
    then show ?thesis by simp
  next
    case False
    then have "16 dvd length (drop 16 as)" using 1(2) by (simp add: dvd_diff_nat)
    then have "entries (drop 16 as @ bs) = entries (drop 16 as) @ entries bs" using 1(1) False by blast
    then show ?thesis using False by (simp add: entries_step)
  qed
qed

lemma entries_one: "length bs = 16 \<Longrightarrow> entries bs = [bs]"
  by (simp add: entries_step)

text \<open>The slices the maintainer reads are the entries of the region.\<close>

lemma entries_slices:
  assumes "length bs = 16 * n"
  shows "map (\<lambda>k. seg (16 * k) (16 * k + 16) bs) [0..<n] = entries bs"
  using assms
proof (induction n arbitrary: bs)
  case (Suc n)
  have "map (\<lambda>k. seg (16 * k) (16 * k + 16) (drop 16 bs)) [0..<n] = entries (drop 16 bs)" using Suc by simp
  moreover have "seg (16 * k) (16 * k + 16) (drop 16 bs) = seg (16 * Suc k) (16 * Suc k + 16) bs" for k by (simp add: seg_def add.commute)
  ultimately have "map (\<lambda>k. seg (16 * Suc k) (16 * Suc k + 16) bs) [0..<n] = entries (drop 16 bs)" by simp
  moreover have "[0..<Suc n] = 0 # map Suc [0..<n]" by (simp add: map_Suc_upt upt_conv_Cons)
  moreover have "entries bs = take 16 bs # entries (drop 16 bs)" using Suc.prems by (simp add: entries_step)
  ultimately show ?case by (simp add: seg_def comp_def)
qed simp

lemma le_nat_bytes: "v < 256 ^ n \<Longrightarrow> le_nat (le_bytes n v) = v"
proof (induction n arbitrary: v)
  case (Suc n)
  have "unat (of_nat (v mod 256) :: byte) = v mod 256" unfolding unat_of_nat by simp
  moreover have "v div 256 < 256 ^ n" using Suc.prems by (simp add: less_mult_imp_div_less mult.commute)
  ultimately show ?case using Suc.IH by simp
qed simp

lemma length_le_bytes [simp]: "length (le_bytes n v) = n"
  by (induction n arbitrary: v) auto

lemma dec_enc_entry: "it < 2 ^ 64 \<Longrightarrow> dec_entry (enc_entry it hv @ pad) = (it, hv)"
proof -
  assume "it < 2 ^ 64"
  then have "le_nat (le_bytes 8 it) = it" by (intro le_nat_bytes) simp
  moreover have "unat hv < 256 ^ 4" using unat_lt_size(1) [of hv] by simp
  then have "le_nat (le_bytes 4 (unat hv)) = unat hv" by (rule le_nat_bytes)
  ultimately show ?thesis by (simp add: dec_entry_def enc_entry_def of_nat_unat)
qed

definition bump_items :: "byte list \<Rightarrow> nat list" where
  "bump_items bs = map (fst \<circ> dec_entry) (entries bs)"

definition bump_inv :: "lru_bump_buf \<Rightarrow> bool" where
  "bump_inv b \<longleftrightarrow> bip_inv (bump_buf b) \<and> 16 dvd unat (a_end (bump_buf b)) - unat (a_start (bump_buf b)) \<and> 16 dvd unat (b_end (bump_buf b))"

definition bump_refs :: "lru_bump_buf \<Rightarrow> nat \<Rightarrow> nat" where
  "bump_refs b x = count_list (bump_items (bip_bytes (bump_buf b))) x"

lemma length_bip_bytes:
  "bip_inv me \<Longrightarrow> length (bip_bytes me) = (unat (a_end me) - unat (a_start me)) + unat (b_end me)"
  by (auto simp: bip_bytes_def bip_inv_def)

text \<open>Room requested, partly written and pushed.\<close>

lemma push_entry:
  assumes inv: "bip_inv me" and r: "bipbuf_request me 16 = Some off" and src: "length src = 12"
  obtains d pad where "memcpy_at (bb_data me) (unat off) src = Some d" "fst (bipbuf_push (me\<lparr>bb_data := d\<rparr>) 16) = 16"
    "bip_inv (snd (bipbuf_push (me\<lparr>bb_data := d\<rparr>) 16))" "bip_bytes (snd (bipbuf_push (me\<lparr>bb_data := d\<rparr>) 16)) = bip_bytes me @ src @ pad" "length pad = 4"
proof -
  have room: "16 \<le> int (bip_room me)" using inv r by (auto simp: bipbuf_request_def bipbuf_unused_room split: if_splits)
  have fit: "unat off + 16 \<le> length (bb_data me)"
    using inv r room by (auto simp: bipbuf_request_def bip_room_def bip_inv_def split: if_splits)
  define pad where "pad = seg (unat off + 12) (unat off + 16) (bb_data me)"
  have lp: "length pad = 4" using fit by (simp add: pad_def)
  obtain d where d: "memcpy_at (bb_data me) (unat off) src = Some d" using memcpy_at_fits [of "unat off" src "bb_data me"] fit src by auto
  have "pad @ drop (unat off + 16) (bb_data me) = drop (unat off + 12) (bb_data me)"
  proof -
    have "drop 4 (drop (unat off + 12) (bb_data me)) = drop (unat off + 16) (bb_data me)" by (simp add: add.commute)
    then show ?thesis using append_take_drop_id [of 4 "drop (unat off + 12) (bb_data me)"] by (simp add: pad_def seg_def)
  qed
  then have d': "memcpy_at (bb_data me) (unat off) (src @ pad) = Some d" using d fit src lp by (auto simp: memcpy_at_def split: if_splits)
  have len: "length (src @ pad) = nat 16" using src lp by simp
  have p: "bipbuf_offer me (src @ pad) 16 = Some (bipbuf_push (me\<lparr>bb_data := d\<rparr>) 16)" by (rule push_spec [OF inv _ room r d' len]) simp
  from offer_spec [OF inv, of 16 "src @ pad"] len room p
  have "bip_inv (snd (bipbuf_push (me\<lparr>bb_data := d\<rparr>) 16))" "fst (bipbuf_push (me\<lparr>bb_data := d\<rparr>) 16) = 16"
    "bip_bytes (snd (bipbuf_push (me\<lparr>bb_data := d\<rparr>) 16)) = bip_bytes me @ src @ pad" by auto
  with d lp show thesis using that by blast
qed

lemma push_regions:
  fixes dat :: "byte list"
  assumes inv: "bip_inv me" and r: "bipbuf_request me 16 = Some off"
    and d: "16 dvd unat (a_end me) - unat (a_start me)" "16 dvd unat (b_end me)"
  defines "me' \<equiv> snd (bipbuf_push (me\<lparr>bb_data := dat\<rparr>) 16)"
  shows "16 dvd unat (a_end me') - unat (a_start me')" "16 dvd unat (b_end me')"
proof -
  have room: "16 \<le> int (bip_room me)" using inv r by (auto simp: bipbuf_request_def bipbuf_unused_room split: if_splits)
  have "bipbuf_unused (me\<lparr>bb_data := dat\<rparr>) = bipbuf_unused me" by (simp add: bipbuf_unused_def)
  then have u: "\<not> bipbuf_unused (me\<lparr>bb_data := dat\<rparr>) < 16" using room bipbuf_unused_room [OF inv] by simp
  have sw: "a_end (check_for_switch_to_b m) = a_end m" "a_start (check_for_switch_to_b m) = a_start m" "b_end (check_for_switch_to_b m) = b_end m" for m
    by (simp_all add: check_for_switch_to_b_def)
  show "16 dvd unat (a_end me') - unat (a_start me')"
  proof (cases "b_inuse me = 1")
    case True
    then show ?thesis using u d by (simp add: me'_def bipbuf_push_def Let_def sw)
  next
    case False
    have "unat (a_end me + 16) = unat (a_end me) + 16" using room inv False
      by (subst unat_add_no_wrap) (auto simp: bip_room_def bip_inv_def)
    moreover have "unat (a_start me) \<le> unat (a_end me)" using inv by (simp add: bip_inv_def)
    then have "unat (a_end me) + 16 - unat (a_start me) = unat (a_end me) - unat (a_start me) + 16" by simp
    then have "16 dvd unat (a_end me) + 16 - unat (a_start me)" using d(1) by (metis dvd_add_triv_right_iff)
    ultimately show ?thesis using u False by (simp add: me'_def bipbuf_push_def Let_def sw)
  qed
  show "16 dvd unat (b_end me')"
  proof (cases "b_inuse me = 1")
    case True
    have "unat (b_end me + 16) = unat (b_end me) + 16" using room inv True bip_inv_bounds [OF inv]
      by (subst unat_add_no_wrap) (auto simp: bip_room_def)
    then show ?thesis using u d True by (simp add: me'_def bipbuf_push_def Let_def sw)
  next
    case False
    then show ?thesis using u d by (simp add: me'_def bipbuf_push_def Let_def sw)
  qed
qed

lemma count_bump_push:
  assumes "16 dvd length bs" "it < 2 ^ 64" "length pad = 4"
  shows "bump_items (bs @ enc_entry it hv @ pad) = bump_items bs @ [it]"
proof -
  have "length (enc_entry it hv @ pad) = 16" using assms(3) by (simp add: enc_entry_def)
  then have "entries (bs @ enc_entry it hv @ pad) = entries bs @ [enc_entry it hv @ pad]" using assms(1) entries_one by (metis entries_append)
  then show ?thesis by (simp add: bump_items_def dec_enc_entry [OF assms(2)] del: append_assoc)
qed

lemma bump_bytes_dvd: "bump_inv b \<Longrightarrow> 16 dvd length (bip_bytes (bump_buf b))"
  by (simp add: bump_inv_def length_bip_bytes)

lemma upd_it_cancel: "f (g (hp c x)) = hp c x \<Longrightarrow> upd_it x f (upd_it x g c) = c"
  by (simp add: upd_it_def)

text \<open>A bump either queues an entry that holds a reference, or changes nothing but the drop counter.\<close>

lemma lru_bump_async_ok:
  assumes inv: "cache_inv g K c C D L R" and x: "L x \<noteq> None" "R x < 65534" "x < 2 ^ 64" and b: "bump_inv b"
  obtains (queued) b' where "lru_bump_async b x hv c = Some (True, b', upd_it x (\<lambda>i. i\<lparr>refcount := refcount i + 1\<rparr>) c)" "bump_inv b'"
      "bump_refs b' = (bump_refs b)(x := bump_refs b x + 1)" "cache_inv g K (upd_it x (\<lambda>i. i\<lparr>refcount := refcount i + 1\<rparr>) c) C D L (R(x := R x + 1))"
  | (dropped) "lru_bump_async b x hv c = Some (False, b\<lparr>dropped := dropped b + 1\<rparr>, c)"
proof (cases "bipbuf_request (bump_buf b) 16")
  case None
  then have "lru_bump_async b x hv c = Some (False, b\<lparr>dropped := dropped b + 1\<rparr>, c)"
    unfolding lru_bump_async_def by (simp add: Let_def upd_it_cancel)
  then show thesis by (rule dropped)
next
  case (Some off)
  have bi: "bip_inv (bump_buf b)" "16 dvd unat (a_end (bump_buf b)) - unat (a_start (bump_buf b))" "16 dvd unat (b_end (bump_buf b))" using b by (auto simp: bump_inv_def)
  have "length (enc_entry x hv) = 12" by (simp add: enc_entry_def)
  then obtain d pad where d: "memcpy_at (bb_data (bump_buf b)) (unat off) (enc_entry x hv) = Some d" "fst (bipbuf_push ((bump_buf b)\<lparr>bb_data := d\<rparr>) 16) = 16"
    "bip_inv (snd (bipbuf_push ((bump_buf b)\<lparr>bb_data := d\<rparr>) 16))"
    "bip_bytes (snd (bipbuf_push ((bump_buf b)\<lparr>bb_data := d\<rparr>) 16)) = bip_bytes (bump_buf b) @ enc_entry x hv @ pad" "length pad = 4"
    by (rule push_entry [OF bi(1) Some])
  let ?b = "b\<lparr>bump_buf := snd (bipbuf_push ((bump_buf b)\<lparr>bb_data := d\<rparr>) 16)\<rparr>"
  have "lru_bump_async b x hv c = Some (True, ?b, upd_it x (\<lambda>i. i\<lparr>refcount := refcount i + 1\<rparr>) c)"
    using Some d(1,2) unfolding lru_bump_async_def by (simp add: Let_def split_def)
  moreover have "bump_inv ?b" using d(3) push_regions [OF bi(1) Some bi(2,3), of d] by (simp add: bump_inv_def)
  moreover have "bump_refs ?b = (bump_refs b)(x := bump_refs b x + 1)"
    using count_bump_push [OF bump_bytes_dvd [OF b] x(3) d(5)] d(4) by (auto simp: bump_refs_def fun_eq_iff)
  ultimately show thesis using queued cache_inv_incr [OF inv x(1,2)] by blast
qed

section \<open>Lookup\<close>

lemma hit_kept: "kept x L (hp c) (hp (upd_it x (\<lambda>i. i\<lparr>it_flags := fl\<rparr>) c))" "kept x L (hp c) (hp (upd_it x (\<lambda>i. i\<lparr>refcount := r i\<rparr>) c))"
  by (simp_all add: kept_def pay_def)

text \<open>The effect of a hit: at most one more reference, held by a queued bump.\<close>

lemma get_hit_ok:
  assumes inv: "cache_inv g K c C {} L R" and x: "x \<in> C" "R x < 65534" "x < 2 ^ 64" and b: "bump_inv (bumps w)"
  shows "\<exists>w' c' R'. get_hit g x hv w c = Some (w', c') \<and> cache_inv g K c' C {} L R' \<and> kept x L (hp c) (hp c') \<and> bump_inv (bumps w')
    \<and> (\<forall>y. R' y + bump_refs (bumps w) y = R y + bump_refs (bumps w') y) \<and> (\<forall>y. R' y \<le> R y + (if y = x then 1 else 0))"
proof -
  have Lx: "L x \<noteq> None" by (rule live_linked [OF inv x(1)])
  let ?A = "upd_it x (\<lambda>i. i\<lparr>it_flags := set_flag (it_flags i) ITEM_ACTIVE\<rparr>) c" and ?F = "upd_it x (\<lambda>i. i\<lparr>it_flags := set_flag (it_flags i) ITEM_FETCHED\<rparr>) c"
  note iA = cache_inv_flag(2) [OF inv Lx] and iF = cache_inv_flag(3) [OF inv Lx]
  have kA: "kept x L (hp c) (hp ?A)" and kF: "kept x L (hp c) (hp ?F)" by (simp_all add: kept_def pay_def)
  have same: ?thesis if "get_hit g x hv w c = Some (w, c')" "cache_inv g K c' C {} L R" "kept x L (hp c) (hp c')" for c'
    using that b by (intro exI [of _ w] exI [of _ c'] exI [of _ R]) simp
  obtain cA where cA: "do_item_update g x ?A = Some cA" "cache_inv g K cA C {} L R" "kept x L (hp ?A) (hp cA)" by (rule cache_update [OF iA Lx]) auto
  obtain cF where cF: "do_item_update g x ?F = Some cF" "cache_inv g K cF C {} L R" "kept x L (hp ?F) (hp cF)" by (rule cache_update [OF iF Lx]) auto
  consider (flat) "\<not> lru_segmented g" | (act) "lru_segmented g" "has_flag (it_flags (hp c x)) ITEM_ACTIVE"
    | (first) "lru_segmented g" "\<not> has_flag (it_flags (hp c x)) ITEM_ACTIVE" "\<not> has_flag (it_flags (hp c x)) ITEM_FETCHED"
    | (warm) "lru_segmented g" "\<not> has_flag (it_flags (hp c x)) ITEM_ACTIVE" "has_flag (it_flags (hp c x)) ITEM_FETCHED" "ITEM_lruid (hp c x) \<noteq> COLD_LRU"
    | (cold) "lru_segmented g" "\<not> has_flag (it_flags (hp c x)) ITEM_ACTIVE" "has_flag (it_flags (hp c x)) ITEM_FETCHED" "ITEM_lruid (hp c x) = COLD_LRU" by blast
  then show ?thesis
  proof cases
    case flat
    then have "get_hit g x hv w c = Some (w, cF)" using cF(1) by (simp add: get_hit_def Let_def)
    then show ?thesis using same cF(2) kept_trans [OF kF cF(3)] by blast
  next
    case act
    then have "get_hit g x hv w c = Some (w, c)" by (simp add: get_hit_def Let_def)
    then show ?thesis using same inv by simp
  next
    case first
    then have "get_hit g x hv w c = Some (w, ?F)" by (simp add: get_hit_def Let_def)
    then show ?thesis using same iF kF by blast
  next
    case warm
    then have "get_hit g x hv w c = Some (w, cA)" using cA(1) by (simp add: get_hit_def Let_def)
    then show ?thesis using same cA(2) kept_trans [OF kA cA(3)] by blast
  next
    case cold
    from iA Lx x(2,3) b show ?thesis
    proof (cases rule: lru_bump_async_ok [where hv = hv])
      case (queued b')
      let ?c = "upd_it x (\<lambda>i. i\<lparr>refcount := refcount i + 1\<rparr>) ?A"
      have "get_hit g x hv w c = Some (w\<lparr>bumps := b'\<rparr>, ?c)" using cold queued(1) by (simp add: get_hit_def Let_def)
      moreover have "kept x L (hp c) (hp ?c)" by (simp add: kept_def pay_def)
      ultimately show ?thesis using queued(2-4) by (intro exI [of _ "w\<lparr>bumps := b'\<rparr>"] exI [of _ ?c] exI [of _ "R(x := R x + 1)"]) auto
    next
      case dropped
      let ?b = "(bumps w)\<lparr>dropped := dropped (bumps w) + 1\<rparr>" and ?c = "upd_it x (\<lambda>i. i\<lparr>it_flags := clear_flag (it_flags i) ITEM_ACTIVE\<rparr>) ?A"
      have "get_hit g x hv w c = Some (w\<lparr>bumps := ?b\<rparr>, ?c)" using cold dropped(1) by (simp add: get_hit_def Let_def)
      moreover have "kept x L (hp c) (hp ?c)" by (simp add: kept_def pay_def)
      moreover have "cache_inv g K ?c C {} L R" by (rule cache_inv_flag(1) [OF iA Lx])
      moreover have "bump_inv ?b" "bump_refs ?b = bump_refs (bumps w)" using b by (simp_all add: bump_inv_def bump_refs_def fun_eq_iff)
      ultimately show ?thesis by (intro exI [of _ "w\<lparr>bumps := ?b\<rparr>"] exI [of _ ?c] exI [of _ R]) simp
    qed
  qed
qed

text \<open>An item a lookup must not return.\<close>

definition dead :: "globals \<Rightarrow> item \<Rightarrow> bool" where
  "dead g it \<longleftrightarrow> item_is_flushed g it \<or> exptime it \<noteq> 0 \<and> exptime it \<le> current_time g"

lemma cache_find:
  assumes inv: "cache_inv g K c C D L R"
  shows "\<exists>p. assoc_find k (hash g k) (hp c) (tab c) = Some p \<and> (\<forall>x. p = Some x \<longleftrightarrow> x \<in> C \<and> ITEM_key (hp c x) = k)"
  using assoc.tbl_find [OF cache_invD(1) [OF inv], of k] by blast

lemma kill_ok:
  assumes inv: "cache_inv g K c C {} L (R(x := R x + 1))" and x: "x \<in> C"
  obtains c1 c2 L' where "do_item_unlink g x (hash g (ITEM_key (hp c x))) c = Some c1" "do_item_remove g x c1 = Some c2" "cache_inv g K c2 (C - {x}) {} L' R"
    "L' \<subseteq>\<^sub>m L" "kept x L' (hp c) (hp c2)"
proof -
  let ?R = "R(x := R x + 1)"
  obtain c1 where c1: "do_item_unlink g x (hash g (ITEM_key (hp c x))) c = Some c1" "cache_inv g K c1 (C - {x}) {} L ?R" "kept x L (hp c) (hp c1)"
    using unlink_held [OF inv, of x] x by auto
  obtain c2 where c2: "do_item_remove g x c1 = Some c2" "cache_inv g K c2 (C - {x}) {} (drop_live x (C - {x}) L ?R) (?R(x := ?R x - 1))"
    "kept x (drop_live x (C - {x}) L ?R) (hp c1) (hp c2)" using cache_remove [OF c1(2), of x] by auto
  have k: "kept x (drop_live x (C - {x}) L ?R) (hp c) (hp c2)" by (rule kept_trans [OF kept_le [OF c1(3) drop_live_mono] c2(3)])
  have "?R(x := ?R x - 1) = R" by simp
  with c1(1) c2 drop_live_mono k show thesis using that by metis
qed

lemma do_item_get_ok:
  assumes inv: "cache_inv g K c C {} L R" and r: "\<And>x. x \<in> C \<Longrightarrow> R x < 65533 \<and> x < 2 ^ 64" and b: "bump_inv (bumps w)"
  shows "\<exists>p w' c' C' L' R'. do_item_get g k (hash g k) w upd c = Some (p, w', c') \<and> cache_inv g K c' C' {} L' R' \<and> L' \<subseteq>\<^sub>m L \<and> pays L' (hp c) (hp c')
    \<and> bump_inv (bumps w')
    \<and> (case p of
         None \<Rightarrow> R' = R \<and> bumps w' = bumps w \<and> ((\<forall>x\<in>C. ITEM_key (hp c x) \<noteq> k) \<and> C' = C \<or> (\<exists>x\<in>C. ITEM_key (hp c x) = k \<and> dead g (hp c x) \<and> C' = C - {x}))
       | Some x \<Rightarrow> x \<in> C \<and> ITEM_key (hp c x) = k \<and> \<not> dead g (hp c x) \<and> C' = C \<and> L' = L
           \<and> (\<forall>y. R' y + bump_refs (bumps w) y = (R(x := R x + 1)) y + bump_refs (bumps w') y) \<and> (\<forall>y. R' y \<le> R y + 2))"
proof -
  obtain p where p: "assoc_find k (hash g k) (hp c) (tab c) = Some p" "\<And>x. p = Some x \<longleftrightarrow> x \<in> C \<and> ITEM_key (hp c x) = k"
    using cache_find [OF inv, of k] by blast
  show ?thesis
  proof (cases p)
    case None
    then have "do_item_get g k (hash g k) w upd c = Some (None, w, c)" using p(1) by (simp add: do_item_get_def)
    moreover have "\<forall>x\<in>C. ITEM_key (hp c x) \<noteq> k" using p(2) None by auto
    ultimately show ?thesis using inv b
      by (intro exI [of _ None] exI [of _ w] exI [of _ c] exI [of _ C] exI [of _ L] exI [of _ R]) (simp add: pays_def)
  next
    case (Some x)
    then have x: "x \<in> C" "ITEM_key (hp c x) = k" using p(2) by auto
    have Lx: "L x \<noteq> None" by (rule live_linked [OF inv x(1)])
    let ?c = "upd_it x (\<lambda>i. i\<lparr>refcount := refcount i + 1\<rparr>) c" and ?R = "R(x := R x + 1)"
    have i1: "cache_inv g K ?c C {} L ?R" by (rule cache_inv_incr [OF inv Lx]) (use r [OF x(1)] in simp)
    have k1: "pays L (hp c) (hp ?c)" by (simp add: pays_def pay_def)
    have ky: "ITEM_key (hp ?c x) = k" using x(2) by (simp add: ITEM_key_def)
    have dd: "item_is_flushed g (hp ?c x) = item_is_flushed g (hp c x)" "exptime (hp ?c x) = exptime (hp c x)"
      by (simp_all add: item_is_flushed_def ITEM_get_cas_def)
    show ?thesis
    proof (cases "dead g (hp c x)")
      case True
      obtain c1 c2 L' where kl: "do_item_unlink g x (hash g k) ?c = Some c1" "do_item_remove g x c1 = Some c2" "cache_inv g K c2 (C - {x}) {} L' R"
        "L' \<subseteq>\<^sub>m L" "kept x L' (hp ?c) (hp c2)" by (rule kill_ok [OF i1 x(1), unfolded ky])
      have e: "\<exists>w'. bumps w' = bumps w \<and> do_item_get g k (hash g k) w upd c = Some (None, w', c2)"
      proof (cases "item_is_flushed g (hp c x)")
        case True
        then have "do_item_get g k (hash g k) w upd c = Some (None, w\<lparr>get_flushed := get_flushed w + 1\<rparr>, c2)"
          using p(1) Some kl(1,2) dd by (simp add: do_item_get_def Let_def del: upd_it_simps)
        then show ?thesis by (intro exI [of _ "w\<lparr>get_flushed := get_flushed w + 1\<rparr>"]) simp
      next
        case False
        then have "exptime (hp c x) \<noteq> 0 \<and> exptime (hp c x) \<le> current_time g" using \<open>dead g (hp c x)\<close> by (simp add: dead_def)
        then have "do_item_get g k (hash g k) w upd c = Some (None, w\<lparr>get_expired := get_expired w + 1\<rparr>, c2)"
          using p(1) Some kl(1,2) dd False by (simp add: do_item_get_def Let_def del: upd_it_simps)
        then show ?thesis by (intro exI [of _ "w\<lparr>get_expired := get_expired w + 1\<rparr>"]) simp
      qed
      then obtain w' where w': "bumps w' = bumps w" "do_item_get g k (hash g k) w upd c = Some (None, w', c2)" by blast
      have "pays L' (hp c) (hp c2)" by (rule pays_trans [OF k1 kl(4) kept_pays [OF kl(5)]])
      then show ?thesis using w' kl(3,4) b x True
        by (intro exI [of _ None] exI [of _ w'] exI [of _ c2] exI [of _ "C - {x}"] exI [of _ L'] exI [of _ R]) auto
    next
      case False
      then have nd: "\<not> item_is_flushed g (hp ?c x)" "\<not> (exptime (hp ?c x) \<noteq> 0 \<and> exptime (hp ?c x) \<le> current_time g)" using dd by (simp_all add: dead_def)
      show ?thesis
      proof (cases upd)
        case True
        have "?R x < 65534" "x < 2 ^ 64" using r [OF x(1)] by auto
        from get_hit_ok [OF i1 x(1) this b, of "hash g k"]
        obtain w' c' R' where h: "get_hit g x (hash g k) w ?c = Some (w', c')" "cache_inv g K c' C {} L R'" "kept x L (hp ?c) (hp c')" "bump_inv (bumps w')"
          "\<forall>y. R' y + bump_refs (bumps w) y = ?R y + bump_refs (bumps w') y" "\<forall>y. R' y \<le> ?R y + (if y = x then 1 else 0)" by blast
        have "do_item_get g k (hash g k) w upd c = Some (Some x, w', c')"
          using p(1) Some True h(1) nd by (auto simp: do_item_get_def Let_def simp del: upd_it_simps)
        moreover have "pays L (hp c) (hp c')" by (rule pays_trans [OF k1 map_le_refl kept_pays [OF h(3)]])
        moreover have "R' y \<le> R y + 2" for y using h(6) [rule_format, of y] by (auto split: if_splits)
        ultimately show ?thesis using h x False
          by (intro exI [of _ "Some x"] exI [of _ w'] exI [of _ c'] exI [of _ C] exI [of _ L] exI [of _ R']) simp
      next
        case u: False
        have "do_item_get g k (hash g k) w upd c = Some (Some x, w, ?c)"
          using p(1) Some u nd by (auto simp: do_item_get_def Let_def simp del: upd_it_simps)
        then show ?thesis using i1 k1 x False b
          by (intro exI [of _ "Some x"] exI [of _ w] exI [of _ ?c] exI [of _ C] exI [of _ L] exI [of _ ?R]) simp
      qed
    qed
  qed
qed

section \<open>Processing the bumps\<close>

text \<open>Polling the whole front region leaves whole entries.\<close>

lemma poll_regions:
  assumes b: "bump_inv b" and n: "unat n = unat (a_end (bump_buf b)) - unat (a_start (bump_buf b))" and p: "bipbuf_poll (bump_buf b) n = (Some off, me)" and i: "bip_inv me"
  shows "bump_inv (b\<lparr>bump_buf := me\<rparr>)"
proof -
  let ?me = "bump_buf b"
  have "unat (a_start ?me + n) = unat (a_end ?me)" using b n by (subst unat_add_no_wrap) (auto simp: bump_inv_def bip_inv_def)
  then have e: "a_start ?me + n = a_end ?me" by (simp only: word_unat_eq_iff)
  have sw: "a_end (check_for_switch_to_b m) = a_end m" "a_start (check_for_switch_to_b m) = a_start m" "b_end (check_for_switch_to_b m) = b_end m" for m
    by (simp_all add: check_for_switch_to_b_def)
  have "16 dvd unat (a_end me) - unat (a_start me) \<and> 16 dvd unat (b_end me)"
  proof (cases "b_inuse ?me = 1")
    case True
    then show ?thesis using p b e by (auto simp: bipbuf_poll_def Let_def sw bump_inv_def split: if_splits)
  next
    case False
    then have "b_end ?me = 0" using b by (auto simp: bump_inv_def bip_inv_def)
    then show ?thesis using False p e by (auto simp: bipbuf_poll_def Let_def sw split: if_splits)
  qed
  with i show ?thesis by (simp add: bump_inv_def)
qed

lemma apply_bumps_ok:
  assumes "cache_inv g K c C {} L R" "\<And>x. count_list (map (fst \<circ> dec_entry) es) x \<le> R x"
  shows "\<exists>c' L'. apply_bumps g es c = Some c' \<and> cache_inv g K c' C {} L' (\<lambda>x. R x - count_list (map (fst \<circ> dec_entry) es) x) \<and> L' \<subseteq>\<^sub>m L \<and> pays L' (hp c) (hp c')"
  using assms
proof (induction es arbitrary: c L R)
  case (Cons e es)
  let ?x = "fst (dec_entry e)" and ?n = "count_list (map (fst \<circ> dec_entry) es)"
  note inv = Cons.prems(1)
  have pos: "0 < R ?x" using Cons.prems(2) [of ?x] by simp
  then have Lx: "L ?x \<noteq> None" using live_iff [OF inv, of ?x] by simp
  obtain c1 where c1: "do_item_update g ?x c = Some c1" "cache_inv g K c1 C {} L R" "kept ?x L (hp c) (hp c1)" by (rule cache_update [OF inv Lx]) auto
  let ?L = "drop_live ?x C L R"
  obtain c2 where c2: "do_item_remove g ?x c1 = Some c2" "cache_inv g K c2 C {} ?L (R(?x := R ?x - 1))" "kept ?x ?L (hp c1) (hp c2)"
    using cache_remove [OF c1(2) pos] by blast
  have "?n x \<le> (R(?x := R ?x - 1)) x" for x using Cons.prems(2) [of x] by (auto simp: comp_def split: if_splits)
  from Cons.IH [OF c2(2) this]
  obtain c' L' where c': "apply_bumps g es c2 = Some c'" "cache_inv g K c' C {} L' (\<lambda>x. (R(?x := R ?x - 1)) x - ?n x)" "L' \<subseteq>\<^sub>m ?L" "pays L' (hp c2) (hp c')"
    by blast
  have "(\<lambda>x. (R(?x := R ?x - 1)) x - ?n x) = (\<lambda>x. R x - count_list (map (fst \<circ> dec_entry) (e # es)) x)" by (auto simp: fun_eq_iff comp_def)
  moreover have "L' \<subseteq>\<^sub>m L" using map_le_trans [OF c'(3) drop_live_mono] .
  moreover have "pays L' (hp c) (hp c')"
    using pays_trans [OF pays_trans [OF kept_pays [OF c1(3)] drop_live_mono kept_pays [OF c2(3)]] c'(3,4)] .
  ultimately show ?case using c1(1) c2(1) c'(1,2) by (intro exI [of _ c'] exI [of _ L']) (simp add: comp_def)
qed (auto simp: pays_def)

definition all_bumps :: "lru_bump_buf list \<Rightarrow> nat \<Rightarrow> nat" where
  "all_bumps bs x = (\<Sum>b\<leftarrow>bs. bump_refs b x)"

lemma lru_maintainer_bumps_ok:
  assumes "cache_inv g K c C {} L R" "\<And>b. b \<in> set bs \<Longrightarrow> bump_inv b" "\<And>x. all_bumps bs x \<le> R x"
  shows "\<exists>r bs' c' L' R'. lru_maintainer_bumps g bs c = Some (r, bs', c') \<and> cache_inv g K c' C {} L' R' \<and> L' \<subseteq>\<^sub>m L \<and> pays L' (hp c) (hp c')
    \<and> (\<forall>b\<in>set bs'. bump_inv b) \<and> length bs' = length bs \<and> (\<forall>x. R' x + all_bumps bs x = R x + all_bumps bs' x)"
  using assms
proof (induction bs arbitrary: c L R)
  case Nil
  then show ?case by (intro exI [of _ False] exI [of _ "[]"] exI [of _ c] exI [of _ L] exI [of _ R]) (simp add: pays_def)
next
  case (Cons b bs)
  note inv = Cons.prems(1)
  have bi: "bump_inv b" and bs: "\<And>b. b \<in> set bs \<Longrightarrow> bump_inv b" using Cons.prems(2) by auto
  have le: "bump_refs b x + all_bumps bs x \<le> R x" for x using Cons.prems(3) [of x] by (simp add: all_bumps_def)
  show ?case
  proof (cases "bipbuf_peek_all (bump_buf b)")
    case None
    have "all_bumps bs x \<le> R x" for x using le [of x] by simp
    from Cons.IH [OF inv bs this]
    obtain r bs' c' L' R' where "lru_maintainer_bumps g bs c = Some (r, bs', c')" "cache_inv g K c' C {} L' R'" "L' \<subseteq>\<^sub>m L" "pays L' (hp c) (hp c')"
      "\<forall>b\<in>set bs'. bump_inv b" "length bs' = length bs" "\<forall>x. R' x + all_bumps bs x = R x + all_bumps bs' x" by blast
    then show ?thesis using None bi
      by (intro exI [of _ r] exI [of _ "b # bs'"] exI [of _ c'] exI [of _ L'] exI [of _ R']) (simp add: all_bumps_def)
  next
    case (Some q)
    obtain off sz where q: "q = (off, sz)" by fastforce
    have bip: "bip_inv (bump_buf b)" using bi by (simp add: bump_inv_def)
    note pk = peek_all_spec(2) [OF bip Some [unfolded q]]
    have off: "off = a_start (bump_buf b)" and sz: "unat sz = unat (a_end (bump_buf b)) - unat (a_start (bump_buf b))"
      and sg: "seg (unat off) (unat off + unat sz) (bb_data (bump_buf b)) = take (unat sz) (bip_bytes (bump_buf b))" using pk by auto
    obtain n where n: "unat sz = 16 * n" using bi sz by (auto simp: bump_inv_def)
    let ?front = "take (unat sz) (bip_bytes (bump_buf b))"
    have lf: "length ?front = 16 * n" using length_bip_bytes [OF bip] sz n by simp
    let ?es = "map (\<lambda>k. seg (unat off + 16 * k) (unat off + 16 * k + 16) (bb_data (bump_buf b))) [0..<unat sz div 16]"
    have es: "?es = entries ?front"
    proof -
      have "seg (unat off + 16 * k) (unat off + 16 * k + 16) (bb_data (bump_buf b)) = seg (16 * k) (16 * k + 16) ?front" if "k < n" for k
        unfolding sg [symmetric] using that n by (simp add: seg_def drop_take add.commute min_def)
      then have "?es = map (\<lambda>k. seg (16 * k) (16 * k + 16) ?front) [0..<n]" using n by (intro map_cong) simp_all
      then show ?thesis using entries_slices [OF lf] by simp
    qed
    have sp: "bump_items (bip_bytes (bump_buf b)) = map (fst \<circ> dec_entry) ?es @ bump_items (drop (unat sz) (bip_bytes (bump_buf b)))"
      using entries_append [of ?front "drop (unat sz) (bip_bytes (bump_buf b))"] lf unfolding es bump_items_def by simp
    obtain b' where po: "bipbuf_poll (bump_buf b) sz = (Some (a_start (bump_buf b)), b')" "bip_inv b'" "bip_bytes b' = drop (unat sz) (bip_bytes (bump_buf b))"
      using poll_spec [OF bip, of sz] sz pk by (metis (no_types, lifting) less_irrefl order_refl diff_self_eq_0)
    let ?b = "b\<lparr>bump_buf := b'\<rparr>"
    have bi': "bump_inv ?b" using poll_regions [OF bi sz po(1)] po(2) by simp
    let ?n = "count_list (map (fst \<circ> dec_entry) ?es)"
    have cnt: "bump_refs b x = ?n x + bump_refs ?b x" for x using sp po(3) by (simp add: bump_refs_def)
    have "?n x \<le> R x" for x using le [of x] cnt [of x] by simp
    from apply_bumps_ok [OF inv this]
    obtain c1 L1 where c1: "apply_bumps g ?es c = Some c1" "cache_inv g K c1 C {} L1 (\<lambda>x. R x - ?n x)" "L1 \<subseteq>\<^sub>m L" "pays L1 (hp c) (hp c1)" by blast
    have "all_bumps bs x \<le> R x - ?n x" for x using le [of x] cnt [of x] by simp
    from Cons.IH [OF c1(2) bs this]
    obtain r bs' c' L' R' where c': "lru_maintainer_bumps g bs c1 = Some (r, bs', c')" "cache_inv g K c' C {} L' R'" "L' \<subseteq>\<^sub>m L1" "pays L' (hp c1) (hp c')"
      "\<forall>b\<in>set bs'. bump_inv b" "length bs' = length bs" "\<forall>x. R' x + all_bumps bs x = R x - ?n x + all_bumps bs' x" by blast
    have "R' x + all_bumps (b # bs) x = R x + all_bumps (?b # bs') x" for x
      using c'(7) [rule_format, of x] cnt [of x] le [of x] by (simp add: all_bumps_def)
    moreover have "lru_maintainer_bumps g (b # bs) c = Some (True, ?b # bs', c')" using Some q c1(1) c'(1) po(1) by simp
    moreover have "L' \<subseteq>\<^sub>m L" using map_le_trans [OF c'(3) c1(3)] .
    moreover have "pays L' (hp c) (hp c')" using pays_trans [OF c1(4) c'(3,4)] .
    ultimately show ?thesis using c'(2,5,6) bi'
      by (intro exI [of _ True] exI [of _ "?b # bs'"] exI [of _ c'] exI [of _ L'] exI [of _ R']) simp
  qed
qed

end
