(* ===== verification/Alloc.thy ===== *)
theory Alloc
  imports Lookup
begin

text \<open>
  Allocation of items: \<open>do_item_alloc\<close> evicts where it must, and what it returns is a fresh item, initialised
  and referenced once, while everything else that survives is untouched.
\<close>

section \<open>A chunk from the slab allocator\<close>

text \<open>
  A chunk that has just been allocated: once it is written with the contents of a well-formed item, it is a
  live item with one reference.
\<close>

definition alloc_ready :: "globals \<Rightarrow> nat \<times> u32 list \<Rightarrow> cache \<Rightarrow> nat set \<Rightarrow> live \<Rightarrow> (nat \<Rightarrow> nat) \<Rightarrow> nat \<Rightarrow> nat \<Rightarrow> u64 \<Rightarrow> bool" where
  "alloc_ready g K c C L R x i n \<longleftrightarrow> L x = None \<and> it_flags (hp c x) = 0 \<and> slabs_clsid (hp c x) = 0 \<and> refcount (hp c x) = 1
     \<and> (\<forall>f. item_ok (f (hp c x)) False (i, n) 1 \<longrightarrow> cache_inv g K (upd_it x f c) C {} (L(x \<mapsto> (i, n))) (R(x := 1)))"

lemma alloc_ready_upd_is: "alloc_ready g K (upd_is j h c) C L R x i n = alloc_ready g K c C L R x i n"
proof -
  have "upd_it x f (upd_is j h c) = upd_is j h (upd_it x f c)" for f by (simp add: upd_it_def upd_is_def)
  then show ?thesis by (simp add: alloc_ready_def)
qed

text \<open>Another allocator state, with other live chunks beside the linked ones.\<close>

lemma cache_inv_slabs:
  assumes inv: "cache_inv g K c C {} L R" and s: "slabs_inv (slab_set g) h s L'" "classes s = K" and h: "\<And>y. y \<in> C \<Longrightarrow> h y = hp c y"
    and it: "\<And>y k. L' y = Some k \<Longrightarrow> item_ok (h y) (y \<in> C) k (R' y)" "\<And>y. L' y = None \<Longrightarrow> R' y = 0" "C \<subseteq> dom L'"
  shows "cache_inv g K (c\<lparr>hp := h, slb := s\<rparr>) C {} L' R'"
proof -
  let ?c = "c\<lparr>hp := h, slb := s\<rparr>"
  obtain ls where ls: "lru_ok g c ls" "(\<Union>i. set (ls i)) = C - {}" using cache_invD(3) [OF inv] by blast
  have lr: "lru_ok g ?c ls"
  proof (rule lru_ok_cong [OF ls(1)])
    fix y i assume "y \<in> set (ls i)"
    then have "y \<in> C" using ls(2) by blast
    then show "nxt (hp ?c y) = nxt (hp c y) \<and> prv (hp ?c y) = prv (hp c y) \<and> slabs_clsid (hp ?c y) = slabs_clsid (hp c y) \<and> lru_bytes g (hp ?c y) = lru_bytes g (hp c y)"
      using h by simp
  qed simp_all
  have "table (hash g) h (tab c) C" by (rule table_cong [OF cache_invD(1) [OF inv]]) (use h in simp)
  then have tb: "table (hash g) (hp ?c) (tab ?c) C" by simp
  have sm: "(\<Sum>y\<in>C. ITEM_ntotal (hp ?c y)) = (\<Sum>y\<in>C. ITEM_ntotal (hp c y))" by (rule sum.cong) (use h in auto)
  have "hist_ok ?c" using cache_invD(10) [OF inv] by (simp add: hist_ok_def)
  with lr tb sm it s ls(2) cache_invD(8,9) [OF inv] show ?thesis unfolding cache_inv_def by auto
qed

lemma upd_it_slabs: "upd_it x f (c\<lparr>hp := h, slb := s\<rparr>) = c\<lparr>hp := h(x := f (h x)), slb := s\<rparr>"
  by (cases c) (simp add: upd_it_def)

lemma classes_eq:
  assumes "slabs_inv st h s L" "slabs_inv st h' s' L'" "power_largest s' = power_largest s" "\<And>j. sl_size (cls s' j) = sl_size (cls s j)"
  shows "classes s' = classes s"
proof -
  have "length (slabclass s') = 64" "length (slabclass s) = 64" using slabs_wfD(1) [OF slabs_invD(1)] assms(1,2) by blast+
  then have "map sl_size (slabclass s') = map sl_size (slabclass s)" using assms(4) by (intro nth_equalityI) simp_all
  with assms(3) show ?thesis by (simp add: classes_def)
qed

lemma alloc_slab_ok:
  assumes inv: "cache_inv g K c C {} L R" and ok: "slab_alloc_ok (slab_set g) (env_mem e n) (unat cid) sz (slb c)"
  shows "\<exists>p tb c'. alloc_slab g e junk n sz cid c = Some (p, tb, c') \<and> (\<forall>y. L y \<noteq> None \<longrightarrow> hp c' y = hp c y)
    \<and> (case p of None \<Rightarrow> cache_inv g K c' C {} L R | Some x \<Rightarrow> alloc_ready g K c' C L R x (unat cid) sz)"
proof -
  let ?i = "unat cid"
  from ok have i: "1 \<le> ?i" "?i \<le> power_largest (slb c)" "sz \<le> ucast (sl_size (cls (slb c) ?i))" "env_ok (slab_set g) (env_mem e n) ?i (slb c)"
    by (auto simp: slab_alloc_ok_def)
  note sl = cache_invD(2) [OF inv]
  obtain p h' s' where a: "do_slabs_alloc (extstore g) (slab_set g) (env_mem e n) False sz ?i (hp c) (slb c) = Some (p, Some (requested (cls (slb c) ?i)), h', s')"
    "\<forall>y\<in>dom L. h' y = hp c y" "power_largest s' = power_largest (slb c)" "\<forall>j. sl_size (cls s' j) = sl_size (cls (slb c) j)"
    and p: "case p of None \<Rightarrow> slabs_inv (slab_set g) h' s' L
       | Some x \<Rightarrow> L x = None \<and> slabs_inv (slab_set g) h' s' (L(x \<mapsto> (?i, sz))) \<and> it_flags (h' x) = 0 \<and> slabs_clsid (h' x) = 0 \<and> refcount (h' x) = 1"
    using do_slabs_alloc_ok [where ext = "extstore g" and nnp = False, OF sl i(1,2) i(4) i(3)] by blast
  let ?c = "c\<lparr>hp := h', slb := s'\<rparr>"
  have al: "\<exists>tb. alloc_slab g e junk n sz cid c = Some (p, tb, ?c)" using a(1) by (simp add: alloc_slab_def Let_def)
  have fr: "L y \<noteq> None \<Longrightarrow> h' y = hp c y" for y using a(2) by blast
  have K: "classes s' = K" if "slabs_inv (slab_set g) h' s' L'" for L'
    using classes_eq [OF sl that a(3)] a(4) cache_invD(11) [OF inv] by simp
  have "case p of None \<Rightarrow> cache_inv g K ?c C {} L R | Some x \<Rightarrow> alloc_ready g K ?c C L R x ?i sz"
  proof (cases p)
    case None
    then have p': "slabs_inv (slab_set g) h' s' L" using p by simp
    have "cache_inv g K ?c C {} L R"
    proof (rule cache_inv_slabs [OF inv p' K [OF p']])
      show "h' y = hp c y" if "y \<in> C" for y by (rule fr [OF live_linked [OF inv that]])
      show "item_ok (h' y) (y \<in> C) k (R y)" if "L y = Some k" for y k using cache_invD(6) [OF inv that] fr [of y] that by simp
    qed (use cache_invD(4,7) [OF inv] in auto)
    then show ?thesis using None by simp
  next
    case (Some x)
    then have px: "L x = None" "slabs_inv (slab_set g) h' s' (L(x \<mapsto> (?i, sz)))" "it_flags (h' x) = 0" "slabs_clsid (h' x) = 0" "refcount (h' x) = 1" using p by auto
    have "cache_inv g K (upd_it x f ?c) C {} (L(x \<mapsto> (?i, sz))) (R(x := 1))" if f: "item_ok (f (hp ?c x)) False (?i, sz) 1" for f
    proof -
      have xC: "x \<notin> C" using px(1) cache_invD(4) [OF inv] by blast
      have "cache_inv g K (c\<lparr>hp := h'(x := f (h' x)), slb := s'\<rparr>) C {} (L(x \<mapsto> (?i, sz))) (R(x := 1))"
      proof (rule cache_inv_slabs [OF inv _ K [OF px(2)]])
        show "slabs_inv (slab_set g) (h'(x := f (h' x))) s' (L(x \<mapsto> (?i, sz)))" by (rule slabs_inv_write [OF px(2)]) simp
        show "(h'(x := f (h' x))) y = hp c y" if "y \<in> C" for y using fr [OF live_linked [OF inv that]] that xC by auto
        show "item_ok ((h'(x := f (h' x))) y) (y \<in> C) k ((R(x := 1)) y)" if "(L(x \<mapsto> (?i, sz))) y = Some k" for y k
        proof (cases "y = x")
          case True
          then show ?thesis using that f xC by auto
        next
          case False
          then have "L y = Some k" using that by simp
          then show ?thesis using cache_invD(6) [OF inv, of y k] fr [of y] False by simp
        qed
      qed (use cache_invD(4,7) [OF inv] in \<open>auto split: if_splits\<close>)
      then show ?thesis unfolding upd_it_slabs .
    qed
    with px Some show ?thesis by (simp add: alloc_ready_def del: upd_it_simps)
  qed
  with al fr show ?thesis by fastforce
qed

section \<open>The loop of reclaims and evictions\<close>

definition loses_any :: "globals \<Rightarrow> heap \<Rightarrow> nat set \<Rightarrow> nat set \<Rightarrow> bool" where
  "loses_any g h C C' \<longleftrightarrow> C' \<subseteq> C \<and> (\<forall>y\<in>C - C'. may_drop g (h y) \<or> evict_to_free g)"

lemma loses_any: "loses g (evicting g a) h C C' \<Longrightarrow> loses_any g h C C'"
  by (auto simp: loses_def loses_any_def evicting_def)

lemma loses_any_trans:
  assumes "loses_any g h C C1" "loses_any g h1 C1 C'" "pays L1 h h1" "C1 \<subseteq> dom L1"
  shows "loses_any g h C C'"
proof -
  have "may_drop g (h y) \<or> evict_to_free g" if "y \<in> C - C'" for y
  proof (cases "y \<in> C1")
    case True
    then have "L1 y \<noteq> None" using assms(4) by blast
    then have "pay (h1 y) = pay (h y)" using assms(3) by (simp add: pays_def)
    then have "may_drop g (h1 y) = may_drop g (h y)" by (rule may_drop_pay)
    moreover have "may_drop g (h1 y) \<or> evict_to_free g" using assms(2) True that unfolding loses_any_def by blast
    ultimately show ?thesis by simp
  next
    case False
    then show ?thesis using assms(1) that by (auto simp: loses_any_def)
  qed
  then show ?thesis using assms(1,2) unfolding loses_any_def by blast
qed

text \<open>The state after some pulls.\<close>

definition shrunk :: "globals \<Rightarrow> nat \<times> u32 list \<Rightarrow> cache \<Rightarrow> nat set \<Rightarrow> live \<Rightarrow> (nat \<Rightarrow> nat) \<Rightarrow> cache \<Rightarrow> nat set \<Rightarrow> live \<Rightarrow> bool" where
  "shrunk g K c C L R c' C' L' \<longleftrightarrow> cache_inv g K c' C' {} L' R \<and> L' \<subseteq>\<^sub>m L \<and> pays L' (hp c) (hp c') \<and> loses_any g (hp c) C C'"

lemma shrunk_refl: "cache_inv g K c C {} L R \<Longrightarrow> shrunk g K c C L R c C L"
  by (simp add: shrunk_def pays_def loses_any_def)

lemma shrunk_trans:
  assumes "shrunk g K c C L R c1 C1 L1" "shrunk g K c1 C1 L1 R c' C' L'"
  shows "shrunk g K c C L R c' C' L'"
proof -
  note a = assms [unfolded shrunk_def]
  have l: "loses_any g (hp c) C C1" "loses_any g (hp c1) C1 C'" "pays L1 (hp c) (hp c1)" "C1 \<subseteq> dom L1" using a cache_invD(4) [of g K c1 C1 "{}" L1 R] by auto
  have "loses_any g (hp c) C C'" by (rule loses_any_trans [OF l])
  then show ?thesis using a pays_trans map_le_trans unfolding shrunk_def by blast
qed

lemma pull_shrunk:
  assumes inv: "cache_inv g K c C {} L R" and r: "\<And>y. y \<in> C \<Longrightarrow> R y < 65534" and tr: "tail_repair_time g = 0"
    and fl: "\<not> has_flag (pull_flags a) LRU_PULL_RETURN_ITEM"
  obtains n c' C' L' where "lru_pull_tail g a c = Some (n, None, c')" "shrunk g K c C L R c' C' L'"
proof -
  from lru_pull_tail_ok [OF assms] obtain n c' C' L' where p: "lru_pull_tail g a c = Some (n, None, c')" "cache_inv g K c' C' {} L' R" "L' \<subseteq>\<^sub>m L"
    "pays L' (hp c) (hp c')" "loses g (evicting g a) (hp c) C C'" by metis
  then have "shrunk g K c C L R c' C' L'" using loses_any unfolding shrunk_def by blast
  with p(1) show thesis using that by blast
qed

text \<open>The environment of an allocation is acceptable in every state in which memory may be asked for.\<close>

fun pull_mem_ok :: "globals \<Rightarrow> alloc_env \<Rightarrow> u64 \<Rightarrow> nat \<Rightarrow> u64 \<Rightarrow> u8 \<Rightarrow> cache \<Rightarrow> bool" where
  "pull_mem_ok g e junk 0 sz cid c \<longleftrightarrow> True"
| "pull_mem_ok g e junk (Suc n) sz cid c \<longleftrightarrow>
     (case alloc_reclaim g e n cid c of None \<Rightarrow> True
      | Some c \<Rightarrow> env_ok (slab_set g) (env_mem e n) (unat cid) (slb c)
          \<and> (case alloc_slab g e junk n sz cid c of
               Some (None, tb, c) \<Rightarrow> (case alloc_evict g e n cid tb c of Some (True, c) \<Rightarrow> pull_mem_ok g e junk n sz cid c | _ \<Rightarrow> True)
             | _ \<Rightarrow> True))"

lemma pull_args_flags [simp]: "pull_flags (pull_args e n k cid lru tb fl) = fl"
  by (simp add: pull_args_def)

lemma alloc_reclaim_ok:
  assumes "cache_inv g K c C {} L R" "\<And>y. y \<in> C \<Longrightarrow> R y < 65534" "tail_repair_time g = 0"
  obtains c' C' L' where "alloc_reclaim g e n cid c = Some c'" "shrunk g K c C L R c' C' L'"
proof (cases "lru_segmented g")
  case True
  then show thesis using that shrunk_refl [OF assms(1)] by (simp add: alloc_reclaim_def)
next
  case False
  obtain m c' C' L' where "lru_pull_tail g (pull_args e n 0 cid COLD_LRU 0 0) c = Some (m, None, c')" "shrunk g K c C L R c' C' L'"
    by (rule pull_shrunk [OF assms, where a = "pull_args e n 0 cid COLD_LRU 0 0"]) simp_all
  with False show thesis using that by (simp add: alloc_reclaim_def)
qed

lemma alloc_evict_ok:
  assumes inv: "cache_inv g K c C {} L R" and r: "\<And>y. y \<in> C \<Longrightarrow> R y < 65534" and tr: "tail_repair_time g = 0"
  obtains again c' C' L' where "alloc_evict g e n cid tb c = Some (again, c')" "shrunk g K c C L R c' C' L'"
proof -
  obtain m c1 C1 L1 where p: "lru_pull_tail g (pull_args e n 1 cid COLD_LRU tb LRU_PULL_EVICT) c = Some (m, None, c1)" "shrunk g K c C L R c1 C1 L1"
    by (rule pull_shrunk [OF inv r tr, where a = "pull_args e n 1 cid COLD_LRU tb LRU_PULL_EVICT"]) simp_all
  show thesis
  proof (cases "m = 0 \<and> lru_segmented g")
    case True
    have i1: "cache_inv g K c1 C1 {} L1 R" and "C1 \<subseteq> C" using p(2) by (auto simp: shrunk_def loses_any_def)
    then have r1: "\<And>y. y \<in> C1 \<Longrightarrow> R y < 65534" using r by blast
    obtain m2 c2 C2 L2 where "lru_pull_tail g (pull_args e n 2 cid HOT_LRU tb 0) c1 = Some (m2, None, c2)" "shrunk g K c1 C1 L1 R c2 C2 L2"
      by (rule pull_shrunk [OF i1 r1 tr, where a = "pull_args e n 2 cid HOT_LRU tb 0"]) simp_all
    then show thesis using that [OF _ shrunk_trans [OF p(2)]] True p(1) by (simp add: alloc_evict_def)
  next
    case False
    then show thesis using that [OF _ p(2)] p(1) by (cases "m = 0") (simp_all add: alloc_evict_def)
  qed
qed

lemma alloc_pull_loop_ok:
  assumes "cache_inv g K c C {} L R" "\<And>y. y \<in> C \<Longrightarrow> R y < 65534" "tail_repair_time g = 0" "pull_mem_ok g e junk n sz cid c"
    "1 \<le> unat cid" "unat cid \<le> fst K" "unat cid < length (snd K)" "sz \<le> ucast (snd K ! unat cid)"
  shows "\<exists>p j c' C' L'. alloc_pull_loop g e junk n sz cid i c = Some (p, j, c')
    \<and> (case p of None \<Rightarrow> shrunk g K c C L R c' C' L'
       | Some x \<Rightarrow> \<exists>c1. shrunk g K c C L R c1 C' L' \<and> (\<forall>y. L' y \<noteq> None \<longrightarrow> hp c' y = hp c1 y) \<and> alloc_ready g K c' C' L' R x (unat cid) sz)"
  using assms
proof (induction n arbitrary: c C L i)
  case 0
  then have "shrunk g K c C L R c C L" using shrunk_refl by simp
  then show ?case by auto
next
  case (Suc n)
  note inv = Suc.prems(1) and r = Suc.prems(2) and tr = Suc.prems(3)
  obtain c1 C1 L1 where c1: "alloc_reclaim g e n cid c = Some c1" "shrunk g K c C L R c1 C1 L1" using alloc_reclaim_ok [OF inv r tr] by blast
  have i1: "cache_inv g K c1 C1 {} L1 R" and "C1 \<subseteq> C" using c1(2) by (auto simp: shrunk_def loses_any_def)
  then have r1: "\<And>y. y \<in> C1 \<Longrightarrow> R y < 65534" using r by blast
  have env: "env_ok (slab_set g) (env_mem e n) (unat cid) (slb c1)" using Suc.prems(4) c1(1) by simp
  have "slab_alloc_ok (slab_set g) (env_mem e n) (unat cid) sz (slb c1)"
    using env Suc.prems(5-8) cache_invD(11) [OF i1] by (auto simp: slab_alloc_ok_def classes_def)
  from alloc_slab_ok [OF i1 this, of junk]
  obtain p tb c2 where c2: "alloc_slab g e junk n sz cid c1 = Some (p, tb, c2)" "\<forall>y. L1 y \<noteq> None \<longrightarrow> hp c2 y = hp c1 y"
    "case p of None \<Rightarrow> cache_inv g K c2 C1 {} L1 R | Some x \<Rightarrow> alloc_ready g K c2 C1 L1 R x (unat cid) sz" by blast
  show ?case
  proof (cases p)
    case (Some x)
    then have "alloc_pull_loop g e junk (Suc n) sz cid i c = Some (Some x, i, c2)" using c1(1) c2(1) by simp
    then show ?thesis using c1(2) c2(2,3) Some by auto
  next
    case None
    then have i2: "cache_inv g K c2 C1 {} L1 R" using c2(3) by simp
    have "shrunk g K c1 C1 L1 R c2 C1 L1" using i2 c2(2) by (simp add: shrunk_def pays_def loses_any_def)
    then have s2: "shrunk g K c C L R c2 C1 L1" by (rule shrunk_trans [OF c1(2)])
    obtain again c3 C3 L3 where c3: "alloc_evict g e n cid tb c2 = Some (again, c3)" "shrunk g K c2 C1 L1 R c3 C3 L3"
      using alloc_evict_ok [OF i2 r1 tr] by blast
    have s3: "shrunk g K c C L R c3 C3 L3" by (rule shrunk_trans [OF s2 c3(2)])
    have i3: "cache_inv g K c3 C3 {} L3 R" and C3: "C3 \<subseteq> C1" using c3(2) by (auto simp: shrunk_def loses_any_def)
    then have r3: "\<And>y. y \<in> C3 \<Longrightarrow> R y < 65534" using r1 by blast
    show ?thesis
    proof (cases again)
      case True
      have e: "alloc_pull_loop g e junk (Suc n) sz cid i c = alloc_pull_loop g e junk n sz cid (i + 1) c3" using c1(1) c2(1) c3(1) None True by simp
      have "pull_mem_ok g e junk n sz cid c3" using Suc.prems(4) c1(1) c2(1) c3(1) None True by simp
      from Suc.IH [OF i3 r3 tr this Suc.prems(5-8), of "i + 1"]
      obtain p j c' C' L' where l: "alloc_pull_loop g e junk n sz cid (i + 1) c3 = Some (p, j, c')"
        "case p of None \<Rightarrow> shrunk g K c3 C3 L3 R c' C' L'
         | Some x \<Rightarrow> \<exists>c1. shrunk g K c3 C3 L3 R c1 C' L' \<and> (\<forall>y. L' y \<noteq> None \<longrightarrow> hp c' y = hp c1 y) \<and> alloc_ready g K c' C' L' R x (unat cid) sz" by blast
      show ?thesis
      proof (cases p)
        case None
        then have "shrunk g K c C L R c' C' L'" using l(2) shrunk_trans [OF s3] by simp
        then show ?thesis unfolding e l(1) using None by auto
      next
        case (Some x)
        then obtain c4 where q: "shrunk g K c3 C3 L3 R c4 C' L'" "\<forall>y. L' y \<noteq> None \<longrightarrow> hp c' y = hp c4 y" "alloc_ready g K c' C' L' R x (unat cid) sz" using l(2) by auto
        have "shrunk g K c C L R c4 C' L'" by (rule shrunk_trans [OF s3 q(1)])
        with q(2,3) show ?thesis unfolding e l(1) Some
          by (intro exI [of _ "Some x"] exI [of _ j] exI [of _ c'] exI [of _ C'] exI [of _ L']) auto
      qed
    next
      case False
      then have "alloc_pull_loop g e junk (Suc n) sz cid i c = Some (None, i, c3)" using c1(1) c2(1) c3(1) None by simp
      then show ?thesis using s3 by auto
    qed
  qed
qed

section \<open>A new item\<close>

lemma item_bytes:
  assumes "nk < 255"
  shows "fst (item_make_header (ucast (of_nat nk + 1 :: u64)) flags nb) = of_nat (49 + nk) + word_of_int nb + (if flags = 0 then 0 else 4)"
    "snd (item_make_header (ucast (of_nat nk + 1 :: u64)) flags nb) = (if flags = 0 then 0 else 4)"
proof -
  have e: "of_nat nk + 1 = (of_nat (nk + 1) :: u64)" by simp
  have u1: "unat (of_nat (nk + 1) :: u64) = nk + 1" using assms by (simp only: unat_of_nat) simp
  then have "unat (ucast (of_nat (nk + 1) :: u64) :: u8) = nk + 1" using assms by (simp add: unat_ucast_mod)
  then have "unat (ucast (ucast (of_nat (nk + 1) :: u64) :: u8) :: u64) = nk + 1" by simp
  then have "(ucast (ucast (of_nat (nk + 1) :: u64) :: u8) :: u64) = of_nat (nk + 1)" by (simp only: word_unat_eq_iff u1)
  then have u: "(ucast (ucast (of_nat nk + 1 :: u64) :: u8) :: u64) = of_nat (nk + 1)" unfolding e .
  show "fst (item_make_header (ucast (of_nat nk + 1 :: u64)) flags nb) = of_nat (49 + nk) + word_of_int nb + (if flags = 0 then 0 else 4)"
    unfolding item_make_header_def Let_def fst_conv u by simp
  show "snd (item_make_header (ucast (of_nat nk + 1 :: u64)) flags nb) = (if flags = 0 then 0 else 4)" by (simp add: item_make_header_def Let_def)
qed

text \<open>The size of an item with a key of \<open>nk\<close> bytes and \<open>nb\<close> value bytes.\<close>

definition item_total :: "globals \<Rightarrow> nat \<Rightarrow> u32 \<Rightarrow> int \<Rightarrow> u64" where
  "item_total g nk flags nb = of_nat (49 + nk) + word_of_int nb + (if flags = 0 then 0 else 4) + (if use_cas (slab_set g) then 8 else 0)"

lemma init_item_simps:
  assumes "nk < 255" "it_flags i = 0" and j: "j = init_item g key (of_nat nk) flags ns et nb cid hid i"
  shows "nkey j = of_nat nk" "ikey j = take nk key" "nbytes j = nb" "exptime j = et" "refcount j = refcount i" "slabs_clsid j = cid OR initial_lru g et"
    "it_flags j = set_flag (if use_cas (slab_set g) then ITEM_CAS else 0) (if ns \<noteq> 0 then ITEM_CFLAGS else 0)" "ns \<noteq> 0 \<Longrightarrow> cflags j = flags"
proof -
  have nk: "unat (of_nat nk :: u64) = nk" using assms(1) by (simp add: unat_of_nat)
  have fl: "set_flag 0 f = f" for f :: u16 by (simp add: set_flag_def)
  have nc: "\<not> has_flag (set_flag (if use_cas (slab_set g) then ITEM_CAS else 0) (if ns \<noteq> 0 then ITEM_CFLAGS else 0)) ITEM_CHUNKED" by (simp add: has_flag_def set_flag_def)
  have "(ucast (of_nat nk :: u64) :: u8) = of_nat nk" using assms(1) by (simp add: word_unat_eq_iff unat_ucast_mod unat_of_nat)
  with nc show "nkey j = of_nat nk" "ikey j = take nk key" "nbytes j = nb" "exptime j = et" "refcount j = refcount i" "slabs_clsid j = cid OR initial_lru g et"
    "it_flags j = set_flag (if use_cas (slab_set g) then ITEM_CAS else 0) (if ns \<noteq> 0 then ITEM_CFLAGS else 0)" "ns \<noteq> 0 \<Longrightarrow> cflags j = flags"
    by (auto simp: j init_item_def Let_def assms(2) fl nk word_gt_0)
qed

lemma GET_LRU_initial [simp]: "GET_LRU (initial_lru g et) = initial_lru g et"
  by (simp add: initial_lru_def GET_LRU_def)

lemma CLEAR_LRU_small: "n < 64 \<Longrightarrow> CLEAR_LRU (of_nat n) = of_nat n"
proof -
  assume n: "n < 64"
  have "list_all (\<lambda>n. CLEAR_LRU (of_nat n) = of_nat n) [0..<64]" by code_simp
  with n show ?thesis by (auto simp: list_all_iff)
qed

lemma init_item_ok:
  assumes nk: "nk < 255" "nk \<le> length key" and nb: "2 \<le> nb" and i: "it_flags i = 0" "refcount i = 1" and cid: "cid < 64"
    and ns: "ns = (if flags = 0 then 0 else 4)"
  shows "item_ok (init_item g key (of_nat nk) flags ns et nb (of_nat cid) hid i) False (cid, item_total g nk flags nb) 1"
proof -
  define j where "j = init_item g key (of_nat nk) flags ns et nb (of_nat cid) hid i"
  note s = init_item_simps [OF nk(1) i(1) j_def]
  have u: "unat (of_nat nk :: u8) = nk" using nk(1) by (simp add: unat_of_nat)
  have fl: "has_flag (it_flags j) f = (use_cas (slab_set g) \<and> has_flag ITEM_CAS f \<or> flags \<noteq> 0 \<and> has_flag ITEM_CFLAGS f)" for f
    unfolding s(7) ns by simp
  have "ITEM_ntotal j = item_total g nk flags nb" unfolding ITEM_ntotal_def item_total_def s(1,3) u fl by (simp add: has_flag_def)
  moreover have "ITEM_clsid j = of_nat cid"
    unfolding ITEM_clsid_def s(6) using lru_id_parts [OF CLEAR_LRU_small [OF cid] GET_LRU_initial] by blast
  then have "unat (ITEM_clsid j) = cid" using cid by (simp add: unat_of_nat)
  ultimately show ?thesis unfolding j_def [symmetric] item_ok_def plain_def wf_item_def s(1,2,3,5) u fl using nk nb i by (simp add: has_flag_def)
qed

lemma clsid_fit:
  assumes "slabs_wf st s"
  obtains c where "slabs_clsid_for st s sz = Some c" "c \<le> power_largest s" "c = 0 \<or> sz \<le> ucast (sl_size (cls s c)) \<or> c = power_largest s"
proof -
  have "\<exists>c. slabs_clsid_for st s sz = Some c \<and> c \<le> power_largest s \<and> (c = 0 \<or> sz \<le> ucast (sl_size (cls s c)) \<or> c = power_largest s)"
    by (rule ex_forward [OF clsid_first_fit [OF assms, of sz]]) (simp split: if_splits)
  then show thesis using that by (elim exE conjE)
qed

text \<open>
  Allocation of an item that fits a chunk: the invariant holds, the linked items lost were expired, flushed
  or evicted, and the new item is fresh, referenced once, and carries the key.
\<close>

lemma do_item_alloc_ok:
  assumes inv: "cache_inv g K c C {} L R" and r: "\<And>y. y \<in> C \<Longrightarrow> R y < 65534" and tr: "tail_repair_time g = 0"
    and nk: "nk < 255" "length key = nk" and small: "item_total g nk flags nb \<le> word_of_int (slab_chunk_size_max (slab_set g))"
    and K: "fst K < length (snd K)" "snd K ! fst K = word_of_int (slab_chunk_size_max (slab_set g))"
      "0 \<le> slab_chunk_size_max (slab_set g)" "slab_chunk_size_max (slab_set g) < 2 ^ 31"
    and mem: "\<And>cid. slabs_clsid_for (slab_set g) (slb c) (item_total g nk flags nb) = Some cid \<Longrightarrow> 0 < cid \<Longrightarrow> pull_mem_ok g e junk 10 (item_total g nk flags nb) (of_nat cid) c"
  shows "\<exists>p c' C' L'. do_item_alloc g e junk key (of_nat nk) flags et nb c = Some (p, c') \<and> C' \<subseteq> C \<and> loses_any g (hp c) C C'
    \<and> L' \<subseteq>\<^sub>m L \<and> pays L' (hp c) (hp c')
    \<and> (case p of None \<Rightarrow> cache_inv g K c' C' {} L' R
       | Some x \<Rightarrow> L' x = None \<and> x \<notin> C' \<and> R x = 0 \<and> (\<exists>l. cache_inv g K c' C' {} (L'(x \<mapsto> l)) (R(x := 1))) \<and> ITEM_key (hp c' x) = key \<and> nbytes (hp c' x) = nb \<and> exptime (hp c' x) = et)"
proof -
  let ?n = "item_total g nk flags nb"
  have same: ?thesis if "do_item_alloc g e junk key (of_nat nk) flags et nb c = Some (None, c)"
    using that inv by (intro exI [of _ None] exI [of _ c] exI [of _ C] exI [of _ L]) (simp add: loses_any_def pays_def)
  show ?thesis
  proof (cases "nb < 2")
    case True
    then show ?thesis using same by (simp add: do_item_alloc_def)
  next
    case nb: False
    note wf = slabs_invD(1) [OF cache_invD(2) [OF inv]]
    from clsid_fit [OF wf, of ?n] obtain cid where cid: "slabs_clsid_for (slab_set g) (slb c) ?n = Some cid" "cid \<le> power_largest (slb c)"
      "cid = 0 \<or> ?n \<le> ucast (sl_size (cls (slb c) cid)) \<or> cid = power_largest (slb c)" .
    note hb = item_bytes [OF nk(1), of flags nb]
    have h: "item_make_header (ucast (of_nat nk + 1 :: u64)) flags nb = (of_nat (49 + nk) + word_of_int nb + (if flags = 0 then 0 else 4), if flags = 0 then 0 else 4)"
      by (rule prod_eqI) (simp_all only: hb fst_conv snd_conv)
    have tot: "(if use_cas (slab_set g) then (of_nat (49 + nk) + word_of_int nb + (if flags = 0 then 0 else 4)) + 8 else of_nat (49 + nk) + word_of_int nb + (if flags = 0 then 0 else 4)) = ?n"
      by (simp add: item_total_def)
    show ?thesis
    proof (cases "cid = 0")
      case True
      have "do_item_alloc g e junk key (of_nat nk) flags et nb c = Some (None, c)"
        unfolding do_item_alloc_def h prod.case Let_def tot using nb cid(1) True by simp
      then show ?thesis by (rule same)
    next
      case c0: False
      have c64: "cid < 64" using cid(2) slabs_wfD(3) [OF wf] by simp
      have u: "unat (of_nat cid :: u8) = cid" using c64 by (simp add: unat_of_nat)
      have KK: "fst K = power_largest (slb c)" "length (snd K) = 64" "\<And>i. i < 64 \<Longrightarrow> snd K ! i = sl_size (cls (slb c) i)"
        using cache_invD(11) [OF inv] slabs_wfD(1) [OF wf] by (auto simp: classes_def)
      have fit: "?n \<le> ucast (snd K ! cid)"
      proof (cases "cid = power_largest (slb c)")
        case True
        have "unat (word_of_int (slab_chunk_size_max (slab_set g)) :: u32) = unat (word_of_int (slab_chunk_size_max (slab_set g)) :: u64)"
          using K(3,4) by (simp add: unat_word_of_int)
        then have "(ucast (word_of_int (slab_chunk_size_max (slab_set g)) :: u32) :: u64) = word_of_int (slab_chunk_size_max (slab_set g))"
          by (simp add: word_unat_eq_iff)
        then show ?thesis using small K(2) KK(1) True by simp
      next
        case False
        then have "?n \<le> ucast (sl_size (cls (slb c) cid))" using cid(3) c0 by simp
        then show ?thesis using KK(3) [OF c64] by simp
      qed
      have big: "\<not> ?n > word_of_int (slab_chunk_size_max (slab_set g))" using small by simp
      have m: "pull_mem_ok g e junk 10 ?n (of_nat cid) c" using mem [OF cid(1)] c0 by simp
      have b: "1 \<le> unat (of_nat cid :: u8)" "unat (of_nat cid :: u8) \<le> fst K" "unat (of_nat cid :: u8) < length (snd K)" "?n \<le> ucast (snd K ! unat (of_nat cid :: u8))"
        unfolding u KK(1,2) using c0 cid(2) c64 fit by simp_all
      obtain p j c1 C' L' where l: "alloc_pull_loop g e junk 10 ?n (of_nat cid) 0 c = Some (p, j, c1)"
        "case p of None \<Rightarrow> shrunk g K c C L R c1 C' L'
         | Some x \<Rightarrow> \<exists>c2. shrunk g K c C L R c2 C' L' \<and> (\<forall>y. L' y \<noteq> None \<longrightarrow> hp c1 y = hp c2 y) \<and> alloc_ready g K c1 C' L' R x cid ?n"
        using alloc_pull_loop_ok [of g K c C L R, OF inv _ tr m b, of 0] r unfolding u by blast
      define c3 where "c3 = (if j > 0 then upd_is (of_nat cid) (\<lambda>s. s\<lparr>is_direct_reclaims := is_direct_reclaims s + of_nat j\<rparr>) c1 else c1)"
      have pull: "do_item_alloc_pull g e junk ?n (of_nat cid) c = Some (p, c3)" using l(1) by (simp add: do_item_alloc_pull_def c3_def)
      show ?thesis
      proof (cases p)
        case None
        let ?c = "upd_is (of_nat cid) (\<lambda>s. s\<lparr>is_outofmemory := is_outofmemory s + 1\<rparr>) c3"
        have "do_item_alloc g e junk key (of_nat nk) flags et nb c = Some (None, ?c)"
          unfolding do_item_alloc_def h prod.case Let_def tot using nb cid(1) c0 big pull None by simp
        moreover have "cache_inv g K ?c C' {} L' R" "pays L' (hp c) (hp ?c)" using l(2) None by (auto simp: shrunk_def c3_def)
        ultimately show ?thesis using l(2) None unfolding shrunk_def by (intro exI [of _ None] exI [of _ ?c] exI [of _ C'] exI [of _ L']) (simp add: loses_any_def)
      next
        case (Some x)
        then obtain c2 where q: "shrunk g K c C L R c2 C' L'" "\<forall>y. L' y \<noteq> None \<longrightarrow> hp c1 y = hp c2 y" "alloc_ready g K c1 C' L' R x cid ?n" using l(2) by auto
        have rd: "alloc_ready g K c3 C' L' R x cid ?n" using q(3) by (simp add: c3_def alloc_ready_upd_is)
        let ?f = "init_item g key (of_nat nk) flags (if flags = 0 then 0 else 4) et nb (of_nat cid) 0"
        have ar: "L' x = None" "it_flags (hp c3 x) = 0" "slabs_clsid (hp c3 x) = 0" "refcount (hp c3 x) = 1" using rd by (auto simp: alloc_ready_def)
        have e: "do_item_alloc g e junk key (of_nat nk) flags et nb c = Some (Some x, upd_it x ?f c3)"
          unfolding do_item_alloc_def h prod.case Let_def tot using nb cid(1) c0 big pull Some ar(3) by (simp del: upd_it_simps)
        have "item_ok (?f (hp c3 x)) False (cid, ?n) 1" by (rule init_item_ok) (use nk nb ar c64 in auto)
        then have i: "\<exists>l. cache_inv g K (upd_it x ?f c3) C' {} (L'(x \<mapsto> l)) (R(x := 1))" using rd unfolding alloc_ready_def by blast
        note s = init_item_simps [OF nk(1) ar(2) refl, where g = g and key = key and flags = flags and ns = "if flags = 0 then 0 else 4" and et = et and nb = nb and cid = "of_nat cid" and hid = 0]
        have "unat (of_nat nk :: u8) = nk" using nk(1) by (simp add: unat_of_nat)
        then have "ITEM_key (?f (hp c3 x)) = key" unfolding ITEM_key_def s using nk(2) by simp
        then have k: "ITEM_key (hp (upd_it x ?f c3) x) = key \<and> nbytes (hp (upd_it x ?f c3) x) = nb \<and> exptime (hp (upd_it x ?f c3) x) = et" using s(3,4) by simp
        have p: "pays L' (hp c) (hp (upd_it x ?f c3))" using q(1,2) ar(1) by (auto simp: shrunk_def pays_def c3_def)
        have sh: "C' \<subseteq> C" "loses_any g (hp c) C C'" "L' \<subseteq>\<^sub>m L" using q(1) by (simp_all add: shrunk_def loses_any_def)
        have "cache_inv g K c2 C' {} L' R" using q(1) by (simp add: shrunk_def)
        then have z: "x \<notin> C'" "R x = 0" using cache_invD(4,7) ar(1) by blast+
        show ?thesis by (intro exI [of _ "Some x"] exI [of _ "upd_it x ?f c3"] exI [of _ C'] exI [of _ L']) (simp only: e sh p option.case ar(1) z i k simp_thms)
      qed
    qed
  qed
qed

end
