(* ===== verification/Maintainer.thy ===== *)
theory Maintainer
  imports Alloc
begin

text \<open>
  The LRU maintainer: its walks over the lists, its loops and a whole turn of its thread keep the cache
  consistent, return, and lose nothing but expired or flushed items.
\<close>

section \<open>Walks that do not evict\<close>

definition tidied :: "globals \<Rightarrow> nat \<times> u32 list \<Rightarrow> cache \<Rightarrow> nat set \<Rightarrow> live \<Rightarrow> (nat \<Rightarrow> nat) \<Rightarrow> cache \<Rightarrow> nat set \<Rightarrow> live \<Rightarrow> bool" where
  "tidied g K c C L R c' C' L' \<longleftrightarrow>
     cache_inv g K c' C' {} L' R \<and> L' \<subseteq>\<^sub>m L \<and> pays L' (hp c) (hp c') \<and> C' \<subseteq> C \<and> (\<forall>y\<in>C - C'. may_drop g (hp c y))"

lemma tidied_refl: "cache_inv g K c C {} L R \<Longrightarrow> tidied g K c C L R c C L"
  by (simp add: tidied_def pays_def)

lemma tidied_inv: "tidied g K c C L R c' C' L' \<Longrightarrow> cache_inv g K c' C' {} L' R" "tidied g K c C L R c' C' L' \<Longrightarrow> C' \<subseteq> C"
  by (simp_all add: tidied_def)

lemma tidied_trans:
  assumes a: "tidied g K c C L R c1 C1 L1" and b: "tidied g K c1 C1 L1 R c' C' L'"
  shows "tidied g K c C L R c' C' L'"
proof -
  have "may_drop g (hp c y)" if y: "y \<in> C - C'" for y
  proof (cases "y \<in> C1")
    case True
    then have "L1 y \<noteq> None" using cache_invD(4) [OF tidied_inv(1) [OF a]] by blast
    then have "pay (hp c1 y) = pay (hp c y)" using a by (simp add: tidied_def pays_def)
    then have "may_drop g (hp c1 y) = may_drop g (hp c y)" by (rule may_drop_pay)
    then show ?thesis using b y True by (auto simp: tidied_def)
  qed (use a y in \<open>auto simp: tidied_def\<close>)
  then show ?thesis using a b pays_trans map_le_trans unfolding tidied_def by blast
qed

text \<open>No reference counter is near the end of its 16 bits.\<close>

abbreviation roomy :: "nat set \<Rightarrow> (nat \<Rightarrow> nat) \<Rightarrow> bool" where
  "roomy C R \<equiv> \<forall>y\<in>C. R y < 65533"

lemma pull_tidied:
  assumes inv: "cache_inv g K c C {} L R" and r: "roomy C R" and tr: "tail_repair_time g = 0"
    and fl: "\<not> has_flag (pull_flags a) LRU_PULL_RETURN_ITEM" "\<not> has_flag (pull_flags a) LRU_PULL_EVICT"
  shows "\<exists>n c' C' L'. lru_pull_tail g a c = Some (n, None, c') \<and> tidied g K c C L R c' C' L'"
proof -
  have "\<And>y. y \<in> C \<Longrightarrow> R y < 65534" using r by (auto intro: less_trans)
  from lru_pull_tail_ok [OF inv this tr fl(1)] obtain n c' C' L' where p: "lru_pull_tail g a c = Some (n, None, c')" "cache_inv g K c' C' {} L' R" "L' \<subseteq>\<^sub>m L"
    "pays L' (hp c) (hp c')" "loses g (evicting g a) (hp c) C C'" by metis
  have "\<not> evicting g a" using fl(2) by (simp add: evicting_def)
  then have "tidied g K c C L R c' C' L'" using p unfolding tidied_def loses_def by blast
  with p(1) show ?thesis by blast
qed

lemma juggle_pull_ok:
  assumes "cache_inv g K c C {} L R" "roomy C R" "tail_repair_time g = 0" "fl = 0 \<or> fl = LRU_PULL_CRAWL_BLOCKS"
  shows "\<exists>n c' C' L'. juggle_pull g locks k cid lru tb fl ag c = Some (n, c') \<and> tidied g K c C L R c' C' L'"
proof -
  let ?a = "\<lparr>orig_id = cid, cur_lru = lru, total_bytes = tb, pull_flags = fl, max_age = ag, item_trylock = fst (locks lru k), rebalance_trylock = snd (locks lru k)\<rparr>"
  have "\<not> has_flag (pull_flags ?a) LRU_PULL_RETURN_ITEM" "\<not> has_flag (pull_flags ?a) LRU_PULL_EVICT" using assms(4) by (auto simp: has_flag_def)
  from pull_tidied [OF assms(1-3) this] show ?thesis by (auto simp: juggle_pull_def)
qed

text \<open>One step of a tidying computation after another.\<close>

lemma tidied_step:
  assumes t: "tidied g K c C L R c1 C1 L1" and r: "roomy C R"
    and f: "cache_inv g K c1 C1 {} L1 R \<Longrightarrow> roomy C1 R \<Longrightarrow> \<exists>n c' C' L'. f c1 = Some (n, c') \<and> tidied g K c1 C1 L1 R c' C' L'"
  shows "\<exists>n c' C' L'. f c1 = Some (n, c') \<and> tidied g K c C L R c' C' L'"
proof -
  have "roomy C1 R" using r tidied_inv(2) [OF t] by blast
  from f [OF tidied_inv(1) [OF t] this] show ?thesis using tidied_trans [OF t] by blast
qed

section \<open>The loops of the maintainer\<close>

lemma juggle_temp_ok:
  assumes "cache_inv g K c C {} L R" "roomy C R" "tail_repair_time g = 0"
  shows "\<exists>n c' C' L'. juggle_temp g locks k cid c = Some (n, c') \<and> tidied g K c C L R c' C' L'"
  using assms
proof (induction k arbitrary: c C L)
  case 0
  then show ?case using tidied_refl by fastforce
next
  case (Suc k)
  from juggle_pull_ok [OF Suc.prems, of 0] obtain n c1 C1 L1 where p: "juggle_pull g locks k cid TEMP_LRU 0 0 0 c = Some (n, c1)" "tidied g K c C L R c1 C1 L1" by blast
  from tidied_step [where f = "juggle_temp g locks k cid", OF p(2) Suc.prems(2) Suc.IH] Suc.prems(3)
  obtain m c2 C2 L2 where q: "juggle_temp g locks k cid c1 = Some (m, c2)" "tidied g K c C L R c2 C2 L2" by blast
  show ?case using p q by (cases "n = 0") auto
qed

lemma juggle_loop_ok:
  assumes "cache_inv g K c C {} L R" "roomy C R" "tail_repair_time g = 0"
  shows "\<exists>n c' C' L'. juggle_loop g locks k cid tb ha wa c = Some (n, c') \<and> tidied g K c C L R c' C' L'"
  using assms
proof (induction k arbitrary: c C L)
  case 0
  then show ?case using tidied_refl by fastforce
next
  case (Suc k)
  note r = Suc.prems(2) and tr = Suc.prems(3)
  have pull: "cache_inv g K c C {} L R \<Longrightarrow> roomy C R \<Longrightarrow> \<exists>n c' C' L'. juggle_pull g locks k cid lru tb LRU_PULL_CRAWL_BLOCKS ag c = Some (n, c') \<and> tidied g K c C L R c' C' L'"
    for lru ag c C L by (rule juggle_pull_ok [OF _ _ tr]) simp_all
  from pull [OF Suc.prems(1) r] obtain n c1 C1 L1 where p: "juggle_pull g locks k cid HOT_LRU tb LRU_PULL_CRAWL_BLOCKS ha c = Some (n, c1)" "tidied g K c C L R c1 C1 L1" by blast
  have "\<exists>n' c' C' L'. (if n \<noteq> 0 then Some (n, c1) else juggle_pull g locks k cid WARM_LRU tb LRU_PULL_CRAWL_BLOCKS wa c1) = Some (n', c') \<and> tidied g K c C L R c' C' L'"
    using tidied_step [where f = "juggle_pull g locks k cid WARM_LRU tb LRU_PULL_CRAWL_BLOCKS wa", OF p(2) r pull] p(2) by auto
  then obtain n' c2 C2 L2 where q: "(if n \<noteq> 0 then Some (n, c1) else juggle_pull g locks k cid WARM_LRU tb LRU_PULL_CRAWL_BLOCKS wa c1) = Some (n', c2)" "tidied g K c C L R c2 C2 L2" by blast
  have "\<exists>m c' C' L'. (if lru_segmented g then juggle_pull g locks k cid COLD_LRU tb LRU_PULL_CRAWL_BLOCKS 0 c2 else Some (0, c2)) = Some (m, c') \<and> tidied g K c C L R c' C' L'"
    using tidied_step [where f = "juggle_pull g locks k cid COLD_LRU tb LRU_PULL_CRAWL_BLOCKS 0", OF q(2) r pull] q(2) by auto
  then obtain m c3 C3 L3 where s: "(if lru_segmented g then juggle_pull g locks k cid COLD_LRU tb LRU_PULL_CRAWL_BLOCKS 0 c2 else Some (0, c2)) = Some (m, c3)" "tidied g K c C L R c3 C3 L3" by blast
  from tidied_step [where f = "juggle_loop g locks k cid tb ha wa", OF s(2) r Suc.IH] tr
  obtain j c4 C4 L4 where u: "juggle_loop g locks k cid tb ha wa c3 = Some (j, c4)" "tidied g K c C L R c4 C4 L4" by blast
  have e: "juggle_loop g locks (Suc k) cid tb ha wa c = (if (if n' \<noteq> 0 then 1 else 0) + m = 0 then Some (0, c3) else Some (j + 1, c4))"
    by (simp only: juggle_loop.simps p(1) q(1) s(1) u(1) bind_eq_Some_conv Option.bind.simps prod.case)
  show ?case unfolding e using s(2) u(2) by auto
qed

lemma lru_maintainer_juggle_ok:
  assumes inv: "cache_inv g K c C {} L R" and r: "roomy C R" and tr: "tail_repair_time g = 0"
  shows "\<exists>n c' C' L'. lru_maintainer_juggle g hot warm locks cid c = Some (n, c') \<and> tidied g K c C L R c' C' L'"
proof -
  obtain a0 a1 tb a3 where sl: "slabs_available_chunks (unat cid) (slb c) = (a0, a1, tb, a3)" by (metis prod_cases4)
  let ?temp = "if temp_lru g then do { (m, c) \<leftarrow> juggle_temp g locks 500 cid c; Some (m, tb - ucast (temp_lru_size cid c), c) } else Some (0, tb, c)"
  have "\<exists>m tb' c' C' L'. ?temp = Some (m, tb', c') \<and> tidied g K c C L R c' C' L'"
  proof (cases "temp_lru g")
    case True
    obtain m c' C' L' where "juggle_temp g locks 500 cid c = Some (m, c')" "tidied g K c C L R c' C' L'" using juggle_temp_ok [OF assms] by blast
    then show ?thesis using True by (intro exI) auto
  qed (use tidied_refl [OF inv] in auto)
  then obtain m tb' c1 C1 L1 where t: "?temp = Some (m, tb', c1)" "tidied g K c C L R c1 C1 L1" by blast
  obtain ha wa where ages: "(let cold_age = (case tails c1 (cid OR COLD_LRU) of None \<Rightarrow> 0 | Some t \<Rightarrow> current_time g - time (hp c1 t))
      in if lru_segmented g then (hot cold_age, warm cold_age) else (0, 0)) = (ha, wa)" by (meson prod.exhaust)
  obtain j c2 C2 L2 where q: "juggle_loop g locks 500 cid tb' ha wa c1 = Some (j, c2)" "tidied g K c C L R c2 C2 L2"
    using tidied_step [where f = "juggle_loop g locks 500 cid tb' ha wa", OF t(2) r juggle_loop_ok [OF _ _ tr]] by blast
  have "lru_maintainer_juggle g hot warm locks cid c = Some (m + j, c2)"
    unfolding lru_maintainer_juggle_def sl prod.case t(1) Let_def Option.bind.simps ages [unfolded Let_def] q(1) ..
  with q(2) show ?thesis by blast
qed

lemma maintainer_classes_ok:
  assumes "cache_inv g K c C {} L R" "roomy C R" "tail_repair_time g = 0"
  shows "\<exists>nj' bj' ts' c' C' L'. maintainer_classes g hot warm locks ls is nj bj ts c = Some (nj', bj', ts', c') \<and> tidied g K c C L R c' C' L'"
  using assms
proof (induction "is" arbitrary: c C L nj bj ts)
  case Nil
  then show ?case using tidied_refl by fastforce
next
  case (Cons i "is")
  from lru_maintainer_juggle_ok [OF Cons.prems] obtain n c1 C1 L1
    where p: "lru_maintainer_juggle g hot warm (locks (of_nat i)) (of_nat i) c = Some (n, c1)" "tidied g K c C L R c1 C1 L1" by blast
  have r1: "roomy C1 R" using Cons.prems(2) tidied_inv(2) [OF p(2)] by blast
  define ni where "ni = (if nj i > ls then nj i - ls else 0)"
  define b where "b = juggle_backoff (n \<noteq> 0) (bj i)"
  show ?case
  proof (cases "ni > 0")
    case True
    then have "maintainer_classes g hot warm locks ls (i # is) nj bj ts c = maintainer_classes g hot warm locks ls is (nj(i := ni)) bj (if ni < ts then ni else ts) c"
      by (simp add: ni_def Let_def)
    then show ?thesis using Cons.IH [OF Cons.prems] by simp
  next
    case False
    then have "maintainer_classes g hot warm locks ls (i # is) nj bj ts c = maintainer_classes g hot warm locks ls is (nj(i := b)) (bj(i := b)) (if b < ts then b else ts) c1"
      using p(1) unfolding ni_def by (simp add: Let_def b_def)
    moreover obtain nj' bj' ts' c' C' L' where "maintainer_classes g hot warm locks ls is (nj(i := b)) (bj(i := b)) (if b < ts then b else ts) c1 = Some (nj', bj', ts', c')"
      "tidied g K c1 C1 L1 R c' C' L'" using Cons.IH [OF tidied_inv(1) [OF p(2)] r1 Cons.prems(3)] by blast
    ultimately show ?thesis using tidied_trans [OF p(2)] unfolding \<open>maintainer_classes g hot warm locks ls (i # is) nj bj ts c = _\<close> by blast
  qed
qed

text \<open>A whole turn: the classes, then the queued bumps.\<close>

lemma maintainer_juggles_ok:
  assumes inv: "cache_inv g K c C {} L R" and r: "roomy C R" and tr: "tail_repair_time g = 0"
    and b: "\<And>b. b \<in> set bs \<Longrightarrow> bump_inv b" "\<And>x. all_bumps bs x \<le> R x"
  shows "\<exists>nj' bj' ts' bs' c' C' L' R'. maintainer_juggles g hot warm locks slept bs nj bj c = Some (nj', bj', ts', bs', c')
    \<and> cache_inv g K c' C' {} L' R' \<and> L' \<subseteq>\<^sub>m L \<and> pays L' (hp c) (hp c') \<and> C' \<subseteq> C \<and> (\<forall>y\<in>C - C'. may_drop g (hp c y))
    \<and> (\<forall>b\<in>set bs'. bump_inv b) \<and> length bs' = length bs \<and> (\<forall>x. R' x + all_bumps bs x = R x + all_bumps bs' x)"
proof -
  obtain nj' bj' ts' c1 C1 L1 where p: "maintainer_classes g hot warm locks (if slept > 1000 then slept else 1000) [POWER_SMALLEST..<MAX_NUMBER_OF_SLAB_CLASSES] nj bj MAX_LRU_MAINTAINER_SLEEP c = Some (nj', bj', ts', c1)"
    "tidied g K c C L R c1 C1 L1" using maintainer_classes_ok [OF inv r tr] by blast
  note t = p(2) [unfolded tidied_def]
  show ?thesis
  proof (cases "lru_segmented g")
    case False
    then have "maintainer_juggles g hot warm locks slept bs nj bj c = Some (nj', bj', ts', bs, c1)"
      unfolding maintainer_juggles_def Let_def p(1) Option.bind.simps prod.case by simp
    then show ?thesis using t b by blast
  next
    case True
    from lru_maintainer_bumps_ok [OF tidied_inv(1) [OF p(2)] b] obtain d bs' c2 L2 R2
      where q: "lru_maintainer_bumps g bs c1 = Some (d, bs', c2)" "cache_inv g K c2 C1 {} L2 R2" "L2 \<subseteq>\<^sub>m L1" "pays L2 (hp c1) (hp c2)"
        "\<forall>b\<in>set bs'. bump_inv b" "length bs' = length bs" "\<forall>x. R2 x + all_bumps bs x = R x + all_bumps bs' x" by metis
    have "maintainer_juggles g hot warm locks slept bs nj bj c = Some (nj', bj', if d \<and> ts' > 1000 then 1000 else ts', bs', c2)"
      unfolding maintainer_juggles_def Let_def p(1) Option.bind.simps prod.case using True q(1) by simp
    moreover have "L2 \<subseteq>\<^sub>m L" "pays L2 (hp c) (hp c2)" using q(3,4) t map_le_trans pays_trans by blast+
    ultimately show ?thesis using q(2,5,6,7) t by blast
  qed
qed

end
