(* ===== verification/Cache_System.thy ===== *)
theory Cache_System
  imports Maintainer "HOL-Library.Multiset"
begin

text \<open>
  The item cache as a system: worker threads, the LRU maintainer and the hash table's maintenance thread
  work on one cache, connections hold references to items. Every run refines a key-value store that may
  lose entries only by expiry, flush or eviction and in which an item somebody holds never changes.
\<close>

section \<open>The system\<close>

text \<open>
  \<open>held\<close> is the list of references connections hold, one entry per reference. \<open>next_juggles\<close> and
  \<open>backoff_juggles\<close> belong to the maintainer thread.
\<close>

record sys =
  wks :: "worker list"
  cch :: cache
  held :: "nat list"
  next_juggles :: "nat \<Rightarrow> u32"
  backoff_juggles :: "nat \<Rightarrow> u32"

datatype cache_op =
    Get "byte list" bool nat
  | Touch "byte list" u32 nat
  | New alloc_env u64 "byte list" u32 u32 int
  | Link nat
  | Unlink nat
  | Replace nat nat
  | Remove nat
  | Update nat
  | Pull pull
  | Maintain "u32 \<Rightarrow> u32" "u32 \<Rightarrow> u32" "u8 \<Rightarrow> juggle_locks" u32
  | Rehash "bool list" bool
  | Tick u32
  | Flush u32 u64

definition key_hash :: "globals \<Rightarrow> sys \<Rightarrow> nat \<Rightarrow> u32" where
  "key_hash g s x = hash g (ITEM_key (hp (cch s) x))"

fun exec :: "globals \<Rightarrow> cache_op \<Rightarrow> sys \<Rightarrow> (ptr \<times> sys) option" where
  "exec g (Get k u i) s = do { (p, w, c) \<leftarrow> do_item_get g k (hash g k) (wks s ! i) u (cch s);
                                Some (p, s\<lparr>cch := c, wks := (wks s)[i := w], held := (case p of None \<Rightarrow> [] | Some x \<Rightarrow> [x]) @ held s\<rparr>) }"
| "exec g (Touch k et i) s = do { (p, w, c) \<leftarrow> do_item_touch g k et (hash g k) (wks s ! i) (cch s);
                                   Some (p, s\<lparr>cch := c, wks := (wks s)[i := w], held := (case p of None \<Rightarrow> [] | Some x \<Rightarrow> [x]) @ held s\<rparr>) }"
| "exec g (New e junk key flags et nb) s = do { (p, c) \<leftarrow> do_item_alloc g e junk key (of_nat (length key)) flags et nb (cch s);
                                                Some (p, s\<lparr>cch := c, held := (case p of None \<Rightarrow> [] | Some x \<Rightarrow> [x]) @ held s\<rparr>) }"
| "exec g (Link x) s = map_option (\<lambda>c. (None, s\<lparr>cch := c\<rparr>)) (do_item_link g x (key_hash g s x) (cch s))"
| "exec g (Unlink x) s = map_option (\<lambda>c. (None, s\<lparr>cch := c\<rparr>)) (do_item_unlink g x (key_hash g s x) (cch s))"
| "exec g (Replace x y) s = map_option (\<lambda>c. (None, s\<lparr>cch := c\<rparr>)) (do_item_replace g x y (key_hash g s x) (cch s))"
| "exec g (Remove x) s = map_option (\<lambda>c. (None, s\<lparr>cch := c, held := remove1 x (held s)\<rparr>)) (do_item_remove g x (cch s))"
| "exec g (Update x) s = map_option (\<lambda>c. (None, s\<lparr>cch := c\<rparr>)) (do_item_update g x (cch s))"
| "exec g (Pull a) s = map_option (\<lambda>(n, _, c). (None, s\<lparr>cch := c\<rparr>)) (lru_pull_tail g a (cch s))"
| "exec g (Maintain hot warm locks slept) s =
     do { (nj, bj, ts, bs, c) \<leftarrow> maintainer_juggles g hot warm locks slept (map bumps (wks s)) (next_juggles s) (backoff_juggles s) (cch s);
          Some (None, s\<lparr>cch := c, wks := map2 (\<lambda>w b. w\<lparr>bumps := b\<rparr>) (wks s) bs, next_juggles := nj, backoff_juggles := bj\<rparr>) }"
| "exec g (Rehash locks calloc) s =
     map_option (\<lambda>(h, a). (None, s\<lparr>cch := (cch s)\<lparr>hp := h, tab := a\<rparr>\<rparr>)) (maintenance_turn (hash g) locks calloc (hp (cch s)) (tab (cch s)))"
| "exec g (Tick t) s = Some (None, s)"
| "exec g (Flush live cid) s = Some (None, s)"

text \<open>The clock and the flush settings an operation leaves.\<close>

fun next_g :: "cache_op \<Rightarrow> globals \<Rightarrow> globals" where
  "next_g (Tick t) g = g\<lparr>current_time := t\<rparr>"
| "next_g (Flush live cid) g = g\<lparr>oldest_live := live, oldest_cas := cid\<rparr>"
| "next_g _ g = g"

fun run :: "globals \<Rightarrow> cache_op list \<Rightarrow> sys \<Rightarrow> (ptr list \<times> globals \<times> sys) option" where
  "run g [] s = Some ([], g, s)"
| "run g (x # xs) s = do { (p, s) \<leftarrow> exec g x s; (ps, g, s) \<leftarrow> run (next_g x g) xs s; Some (p # ps, g, s) }"

text \<open>
  The references: those of connections and one per queued bump. What callers owe: they pass references
  they hold, link only items that are not linked and whose key is not, replace by an item of the same
  key, and reference counters stay below the end of their 16 bits. New items fit the largest chunk,
  and new pages are blocks outside those in use.
\<close>

definition references :: "sys \<Rightarrow> nat list" where
  "references s = held s @ concat (map (\<lambda>w. bump_items (bip_bytes (bump_buf (bumps w)))) (wks s))"

definition room :: "sys \<Rightarrow> bool" where
  "room s \<longleftrightarrow> (\<forall>x\<in>set (references s). count_list (references s) x < 65533)"

definition new_ok :: "globals \<Rightarrow> alloc_env \<Rightarrow> u64 \<Rightarrow> byte list \<Rightarrow> u32 \<Rightarrow> u32 \<Rightarrow> int \<Rightarrow> cache \<Rightarrow> bool" where
  "new_ok g e junk key flags et nb c \<longleftrightarrow> length key \<le> 250 \<and> item_total g (length key) flags nb \<le> word_of_int (slab_chunk_size_max (slab_set g))
     \<and> (case slabs_clsid_for (slab_set g) (slb c) (item_total g (length key) flags nb) of
          None \<Rightarrow> True | Some cid \<Rightarrow> cid = 0 \<or> pull_mem_ok g e junk 10 (item_total g (length key) flags nb) (of_nat cid) c)
     \<and> (case do_item_alloc g e junk key (of_nat (length key)) flags et nb c of Some (Some x, _) \<Rightarrow> x < 2 ^ 64 | _ \<Rightarrow> True)"

fun legal :: "globals \<Rightarrow> cache_op \<Rightarrow> sys \<Rightarrow> bool" where
  "legal g (Get k u i) s \<longleftrightarrow> i < length (wks s) \<and> room s"
| "legal g (Touch k et i) s \<longleftrightarrow> i < length (wks s) \<and> room s"
| "legal g (New e junk key flags et nb) s \<longleftrightarrow> room s \<and> new_ok g e junk key flags et nb (cch s)"
| "legal g (Link x) s \<longleftrightarrow> x \<in> set (held s) \<and> room s \<and> \<not> has_flag (it_flags (hp (cch s) x)) ITEM_LINKED
     \<and> assoc_find (ITEM_key (hp (cch s) x)) (key_hash g s x) (hp (cch s)) (tab (cch s)) = Some None"
| "legal g (Unlink x) s \<longleftrightarrow> x \<in> set (held s)"
| "legal g (Replace x y) s \<longleftrightarrow> x \<in> set (held s) \<and> y \<in> set (held s) \<and> room s \<and> has_flag (it_flags (hp (cch s) x)) ITEM_LINKED
     \<and> \<not> has_flag (it_flags (hp (cch s) y)) ITEM_LINKED \<and> ITEM_key (hp (cch s) y) = ITEM_key (hp (cch s) x)"
| "legal g (Remove x) s \<longleftrightarrow> x \<in> set (held s)"
| "legal g (Update x) s \<longleftrightarrow> x \<in> set (held s)"
| "legal g (Pull a) s \<longleftrightarrow> room s \<and> \<not> has_flag (pull_flags a) LRU_PULL_RETURN_ITEM"
| "legal g (Maintain hot warm locks slept) s \<longleftrightarrow> room s"
| "legal g (Rehash locks calloc) s \<longleftrightarrow> hashpower (tab (cch s)) < 31"
| "legal g (Tick t) s \<longleftrightarrow> True"
| "legal g (Flush live cid) s \<longleftrightarrow> True"

fun legal_ops :: "globals \<Rightarrow> cache_op list \<Rightarrow> sys \<Rightarrow> bool" where
  "legal_ops g [] s \<longleftrightarrow> True"
| "legal_ops g (x # xs) s \<longleftrightarrow> legal g x s \<and> (case exec g x s of None \<Rightarrow> True | Some (_, s) \<Rightarrow> legal_ops (next_g x g) xs s)"

text \<open>
  The system at its start: the caches of \<open>slabs_init\<close> and \<open>assoc_init\<close> with the static initial values of
  \<open>items.c\<close>, and workers with fresh bump buffers of \<open>n\<close> entries (\<open>LRU_BUMP_BUF_SIZE\<close>, 8192, in the code).
\<close>

definition item_lru_bump_buf_create :: "u32 \<Rightarrow> bool \<Rightarrow> byte list option \<Rightarrow> lru_bump_buf option" where
  "item_lru_bump_buf_create n calloc block =
     (if \<not> calloc then None
      else case bipbuf_new block (of_nat sizeof_bump_entry * n) of None \<Rightarrow> None | Some b \<Rightarrow> Some \<lparr>bump_buf = b, dropped = 0\<rparr>)"

definition cache_start :: "heap \<Rightarrow> slabs \<Rightarrow> assoc \<Rightarrow> rebal \<Rightarrow> cache" where
  "cache_start h sl a r = \<lparr>hp = h, tab = a, slb = sl, rbl = r, heads = (\<lambda>_. None), tails = (\<lambda>_. None), lru_sizes = (\<lambda>_. 0), sizes_bytes = (\<lambda>_. 0),
     itemstats = (\<lambda>_. zero_itemstats), stats_sizes_hist = None, stats_sizes_cas_min = 0, stats_sizes_buckets = 0, cas_id = 0, curr_bytes = 0, curr_items = 0, total_items = 0\<rparr>"

definition sys_start :: "worker list \<Rightarrow> heap \<Rightarrow> slabs \<Rightarrow> assoc \<Rightarrow> rebal \<Rightarrow> sys" where
  "sys_start ws h sl a r = \<lparr>wks = ws, cch = cache_start h sl a r, held = [], next_juggles = (\<lambda>_. 0), backoff_juggles = (\<lambda>_. 0)\<rparr>"

definition fresh_worker :: "worker \<Rightarrow> bool" where
  "fresh_worker w \<longleftrightarrow> (\<exists>n block. n < 2 ^ 27 \<and> length block = 16 * unat n \<and> item_lru_bump_buf_create n True (Some block) = Some (bumps w))"

definition started :: "globals \<Rightarrow> sys \<Rightarrow> bool" where
  "started g s \<longleftrightarrow> (\<exists>env huge base im limit stop grow prealloc sizes h0 h sl n calloc a ws r.
     slabs_init (extstore g) (slab_set g) env huge base im limit stop grow prealloc sizes h0 = Some (h, sl) \<and> (prealloc \<and> \<not> huge \<longrightarrow> base \<noteq> None)
     \<and> assoc_init n calloc assoc_static = Some a \<and> (\<forall>w\<in>set ws. fresh_worker w) \<and> s = sys_start ws h sl a r)"

definition sane :: "globals \<Rightarrow> bool" where
  "sane g \<longleftrightarrow> tail_repair_time g = 0 \<and> 0 < slab_chunk_size_max (slab_set g) \<and> slab_chunk_size_max (slab_set g) < 2 ^ 31
     \<and> 0 < slab_page_size (slab_set g) \<and> slab_page_size (slab_set g) < 2 ^ 31"

section \<open>The store it refines\<close>

text \<open>What a client sees of an item.\<close>

record entry =
  e_key :: "byte list"
  e_bytes :: int
  e_flags :: u32
  e_data :: "byte list"
  e_cas :: u64
  e_exp :: u32

definition entry_of :: "item \<Rightarrow> entry" where
  "entry_of it = \<lparr>e_key = ITEM_key it, e_bytes = nbytes it, e_flags = cflags it, e_data = idata it, e_cas = cas it, e_exp = exptime it\<rparr>"

text \<open>The linked items, the references of the connections, and the contents.\<close>

record store =
  linked :: "nat set"
  refs :: "nat multiset"
  ent :: "nat \<Rightarrow> entry"

definition empty_store :: store where
  "empty_store = \<lparr>linked = {}, refs = {#}, ent = (\<lambda>_. \<lparr>e_key = [], e_bytes = 0, e_flags = 0, e_data = [], e_cas = 0, e_exp = 0\<rparr>)\<rparr>"

definition in_store :: "store \<Rightarrow> nat \<Rightarrow> bool" where
  "in_store S x \<longleftrightarrow> x \<in> linked S \<or> x \<in># refs S"

definition keeps :: "store \<Rightarrow> store \<Rightarrow> bool" where
  "keeps S S' \<longleftrightarrow> (\<forall>x. in_store S' x \<longrightarrow> in_store S x \<and> ent S' x = ent S x)"

definition flushing :: "globals \<Rightarrow> bool" where
  "flushing g \<longleftrightarrow> oldest_live g \<noteq> 0 \<and> oldest_live g \<le> current_time g"

definition out_of_date :: "globals \<Rightarrow> entry \<Rightarrow> bool" where
  "out_of_date g e \<longleftrightarrow> e_exp e \<noteq> 0 \<and> e_exp e \<le> current_time g"

definition drops :: "globals \<Rightarrow> bool \<Rightarrow> store \<Rightarrow> store \<Rightarrow> bool" where
  "drops g ev S S' \<longleftrightarrow> linked S' \<subseteq> linked S \<and> (\<forall>x\<in>linked S - linked S'. out_of_date g (ent S x) \<or> flushing g \<or> ev)"

definition finds :: "globals \<Rightarrow> byte list \<Rightarrow> store \<Rightarrow> ptr \<Rightarrow> store \<Rightarrow> bool" where
  "finds g k S p S' \<longleftrightarrow>
     (case p of
        Some x \<Rightarrow> x \<in> linked S \<and> e_key (ent S x) = k \<and> \<not> out_of_date g (ent S x) \<and> linked S' = linked S \<and> refs S' = add_mset x (refs S)
      | None \<Rightarrow> refs S' = refs S
          \<and> ((\<forall>x\<in>linked S. e_key (ent S x) \<noteq> k) \<and> linked S' = linked S
             \<or> (\<exists>x\<in>linked S. e_key (ent S x) = k \<and> (out_of_date g (ent S x) \<or> flushing g) \<and> linked S' = linked S - {x})))"

fun allowed :: "globals \<Rightarrow> cache_op \<Rightarrow> store \<Rightarrow> ptr \<Rightarrow> store \<Rightarrow> bool" where
  "allowed g (Get k u i) S p S' \<longleftrightarrow> finds g k S p S' \<and> keeps S S'"
| "allowed g (Touch k et i) S p S' \<longleftrightarrow> finds g k S p S'
     \<and> (case p of None \<Rightarrow> keeps S S' | Some x \<Rightarrow> keeps (S\<lparr>ent := (ent S)(x := (ent S x)\<lparr>e_exp := et\<rparr>)\<rparr>) S')"
| "allowed g (New e junk key flags et nb) S p S' \<longleftrightarrow> drops g (evict_to_free g) S S'
     \<and> (case p of None \<Rightarrow> refs S' = refs S \<and> keeps S S'
        | Some x \<Rightarrow> x \<notin># refs S \<and> x \<notin> linked S' \<and> refs S' = add_mset x (refs S) \<and> e_key (ent S' x) = key \<and> e_bytes (ent S' x) = nb \<and> e_exp (ent S' x) = et
            \<and> keeps S (S'\<lparr>refs := refs S\<rparr>))"
| "allowed g (Link x) S p S' \<longleftrightarrow> linked S' = insert x (linked S) \<and> refs S' = refs S
     \<and> keeps (S\<lparr>ent := (ent S)(x := (ent S x)\<lparr>e_cas := e_cas (ent S' x)\<rparr>)\<rparr>) S'"
| "allowed g (Unlink x) S p S' \<longleftrightarrow> linked S' = linked S - {x} \<and> refs S' = refs S \<and> keeps S S'"
| "allowed g (Replace x y) S p S' \<longleftrightarrow> linked S' = insert y (linked S - {x}) \<and> refs S' = refs S
     \<and> keeps (S\<lparr>ent := (ent S)(y := (ent S y)\<lparr>e_cas := e_cas (ent S' y)\<rparr>)\<rparr>) S'"
| "allowed g (Remove x) S p S' \<longleftrightarrow> linked S' = linked S \<and> refs S' = refs S - {#x#} \<and> keeps S S'"
| "allowed g (Pull a) S p S' \<longleftrightarrow> drops g (evicting g a) S S' \<and> refs S' = refs S \<and> keeps S S'"
| "allowed g (Maintain hot warm locks slept) S p S' \<longleftrightarrow> drops g False S S' \<and> refs S' = refs S \<and> keeps S S'"
| "allowed g _ S p S' \<longleftrightarrow> linked S' = linked S \<and> refs S' = refs S \<and> keeps S S'"

text \<open>The results of a run are those of some run of the store.\<close>

fun accepts :: "globals \<Rightarrow> cache_op list \<Rightarrow> ptr list \<Rightarrow> store \<Rightarrow> store \<Rightarrow> bool" where
  "accepts g [] ps S S' \<longleftrightarrow> ps = [] \<and> S' = S"
| "accepts g (x # xs) (p # ps) S S' \<longleftrightarrow> (\<exists>S1. allowed g x S p S1 \<and> accepts (next_g x g) xs ps S1 S')"
| "accepts g (x # xs) [] S S' \<longleftrightarrow> False"

end
