(* ===== verification/Cache_Refine.thy ===== *)
theory Cache_Refine
  imports Cache_System
begin

text \<open>
  The simulation between the cache and the store of \<open>Cache_System\<close>, one lemma per operation, and the
  properties of whole runs.
\<close>

section \<open>The simulation relation\<close>

lemma count_references: "count_list (references s) x = count_list (held s) x + all_bumps (map bumps (wks s)) x"
proof -
  have "count_list (concat (map (\<lambda>w. bump_items (bip_bytes (bump_buf (bumps w)))) ws)) x = all_bumps (map bumps ws) x" for ws
    by (induction ws) (simp_all add: all_bumps_def bump_refs_def)
  then show ?thesis by (simp add: references_def)
qed

lemma room_less: "room s \<Longrightarrow> count_list (references s) x < 65533"
  by (cases "x \<in> set (references s)") (auto simp: room_def count_notin)

lemma held_counted: "x \<in> set (held s) \<Longrightarrow> 0 < count_list (references s) x"
  by (simp add: count_references) (metis count_list_0_iff not_gr_zero)

definition view :: "sys \<Rightarrow> nat set \<Rightarrow> store" where
  "view s C = \<lparr>linked = C, refs = mset (held s), ent = (\<lambda>x. entry_of (hp (cch s) x))\<rparr>"

lemma view_simps [simp]: "linked (view s C) = C" "refs (view s C) = mset (held s)" "ent (view s C) x = entry_of (hp (cch s) x)"
  by (simp_all add: view_def)

definition sys_inv :: "globals \<Rightarrow> nat \<times> u32 list \<Rightarrow> sys \<Rightarrow> nat set \<Rightarrow> live \<Rightarrow> bool" where
  "sys_inv g K s C L \<longleftrightarrow> cache_inv g K (cch s) C {} L (count_list (references s)) \<and> (\<forall>x. L x \<noteq> None \<longrightarrow> x < 2 ^ 64) \<and> (\<forall>w\<in>set (wks s). bump_inv (bumps w))"

definition sim :: "globals \<Rightarrow> nat \<times> u32 list \<Rightarrow> sys \<Rightarrow> store \<Rightarrow> bool" where
  "sim g K s S \<longleftrightarrow> (\<exists>L. sys_inv g K s (linked S) L) \<and> refs S = mset (held s) \<and> (\<forall>x. in_store S x \<longrightarrow> ent S x = entry_of (hp (cch s) x))"

text \<open>Settings under which a run makes sense: no tail repair, and the largest class holds \<open>slab_chunk_size_max\<close> bytes.\<close>

definition config :: "globals \<Rightarrow> nat \<times> u32 list \<Rightarrow> bool" where
  "config g K \<longleftrightarrow> tail_repair_time g = 0 \<and> fst K < length (snd K) \<and> snd K ! fst K = word_of_int (slab_chunk_size_max (slab_set g))
     \<and> 0 \<le> slab_chunk_size_max (slab_set g) \<and> slab_chunk_size_max (slab_set g) < 2 ^ 31"

lemma sys_invD:
  assumes "sys_inv g K s C L"
  shows "cache_inv g K (cch s) C {} L (count_list (references s))" "L x \<noteq> None \<Longrightarrow> x < 2 ^ 64" "w \<in> set (wks s) \<Longrightarrow> bump_inv (bumps w)"
  using assms by (auto simp: sys_inv_def)

lemma map_le_live: "L' \<subseteq>\<^sub>m L \<Longrightarrow> L' x \<noteq> None \<Longrightarrow> L x \<noteq> None"
  by (auto simp: map_le_def dom_def)

lemma in_view_live:
  assumes "sys_inv g K s C L" "in_store (view s C) x"
  shows "L x \<noteq> None"
  using live_iff [OF sys_invD(1) [OF assms(1)], of x] assms(2) held_counted [of x s] by (auto simp: in_store_def)

lemma sim_live:
  assumes "sim g K s S" "sys_inv g K s (linked S) L" "in_store S x"
  shows "L x \<noteq> None"
  by (rule in_view_live [OF assms(2)]) (use assms(1,3) in \<open>simp add: sim_def in_store_def\<close>)

lemma pay_entry: "pay i = pay j \<Longrightarrow> entry_of i = entry_of j"
  by (simp add: pay_def entry_of_def ITEM_key_def)

lemma entry_of_simps [simp]: "e_key (entry_of i) = ITEM_key i" "e_exp (entry_of i) = exptime i" "e_bytes (entry_of i) = nbytes i"
  by (simp_all add: entry_of_def)

text \<open>A store that agrees with the cache, and the items in both.\<close>

lemma sim_view: "sys_inv g K s C L \<Longrightarrow> sim g K s (view s C)"
  by (auto simp: sim_def)

lemma simE:
  assumes "sim g K s S"
  obtains L where "sys_inv g K s (linked S) L" "refs S = mset (held s)" "\<forall>x. in_store S x \<longrightarrow> ent S x = entry_of (hp (cch s) x)" "\<forall>x\<in>linked S. ent S x = entry_of (hp (cch s) x)"
proof -
  obtain L where "sys_inv g K s (linked S) L" using assms by (auto simp: sim_def)
  then show thesis by (rule that) (use assms in \<open>auto simp: sim_def in_store_def\<close>)
qed

lemma view_keeps:
  assumes s: "sim g K s S" "sys_inv g K s' C' L'" and p: "pays L' (hp (cch s)) (hp (cch s'))"
    and i: "\<And>x. x \<in> C' \<Longrightarrow> in_store S x" "\<And>x. x \<in> set (held s') \<Longrightarrow> in_store S x"
  shows "keeps S (view s' C')"
proof -
  have "in_store S x \<and> ent (view s' C') x = ent S x" if x: "in_store (view s' C') x" for x
  proof -
    have st: "in_store S x" using x i by (auto simp: in_store_def)
    have "L' x \<noteq> None" by (rule in_view_live [OF s(2) x])
    then have "entry_of (hp (cch s') x) = entry_of (hp (cch s) x)" using p by (intro pay_entry) (simp add: pays_def)
    then show ?thesis using st s(1) by (simp add: sim_def)
  qed
  then show ?thesis by (simp add: keeps_def)
qed

text \<open>Losses of the cache as losses of the store.\<close>

lemma may_drop_entry: "may_drop g i \<Longrightarrow> out_of_date g (entry_of i) \<or> flushing g"
  by (auto simp: may_drop_def out_of_date_def flushing_def)

lemma dead_entry: "dead g i \<Longrightarrow> out_of_date g (entry_of i) \<or> flushing g" "\<not> dead g i \<Longrightarrow> \<not> out_of_date g (entry_of i)"
  by (auto simp: dead_def out_of_date_def flushing_def item_is_flushed_def split: if_splits)

lemma view_drops:
  assumes "sim g K s S" "C' \<subseteq> linked S" "\<And>x. x \<in> linked S - C' \<Longrightarrow> may_drop g (hp (cch s) x) \<or> ev"
  shows "drops g ev S (view s' C')"
proof -
  have "out_of_date g (ent S x) \<or> flushing g \<or> ev" if "x \<in> linked S - C'" for x
    using assms(3) [OF that] may_drop_entry that assms(1) by (fastforce simp: sim_def in_store_def)
  then show ?thesis using assms(2) by (auto simp: drops_def)
qed

section \<open>Lookups\<close>

lemma all_bumps_update:
  "i < length ws \<Longrightarrow> all_bumps (map bumps (ws[i := w])) x + bump_refs (bumps (ws ! i)) x = all_bumps (map bumps ws) x + bump_refs (bumps w) x"
proof (induction ws arbitrary: i)
  case (Cons v ws)
  then show ?case by (cases i) (simp_all add: all_bumps_def)
qed simp

lemma bump_inv_update:
  assumes "\<And>w. w \<in> set ws \<Longrightarrow> bump_inv (bumps w)" "bump_inv (bumps w)"
  shows "\<forall>v\<in>set (ws[i := w]). bump_inv (bumps v)"
  using assms set_update_subset_insert [of ws i w] by blast

lemma get_sim:
  assumes s: "sim g K s S" and i: "i < length (wks s)" and r: "room s"
  shows "\<exists>p w c C'. do_item_get g k (hash g k) (wks s ! i) u (cch s) = Some (p, w, c)
    \<and> (let s' = s\<lparr>cch := c, wks := (wks s)[i := w], held := (case p of None \<Rightarrow> [] | Some x \<Rightarrow> [x]) @ held s\<rparr>
       in (\<exists>L. sys_inv g K s' C' L) \<and> finds g k S p (view s' C') \<and> keeps S (view s' C') \<and> (\<forall>x. p = Some x \<longrightarrow> x \<in> C' \<and> in_store S x))"
proof -
  obtain L where L: "sys_inv g K s (linked S) L" "refs S = mset (held s)" "\<forall>x. in_store S x \<longrightarrow> ent S x = entry_of (hp (cch s) x)" "\<forall>x\<in>linked S. ent S x = entry_of (hp (cch s) x)"
    by (rule simE [OF s])
  note inv = sys_invD(1) [OF L(1)] and b = sys_invD(3) [OF L(1)]
  have rr: "count_list (references s) x < 65533 \<and> x < 2 ^ 64" if "x \<in> linked S" for x
    using room_less [OF r] sys_invD(2) [OF L(1) live_linked [OF inv that]] by blast
  from do_item_get_ok [OF inv rr b [OF nth_mem [OF i]], of k u] obtain p w c C' L' R' where
    e: "do_item_get g k (hash g k) (wks s ! i) u (cch s) = Some (p, w, c)" and c: "cache_inv g K c C' {} L' R'" "L' \<subseteq>\<^sub>m L" "pays L' (hp (cch s)) (hp c)" "bump_inv (bumps w)"
    and q: "case p of
         None \<Rightarrow> R' = count_list (references s) \<and> bumps w = bumps (wks s ! i) \<and> ((\<forall>x\<in>linked S. ITEM_key (hp (cch s) x) \<noteq> k) \<and> C' = linked S \<or> (\<exists>x\<in>linked S. ITEM_key (hp (cch s) x) = k \<and> dead g (hp (cch s) x) \<and> C' = linked S - {x}))
       | Some x \<Rightarrow> x \<in> linked S \<and> ITEM_key (hp (cch s) x) = k \<and> \<not> dead g (hp (cch s) x) \<and> C' = linked S \<and> L' = L
           \<and> (\<forall>y. R' y + bump_refs (bumps (wks s ! i)) y = ((count_list (references s))(x := count_list (references s) x + 1)) y + bump_refs (bumps w) y) \<and> (\<forall>y. R' y \<le> count_list (references s) y + 2)"
    by blast
  define s' where "s' = s\<lparr>cch := c, wks := (wks s)[i := w], held := (case p of None \<Rightarrow> [] | Some x \<Rightarrow> [x]) @ held s\<rparr>"
  have cs: "cch s' = c" "wks s' = (wks s)[i := w]" "held s' = (case p of None \<Rightarrow> [] | Some x \<Rightarrow> [x]) @ held s" by (simp_all add: s'_def)
  have "R' x = count_list (references s') x" for x
  proof (cases p)
    case None
    then show ?thesis using q all_bumps_update [OF i, of w x] unfolding count_references cs by simp
  next
    case (Some y)
    then have "R' x + bump_refs (bumps (wks s ! i)) x = ((count_list (references s))(y := count_list (references s) y + 1)) x + bump_refs (bumps w) x" using q by simp
    then show ?thesis using all_bumps_update [OF i, of w x] Some unfolding count_references cs by (simp split: if_splits)
  qed
  then have "cache_inv g K (cch s') C' {} L' (count_list (references s'))" using c(1) unfolding cs by presburger
  moreover have "\<forall>x. L' x \<noteq> None \<longrightarrow> x < 2 ^ 64" using map_le_live [OF c(2)] sys_invD(2) [OF L(1)] by blast
  moreover have "\<forall>v\<in>set (wks s'). bump_inv (bumps v)" unfolding cs by (rule bump_inv_update [OF b c(4)])
  ultimately have inv': "sys_inv g K s' C' L'" by (simp add: sys_inv_def)
  have st: "in_store S x" if "x \<in> C' \<or> x \<in> set (held s')" for x
    using that q L(2) unfolding cs by (cases p) (auto simp: in_store_def)
  have "keeps S (view s' C')" by (rule view_keeps [OF s inv']) (use c(3) st in \<open>simp_all add: cs\<close>)
  moreover have "finds g k S p (view s' C')"
  proof (cases p)
    case None
    have "(\<forall>x\<in>linked S. e_key (ent S x) \<noteq> k) \<and> C' = linked S
      \<or> (\<exists>x\<in>linked S. e_key (ent S x) = k \<and> (out_of_date g (ent S x) \<or> flushing g) \<and> C' = linked S - {x})"
      using q L(4) dead_entry(1) unfolding None option.case by (metis entry_of_simps(1))
    then show ?thesis using L(2) None by (simp add: finds_def cs)
  next
    case (Some x)
    then show ?thesis using q L(2,4) dead_entry(2) by (simp add: finds_def cs)
  qed
  moreover have "p = Some x \<longrightarrow> x \<in> C' \<and> in_store S x" for x using q by (auto simp: in_store_def)
  ultimately show ?thesis using e inv' unfolding s'_def Let_def by blast
qed

text \<open>What a step of the system owes the store.\<close>

definition simulates :: "globals \<Rightarrow> nat \<times> u32 list \<Rightarrow> cache_op \<Rightarrow> sys \<Rightarrow> store \<Rightarrow> bool" where
  "simulates g K x s S \<longleftrightarrow> (\<exists>p s' S'. exec g x s = Some (p, s') \<and> allowed g x S p S' \<and> sim (next_g x g) K s' S')"

lemma simulatesI: "exec g x s = Some (p, s') \<Longrightarrow> allowed g x S p S' \<Longrightarrow> sim (next_g x g) K s' S' \<Longrightarrow> simulates g K x s S"
  unfolding simulates_def by blast

lemma step_get:
  assumes "sim g K s S" "i < length (wks s)" "room s"
  shows "simulates g K (Get k u i) s S"
proof -
  from get_sim [OF assms, of k u] obtain p w c C' where e: "do_item_get g k (hash g k) (wks s ! i) u (cch s) = Some (p, w, c)"
    and q: "let s' = s\<lparr>cch := c, wks := (wks s)[i := w], held := (case p of None \<Rightarrow> [] | Some x \<Rightarrow> [x]) @ held s\<rparr>
       in (\<exists>L. sys_inv g K s' C' L) \<and> finds g k S p (view s' C') \<and> keeps S (view s' C') \<and> (\<forall>x. p = Some x \<longrightarrow> x \<in> C' \<and> in_store S x)" by blast
  define s' where "s' = s\<lparr>cch := c, wks := (wks s)[i := w], held := (case p of None \<Rightarrow> [] | Some x \<Rightarrow> [x]) @ held s\<rparr>"
  note q = q [folded s'_def, unfolded Let_def]
  have "exec g (Get k u i) s = Some (p, s')" using e by (simp add: s'_def)
  moreover have "allowed g (Get k u i) S p (view s' C')" using q by simp
  moreover have "sim g K s' (view s' C')" using q sim_view by blast
  ultimately show ?thesis using simulatesI by simp
qed

text \<open>Steps that change the cache only.\<close>

lemma references_cch [simp]: "references (s\<lparr>cch := c\<rparr>) = references s"
  by (simp add: references_def)

lemma sys_inv_cch:
  assumes "sys_inv g K s C L" "cache_inv g K c C' {} L' (count_list (references s))" "L' \<subseteq>\<^sub>m L"
  shows "sys_inv g K (s\<lparr>cch := c\<rparr>) C' L'"
  unfolding sys_inv_def using assms(2) sys_invD [OF assms(1)] map_le_live [OF assms(3)] by simp

text \<open>An entry rewritten in place.\<close>

lemma view_keeps_upd:
  assumes k: "keeps S (view s' C')" and e: "\<And>y. in_store (view s' C') y \<Longrightarrow> entry_of (hp (cch s'') y) = (if y = x then f (entry_of (hp (cch s') y)) else entry_of (hp (cch s') y))"
    and h: "held s'' = held s'"
  shows "keeps (S\<lparr>ent := (ent S)(x := f (ent S x))\<rparr>) (view s'' C')"
proof -
  have "in_store S y \<and> ent (view s'' C') y = (if y = x then f (ent S x) else ent S y)" if "in_store (view s'' C') y" for y
  proof -
    have y: "in_store (view s' C') y" using that h by (simp add: in_store_def)
    then have "in_store S y" "entry_of (hp (cch s') y) = ent S y" using k by (auto simp: keeps_def)
    then show ?thesis using e [OF y] by (cases "y = x") simp_all
  qed
  then show ?thesis by (simp add: keeps_def in_store_def)
qed

lemma step_touch:
  assumes "sim g K s S" "i < length (wks s)" "room s"
  shows "simulates g K (Touch k et i) s S"
proof -
  from get_sim [OF assms, of k True] obtain p w c C' where e: "do_item_get g k (hash g k) (wks s ! i) True (cch s) = Some (p, w, c)"
    and q: "let s' = s\<lparr>cch := c, wks := (wks s)[i := w], held := (case p of None \<Rightarrow> [] | Some x \<Rightarrow> [x]) @ held s\<rparr>
       in (\<exists>L. sys_inv g K s' C' L) \<and> finds g k S p (view s' C') \<and> keeps S (view s' C') \<and> (\<forall>x. p = Some x \<longrightarrow> x \<in> C' \<and> in_store S x)" by blast
  define s' where "s' = s\<lparr>cch := c, wks := (wks s)[i := w], held := (case p of None \<Rightarrow> [] | Some x \<Rightarrow> [x]) @ held s\<rparr>"
  note q = q [folded s'_def, unfolded Let_def]
  obtain L where L: "sys_inv g K s' C' L" using q by blast
  show ?thesis
  proof (cases p)
    case None
    then have "exec g (Touch k et i) s = Some (p, s')" using e by (simp add: s'_def do_item_touch_def)
    moreover have "allowed g (Touch k et i) S p (view s' C')" using q None by simp
    ultimately show ?thesis using sim_view [OF L] by (simp add: simulatesI)
  next
    case (Some x)
    define s'' where "s'' = s'\<lparr>cch := upd_it x (\<lambda>i. i\<lparr>exptime := et\<rparr>) (cch s')\<rparr>"
    have e: "exec g (Touch k et i) s = Some (p, s'')" using e Some by (simp add: s'_def s''_def do_item_touch_def)
    have x: "x \<in> C'" using q Some by blast
    have "L x \<noteq> None" by (rule live_linked [OF sys_invD(1) [OF L] x])
    then have "sys_inv g K s'' C' L" unfolding s''_def by (intro sys_inv_cch [OF L] cache_inv_exptime [OF sys_invD(1) [OF L]]) simp_all
    moreover have "keeps (S\<lparr>ent := (ent S)(x := (ent S x)\<lparr>e_exp := et\<rparr>)\<rparr>) (view s'' C')"
      by (rule view_keeps_upd [where s' = s']) (use q in \<open>auto simp: s''_def entry_of_def ITEM_key_def\<close>)
    moreover have "finds g k S p (view s'' C')" using q by (simp add: finds_def s''_def split: option.splits)
    ultimately show ?thesis using e Some sim_view by (intro simulatesI [of _ _ _ p s'' _ "view s'' C'"]) auto
  qed
qed

section \<open>Linking and unlinking\<close>

lemma linked_iff_flag:
  assumes "sys_inv g K s C L" "x \<in> set (held s)"
  shows "L x \<noteq> None" "has_flag (it_flags (hp (cch s) x)) ITEM_LINKED \<longleftrightarrow> x \<in> C"
proof -
  show l: "L x \<noteq> None" using in_view_live [OF assms(1)] assms(2) by (simp add: in_store_def)
  show "has_flag (it_flags (hp (cch s) x)) ITEM_LINKED \<longleftrightarrow> x \<in> C" using linked_flag [OF sys_invD(1) [OF assms(1)] l] .
qed

lemma link_sim:
  assumes L: "sys_inv g K s C L" and x: "x \<in> set (held s)" "room s" "x \<notin> C" and key: "\<And>y. y \<in> C \<Longrightarrow> ITEM_key (hp (cch s) y) \<noteq> ITEM_key (hp (cch s) x)"
  shows "\<exists>c. do_item_link g x (key_hash g s x) (cch s) = Some c \<and> sys_inv g K (s\<lparr>cch := c\<rparr>) (insert x C) L
    \<and> (\<exists>v. \<forall>y. L y \<noteq> None \<longrightarrow> entry_of (hp c y) = (if y = x then (entry_of (hp (cch s) y))\<lparr>e_cas := v\<rparr> else entry_of (hp (cch s) y)))"
proof -
  have r: "0 < count_list (references s) x" "count_list (references s) x < 65535" using held_counted [OF x(1)] room_less [OF x(2), of x] by simp_all
  obtain c where c: "do_item_link g x (hash g (ITEM_key (hp (cch s) x))) (cch s) = Some c" "cache_inv g K c (insert x C) {} L (count_list (references s))"
    "kept x L ((hp (cch s))(x := linked_item g (next_cas g (cch s)) (hp (cch s) x))) (hp c)" by (rule cache_link [OF sys_invD(1) [OF L] x(3) r key])
  let ?v = "cas (linked_item g (next_cas g (cch s)) (hp (cch s) x))"
  have "entry_of (hp c y) = (if y = x then (entry_of (hp (cch s) y))\<lparr>e_cas := ?v\<rparr> else entry_of (hp (cch s) y))" if "L y \<noteq> None" for y
  proof -
    have "pay (hp c y) = pay (((hp (cch s))(x := linked_item g (next_cas g (cch s)) (hp (cch s) x))) y)" using c(3) that by (simp add: kept_def)
    then have "entry_of (hp c y) = entry_of (((hp (cch s))(x := linked_item g (next_cas g (cch s)) (hp (cch s) x))) y)" by (rule pay_entry)
    then show ?thesis by (cases "y = x") (simp_all add: entry_of_def ITEM_key_def)
  qed
  moreover have "sys_inv g K (s\<lparr>cch := c\<rparr>) (insert x C) L" by (rule sys_inv_cch [OF L c(2)]) simp
  ultimately show ?thesis using c(1) unfolding key_hash_def by blast
qed

lemma keeps_cas:
  assumes e: "\<And>y. in_store S' y \<Longrightarrow> in_store S y \<and> ent S' y = (if y = x then (ent S y)\<lparr>e_cas := v\<rparr> else ent S y)" and x: "in_store S' x"
  shows "keeps (S\<lparr>ent := (ent S)(x := (ent S x)\<lparr>e_cas := e_cas (ent S' x)\<rparr>)\<rparr>) S'"
proof -
  have v: "e_cas (ent S' x) = v" using e [OF x] by simp
  have "in_store (S\<lparr>ent := f\<rparr>) y = in_store S y" for f y by (simp add: in_store_def)
  then show ?thesis unfolding keeps_def v using e by simp
qed

lemma step_link:
  assumes s: "sim g K s S" and l: "legal g (Link x) s"
  shows "simulates g K (Link x) s S"
proof -
  obtain L where L: "sys_inv g K s (linked S) L" "refs S = mset (held s)" "\<forall>x. in_store S x \<longrightarrow> ent S x = entry_of (hp (cch s) x)" by (rule simE [OF s])
  have x: "x \<in> set (held s)" "room s" "x \<notin> linked S" using l linked_iff_flag(2) [OF L(1)] by auto
  have key: "ITEM_key (hp (cch s) y) \<noteq> ITEM_key (hp (cch s) x)" if "y \<in> linked S" for y
    using cache_find [OF sys_invD(1) [OF L(1)], of "ITEM_key (hp (cch s) x)"] l that by (auto simp: key_hash_def)
  obtain c where c: "do_item_link g x (key_hash g s x) (cch s) = Some c" "sys_inv g K (s\<lparr>cch := c\<rparr>) (insert x (linked S)) L"
    and v: "\<exists>v. \<forall>y. L y \<noteq> None \<longrightarrow> entry_of (hp c y) = (if y = x then (entry_of (hp (cch s) y))\<lparr>e_cas := v\<rparr> else entry_of (hp (cch s) y))"
    using link_sim [OF L(1) x key] by blast
  obtain v where v: "\<And>y. L y \<noteq> None \<Longrightarrow> entry_of (hp c y) = (if y = x then (entry_of (hp (cch s) y))\<lparr>e_cas := v\<rparr> else entry_of (hp (cch s) y))" using v by blast
  let ?s = "s\<lparr>cch := c\<rparr>" and ?S = "view (s\<lparr>cch := c\<rparr>) (insert x (linked S))"
  have "keeps (S\<lparr>ent := (ent S)(x := (ent S x)\<lparr>e_cas := e_cas (ent ?S x)\<rparr>)\<rparr>) ?S"
  proof (rule keeps_cas)
    show "in_store S y \<and> ent ?S y = (if y = x then (ent S y)\<lparr>e_cas := v\<rparr> else ent S y)" if y: "in_store ?S y" for y
    proof -
      have "in_store S y" using y x(1) L(2) by (auto simp: in_store_def)
      then show ?thesis using L(3) v [OF in_view_live [OF c(2) y]] by (cases "y = x") simp_all
    qed
  qed (simp add: in_store_def)
  then have "allowed g (Link x) S None ?S" using L(2) by simp
  moreover have "exec g (Link x) s = Some (None, ?s)" using c(1) by simp
  moreover have "sim (next_g (Link x) g) K ?s ?S" using sim_view [OF c(2)] by simp
  ultimately show ?thesis by (blast intro: simulatesI)
qed

lemma step_kept:
  assumes s: "sim g K s S" and L: "sys_inv g K s (linked S) L" and c: "cache_inv g K c C' {} L' (count_list (references s))" "L' \<subseteq>\<^sub>m L" "pays L' (hp (cch s)) (hp c)"
    and C: "C' \<subseteq> linked S"
  shows "sys_inv g K (s\<lparr>cch := c\<rparr>) C' L'" "keeps S (view (s\<lparr>cch := c\<rparr>) C')" "refs (view (s\<lparr>cch := c\<rparr>) C') = refs S"
proof -
  show i: "sys_inv g K (s\<lparr>cch := c\<rparr>) C' L'" by (rule sys_inv_cch [OF L c(1,2)])
  have r: "refs S = mset (held s)" using s by (simp add: sim_def)
  then show "refs (view (s\<lparr>cch := c\<rparr>) C') = refs S" by simp
  show "keeps S (view (s\<lparr>cch := c\<rparr>) C')" by (rule view_keeps [OF s i]) (use c(3) C r in \<open>auto simp: in_store_def\<close>)
qed

lemma unlink_sim:
  assumes s: "sim g K s S" and L: "sys_inv g K s (linked S) L" and x: "x \<in> set (held s)"
  shows "\<exists>c. do_item_unlink g x (key_hash g s x) (cch s) = Some c \<and> sys_inv g K (s\<lparr>cch := c\<rparr>) (linked S - {x}) L \<and> keeps S (view (s\<lparr>cch := c\<rparr>) (linked S - {x}))
    \<and> pays L (hp (cch s)) (hp c)"
proof (cases "x \<in> linked S")
  case True
  have r: "0 < count_list (references s) x" by (rule held_counted [OF x])
  obtain c where c: "do_item_unlink g x (hash g (ITEM_key (hp (cch s) x))) (cch s) = Some c" "cache_inv g K c (linked S - {x}) {} L (count_list (references s))"
    "kept x L (hp (cch s)) (hp c)" using unlink_held [OF sys_invD(1) [OF L], of x] True r by auto
  note k = step_kept [OF s L c(2) map_le_refl kept_pays [OF c(3)]]
  show ?thesis using c(1) k kept_pays [OF c(3)] by (auto simp: key_hash_def)
next
  case False
  then have "do_item_unlink g x (key_hash g s x) (cch s) = Some (cch s)" using linked_iff_flag(2) [OF L x] by (simp add: unlink_not_linked)
  moreover have "pays L (hp (cch s)) (hp (cch s))" by (simp add: pays_def)
  moreover note step_kept [OF s L sys_invD(1) [OF L] map_le_refl this]
  ultimately show ?thesis using False by simp
qed

lemma step_unlink:
  assumes s: "sim g K s S" and x: "x \<in> set (held s)"
  shows "simulates g K (Unlink x) s S"
proof -
  obtain L where L: "sys_inv g K s (linked S) L" "refs S = mset (held s)" by (rule simE [OF s])
  obtain c where c: "do_item_unlink g x (key_hash g s x) (cch s) = Some c" "sys_inv g K (s\<lparr>cch := c\<rparr>) (linked S - {x}) L" "keeps S (view (s\<lparr>cch := c\<rparr>) (linked S - {x}))"
    using unlink_sim [OF s L(1) x] by blast
  show ?thesis by (rule simulatesI [of _ _ _ None "s\<lparr>cch := c\<rparr>" _ "view (s\<lparr>cch := c\<rparr>) (linked S - {x})"]) (use c L(2) sim_view [OF c(2)] in simp_all)
qed

lemma step_replace:
  assumes s: "sim g K s S" and l: "legal g (Replace x y) s"
  shows "simulates g K (Replace x y) s S"
proof -
  obtain L where L: "sys_inv g K s (linked S) L" "refs S = mset (held s)" "\<forall>x. in_store S x \<longrightarrow> ent S x = entry_of (hp (cch s) x)" by (rule simE [OF s])
  note inv = sys_invD(1) [OF L(1)]
  have h: "x \<in> set (held s)" "y \<in> set (held s)" "room s" "ITEM_key (hp (cch s) y) = ITEM_key (hp (cch s) x)" using l by simp_all
  have xy: "x \<in> linked S" "y \<notin> linked S" using l linked_iff_flag(2) [OF L(1)] by auto
  obtain c where c: "do_item_unlink g x (key_hash g s x) (cch s) = Some c" "sys_inv g K (s\<lparr>cch := c\<rparr>) (linked S - {x}) L" "keeps S (view (s\<lparr>cch := c\<rparr>) (linked S - {x}))"
    "pays L (hp (cch s)) (hp c)" using unlink_sim [OF s L(1) h(1)] by blast
  let ?t = "s\<lparr>cch := c\<rparr>" and ?C = "linked S - {x}"
  have key: "ITEM_key (hp c z) = ITEM_key (hp (cch s) z)" if "L z \<noteq> None" for z by (rule pay_key) (use c(4) that in \<open>simp add: pays_def\<close>)
  have uniq: "ITEM_key (hp (cch s) z) \<noteq> ITEM_key (hp (cch s) x)" if "z \<in> linked S" "z \<noteq> x" for z
    using table_inj [OF cache_invD(1) [OF inv]] that xy(1) by (auto simp: inj_on_def)
  have Ly: "L y \<noteq> None" by (rule linked_iff_flag(1) [OF L(1) h(2)])
  have k: "ITEM_key (hp (cch ?t) z) \<noteq> ITEM_key (hp (cch ?t) y)" if "z \<in> ?C" for z
    using uniq [of z] that key [OF live_linked [OF inv]] key [OF Ly] h(4) by auto
  have rm: "room ?t" using h(3) by (simp add: room_def)
  have yt: "y \<in> set (held ?t)" "y \<notin> ?C" using h(2) xy(2) by simp_all
  obtain c' where d: "do_item_link g y (key_hash g ?t y) (cch ?t) = Some c'" "sys_inv g K (?t\<lparr>cch := c'\<rparr>) (insert y ?C) L"
    and ex: "\<exists>v. \<forall>z. L z \<noteq> None \<longrightarrow> entry_of (hp c' z) = (if z = y then (entry_of (hp (cch ?t) z))\<lparr>e_cas := v\<rparr> else entry_of (hp (cch ?t) z))"
    using link_sim [OF c(2) yt(1) rm yt(2) k] by blast
  have ct: "cch ?t = c" by simp
  obtain v where v: "\<And>z. L z \<noteq> None \<Longrightarrow> entry_of (hp c' z) = (if z = y then (entry_of (hp c z))\<lparr>e_cas := v\<rparr> else entry_of (hp c z))" using ex unfolding ct by blast
  let ?s = "s\<lparr>cch := c'\<rparr>" and ?S = "view (s\<lparr>cch := c'\<rparr>) (insert y ?C)"
  have "\<not> has_flag (it_flags (hp (cch s) x)) ITEM_SLABBED" by (rule live_not_slabbed [OF inv live_linked [OF inv xy(1)]])
  moreover have "key_hash g ?t y = key_hash g s x" using key [OF Ly] h(4) by (simp add: key_hash_def)
  ultimately have e: "exec g (Replace x y) s = Some (None, ?s)" using c(1) d(1) by (simp add: do_item_replace_def)
  have "keeps (S\<lparr>ent := (ent S)(y := (ent S y)\<lparr>e_cas := e_cas (ent ?S y)\<rparr>)\<rparr>) ?S"
  proof (rule keeps_cas)
    show "in_store S z \<and> ent ?S z = (if z = y then (ent S z)\<lparr>e_cas := v\<rparr> else ent S z)" if z: "in_store ?S z" for z
    proof -
      have st: "in_store S z" using z h(2) L(2) by (auto simp: in_store_def)
      have lz: "L z \<noteq> None" by (rule sim_live [OF s L(1) st])
      then have "entry_of (hp c z) = ent S z" using c(4) st L(3) by (metis pay_entry pays_def)
      then show ?thesis using st v [OF lz] by (cases "z = y") simp_all
    qed
  qed (simp add: in_store_def)
  then show ?thesis using e sim_view [OF d(2)] L(2) by (intro simulatesI [of _ _ _ None ?s _ ?S]) auto
qed

lemma step_remove:
  assumes s: "sim g K s S" and x: "x \<in> set (held s)"
  shows "simulates g K (Remove x) s S"
proof -
  obtain L where L: "sys_inv g K s (linked S) L" "refs S = mset (held s)" by (rule simE [OF s])
  obtain c where c: "do_item_remove g x (cch s) = Some c" "cache_inv g K c (linked S) {} (drop_live x (linked S) L (count_list (references s))) ((count_list (references s))(x := count_list (references s) x - 1))"
    "kept x (drop_live x (linked S) L (count_list (references s))) (hp (cch s)) (hp c)" by (rule cache_remove [OF sys_invD(1) [OF L(1)] held_counted [OF x]])
  let ?s = "s\<lparr>cch := c, held := remove1 x (held s)\<rparr>" and ?L = "drop_live x (linked S) L (count_list (references s))"
  have "count_list (remove1 x xs) y = (if y = x then count_list xs x - 1 else count_list xs y)" for xs y
    by (induction xs) (auto simp: count_notin split: if_splits)
  then have "(count_list (references s))(x := count_list (references s) x - 1) = count_list (references ?s)"
    using x by (auto simp: count_references fun_eq_iff) (metis One_nat_def Suc_leI add_diff_assoc2 count_list_0_iff not_gr_zero)
  then have i: "sys_inv g K ?s (linked S) ?L"
    using c(2) sys_invD [OF L(1)] map_le_live [OF drop_live_mono, of x "linked S" L] by (auto simp: sys_inv_def)
  have "keeps S (view ?s (linked S))"
    by (rule view_keeps [OF s i]) (use kept_pays [OF c(3)] L(2) set_remove1_subset [of x "held s"] in \<open>auto simp: in_store_def\<close>)
  then show ?thesis using c(1) L(2) sim_view [OF i] by (intro simulatesI [of _ _ _ None ?s _ "view ?s (linked S)"]) simp_all
qed

lemma step_update:
  assumes s: "sim g K s S" and x: "x \<in> set (held s)"
  shows "simulates g K (Update x) s S"
proof -
  obtain L where L: "sys_inv g K s (linked S) L" "refs S = mset (held s)" by (rule simE [OF s])
  have "L x \<noteq> None" by (rule linked_iff_flag(1) [OF L(1) x])
  then obtain c where c: "do_item_update g x (cch s) = Some c" "cache_inv g K c (linked S) {} L (count_list (references s))" "kept x L (hp (cch s)) (hp c)"
    using cache_update [OF sys_invD(1) [OF L(1)]] by blast
  note k = step_kept [OF s L(1) c(2) map_le_refl kept_pays [OF c(3)] subset_refl]
  show ?thesis by (rule simulatesI [of _ _ _ None "s\<lparr>cch := c\<rparr>" _ "view (s\<lparr>cch := c\<rparr>) (linked S)"]) (use c(1) k(2,3) sim_view [OF k(1)] in simp_all)
qed

lemma step_pull:
  assumes s: "sim g K s S" and g: "config g K" and l: "legal g (Pull a) s"
  shows "simulates g K (Pull a) s S"
proof -
  obtain L where L: "sys_inv g K s (linked S) L" "refs S = mset (held s)" by (rule simE [OF s])
  have r: "count_list (references s) y < 65534" for y using room_less [of s y] l by simp
  have "tail_repair_time g = 0" "\<not> has_flag (pull_flags a) LRU_PULL_RETURN_ITEM" using g l by (simp_all add: config_def)
  from lru_pull_tail_ok [OF sys_invD(1) [OF L(1)] r this] obtain n c C' L' where c: "lru_pull_tail g a (cch s) = Some (n, None, c)" "cache_inv g K c C' {} L' (count_list (references s))"
    "L' \<subseteq>\<^sub>m L" "pays L' (hp (cch s)) (hp c)" "loses g (evicting g a) (hp (cch s)) (linked S) C'" by blast
  have C: "C' \<subseteq> linked S" "\<And>x. x \<in> linked S - C' \<Longrightarrow> may_drop g (hp (cch s) x) \<or> evicting g a" using c(5) by (auto simp: loses_def)
  note k = step_kept [OF s L(1) c(2-4) C(1)]
  show ?thesis
    by (rule simulatesI [of _ _ _ None "s\<lparr>cch := c\<rparr>" _ "view (s\<lparr>cch := c\<rparr>) C'"]) (use c(1) k(2,3) sim_view [OF k(1)] view_drops [OF s C] in simp_all)
qed

section \<open>Background threads, the clock and flushes\<close>

lemma map_bumps_map2: "length bs = length ws \<Longrightarrow> map bumps (map2 (\<lambda>w b. w\<lparr>bumps := b\<rparr>) ws bs) = bs"
  by (induction ws bs rule: list_induct2') auto

lemma step_maintain:
  assumes s: "sim g K s S" and g: "config g K" and l: "room s"
  shows "simulates g K (Maintain hot warm locks slept) s S"
proof -
  obtain L where L: "sys_inv g K s (linked S) L" "refs S = mset (held s)" by (rule simE [OF s])
  let ?R = "count_list (references s)" and ?bs = "map bumps (wks s)"
  have r: "roomy (linked S) ?R" and tr: "tail_repair_time g = 0" using room_less [OF l] g by (simp_all add: config_def)
  have b: "b \<in> set ?bs \<Longrightarrow> bump_inv b" "all_bumps ?bs x \<le> ?R x" for b x using sys_invD(3) [OF L(1)] by (auto simp: count_references)
  obtain nj bj ts bs c C' L' R' where e: "maintainer_juggles g hot warm locks slept ?bs (next_juggles s) (backoff_juggles s) (cch s) = Some (nj, bj, ts, bs, c)"
    and c: "cache_inv g K c C' {} L' R'" "L' \<subseteq>\<^sub>m L" "pays L' (hp (cch s)) (hp c)" "C' \<subseteq> linked S" "\<forall>y\<in>linked S - C'. may_drop g (hp (cch s) y)"
      "\<forall>b\<in>set bs. bump_inv b" "length bs = length ?bs" "\<forall>x. R' x + all_bumps ?bs x = ?R x + all_bumps bs x"
    using maintainer_juggles_ok [OF sys_invD(1) [OF L(1)] r tr, of ?bs hot warm locks slept "next_juggles s" "backoff_juggles s"] b by metis
  define s' where "s' = s\<lparr>cch := c, wks := map2 (\<lambda>w b. w\<lparr>bumps := b\<rparr>) (wks s) bs, next_juggles := nj, backoff_juggles := bj\<rparr>"
  have m: "map bumps (wks s') = bs" using map_bumps_map2 [of bs "wks s"] c(7) by (simp add: s'_def del: map_map)
  have f: "cch s' = c" "held s' = held s" by (simp_all add: s'_def)
  have "R' x = count_list (references s') x" for x
  proof -
    have "R' x + all_bumps ?bs x = ?R x + all_bumps bs x" using c(8) by blast
    then show ?thesis unfolding count_references m f by simp
  qed
  then have "cache_inv g K (cch s') C' {} L' (count_list (references s'))" using c(1) unfolding f by presburger
  moreover have "\<forall>w\<in>set (wks s'). bump_inv (bumps w)" using c(6) m by (metis image_eqI set_map)
  ultimately have i: "sys_inv g K s' C' L'" using map_le_live [OF c(2)] sys_invD(2) [OF L(1)] by (simp add: sys_inv_def)
  have "keeps S (view s' C')" by (rule view_keeps [OF s i]) (use c(3,4) L(2) in \<open>auto simp: f in_store_def\<close>)
  moreover have "drops g False S (view s' C')" by (rule view_drops [OF s c(4)]) (use c(5) in blast)
  moreover have "exec g (Maintain hot warm locks slept) s = Some (None, s')" by (simp add: e s'_def)
  ultimately show ?thesis using sim_view [OF i] L(2) by (intro simulatesI [of _ _ _ None s' _ "view s' C'"]) (simp_all add: f)
qed

lemma cache_inv_same_items:
  assumes inv: "cache_inv g K c C D L R" and t: "table (hash g) h a C" and h: "same_items (hp c) h"
  shows "cache_inv g K (c\<lparr>hp := h, tab := a\<rparr>) C D L R"
proof -
  note si = same_itemsD [OF h]
  have nt: "ITEM_ntotal (h x) = ITEM_ntotal (hp c x)" "lru_bytes g (h x) = lru_bytes g (hp c x)" for x by (simp_all add: ITEM_ntotal_def lru_bytes_def si)
  obtain ls where ls: "lru_ok g c ls" "(\<Union>i. set (ls i)) = C - D" using cache_invD(3) [OF inv] by blast
  have "lru_ok g (c\<lparr>hp := h, tab := a\<rparr>) ls" by (rule lru_ok_cong [OF ls(1)]) (simp_all add: si nt)
  moreover have "slabs_inv (slab_set g) h (slb c) L" by (rule slabs_inv_cong [OF cache_invD(2) [OF inv]]) (simp add: si)
  moreover have "item_ok (h x) (x \<in> C) l (R x)" if "L x = Some l" for x l
    using cache_invD(6) [OF inv that] by (simp add: item_ok_def plain_def wf_item_def ITEM_clsid_def si nt)
  ultimately show ?thesis using ls(2) t nt cache_invD(4,5,7-11) [OF inv] unfolding cache_inv_def by (auto simp: hist_ok_def)
qed

lemma step_rehash:
  assumes s: "sim g K s S" and l: "hashpower (tab (cch s)) < 31"
  shows "simulates g K (Rehash locks calloc) s S"
proof -
  obtain L where L: "sys_inv g K s (linked S) L" "refs S = mset (held s)" by (rule simE [OF s])
  note inv = sys_invD(1) [OF L(1)]
  obtain h a where t: "maintenance_turn (hash g) locks calloc (hp (cch s)) (tab (cch s)) = Some (h, a)" "table (hash g) h a (linked S)" "same_items (hp (cch s)) h"
    using table_turn [OF cache_invD(1) [OF inv], of locks calloc] l by auto
  let ?c = "(cch s)\<lparr>hp := h, tab := a\<rparr>"
  have p: "pays L (hp (cch s)) (hp ?c)" by (simp add: pays_def pay_def same_itemsD [OF t(3)])
  note k = step_kept [OF s L(1) cache_inv_same_items [OF inv t(2,3)] map_le_refl p subset_refl]
  show ?thesis by (rule simulatesI [of _ _ _ None "s\<lparr>cch := ?c\<rparr>" _ "view (s\<lparr>cch := ?c\<rparr>) (linked S)"]) (use t(1) k(2,3) sim_view [OF k(1)] in simp_all)
qed

lemma cache_inv_settings:
  assumes "hash g' = hash g" "slab_set g' = slab_set g" "extstore g' = extstore g"
  shows "cache_inv g' = cache_inv g"
proof -
  have "lru_bytes g' = lru_bytes g" using assms by (simp add: lru_bytes_def fun_eq_iff)
  then have "lru_ok g' = lru_ok g" by (simp add: lru_ok_def fun_eq_iff)
  then show ?thesis by (intro ext) (simp only: cache_inv_def assms)
qed

lemma keeps_refl: "keeps S S"
  by (simp add: keeps_def)

lemma step_settings:
  assumes "sim g K s S"
  shows "simulates g K (Tick t) s S" "simulates g K (Flush live cid) s S"
proof -
  have "cache_inv (next_g x g) = cache_inv g" if "x = Tick t \<or> x = Flush live cid" for x
    by (rule cache_inv_settings) (use that in auto)
  then have "sim (next_g x g) K s S" if "x = Tick t \<or> x = Flush live cid" for x using assms that unfolding sim_def sys_inv_def by metis
  then have "sim (next_g (Tick t) g) K s S" "sim (next_g (Flush live cid) g) K s S" by blast+
  then show "simulates g K (Tick t) s S" "simulates g K (Flush live cid) s S"
    by (intro simulatesI [of _ _ _ None s _ S]; simp add: keeps_refl)+
qed

section \<open>New items\<close>

lemma step_new:
  assumes s: "sim g K s S" and g: "config g K" and l: "legal g (New e junk key flags et nb) s"
  shows "simulates g K (New e junk key flags et nb) s S"
proof -
  obtain L where L: "sys_inv g K s (linked S) L" "refs S = mset (held s)" "\<forall>x. in_store S x \<longrightarrow> ent S x = entry_of (hp (cch s) x)" by (rule simE [OF s])
  note inv = sys_invD(1) [OF L(1)]
  have r: "count_list (references s) y < 65534" for y using room_less [of s y] l by simp
  have n: "length key < 255" "item_total g (length key) flags nb \<le> word_of_int (slab_chunk_size_max (slab_set g))" using l by (simp_all add: new_ok_def)
  have K: "tail_repair_time g = 0" "fst K < length (snd K)" "snd K ! fst K = word_of_int (slab_chunk_size_max (slab_set g))"
    "0 \<le> slab_chunk_size_max (slab_set g)" "slab_chunk_size_max (slab_set g) < 2 ^ 31" using g by (simp_all add: config_def)
  have mem: "pull_mem_ok g e junk 10 (item_total g (length key) flags nb) (of_nat cid) (cch s)"
    if "slabs_clsid_for (slab_set g) (slb (cch s)) (item_total g (length key) flags nb) = Some cid" "0 < cid" for cid using l that by (simp add: new_ok_def)
  from do_item_alloc_ok [OF inv r K(1) n(1) refl n(2) K(2-5) mem, of et] obtain p c C' L' where
    e: "do_item_alloc g e junk key (of_nat (length key)) flags et nb (cch s) = Some (p, c)" and c: "C' \<subseteq> linked S" "loses_any g (hp (cch s)) (linked S) C'" "L' \<subseteq>\<^sub>m L" "pays L' (hp (cch s)) (hp c)"
    and q: "case p of None \<Rightarrow> cache_inv g K c C' {} L' (count_list (references s))
       | Some x \<Rightarrow> L' x = None \<and> x \<notin> C' \<and> count_list (references s) x = 0 \<and> (\<exists>l. cache_inv g K c C' {} (L'(x \<mapsto> l)) ((count_list (references s))(x := 1)))
           \<and> ITEM_key (hp c x) = key \<and> nbytes (hp c x) = nb \<and> exptime (hp c x) = et" by blast
  have dr: "drops g (evict_to_free g) S (view s' C')" for s' by (rule view_drops [OF s c(1)]) (use c(2) in \<open>auto simp: loses_any_def\<close>)
  show ?thesis
  proof (cases p)
    case None
    then have i: "cache_inv g K c C' {} L' (count_list (references s))" using q by simp
    note k = step_kept [OF s L(1) i c(3,4,1)]
    show ?thesis
      by (rule simulatesI [of _ _ _ p "s\<lparr>cch := c\<rparr>" _ "view (s\<lparr>cch := c\<rparr>) C'"]) (use e k(2,3) sim_view [OF k(1)] dr None in simp_all)
  next
    case (Some x)
    then obtain l' where x: "L' x = None" "x \<notin> C'" "count_list (references s) x = 0" "cache_inv g K c C' {} (L'(x \<mapsto> l')) ((count_list (references s))(x := 1))" "ITEM_key (hp c x) = key" "nbytes (hp c x) = nb" "exptime (hp c x) = et"
      using q by auto
    define s' where "s' = s\<lparr>cch := c, held := x # held s\<rparr>"
    have f: "cch s' = c" "held s' = x # held s" "wks s' = wks s" by (simp_all add: s'_def)
    have "count_list (references s') y = ((count_list (references s))(x := 1)) y" for y using x(3) by (simp add: count_references f)
    then have "cache_inv g K (cch s') C' {} (L'(x \<mapsto> l')) (count_list (references s'))" using x(4) unfolding f by presburger
    moreover have "x < 2 ^ 64" using l e Some by (simp add: new_ok_def)
    ultimately have i: "sys_inv g K s' C' (L'(x \<mapsto> l'))"
      using map_le_live [OF c(3)] sys_invD(2,3) [OF L(1)] by (auto simp: sys_inv_def f)
    have nr: "x \<notin># refs S" using x(3) held_counted [of x s] L(2) by auto
    have "keeps S ((view s' C')\<lparr>refs := refs S\<rparr>)"
    proof -
      have "in_store S y \<and> entry_of (hp c y) = ent S y" if y: "y \<in> C' \<or> y \<in># refs S" for y
      proof -
        have st: "in_store S y" using y c(1) by (auto simp: in_store_def)
        have "y \<noteq> x" using y x(2) nr by auto
        moreover have "in_store (view s' C') y" using y L(2) by (auto simp: in_store_def f)
        ultimately have "L' y \<noteq> None" using in_view_live [OF i, of y] by simp
        then have "entry_of (hp c y) = entry_of (hp (cch s) y)" using c(4) by (intro pay_entry) (simp add: pays_def)
        then show ?thesis using st L(3) by simp
      qed
      then show ?thesis by (simp add: keeps_def in_store_def f)
    qed
    moreover have "exec g (New e junk key flags et nb) s = Some (p, s')" using e Some by (simp add: s'_def)
    ultimately show ?thesis using sim_view [OF i] dr [of s'] nr x(2,5-7) L(2) Some by (intro simulatesI [of _ _ _ p s' _ "view s' C'"]) (simp_all add: f)
  qed
qed

section \<open>Whole runs\<close>

lemma step_simulates:
  assumes "sim g K s S" "config g K" "legal g x s"
  shows "simulates g K x s S"
  using assms step_get step_touch step_new step_link step_unlink step_replace step_remove step_update step_pull step_maintain step_rehash step_settings
  by (cases x) (simp_all del: exec.simps)

lemma config_next: "config g K \<Longrightarrow> config (next_g x g) K"
  by (cases x) (simp_all add: config_def)

lemma run_simulates:
  assumes "sim g K s S" "config g K" "legal_ops g xs s"
  shows "\<exists>ps g' s' S'. run g xs s = Some (ps, g', s') \<and> accepts g xs ps S S' \<and> sim g' K s' S'"
  using assms
proof (induction xs arbitrary: g s S)
  case (Cons x xs)
  have "simulates g K x s S" using step_simulates Cons.prems by simp
  then obtain p s1 S1 where a: "exec g x s = Some (p, s1)" "allowed g x S p S1" "sim (next_g x g) K s1 S1" unfolding simulates_def by blast
  then have "legal_ops (next_g x g) xs s1" using Cons.prems(3) by simp
  from Cons.IH [OF a(3) config_next [OF Cons.prems(2)] this] obtain ps g' s' S' where
    b: "run (next_g x g) xs s1 = Some (ps, g', s')" "accepts (next_g x g) xs ps S1 S'" "sim g' K s' S'" by blast
  have "run g (x # xs) s = Some (p # ps, g', s')" by (simp add: a(1) b(1))
  moreover have "accepts g (x # xs) (p # ps) S S'" using a(2) b(2) by auto
  ultimately show ?case using b(3) by blast
qed simp

text \<open>The start.\<close>

lemma fresh_bump:
  assumes "fresh_worker w"
  shows "bump_inv (bumps w) \<and> bump_items (bip_bytes (bump_buf (bumps w))) = []"
proof -
  from assms obtain n block where n: "n < 2 ^ 27" "length block = 16 * unat n" "item_lru_bump_buf_create n True (Some block) = Some (bumps w)" unfolding fresh_worker_def by blast
  have n27: "unat n < 2 ^ 27" using n(1) by (simp add: word_less_nat_alt)
  have u: "unat (of_nat 16 * n) = 16 * unat n" using n27 by (simp add: unat_word_ariths)
  from n(3) obtain b where b: "bipbuf_new (Some block) (of_nat 16 * n) = Some b" "bumps w = \<lparr>bump_buf = b, dropped = 0\<rparr>"
    unfolding item_lru_bump_buf_create_def by (auto split: option.splits)
  have "bip_inv b \<and> bip_bytes b = []" by (rule bip_inv_init [OF _ _ b(1)]) (use n27 u n(2) in simp_all)
  moreover have "a_end b = 0" "a_start b = 0" "b_end b = 0" using b(1) by (auto simp: bipbuf_new_def bipbuf_init_def)
  ultimately show ?thesis using b(2) by (simp add: bump_inv_def bump_items_def)
qed

lemma start_sim:
  assumes "started g s" "sane g"
  shows "\<exists>K. sim g K s empty_store \<and> config g K"
proof -
  from assms(1) obtain env huge base im limit stop grow prealloc sizes h0 h sl n calloc a ws r where
    i: "slabs_init (extstore g) (slab_set g) env huge base im limit stop grow prealloc sizes h0 = Some (h, sl)" "prealloc \<and> \<not> huge \<longrightarrow> base \<noteq> None"
    and a: "assoc_init n calloc assoc_static = Some a" and w: "\<forall>w\<in>set ws. fresh_worker w" and s: "s = sys_start ws h sl a r" unfolding started_def by blast
  have g: "tail_repair_time g = 0" "0 < slab_chunk_size_max (slab_set g)" "slab_chunk_size_max (slab_set g) < 2 ^ 31" "0 < slab_page_size (slab_set g)" "slab_page_size (slab_set g) < 2 ^ 31"
    using assms(2) by (simp_all add: sane_def)
  have sl: "slabs_inv (slab_set g) h sl Map.empty" "sl_size (cls sl (power_largest sl)) = word_of_int (slab_chunk_size_max (slab_set g))"
    using slabs_init_ok [OF i(1) g(2,4,5,3) i(2)] by blast+
  note wf = slabs_wfD [OF slabs_invD(1) [OF sl(1)]]
  let ?c = "cache_start h sl a r" and ?K = "classes sl"
  have "lru_ok g ?c (\<lambda>_. [])" by (simp add: lru_ok_def cache_start_def last_ptr_def)
  then have "\<exists>ls. lru_ok g ?c ls \<and> (\<Union>i. set (ls i)) = {} - {}" by (intro exI [of _ "\<lambda>_. []"]) simp
  moreover have "table (hash g) h a {}" by (rule assoc_init_table [OF a])
  ultimately have c: "cache_inv g ?K ?c {} {} Map.empty (\<lambda>_. 0)" using sl(1) unfolding cache_inv_def by (simp add: cache_start_def hist_ok_def)
  have "concat (map (\<lambda>w. bump_items (bip_bytes (bump_buf (bumps w)))) ws) = []" using w fresh_bump by auto
  then have "references s = []" by (simp add: references_def s sys_start_def)
  then have "count_list (references s) = (\<lambda>_. 0)" by auto
  then have "sys_inv g ?K s {} Map.empty" using c w fresh_bump by (auto simp: sys_inv_def s sys_start_def)
  then have "sim g ?K s empty_store" by (auto simp: sim_def empty_store_def in_store_def s sys_start_def)
  moreover have "config g ?K" using g sl(2) wf(1,3) by (simp add: config_def classes_def)
  ultimately show ?thesis by blast
qed

end
