(* ===== verification/Slabs_Witness.thy ===== *)
theory Slabs_Witness
  imports Slabs_Proof "HOL-Library.Code_Target_Nat"
begin

text \<open>
  Concrete instances of the allocator's properties, evaluated: a small allocator with two classes, a
  run of allocations and releases, and a page move.
\<close>

text \<open>The conditions on pages, computed.\<close>

lemma ranges_apart: "{p..<p + n} \<inter> {q..<q + m} = {} \<longleftrightarrow> n = 0 \<or> m = 0 \<or> p + n \<le> q \<or> q + m \<le> (p :: nat)"
proof
  assume e: "{p..<p + n} \<inter> {q..<q + m} = {}"
  show "n = 0 \<or> m = 0 \<or> p + n \<le> q \<or> q + m \<le> p"
  proof (rule ccontr)
    assume "\<not> ?thesis"
    then have "max p q \<in> {p..<p + n} \<inter> {q..<q + m}" by auto
    with e show False by blast
  qed
qed auto

lemma owned_code [code]: "owned s = set (concat (map (\<lambda>i. map (Pair i) [0..<unat (slabs (cls s i))]) [0..<64]))"
  by (auto simp: owned_def)

lemma fresh_block_code [code]:
  "fresh_block st s a len \<longleftrightarrow>
     (\<forall>b\<in>owned s. let p = slab_list (cls s (fst b)) ! snd b; n = page_span st s (fst b) in n = 0 \<or> len = 0 \<or> p + n \<le> a \<or> a + len \<le> p)
   \<and> (mem_base s = None \<or> len = 0 \<or> unat (mem_avail s) = 0 \<or> a + len \<le> mem_current s \<or> mem_current s + unat (mem_avail s) \<le> a)"
  unfolding fresh_block_def page_range_def ranges_apart by (auto simp: Let_def)

lemma env_ok_code [code]:
  "env_ok st env i s \<longleftrightarrow>
     (mem_base s \<noteq> None \<or> (case snd env of None \<Rightarrow> True | Some a \<Rightarrow> fresh_block st s a (nat (page_len st (cls s i)))))
   \<and> unat (slabs (cls s i)) < 2 ^ 31 \<and> (unat (slabs (cls s i)) + 1) * unat (perslab (cls s i)) < 2 ^ 32"
  by (auto simp: env_ok_def split: option.splits)

text \<open>A small allocator: classes of 48 and 192 bytes in pages of 192 bytes.\<close>

definition demo_settings :: slab_settings where
  "demo_settings = \<lparr>maxbytes = 4096, item_size_max = 192, slab_chunk_size_max = 192, slab_page_size = 192, chunk_size_min = 0, slab_reassign = True, use_cas = True\<rparr>"

definition demo_init :: "(heap \<times> slabs) option" where
  "demo_init = slabs_init False demo_settings (\<lambda>i. (True, None)) False None None 4096 (\<lambda>z. z \<ge> 96) (\<lambda>z. z * 2) False None (\<lambda>x. zero_item)"

definition demo_ops :: "mem_env alloc_op list" where
  "demo_ops = [AAlloc (True, Some 1000) 1 40, AWrite 1144 (zero_item\<lparr>nkey := 7\<rparr>), AAlloc (True, None) 1 48, ARead 1144, AFree 1144]"

abbreviation demo_free :: "nat \<Rightarrow> nat \<Rightarrow> u64 \<Rightarrow> heap \<Rightarrow> slabs \<Rightarrow> (heap \<times> slabs) option" where
  "demo_free \<equiv> \<lambda>x i sz h s. do_slabs_free False demo_settings x sz i h s"

lemma demo_run:
  "case demo_init of None \<Rightarrow> False
   | Some (h, s) \<Rightarrow> alloc_legal (slab_alloc False demo_settings) demo_free (slab_alloc_ok demo_settings) plain demo_ops h s Map.empty"
  by code_simp

theorem slab_alloc_store_witness:
  "\<exists>h s out h' s' L. demo_init = Some (h, s) \<and> alloc_run (slab_alloc False demo_settings) demo_free demo_ops h s Map.empty = Some (out, h', s', L)
     \<and> store_trace demo_ops out Map.empty Map.empty \<and> slabs_inv demo_settings h' s' L"
proof -
  obtain h s where i: "demo_init = Some (h, s)"
    and l: "alloc_legal (slab_alloc False demo_settings) demo_free (slab_alloc_ok demo_settings) plain demo_ops h s Map.empty"
    using demo_run by (auto split: option.splits)
  have "0 < slab_chunk_size_max demo_settings" "slab_chunk_size_max demo_settings < 2 ^ 31" "0 < slab_page_size demo_settings" "slab_page_size demo_settings < 2 ^ 31"
    by (simp_all add: demo_settings_def)
  from slab_alloc_store [OF i [unfolded demo_init_def] this _ l] i show ?thesis by blast
qed

lemma demo_state:
  obtains h s where "demo_init = Some (h, s)" "slabs_inv demo_settings h s Map.empty" "power_largest s = 2" "\<And>i. i < 64 \<Longrightarrow> slabs (cls s i) = 0"
    "perslab (cls s 0) = 0" "perslab (cls s 1) = 4" "sl_curr (cls s 1) = 0" "mem_base s = None"
proof -
  have c: "case demo_init of None \<Rightarrow> False | Some (h, s) \<Rightarrow> power_largest s = 2 \<and> (\<forall>c\<in>set (slabclass s). slabs c = 0)
    \<and> perslab (cls s 0) = 0 \<and> perslab (cls s 1) = 4 \<and> sl_curr (cls s 1) = 0 \<and> mem_base s = None" by code_simp
  then obtain h s where i: "demo_init = Some (h, s)" by (auto split: option.splits)
  have "slabs_inv demo_settings h s Map.empty"
    by (rule slabs_init_inv [OF i [unfolded demo_init_def]]) (simp_all add: demo_settings_def)
  moreover from this have "length (slabclass s) = 64" using slabs_invD(1) slabs_wfD(1) by blast
  moreover have "power_largest s = 2" "\<forall>c\<in>set (slabclass s). slabs c = 0" "perslab (cls s 0) = 0" "perslab (cls s 1) = 4" "sl_curr (cls s 1) = 0" "mem_base s = None"
    using c unfolding i by simp_all
  ultimately show thesis by (intro that [OF i]) simp_all
qed

theorem slabs_clsid_first_fit_witness:
  "\<exists>h s c. demo_init = Some (h, s) \<and> slabs_clsid_for demo_settings s 50 = Some c \<and> 1 \<le> c \<and> c \<le> power_largest s
     \<and> (\<forall>j. 1 \<le> j \<and> j < c \<longrightarrow> ucast (sl_size (cls s j)) < (50 :: u64)) \<and> (50 \<le> (ucast (sl_size (cls s c)) :: u64) \<or> c = power_largest s)"
proof -
  obtain h s where s: "demo_init = Some (h, s)" "slabs_inv demo_settings h s Map.empty" by (rule demo_state)
  have "\<not> ((50 :: u64) = 0 \<or> (50 :: u64) > word_of_int (item_size_max demo_settings))" by (simp add: demo_settings_def)
  with slabs_clsid_first_fit [OF slabs_invD(1) [OF s(2)], of 50] s(1) show ?thesis by auto
qed

theorem free_chunked_forgets_flags_witness:
  "\<exists>h s h' s'. demo_init = Some (h, s) \<and> do_slabs_free_chunked demo_settings 7 (h(7 := zero_item\<lparr>nkey := 3, it_flags := set_flag ITEM_CHUNKED ITEM_CFLAGS, sch_orig_clsid := 1\<rparr>)) s
       = Some (h', s') \<and> requested (cls s' 1) = requested (cls s 1) - 108"
proof -
  obtain h s where s: "demo_init = Some (h, s)" "slabs_inv demo_settings h s Map.empty" by (rule demo_state)
  have l: "length (slabclass s) = 64" using slabs_wfD(1) [OF slabs_invD(1) [OF s(2)]] .
  let ?h = "h(7 := zero_item\<lparr>nkey := 3, it_flags := set_flag ITEM_CHUNKED ITEM_CFLAGS, sch_orig_clsid := 1\<rparr>)"
  show ?thesis using free_chunked_forgets_flags [of ?h 7 s demo_settings] s(1) l by (auto simp: zero_item_def demo_settings_def)
qed

text \<open>Two pages in the global pool, and room in the page list of class 1.\<close>

lemma demo_pool:
  obtains h s where "slabs_inv demo_settings h s Map.empty" "power_largest s = 2" "slabs (cls s 0) = 2" "slab_list (cls s 0) = [1000, 2000]" "perslab (cls s 0) = 0"
    "slabs (cls s 1) = 0" "length (slab_list (cls s 1)) = 16" "perslab (cls s 1) = 4" "sl_curr (cls s 1) = 0"
proof -
  obtain h s where s: "slabs_inv demo_settings h s Map.empty" "power_largest s = 2" "\<And>i. i < 64 \<Longrightarrow> slabs (cls s i) = 0"
    "perslab (cls s 0) = 0" "perslab (cls s 1) = 4" "sl_curr (cls s 1) = 0" "mem_base s = None" by (rule demo_state) (rule that)
  have wf: "slabs_wf demo_settings s" using slabs_invD(1) [OF s(1)] .
  define s1 where "s1 = upd_cls 0 (\<lambda>p. p\<lparr>slabs := 2, slab_list := [1000, 2000], list_size := 2\<rparr>) s"
  define s2 where "s2 = upd_cls 1 (\<lambda>p. p\<lparr>slab_list := replicate 16 0, list_size := 16\<rparr>) s1"
  have l: "length (slabclass s) = 64" using slabs_wfD(1) [OF wf] .
  have c: "cls s2 j = (if j = 0 then (cls s 0)\<lparr>slabs := 2, slab_list := [1000, 2000], list_size := 2\<rparr>
    else if j = 1 then (cls s 1)\<lparr>slab_list := replicate 16 0, list_size := 16\<rparr> else cls s j)" for j
    using l by (simp add: s2_def s1_def cls_upd)
  have wf1: "slabs_wf demo_settings s1" unfolding s1_def
    by (rule slabs_wf_upd [OF wf]) (use slabs_wfD(6) [OF wf, of 0] s(4) in \<open>auto simp: cls_wf_def\<close>)
  have wf2: "slabs_wf demo_settings s2" unfolding s2_def
    by (rule slabs_wf_upd [OF wf1]) (use slabs_wfD(6) [OF wf, of 1] s(3) [of 1] l in \<open>auto simp: cls_wf_def s1_def cls_upd\<close>)
  have pl: "power_largest s2 = power_largest s" by (simp add: s2_def s1_def)
  have own: "owned s2 = {(0, 0), (0, 1)}" using s(3) by (auto simp: owned_def c split: if_splits)
  have p2: "pages_ok demo_settings s2"
    using s(7) unfolding pages_ok_def own by (auto simp: page_range_def page_span_def c demo_settings_def) (simp_all add: s2_def s1_def)
  have "slabs_inv demo_settings h s2 Map.empty"
    by (rule slabs_inv_change [OF s(1) wf2 p2 pl]) (use s(2,3) in \<open>auto simp: c chunk_of_def\<close>)
  then show thesis by (rule that) (use s pl in \<open>simp_all add: c\<close>)
qed

definition demo_rebal :: rebal where
  "demo_rebal = \<lparr>slab_start = None, slab_end = None, slab_pos = None, s_clsid = 0, d_clsid = 0, busy_items = 0, rescues = 0, evictions_nomem = 0,
     inline_reclaim = 0, chunk_rescues = 0, busy_deletes = 0, busy_loops = 0, rebal_done = 0, slab_rebalance_signal = 0, pick_cur = 0,
     slab_reassign_running = False, slabs_moved = 0, slab_reassign_rescues = 0, slab_reassign_evictions_nomem = 0, slab_reassign_inline_reclaim = 0,
     slab_reassign_chunk_rescues = 0, slab_reassign_busy_deletes = 0\<rparr>"

theorem slab_rebalance_finish_ok_witness:
  "\<exists>h s freed h' s' r'. slabs (cls s 0) = 2
     \<and> slab_rebalance_finish False demo_settings h s (demo_rebal\<lparr>slab_start := Some 1000, d_clsid := 1\<rparr>) = Some (freed, h', s', r') \<and> slabs_inv demo_settings h' s' Map.empty"
proof -
  obtain h s where s: "slabs_inv demo_settings h s Map.empty" "power_largest s = 2" "slabs (cls s 0) = 2" "slab_list (cls s 0) = [1000, 2000]" "perslab (cls s 0) = 0"
    "slabs (cls s 1) = 0" "length (slab_list (cls s 1)) = 16" "perslab (cls s 1) = 4" "sl_curr (cls s 1) = 0" by (rule demo_pool)
  let ?r = "demo_rebal\<lparr>slab_start := Some 1000, d_clsid := 1\<rparr>"
  have "\<exists>freed h' s' r'. slab_rebalance_finish False demo_settings h s ?r = Some (freed, h', s', r') \<and> slabs_inv demo_settings h' s' Map.empty
    \<and> (\<forall>x\<in>dom (Map.empty :: live). h' x = h x) \<and> slab_rebalance_signal r' = 0"
    by (rule slab_rebalance_finish_ok [OF s(1), of ?r 0 1]) (use s in \<open>simp_all add: demo_rebal_def demo_settings_def first_page_cleared_def\<close>)
  with s(3) show ?thesis by blast
qed

theorem slabs_reassign_starts_witness:
  "\<exists>h s r' s'' r''. slabs_inv demo_settings h s Map.empty \<and> do_slabs_reassign 0 1 s demo_rebal = (REASSIGN_OK, r')
     \<and> slab_rebalance_start True s r' = Some (0, s'', r'') \<and> slab_start r'' = Some 1000"
proof -
  obtain h s where s: "slabs_inv demo_settings h s Map.empty" "power_largest s = 2" "slabs (cls s 0) = 2" "slab_list (cls s 0) = [1000, 2000]" "perslab (cls s 0) = 0"
    "slabs (cls s 1) = 0" "length (slab_list (cls s 1)) = 16" "perslab (cls s 1) = 4" "sl_curr (cls s 1) = 0" by (rule demo_pool)
  let ?r = "demo_rebal\<lparr>s_clsid := 0, d_clsid := 1, slab_rebalance_signal := 1\<rparr>"
  have r: "do_slabs_reassign 0 1 s demo_rebal = (REASSIGN_OK, ?r)" using s by (simp add: do_slabs_reassign_def demo_rebal_def)
  have "\<exists>s'' r''. slab_rebalance_start True s ?r = Some (0, s'', r'') \<and> slab_start r'' = Some (slab_list (cls s (nat (s_clsid ?r))) ! 0) \<and> slab_rebalance_signal r'' = 2"
    using slabs_reassign_starts [OF s(1) _ _ r] s(2) by (simp add: demo_rebal_def)
  moreover have "slab_list (cls s (nat (s_clsid ?r))) ! 0 = 1000" using s(4) by simp
  ultimately show ?thesis using s(1) r by metis
qed

end
