(* ===== verification/Cache_Demo.thy ===== *)
theory Cache_Demo
  imports Cache_Refine Slabs_Witness
begin

text \<open>
  A small cache, evaluated: one worker, two size classes, one item stored and looked up. The properties
  of the item cache are instantiated on it.
\<close>

section \<open>A concrete run\<close>

definition demo_globals :: globals where
  "demo_globals = \<lparr>slab_set = demo_settings, extstore = False, oldest_live = 0, oldest_cas = 0, evict_to_free = True, lru_segmented = True, slab_automove_mode = 0,
     tail_repair_time = 0, hot_lru_pct = 20, warm_lru_pct = 40, temp_lru = False, temporary_ttl = 61, current_time = 100, hash = sample_hash\<rparr>"

definition demo_worker :: worker where
  "demo_worker = \<lparr>bumps = the (item_lru_bump_buf_create 4 True (Some (replicate 64 0))), get_flushed = 0, get_expired = 0\<rparr>"

definition demo_sys :: sys where
  "demo_sys = (let (h, sl) = the demo_init in sys_start [demo_worker] h sl (the (assoc_init 1 True assoc_static)) demo_rebal)"

definition demo_env :: "nat \<Rightarrow> alloc_env" where
  "demo_env a = \<lparr>env_mem = (\<lambda>n. (True, Some a)), env_item_trylock = (\<lambda>_ _ _ _. True), env_rebalance_trylock = (\<lambda>_. True)\<rparr>"

definition demo_cache_ops :: "cache_op list" where
  "demo_cache_ops = [New (demo_env 1000) 0 [1] 0 0 2, Link 1000, Get [1] True 0]"

lemma demo_sane: "sane demo_globals"
  by (simp add: sane_def demo_globals_def demo_settings_def)

lemma demo_started: "started demo_globals demo_sys"
proof -
  obtain h sl where i: "demo_init = Some (h, sl)" by (rule demo_state)
  have a: "assoc_init 1 True assoc_static = Some (the (assoc_init 1 True assoc_static))" by code_simp
  have "item_lru_bump_buf_create 4 True (Some (replicate 64 0)) = Some (bumps demo_worker)" by (simp add: demo_worker_def item_lru_bump_buf_create_def bipbuf_new_def)
  then have "fresh_worker demo_worker" unfolding fresh_worker_def by (intro exI [of _ 4] exI [of _ "replicate 64 0"]) simp
  then show ?thesis unfolding started_def using i a
    by (intro exI) (auto simp: demo_sys_def demo_globals_def demo_init_def)
qed

lemma demo_no_refs: "references demo_sys = []"
  by code_simp

lemma demo_legal: "legal_ops demo_globals demo_cache_ops demo_sys"
  by code_simp

lemma demo_cache_run: "map_option fst (run demo_globals demo_cache_ops demo_sys) = Some [Some 1000, None, Some 1000]"
  by code_simp

text \<open>The state before the lookup: one item, linked and held.\<close>

definition demo_mid_ops :: "cache_op list" where
  "demo_mid_ops = [New (demo_env 1000) 0 [1] 0 0 2, Link 1000]"

lemma demo_mid_run:
  "(case run demo_globals demo_mid_ops demo_sys of None \<Rightarrow> False | Some (ps, g, s) \<Rightarrow> ps = [Some 1000, None] \<and> room s \<and> length (wks s) = 1 \<and> held s = [1000]
     \<and> ITEM_key (hp (cch s) 1000) = [1] \<and> exptime (hp (cch s) 1000) = 0 \<and> time (hp (cch s) 1000) = 100)"
  by code_simp

lemma demo_before_get:
  obtains s L K where "sys_inv demo_globals K s {1000} L" "ITEM_key (hp (cch s) 1000) = [1]" "exptime (hp (cch s) 1000) = 0" "room s" "length (wks s) = 1"
    "time (hp (cch s) 1000) = 100" "held s = [1000]"
proof -
  from start_sim [OF demo_started demo_sane] obtain K where K: "sim demo_globals K demo_sys empty_store" "config demo_globals K" by blast
  have ops: "demo_cache_ops = demo_mid_ops @ [Get [1] True 0]" by (simp add: demo_cache_ops_def demo_mid_ops_def)
  have app: "legal_ops g (xs @ ys) s \<Longrightarrow> legal_ops g xs s" for g xs ys s by (induction xs arbitrary: g s) (auto split: option.splits)
  have "legal_ops demo_globals demo_mid_ops demo_sys" by (rule app [of _ _ "[Get [1] True 0]"]) (use demo_legal ops in simp)
  from run_simulates [OF K this] obtain ps g' s S where r: "run demo_globals demo_mid_ops demo_sys = Some (ps, g', s)" "accepts demo_globals demo_mid_ops ps empty_store S" "sim g' K s S" by blast
  have p: "ps = [Some 1000, None]" "room s" "length (wks s) = 1" "ITEM_key (hp (cch s) 1000) = [1]" "exptime (hp (cch s) 1000) = 0"
    "time (hp (cch s) 1000) = 100" "held s = [1000]" using demo_mid_run unfolding r(1) by simp_all
  have "g' = demo_globals" using r(1) by (auto simp: demo_mid_ops_def bind_eq_Some_conv)
  moreover have "linked S = {1000}" using r(2) unfolding p demo_mid_ops_def by (auto simp: drops_def empty_store_def)
  ultimately show thesis using r(3) p that unfolding sim_def by metis
qed

end
