(* ===== verification/Cache_Properties.thy ===== *)
theory Cache_Properties
  imports Cache_Demo
begin

text \<open>
  The properties of the item cache: whole runs refine a key-value store, and what the single operations
  promise in any consistent state; with concrete instances, evaluated.
\<close>

section \<open>Runs\<close>

text \<open>
  C1. The item cache is a key-value store. From a system as started by \<open>slabs_init\<close> and \<open>assoc_init\<close>,
  run any sequence of lookups, touches, allocations, links, unlinks, replacements, releases, position
  updates, LRU walks, turns of the LRU maintainer (with its queued bumps) and of the hash table's
  maintenance thread, clock ticks and flushes, where callers use only references they hold. Every
  operation returns, no assertion fails and no array is left. The results are those of a store in
  which a lookup finds exactly the linked item of that key if it has not expired, entries vanish
  only by expiry, flush, eviction or unlinking, a new item is one that nobody holds, and the
  contents of an item that is linked or held change only by \<open>touch\<close> (expiry) and linking (cas).
\<close>

theorem cache_run_refines_store:
  assumes "started g s" "sane g" "legal_ops g ops s"
  shows "\<exists>ps g' s' S'. run g ops s = Some (ps, g', s') \<and> accepts g ops ps empty_store S' \<and> (\<forall>x. in_store S' x \<longrightarrow> entry_of (hp (cch s') x) = ent S' x)"
proof -
  from start_sim [OF assms(1,2)] obtain K where "sim g K s empty_store" "config g K" by blast
  from run_simulates [OF this assms(3)] show ?thesis unfolding sim_def by (metis (lifting))
qed

text \<open>The views of the cache agree: hash table, LRU lists, counters, flags and reference counts.\<close>

definition consistent :: "globals \<Rightarrow> sys \<Rightarrow> nat set \<Rightarrow> bool" where
  "consistent g s C \<longleftrightarrow>
     (\<forall>k. \<exists>p. assoc_find k (hash g k) (hp (cch s)) (tab (cch s)) = Some p \<and> (\<forall>x. p = Some x \<longleftrightarrow> x \<in> C \<and> ITEM_key (hp (cch s) x) = k))
   \<and> (\<exists>ls. lru_ok g (cch s) ls \<and> (\<Union>i. set (ls i)) = C)
   \<and> curr_items (cch s) = of_nat (card C) \<and> curr_bytes (cch s) = (\<Sum>x\<in>C. ITEM_ntotal (hp (cch s) x))
   \<and> (\<forall>x. x \<in> C \<or> x \<in> set (held s) \<longrightarrow> has_flag (it_flags (hp (cch s) x)) ITEM_LINKED = (x \<in> C) \<and> \<not> has_flag (it_flags (hp (cch s) x)) ITEM_SLABBED
        \<and> unat (refcount (hp (cch s) x)) = (if x \<in> C then 1 else 0) + count_list (references s) x)"

lemma sys_inv_consistent:
  assumes i: "sys_inv g K s C L"
  shows "consistent g s C"
proof -
  note inv = sys_invD(1) [OF i]
  have "has_flag (it_flags (hp (cch s) x)) ITEM_LINKED = (x \<in> C) \<and> \<not> has_flag (it_flags (hp (cch s) x)) ITEM_SLABBED
      \<and> unat (refcount (hp (cch s) x)) = (if x \<in> C then 1 else 0) + count_list (references s) x" if "x \<in> C \<or> x \<in> set (held s)" for x
  proof -
    have "L x \<noteq> None" using in_view_live [OF i] that by (simp add: in_store_def)
    then obtain l where "L x = Some l" by blast
    from item_okD [OF cache_invD(6) [OF inv this]] show ?thesis by simp
  qed
  then show ?thesis using cache_find [OF inv] cache_invD(3,8,9) [OF inv] unfolding consistent_def by simp
qed

text \<open>
  C8. Every view of the cache tells the same. At the end of every such run there is one set of linked
  items with: the hash table finds exactly these by their keys; the LRU lists are well-formed and
  hold exactly these, each in the list its class byte names, with the right lengths and byte
  counts; \<open>curr_items\<close> and \<open>curr_bytes\<close> are their number and total size; and of every linked or held
  item, the \<open>ITEM_LINKED\<close> flag says whether it is linked, it is not on a free list, and its reference
  count is the link plus the references of connections and queued bumps.
\<close>

theorem cache_run_consistent:
  assumes "started g s" "sane g" "legal_ops g ops s" "run g ops s = Some (ps, g', s')"
  shows "\<exists>C. consistent g' s' C"
proof -
  from start_sim [OF assms(1,2)] obtain K where "sim g K s empty_store" "config g K" by blast
  from run_simulates [OF this assms(3)] assms(4) obtain S' where "sim g' K s' S'" by auto
  then obtain L where "sys_inv g' K s' (linked S') L" unfolding sim_def by blast
  then show ?thesis using sys_inv_consistent by blast
qed

section \<open>Single operations\<close>

text \<open>
  C15. A lookup. In a consistent cache \<open>do_item_get\<close> returns. It finds the linked item with the key
  unless that item has expired or been flushed; such an item is unlinked on the spot and the lookup
  misses. A hit leaves all items linked and adds one reference to the item found, and one more for
  every bump it queues; no lookup changes what any surviving item holds.
\<close>

theorem do_item_get_finds:
  assumes "cache_inv g K c C {} L R" "\<And>x. x \<in> C \<Longrightarrow> R x < 65533 \<and> x < 2 ^ 64" "bump_inv (bumps w)"
  shows "\<exists>p w' c' C' L' R'. do_item_get g k (hash g k) w upd c = Some (p, w', c') \<and> cache_inv g K c' C' {} L' R' \<and> L' \<subseteq>\<^sub>m L \<and> pays L' (hp c) (hp c')
    \<and> bump_inv (bumps w')
    \<and> (case p of
         None \<Rightarrow> R' = R \<and> bumps w' = bumps w \<and> ((\<forall>x\<in>C. ITEM_key (hp c x) \<noteq> k) \<and> C' = C \<or> (\<exists>x\<in>C. ITEM_key (hp c x) = k \<and> dead g (hp c x) \<and> C' = C - {x}))
       | Some x \<Rightarrow> x \<in> C \<and> ITEM_key (hp c x) = k \<and> \<not> dead g (hp c x) \<and> C' = C \<and> L' = L
           \<and> (\<forall>y. R' y + bump_refs (bumps w) y = (R(x := R x + 1)) y + bump_refs (bumps w') y) \<and> (\<forall>y. R' y \<le> R y + 2))"
  by (rule do_item_get_ok [OF assms])




text \<open>A chunk given back carries the free-list flag.\<close>

lemma item_free_slabbed:
  assumes "item_free g x c = Some c'" "\<not> has_flag (it_flags (hp c x)) ITEM_CHUNKED"
  shows "has_flag (it_flags (hp c' x)) ITEM_SLABBED"
proof -
  obtain h s where f: "do_slabs_free (extstore g) (slab_set g) x (ITEM_ntotal (hp c x)) (unat (ITEM_clsid (hp c x))) (hp c) (slb c) = Some (h, s)" "c' = c\<lparr>hp := h, slb := s\<rparr>"
    using assms(1) by (auto simp: item_free_def Let_def split: if_splits)
  have "it_flags (push_front x p k x) = it_flags (k x)" for p and k :: heap by (simp add: same_nodesD [OF same_nodes_push])
  then have "it_flags (h x) = ITEM_SLABBED" using f(1) assms(2) unfolding do_slabs_free_def by (auto simp: free_push_def Let_def split: if_splits)
  then show ?thesis using f(2) by (simp add: has_flag_def)
qed

text \<open>
  C34. Tail repair frees items in use. With \<open>tail_repair_time\<close> set, a walk that meets an item which
  somebody else holds and which is old enough sets its count to 1 and unlinks it: the chunk goes back
  to the free list although references to it are left, so that the holder's release fails its
  assertion (the code warns of the corruption).
\<close>

theorem tail_repair_frees_held:
  assumes inv: "cache_inv g K c C {} L R" and x: "x \<in> C" "0 < R x" "R x < 65534"
    and t: "tail_repair_time g \<noteq> 0" "time (hp c x) + word_of_int (tail_repair_time g) < current_time g"
  shows "\<exists>c'. pull_item g a x (hash g (ITEM_key (hp c x))) c = Some (Go_on, 0, c') \<and> cache_inv g K c' (C - {x}) {} (L(x := None)) (R(x := 0)) \<and> do_item_remove g x c' = None"
proof -
  have Lx: "L x \<noteq> None" by (rule live_linked [OF inv x(1)])
  then obtain l where l: "L x = Some l" by blast
  define c1 where "c1 = upd_it x (\<lambda>i. i\<lparr>refcount := refcount i + 1\<rparr>) c"
  have i1: "cache_inv g K c1 C {} L (R(x := R x + 1))" unfolding c1_def by (rule cache_inv_incr [OF inv Lx x(3)])
  have u: "unat (refcount (hp c1 x)) = R x + 2" using item_okD(6) [OF cache_invD(6) [OF i1 l]] x(1) by simp
  then have lk: "refcount (hp c1 x) \<noteq> 2" using x(2) by auto
  define c2 where "c2 = upd_is (pull_id a) (\<lambda>s. s\<lparr>is_tailrepairs := is_tailrepairs s + 1\<rparr>) (upd_is (pull_id a) (\<lambda>s. s\<lparr>is_lrutail_reflocked := is_lrutail_reflocked s + 1\<rparr>) c1)"
  have h2: "hp c2 = hp c1" and i2: "cache_inv g K c2 C {} L (R(x := R x + 1))" using i1 by (simp_all add: c2_def)
  define c3 where "c3 = upd_it x (\<lambda>i. i\<lparr>refcount := 1\<rparr>) c2"
  have "cache_inv g K c3 C {} L ((R(x := R x + 1))(x := 0))" unfolding c3_def
    by (rule cache_inv_write [OF i2 Lx]) (use x(1) in \<open>simp_all add: same_flags_def ITEM_clsid_def\<close>)
  then have i3: "cache_inv g K c3 C {} L (R(x := 0))" by simp
  have key: "ITEM_key (hp c3 x) = ITEM_key (hp c x)" by (simp add: c3_def h2 c1_def ITEM_key_def)
  obtain c5 where d: "do_item_unlink g x (hash g (ITEM_key (hp c3 x))) c3 = do_item_remove g x c5" "cache_inv g K c5 (C - {x}) {} L ((R(x := 0))(x := (R(x := 0)) x + 1))"
    by (rule cache_unlink_remove [OF i3, of x]) (use x(1) in auto)
  then have i5: "cache_inv g K c5 (C - {x}) {} L (R(x := 1))" by simp
  note ok = item_okD [OF cache_invD(6) [OF i5 l]]
  obtain c' where r: "do_item_remove g x c5 = Some c'" "cache_inv g K c' (C - {x}) {} (drop_live x (C - {x}) L (R(x := 1))) ((R(x := 1))(x := (R(x := 1)) x - 1))"
    using cache_remove [OF i5, of x] by auto
  have "unat (refcount (hp c5 x)) = 1" using ok(6) by simp
  then have "refcount (hp c5 x) = 1" by (simp add: word_unat_eq_iff)
  then have "item_free g x (upd_it x (\<lambda>i. i\<lparr>refcount := refcount i - 1\<rparr>) c5) = Some c'" using r(1) ok(2) by (simp add: do_item_remove_def Let_def)
  then have "has_flag (it_flags (hp c' x)) ITEM_SLABBED" by (rule item_free_slabbed) (use ok(3) in \<open>simp add: plain_def\<close>)
  then have rm: "do_item_remove g x c' = None" by (simp add: do_item_remove_def)
  have inv': "cache_inv g K c' (C - {x}) {} (L(x := None)) (R(x := 0))" using r(2) by (simp add: drop_live_def)
  have tm: "time (hp c1 x) = time (hp c x)" by (simp add: c1_def)
  have "pull_repair g a x (hash g (ITEM_key (hp c x))) (upd_is (pull_id a) (\<lambda>s. s\<lparr>is_lrutail_reflocked := is_lrutail_reflocked s + 1\<rparr>) c1) = Some c'"
    using d(1) r(1) unfolding pull_repair_def unlink_nolock_eq key c2_def [symmetric] c3_def [symmetric] by simp
  then have "pull_item g a x (hash g (ITEM_key (hp c x))) c = Some (Go_on, 0, c')"
    unfolding pull_item_def c1_def [symmetric] Let_def using lk t tm by (simp del: upd_it_simps)
  with inv' rm show ?thesis by blast
qed

section \<open>Instances\<close>

theorem cache_run_refines_store_witness:
  "\<exists>g' s' S'. run demo_globals demo_cache_ops demo_sys = Some ([Some 1000, None, Some 1000], g', s')
     \<and> accepts demo_globals demo_cache_ops [Some 1000, None, Some 1000] empty_store S'"
  using cache_run_refines_store [OF demo_started demo_sane demo_legal] demo_cache_run by auto

theorem cache_run_consistent_witness:
  "\<exists>g' s' C. run demo_globals demo_cache_ops demo_sys = Some ([Some 1000, None, Some 1000], g', s') \<and> consistent g' s' C"
proof -
  obtain g' s' where "run demo_globals demo_cache_ops demo_sys = Some ([Some 1000, None, Some 1000], g', s')" using demo_cache_run by auto
  with cache_run_consistent [OF demo_started demo_sane demo_legal this] show ?thesis by blast
qed

theorem do_item_get_finds_witness:
  "\<exists>(s :: sys) w' c'. ITEM_key (hp (cch s) 1000) = [1] \<and> do_item_get demo_globals [1] (hash demo_globals [1]) (wks s ! 0) True (cch s) = Some (Some 1000, w', c')"
proof -
  obtain s L K where s: "sys_inv demo_globals K s {1000} L" "ITEM_key (hp (cch s) 1000) = [1]" "exptime (hp (cch s) 1000) = 0" "room s" "length (wks s) = 1"
    by (rule demo_before_get)
  note i = sys_invD [OF s(1)]
  have r: "count_list (references s) x < 65533 \<and> x < 2 ^ 64" if "x \<in> {1000}" for x using room_less [OF s(4)] that by simp
  have w: "bump_inv (bumps (wks s ! 0))" using i(3) s(5) by simp
  have "\<not> dead demo_globals (hp (cch s) 1000)" using s(3) by (simp add: dead_def item_is_flushed_def demo_globals_def)
  with do_item_get_finds [OF i(1) r w, of "[1]" True] s(2) obtain w' c'
    where "do_item_get demo_globals [1] (hash demo_globals [1]) (wks s ! 0) True (cch s) = Some (Some 1000, w', c')" by (auto split: option.splits)
  with s(2) show ?thesis by (intro exI [of _ s] exI [of _ w'] exI [of _ c']) simp
qed




theorem tail_repair_frees_held_witness:
  "\<exists>(s :: sys) c'. 1000 \<in> set (held s) \<and> pull_item (demo_globals\<lparr>tail_repair_time := 10, current_time := 1000\<rparr>)
       \<lparr>orig_id = 2, cur_lru = HOT_LRU, total_bytes = 0, pull_flags = 0, max_age = 0, item_trylock = (\<lambda>_ _. True), rebalance_trylock = True\<rparr> 1000
       (hash demo_globals (ITEM_key (hp (cch s) 1000))) (cch s) = Some (Go_on, 0, c') \<and> do_item_remove (demo_globals\<lparr>tail_repair_time := 10, current_time := 1000\<rparr>) 1000 c' = None"
proof -
  let ?g = "demo_globals\<lparr>tail_repair_time := 10, current_time := 1000\<rparr>"
  let ?a = "\<lparr>orig_id = 2, cur_lru = HOT_LRU, total_bytes = 0, pull_flags = 0, max_age = 0, item_trylock = (\<lambda>_ _. True), rebalance_trylock = True\<rparr>"
  obtain s L K where s: "sys_inv demo_globals K s {1000} L" "room s" "time (hp (cch s) 1000) = 100" "held s = [1000]" by (rule demo_before_get)
  have i: "cache_inv ?g K (cch s) {1000} {} L (count_list (references s))" using sys_invD(1) [OF s(1)] cache_inv_settings [of ?g demo_globals] by simp
  have r: "0 < count_list (references s) 1000" "count_list (references s) 1000 < 65534" using held_counted [of 1000 s] room_less [OF s(2), of 1000] s(4) by simp_all
  have t: "tail_repair_time ?g \<noteq> 0" "time (hp (cch s) 1000) + word_of_int (tail_repair_time ?g) < current_time ?g" using s(3) by simp_all
  have "hash ?g = hash demo_globals" by simp
  with tail_repair_frees_held [OF i _ r t, of ?a] s(4) show ?thesis by (intro exI [of _ s]) auto
qed

end
