(* ===== verification/Crawler.thy ===== *)
theory Crawler
  imports Items
begin

text \<open>
  The LRU crawler (\<open>crawler.c\<close>) and the part of the LRU maintainer that schedules it. A crawler is a pseudo
  item in an LRU list that moves from the tail to the head and looks at each item it passes. The header
  of the crawler of LRU \<open>i\<close> is the item at address \<open>cr i\<close>, its counters are kept beside.
\<close>

section \<open>State\<close>

record crawler_ext =
  remaining :: u32
  cr_reclaimed :: u64
  cr_unfetched :: u64
  cr_checked :: u64

record crawlerstats =
  histo :: "u64 list"
  ttl_hourplus :: u64
  noexp :: u64
  st_reclaimed :: u64
  seen :: u64
  st_start_time :: u32
  st_end_time :: u32
  run_complete :: bool

record crawler_expired_data =
  crawlerstats :: "u8 \<Rightarrow> crawlerstats"
  ed_start_time :: u32
  ed_end_time :: u32
  crawl_complete :: bool
  is_external :: bool

datatype crawler_run_type = CRAWLER_AUTOEXPIRE | CRAWLER_EXPIRED | CRAWLER_METADUMP

text \<open>
  \<open>mdata\<close> is the block of the LRU maintainer, \<open>odata\<close> one the module allocated for itself; \<open>external\<close> says
  which of the two \<open>active_crawler_mod.data\<close> points to. \<open>dumped\<close> are the items the metadump module has
  written to its client.
\<close>

record crawl =
  crawlers :: "u8 \<Rightarrow> crawler_ext"
  crawler_count :: int
  active_mod :: "crawler_run_type option"
  active_crawler_type :: crawler_run_type
  has_client :: bool
  external :: bool
  mdata :: crawler_expired_data
  odata :: crawler_expired_data
  lru_crawler_running :: bool
  lru_crawler_starts :: u64
  block_ae_until :: u32
  dumped :: "nat list"

definition needs_client :: "crawler_run_type \<Rightarrow> bool" where
  "needs_client t \<longleftrightarrow> t = CRAWLER_METADUMP"

abbreviation upd_cr :: "u8 \<Rightarrow> (crawler_ext \<Rightarrow> crawler_ext) \<Rightarrow> crawl \<Rightarrow> crawl" where
  "upd_cr i f w \<equiv> w\<lparr>crawlers := (crawlers w)(i := f (crawlers w i))\<rparr>"

definition cdata :: "crawl \<Rightarrow> crawler_expired_data" where
  "cdata w = (if external w then mdata w else odata w)"

definition upd_cdata :: "(crawler_expired_data \<Rightarrow> crawler_expired_data) \<Rightarrow> crawl \<Rightarrow> crawl" where
  "upd_cdata f w = (if external w then w\<lparr>mdata := f (mdata w)\<rparr> else w\<lparr>odata := f (odata w)\<rparr>)"

definition upd_st :: "u8 \<Rightarrow> (crawlerstats \<Rightarrow> crawlerstats) \<Rightarrow> crawl \<Rightarrow> crawl" where
  "upd_st i f = upd_cdata (\<lambda>d. d\<lparr>crawlerstats := (crawlerstats d)(i := f (crawlerstats d i))\<rparr>)"

section \<open>The module that reaps expired items\<close>

definition zero_stats :: "u32 \<Rightarrow> crawlerstats" where
  "zero_stats now = \<lparr>histo = replicate 61 0, ttl_hourplus = 0, noexp = 0, st_reclaimed = 0, seen = 0, st_start_time = now, st_end_time = 0, run_complete = False\<rparr>"

text \<open>\<open>ext\<close>: the maintainer's block is passed; otherwise a block is allocated (\<open>calloc\<close>'s answer), and kept as it is when that fails.\<close>

definition crawler_expired_init :: "globals \<Rightarrow> bool \<Rightarrow> bool \<Rightarrow> crawl \<Rightarrow> int \<times> crawl" where
  "crawler_expired_init g ext calloc w =
     (if ext then (0, w\<lparr>external := True, mdata := (mdata w)\<lparr>is_external := True, crawlerstats := (\<lambda>_. zero_stats (current_time g))\<rparr>\<rparr>)
      else if \<not> calloc then (- 1, w)
      else (0, w\<lparr>external := False, odata := \<lparr>crawlerstats = (\<lambda>_. zero_stats (current_time g)), ed_start_time = current_time g, ed_end_time = 0,
                                               crawl_complete = False, is_external = False\<rparr>\<rparr>))"

definition crawler_expired_doneclass :: "globals \<Rightarrow> u8 \<Rightarrow> crawl \<Rightarrow> crawl" where
  "crawler_expired_doneclass g i = upd_st i (\<lambda>s. s\<lparr>st_end_time := current_time g, run_complete := True\<rparr>)"

definition crawler_expired_finalize :: "globals \<Rightarrow> crawl \<Rightarrow> crawl" where
  "crawler_expired_finalize g = upd_cdata (\<lambda>d. d\<lparr>ed_end_time := current_time g, crawl_complete := True\<rparr>)"

text \<open>An item that is kept is counted by its time to live, in minutes. \<open>ext_ok\<close> is the answer of \<open>extstore_check\<close>.\<close>

definition count_ttl :: "globals \<Rightarrow> item \<Rightarrow> crawlerstats \<Rightarrow> crawlerstats option" where
  "count_ttl g it s =
     (let s = s\<lparr>seen := seen s + 1\<rparr>; ttl = exptime it - current_time g; bucket = unat (ttl div 60)
      in if exptime it = 0 then Some (s\<lparr>noexp := noexp s + 1\<rparr>)
         else if ttl > 3599 then Some (s\<lparr>ttl_hourplus := ttl_hourplus s + 1\<rparr>)
         else if bucket \<le> 60 then if bucket < length (histo s) then Some (s\<lparr>histo := (histo s)[bucket := histo s ! bucket + 1]\<rparr>) else None
         else Some s)"

definition crawler_expired_eval :: "globals \<Rightarrow> bool \<Rightarrow> nat \<Rightarrow> u32 \<Rightarrow> u8 \<Rightarrow> crawl \<times> cache \<Rightarrow> (crawl \<times> cache) option" where
  "crawler_expired_eval g ext_ok search hv i = (\<lambda>(w, c).
     let it = hp c search; is_flushed = item_is_flushed g it;
         is_valid = (\<not> (extstore g \<and> has_flag (it_flags it) ITEM_HDR) \<or> ext_ok)
     in if exptime it \<noteq> 0 \<and> exptime it < current_time g \<or> is_flushed \<or> \<not> is_valid
        then let w = upd_cr i (\<lambda>x. x\<lparr>cr_reclaimed := cr_reclaimed x + 1\<rparr>) w;
                 w = upd_st i (\<lambda>s. s\<lparr>st_reclaimed := st_reclaimed s + 1\<rparr>) w;
                 w = (if \<not> has_flag (it_flags it) ITEM_FETCHED \<and> \<not> is_flushed then upd_cr i (\<lambda>x. x\<lparr>cr_unfetched := cr_unfetched x + 1\<rparr>) w else w)
             in do { c \<leftarrow> do_item_unlink_nolock g search hv c; c \<leftarrow> do_item_remove g search c; Some (w, c) }
        else do { s \<leftarrow> count_ttl g it (crawlerstats (cdata w) i);
                  Some (upd_st i (\<lambda>_. s) w, upd_it search (\<lambda>i. i\<lparr>refcount := refcount i - 1\<rparr>) c) })"

text \<open>The metadump module writes a line for an item that is neither expired nor flushed.\<close>

definition crawler_metadump_eval :: "globals \<Rightarrow> nat \<Rightarrow> crawl \<times> cache \<Rightarrow> crawl \<times> cache" where
  "crawler_metadump_eval g it = (\<lambda>(w, c).
     let i = hp c it; c = upd_it it (\<lambda>i. i\<lparr>refcount := refcount i - 1\<rparr>) c
     in (if exptime i \<noteq> 0 \<and> exptime i < current_time g \<or> item_is_flushed g i then w else w\<lparr>dumped := dumped w @ [it]\<rparr>, c))"

section \<open>Starting and moving crawlers\<close>

abbreviation (input) LRU_CRAWLER_CAP_REMAINING :: u32 where "LRU_CRAWLER_CAP_REMAINING \<equiv> - 1"

definition do_lru_crawler_start :: "(u8 \<Rightarrow> nat) \<Rightarrow> u8 \<Rightarrow> u32 \<Rightarrow> crawl \<times> cache \<Rightarrow> (nat \<times> crawl \<times> cache) option" where
  "do_lru_crawler_start cr sid n = (\<lambda>(w, c).
     if it_flags (hp c (cr sid)) \<noteq> 0 then Some (0, w, c)
     else let n = (if n = LRU_CRAWLER_CAP_REMAINING then do_get_lru_size sid c else n);
              n = (if n \<noteq> 0 then n + 1 else n);
              c = upd_it (cr sid) (\<lambda>i. i\<lparr>nbytes := 0, nkey := 0, it_flags := 1, nxt := None, prv := None, time := 0, slabs_clsid := sid\<rparr>) c;
              w = upd_cr sid (\<lambda>_. \<lparr>remaining = n, cr_reclaimed = 0, cr_unfetched = 0, cr_checked = 0\<rparr>) w
          in do { c \<leftarrow> do_item_linktail_q (cr sid) c;
                  Some (1, w\<lparr>crawler_count := crawler_count w + 1, lru_crawler_running := True, lru_crawler_starts := lru_crawler_starts w + 1\<rparr>, c) })"

fun crawler_starts :: "(u8 \<Rightarrow> nat) \<Rightarrow> (u8 \<Rightarrow> bool) \<Rightarrow> u32 \<Rightarrow> u8 list \<Rightarrow> crawl \<times> cache \<Rightarrow> (nat \<times> crawl \<times> cache) option" where
  "crawler_starts cr ids n [] wc = Some (0, wc)"
| "crawler_starts cr ids n (sid # sids) wc =
     do { (k, wc) \<leftarrow> (if ids sid then do_lru_crawler_start cr sid n wc else Some (0, wc));
          (m, wc) \<leftarrow> crawler_starts cr ids n sids wc;
          Some (k + m, wc) }"

text \<open>
  \<open>client\<close>: a connection is given; \<open>buf\<close>: the output buffer could be allocated. The result is the number of
  crawlers started, or -1 (blocked), or -2 (no client).
\<close>

definition lru_crawler_start ::
    "globals \<Rightarrow> (u8 \<Rightarrow> nat) \<Rightarrow> (u8 \<Rightarrow> bool) \<Rightarrow> u32 \<Rightarrow> crawler_run_type \<Rightarrow> bool \<Rightarrow> bool \<Rightarrow> bool \<Rightarrow> bool \<Rightarrow> crawl \<times> cache
     \<Rightarrow> (int \<times> crawl \<times> cache) option" where
  "lru_crawler_start g cr ids n ty ext calloc client buf = (\<lambda>(w, c).
     if lru_crawler_running w \<and> \<not> (ty = CRAWLER_AUTOEXPIRE \<and> active_crawler_type w = CRAWLER_AUTOEXPIRE)
     then Some (- 1, w\<lparr>block_ae_until := current_time g + 60\<rparr>, c)
     else if ty = CRAWLER_AUTOEXPIRE \<and> block_ae_until w > current_time g then Some (- 1, w, c)
     else let start = (\<lambda>w. do { (k, w, c) \<leftarrow> crawler_starts cr ids n (map of_nat [1..<256]) (w, c); Some (int k, w, c) })
          in if lru_crawler_running w then start w
             else let w = w\<lparr>active_mod := Some ty, active_crawler_type := ty\<rparr>;
                      w = (if ty = CRAWLER_METADUMP then w else snd (crawler_expired_init g ext calloc w))
                  in if needs_client ty
                     then if \<not> client \<or> has_client w then Some (- 2, w, c)
                          else if \<not> buf then Some (- 2, w\<lparr>has_client := True\<rparr>, c)
                          else start (w\<lparr>has_client := True\<rparr>)
                     else start w)"

definition lru_crawler_class_done :: "globals \<Rightarrow> (u8 \<Rightarrow> nat) \<Rightarrow> u8 \<Rightarrow> crawl \<times> cache \<Rightarrow> (crawl \<times> cache) option" where
  "lru_crawler_class_done g cr i = (\<lambda>(w, c).
     do { c \<leftarrow> do_item_unlinktail_q (cr i) (upd_it (cr i) (\<lambda>i. i\<lparr>it_flags := 0\<rparr>) c);
          (let x = crawlers w i;
               c = do_item_stats_add_crawl i (cr_reclaimed x) (cr_unfetched x) (cr_checked x) c;
               w = w\<lparr>crawler_count := crawler_count w - 1\<rparr>
           in Some (if active_mod w = Some CRAWLER_METADUMP \<or> active_mod w = None then w else crawler_expired_doneclass g i w, c)) })"

text \<open>
  The body of the thread's loop for LRU \<open>i\<close>. \<open>room\<close>: the client still takes output; \<open>lock\<close>: the item lock
  could be taken.
\<close>

definition crawler_visit :: "globals \<Rightarrow> (u8 \<Rightarrow> nat) \<Rightarrow> bool \<Rightarrow> (u32 \<Rightarrow> bool) \<Rightarrow> bool \<Rightarrow> u8 \<Rightarrow> crawl \<times> cache \<Rightarrow> (crawl \<times> cache) option" where
  "crawler_visit g cr room lock ext_ok i = (\<lambda>(w, c).
     if it_flags (hp c (cr i)) \<noteq> 1 then Some (w, c)
     else if has_client w \<and> \<not> room \<or> \<not> has_client w \<and> active_mod w = Some CRAWLER_METADUMP then lru_crawler_class_done g cr i (w, c)
     else do { (p, c) \<leftarrow> do_item_crawl_q (cr i) c;
               (case p of
                  None \<Rightarrow> lru_crawler_class_done g cr i (w, c)
                | Some x \<Rightarrow>
                    let r = remaining (crawlers w i); w = (if r \<noteq> 0 then upd_cr i (\<lambda>k. k\<lparr>remaining := r - 1\<rparr>) w else w);
                        hv = hash g (ITEM_key (hp c x))
                    in if r = 1 then lru_crawler_class_done g cr i (w, c)
                       else if \<not> lock hv then Some (w, c)
                       else if refcount (hp c x) + 1 \<noteq> 2 then Some (w, c)
                       else let c = upd_it x (\<lambda>k. k\<lparr>refcount := refcount k + 1\<rparr>) c;
                                w = upd_cr i (\<lambda>k. k\<lparr>cr_checked := cr_checked k + 1\<rparr>) w
                            in if active_mod w = Some CRAWLER_METADUMP then Some (crawler_metadump_eval g x (w, c))
                               else crawler_expired_eval g ext_ok x hv i (w, c)) })"

section \<open>Scheduling by the LRU maintainer\<close>

text \<open>The wait of one class after a finished crawl, from the histogram of the minutes to live.\<close>

fun reclaim_scan :: "u64 \<Rightarrow> nat \<Rightarrow> u64 list \<Rightarrow> u64 \<Rightarrow> u32 \<Rightarrow> u64 \<times> u32" where
  "reclaim_scan low x [] avail wait = (avail, wait)"
| "reclaim_scan low x (h # hs) avail wait =
     (let avail = avail + h
      in if avail > low then (avail, if wait < of_nat (x * 60) then wait + 60 else if wait \<ge> 60 then wait - 60 else wait)
         else reclaim_scan low (x + 1) hs avail wait)"

abbreviation (input) MAX_MAINTCRAWL_WAIT :: u32 where "MAX_MAINTCRAWL_WAIT \<equiv> 3600"

definition crawl_wait :: "crawlerstats \<Rightarrow> u32 \<Rightarrow> u32" where
  "crawl_wait s wait =
     (let possible = seen s - noexp s; low = possible div 100 + 1;
          (avail, wait) = reclaim_scan low 0 (take 60 (histo s)) 0 wait;
          wait = (if avail = 0 then wait + 60 else wait)
      in if wait > MAX_MAINTCRAWL_WAIT then MAX_MAINTCRAWL_WAIT else wait)"

record crawl_plan =
  next_crawls :: "u8 \<Rightarrow> u32"
  next_crawl_wait :: "u8 \<Rightarrow> u32"
  plan_stats :: "u8 \<Rightarrow> crawlerstats"
  todo :: "u8 \<Rightarrow> bool"
  do_run :: bool
  tocrawl_limit :: u32

definition crawler_check_class :: "globals \<Rightarrow> cache \<Rightarrow> u8 \<Rightarrow> crawl_plan \<Rightarrow> crawl_plan" where
  "crawler_check_class g c i p =
     (let s = plan_stats p i;
          p = (if run_complete s
               then let wt = crawl_wait s (next_crawl_wait p i)
                    in p\<lparr>next_crawl_wait := (next_crawl_wait p)(i := wt), next_crawls := (next_crawls p)(i := current_time g + wt + 5),
                         plan_stats := (plan_stats p)(i := s\<lparr>run_complete := False\<rparr>)\<rparr>
               else p)
      in if current_time g > next_crawls p i
         then p\<lparr>tocrawl_limit := (if lru_sizes c i > tocrawl_limit p then lru_sizes c i else tocrawl_limit p), todo := (todo p)(i := True), do_run := True,
                next_crawls := (next_crawls p)(i := current_time g + 5)\<rparr>
         else p)"

definition crawler_plan :: "globals \<Rightarrow> cache \<Rightarrow> (u8 \<Rightarrow> u32) \<Rightarrow> (u8 \<Rightarrow> u32) \<Rightarrow> (u8 \<Rightarrow> crawlerstats) \<Rightarrow> crawl_plan" where
  "crawler_plan g c nc ncw st = fold (crawler_check_class g c) (map of_nat [1..<256])
     \<lparr>next_crawls = nc, next_crawl_wait = ncw, plan_stats = st, todo = (\<lambda>_. False), do_run = False, tocrawl_limit = 0\<rparr>"

text \<open>\<open>cap\<close> is \<open>settings.lru_crawler_tocrawl\<close>.\<close>

definition lru_maintainer_crawler_check ::
    "globals \<Rightarrow> u32 \<Rightarrow> (u8 \<Rightarrow> nat) \<Rightarrow> (u8 \<Rightarrow> u32) \<Rightarrow> (u8 \<Rightarrow> u32) \<Rightarrow> crawl \<times> cache \<Rightarrow> ((u8 \<Rightarrow> u32) \<times> (u8 \<Rightarrow> u32) \<times> crawl \<times> cache) option" where
  "lru_maintainer_crawler_check g cap cr nc ncw = (\<lambda>(w, c).
     let p = crawler_plan g c nc ncw (crawlerstats (mdata w));
         w = w\<lparr>mdata := (mdata w)\<lparr>crawlerstats := plan_stats p\<rparr>\<rparr>;
         lim = (if cap \<noteq> 0 \<and> cap < tocrawl_limit p then cap else tocrawl_limit p)
     in if \<not> do_run p then Some (next_crawls p, next_crawl_wait p, w, c)
        else do { (k, wc) \<leftarrow> lru_crawler_start g cr (todo p) lim CRAWLER_AUTOEXPIRE True True False False (w, c);
                  Some (next_crawls p, next_crawl_wait p, wc) })"

end
