(* ===== verification/Crawler_Proof.thy ===== *)
theory Crawler_Proof
  imports Crawler
begin

text \<open>
  A crawl of one LRU list: the crawler passes every item exactly once, from the tail to the head, and
  leaves the list as it found it.
\<close>

section \<open>One move\<close>

text \<open>The crawler \<open>it\<close> stands in LRU \<open>i\<close> between the items \<open>xs\<close> (towards the head) and \<open>ys\<close>.\<close>

definition crawling :: "u8 \<Rightarrow> nat \<Rightarrow> nat list \<Rightarrow> nat list \<Rightarrow> cache \<Rightarrow> bool" where
  "crawling i it xs ys c \<longleftrightarrow> dll (hp c) (heads c i) (xs @ it # ys) \<and> tails c i = last_ptr (xs @ it # ys) None
     \<and> it_flags (hp c it) = 1 \<and> nbytes (hp c it) = 0 \<and> slabs_clsid (hp c it) = i"

text \<open>Nothing but links of the list, its head and its tail change.\<close>

definition list_frame :: "u8 \<Rightarrow> nat set \<Rightarrow> cache \<Rightarrow> cache \<Rightarrow> bool" where
  "list_frame i X c c' \<longleftrightarrow> (\<exists>h p q. c' = c\<lparr>hp := h, heads := (heads c)(i := p), tails := (tails c)(i := q)\<rparr>) \<and> same_nodes (hp c) (hp c') \<and> (\<forall>y. y \<notin> X \<longrightarrow> hp c' y = hp c y)"

lemma list_frame_refl: "list_frame i X c c"
proof -
  have "c = c\<lparr>hp := hp c, heads := (heads c)(i := heads c i), tails := (tails c)(i := tails c i)\<rparr>" by simp
  then show ?thesis unfolding list_frame_def by (intro conjI) (blast, simp, simp)
qed

lemma list_frame_trans:
  assumes "list_frame i X c c1" "list_frame i X c1 c2"
  shows "list_frame i X c c2"
proof -
  obtain h p q h' p' q' where "c1 = c\<lparr>hp := h, heads := (heads c)(i := p), tails := (tails c)(i := q)\<rparr>" "c2 = c1\<lparr>hp := h', heads := (heads c1)(i := p'), tails := (tails c1)(i := q')\<rparr>"
    using assms unfolding list_frame_def by blast
  then have "c2 = c\<lparr>hp := h', heads := (heads c)(i := p'), tails := (tails c)(i := q')\<rparr>" by (cases c) simp
  moreover have "same_nodes (hp c) (hp c2)" by (rule same_nodes_trans [of _ "hp c1"]) (use assms in \<open>simp_all add: list_frame_def\<close>)
  moreover have "hp c2 y = hp c y" if "y \<notin> X" for y using assms that by (simp add: list_frame_def)
  ultimately show ?thesis unfolding list_frame_def by blast
qed

text \<open>The pointer writes of a move past \<open>p\<close>, with \<open>n\<close> behind the crawler and \<open>q\<close> before \<open>p\<close>.\<close>

definition swing :: "nat \<Rightarrow> nat \<Rightarrow> ptr \<Rightarrow> ptr \<Rightarrow> heap \<Rightarrow> heap" where
  "swing it p n q h = set_nxt q (Some it) ((set_prv n (Some p) h)(p := (h p)\<lparr>nxt := n, prv := Some it\<rparr>, it := (h it)\<lparr>nxt := Some p, prv := q\<rparr>))"

lemma same_nodes_swing: "same_nodes h (swing it p n q h)"
proof -
  have "same_nodes h ((set_prv n (Some p) h)(p := (h p)\<lparr>nxt := n, prv := Some it\<rparr>, it := (h it)\<lparr>nxt := Some p, prv := q\<rparr>))"
    using same_nodes_set(1) [of h n "Some p"] by (auto simp: same_nodes_def)
  then show ?thesis unfolding swing_def by (rule same_nodes_trans [OF _ same_nodes_set(2)])
qed

lemma swing_dll:
  assumes d: "dll h hd0 (xs @ p # it # ys)"
  defines "h' \<equiv> swing it p (first_ptr ys None) (last_ptr xs None) h"
  shows "dll h' (first_ptr (xs @ it # p # ys) None) (xs @ it # p # ys)" "y \<notin> set (xs @ p # it # ys) \<Longrightarrow> h' y = h y"
proof -
  let ?n = "first_ptr ys None" and ?q = "last_ptr xs None"
  let ?h1 = "(set_prv ?n (Some p) h)(p := (h p)\<lparr>nxt := ?n, prv := Some it\<rparr>, it := (h it)\<lparr>nxt := Some p, prv := ?q\<rparr>)"
  have di: "distinct (xs @ p # it # ys)" and l: "dls h None xs (Some p)" "dls h (Some it) ys None" using d by (auto simp: dll_def)
  have nn: "?n \<noteq> Some z" if "z \<notin> set ys" for z using that first_ptr_in by blast
  have qn: "?q \<noteq> Some z" if "z \<notin> set xs" for z using that last_ptr_in by blast
  have hq: "h' z = ?h1 z" if "z \<notin> set xs" for z unfolding h'_def swing_def by (rule set_nxt_other [OF qn [OF that]])
  have "dls ?h1 None xs (Some p)" 
  proof (rule dls_cong [OF l(1)])
    fix z assume "z \<in> set xs"
    then have "z \<noteq> p" "z \<noteq> it" "?n \<noteq> Some z" using di nn [of z] by auto
    then show "nxt (?h1 z) = nxt (h z) \<and> prv (?h1 z) = prv (h z)" by (simp add: set_prv_other)
  qed
  then have a: "dls h' None xs (Some it)" unfolding h'_def swing_def using di by (intro dls_set_nxt_last) auto
  have "dls (set_prv ?n (Some p) h) (Some p) ys None" using l(2) di by (intro dls_set_prv_first) auto
  then have b: "dls h' (Some p) ys None"
  proof (rule dls_cong)
    fix z assume "z \<in> set ys"
    then have "z \<noteq> p" "z \<noteq> it" "z \<notin> set xs" using di by auto
    then have "h' z = set_prv ?n (Some p) h z" using hq [of z] by simp
    then show "nxt (h' z) = nxt (set_prv ?n (Some p) h z) \<and> prv (h' z) = prv (set_prv ?n (Some p) h z)" by simp
  qed
  have "h' it = ?h1 it" "h' p = ?h1 p" using hq di by auto
  then have c: "prv (h' it) = ?q" "nxt (h' it) = Some p" "prv (h' p) = Some it" "nxt (h' p) = ?n" using di by auto
  show "dll h' (first_ptr (xs @ it # p # ys) None) (xs @ it # p # ys)" using a b c di by (auto simp: dll_def)
  show "h' y = h y" if "y \<notin> set (xs @ p # it # ys)" using that hq [of y] by (simp add: set_prv_other nn)
qed

lemma swing_code:
  assumes "p \<noteq> it" "n \<noteq> Some it" "n \<noteq> Some p" "prv (h p) = q"
  shows "(let h1 = set_prv n (Some p) (h(p := (h p)\<lparr>nxt := n\<rparr>)); h2 = h1(it := (h1 it)\<lparr>nxt := Some p\<rparr>);
              h3 = h2(it := (h2 it)\<lparr>prv := prv (h2 p)\<rparr>); h4 = h3(p := (h3 p)\<lparr>prv := Some it\<rparr>)
          in set_nxt (prv (h4 it)) (Some it) h4) = swing it p n q h"
proof (cases n)
  case None
  then show ?thesis using assms unfolding swing_def Let_def by (simp add: fun_upd_twist)
next
  case (Some y)
  then show ?thesis using assms unfolding swing_def Let_def by (simp add: fun_upd_twist)
qed

lemma crawl_links:
  assumes "dll h hd0 (xs @ p # it # ys)"
  shows "prv (h it) = Some p" "nxt (h it) = first_ptr ys None" "nxt (h p) = Some it" "prv (h p) = last_ptr xs None"
  using assms by (auto simp: dll_def)

lemma crawl_step:
  assumes "crawling i it (xs @ [p]) ys c"
  shows "\<exists>c'. do_item_crawl_q it c = Some (Some p, c') \<and> crawling i it xs (p # ys) c' \<and> list_frame i (set (xs @ p # it # ys)) c c'"
proof -
  have d: "dll (hp c) (heads c i) (xs @ p # it # ys)" and t: "tails c i = last_ptr (xs @ p # it # ys) None"
    and f: "it_flags (hp c it) = 1" "nbytes (hp c it) = 0" "slabs_clsid (hp c it) = i" using assms by (auto simp: crawling_def)
  note k = crawl_links [OF d]
  have di: "distinct (xs @ p # it # ys)" and hd: "heads c i = first_ptr (xs @ p # it # ys) None" using d by (auto simp: dll_def)
  let ?n = "first_ptr ys None" and ?q = "last_ptr xs None"
  have ne: "?n \<noteq> Some it" "?n \<noteq> Some p" "?q \<noteq> Some it" "?q \<noteq> Some p" "p \<noteq> it" using di first_ptr_in last_ptr_in by fastforce+
  let ?h = "swing it p ?n ?q (hp c)"
  let ?c = "c\<lparr>hp := ?h, heads := (if heads c i = Some p then (heads c)(i := Some it) else heads c), tails := (if tails c i = Some it then (tails c)(i := Some p) else tails c)\<rparr>"
  have sw: "prv (?h it) = ?q" "nxt (?h it) = Some p" using ne by (simp_all add: swing_def set_nxt_other)
  have e: "do_item_crawl_q it c = Some (Some p, ?c)"
    unfolding do_item_crawl_q_def k(1) Let_def option.case f(3) k(2) swing_code [where h = "hp c", OF ne(5,1,2) k(4), unfolded Let_def] sw using ne k(3) f by simp
  have "heads ?c i = first_ptr (xs @ it # p # ys) None" using hd di by (cases xs) auto
  moreover have "tails ?c i = last_ptr (xs @ it # p # ys) None"
  proof (cases ys rule: rev_cases)
    case (snoc zs z)
    then show ?thesis using t di by auto
  qed (use t in simp)
  ultimately have "crawling i it xs (p # ys) ?c" using swing_dll(1) [OF d] f same_nodesD [OF same_nodes_swing] unfolding crawling_def by simp
  moreover have "?c = c\<lparr>hp := ?h, heads := (heads c)(i := (if heads c i = Some p then Some it else heads c i)), tails := (tails c)(i := (if tails c i = Some it then Some p else tails c i))\<rparr>"
    by simp
  then have "list_frame i (set (xs @ p # it # ys)) c ?c" unfolding list_frame_def using same_nodes_swing swing_dll(2) [OF d] by (intro conjI) (blast, simp, simp)
  ultimately show ?thesis using e by blast
qed

text \<open>At the head the crawler pops off; \<open>do_item_unlinktail_q\<close> then restores the list.\<close>

lemma crawl_end:
  assumes "crawling i it [] ys c"
  shows "\<exists>c1 c2. do_item_crawl_q it c = Some (None, c1) \<and> do_item_unlinktail_q it (upd_it it (\<lambda>i. i\<lparr>it_flags := 0\<rparr>) c1) = Some c2
    \<and> dll (hp c2) (heads c2 i) ys \<and> tails c2 i = last_ptr ys None
    \<and> list_frame i (set (it # ys)) c c1 \<and> list_frame i (set (it # ys)) (upd_it it (\<lambda>i. i\<lparr>it_flags := 0\<rparr>) c1) c2"
proof (cases ys)
  case Nil
  have l: "heads c i = Some it" "tails c i = Some it" "prv (hp c it) = None" "nxt (hp c it) = None" and f: "it_flags (hp c it) = 1" "nbytes (hp c it) = 0" "slabs_clsid (hp c it) = i"
    using assms Nil by (auto simp: crawling_def dll_def)
  let ?c = "upd_it it (\<lambda>i. i\<lparr>it_flags := 0\<rparr>) c"
  let ?c2 = "?c\<lparr>hp := hp ?c, heads := (heads ?c)(i := None), tails := (tails ?c)(i := None)\<rparr>"
  have a: "do_item_crawl_q it c = Some (None, c)" using l f by (simp add: do_item_crawl_q_def Let_def)
  have b: "do_item_unlinktail_q it ?c = Some ?c2" using l f by (simp add: do_item_unlinktail_q_def Let_def cut_out_def upd_it_def)
  have "list_frame i X ?c ?c2" for X unfolding list_frame_def by (intro conjI exI [of _ "hp ?c"] exI [of _ None]) auto
  then show ?thesis using a b list_frame_refl Nil by (intro exI [of _ c] exI [of _ ?c2]) (simp add: upd_it_def)
next
  case (Cons y zs)
  have d: "dll (hp c) (heads c i) (it # y # zs)" and t: "tails c i = last_ptr (y # zs) None" and f: "it_flags (hp c it) = 1" "nbytes (hp c it) = 0" "slabs_clsid (hp c it) = i"
    using assms Cons by (auto simp: crawling_def last_ptr_def)
  have l: "heads c i = Some it" "prv (hp c it) = None" "nxt (hp c it) = Some y" "prv (hp c y) = Some it" "y \<noteq> it" "it \<notin> set zs" "distinct (y # zs)" using d by (auto simp: dll_def)
  let ?h = "(hp c)(y := (hp c y)\<lparr>prv := None\<rparr>)"
  let ?c1 = "c\<lparr>heads := (heads c)(i := Some y), hp := ?h\<rparr>"
  let ?c = "upd_it it (\<lambda>i. i\<lparr>it_flags := 0\<rparr>) ?c1"
  have a: "do_item_crawl_q it c = Some (None, ?c1)" using l f by (simp add: do_item_crawl_q_def Let_def)
  have tn: "tails c i \<noteq> Some it" using t l by (auto simp: last_ptr_def)
  have b: "do_item_unlinktail_q it ?c = Some ?c" using l f tn by (simp add: do_item_unlinktail_q_def Let_def cut_out_def upd_it_def fun_upd_twist)
  have "dls (hp c) (Some it) (y # zs) None" using d by (simp add: dll_def)
  then have "dls (set_prv (first_ptr (y # zs) None) None (hp c)) None (y # zs) None" using l(7) by (rule dls_set_prv_first)
  then have "dls (hp ?c) None (y # zs) None" by (rule dls_cong) (use l in \<open>auto simp: upd_it_def\<close>)
  then have "dll (hp ?c) (heads ?c i) ys" "tails ?c i = last_ptr ys None" using l Cons t by (simp_all add: dll_def upd_it_def)
  moreover have "?c1 = c\<lparr>hp := ?h, heads := (heads c)(i := Some y), tails := (tails c)(i := tails c i)\<rparr>" by simp
  then have "list_frame i (set (it # ys)) c ?c1" unfolding list_frame_def using Cons by (intro conjI) (blast, simp add: same_nodes_def, auto)
  ultimately show ?thesis using a b list_frame_refl by blast
qed

section \<open>A whole crawl\<close>

text \<open>
  The thread's loop on one LRU as far as the list is concerned: the items that come by, until
  \<open>do_item_crawl_q\<close> returns \<open>NULL\<close> and \<open>lru_crawler_class_done\<close> takes the crawler out.
\<close>

partial_function (option) crawl_lru :: "nat \<Rightarrow> cache \<Rightarrow> (nat list \<times> cache) option" where
  "crawl_lru it c =
     (case do_item_crawl_q it c of
        None \<Rightarrow> None
      | Some (None, c) \<Rightarrow> map_option (Pair []) (do_item_unlinktail_q it (upd_it it (\<lambda>i. i\<lparr>it_flags := 0\<rparr>) c))
      | Some (Some x, c) \<Rightarrow> do { (xs, c) \<leftarrow> crawl_lru it c; Some (x # xs, c) })"

declare crawl_lru.simps [code]

definition only_links :: "nat \<Rightarrow> nat set \<Rightarrow> cache \<Rightarrow> cache \<Rightarrow> bool" where
  "only_links it X c c' \<longleftrightarrow> (\<forall>y. y \<noteq> it \<longrightarrow> (hp c' y)\<lparr>nxt := None, prv := None\<rparr> = (hp c y)\<lparr>nxt := None, prv := None\<rparr> \<and> (y \<notin> X \<longrightarrow> hp c' y = hp c y))"

lemma only_links_frame: "list_frame i (set (it # xs)) c c' \<Longrightarrow> set xs \<subseteq> X \<Longrightarrow> only_links it X c c'"
  by (auto simp: only_links_def list_frame_def same_nodes_def)

lemma only_links_trans: "only_links it X c c1 \<Longrightarrow> only_links it X c1 c2 \<Longrightarrow> only_links it X c c2"
  by (simp add: only_links_def)

lemma crawl_rest:
  assumes "crawling i it xs ys c"
  shows "\<exists>c'. crawl_lru it c = Some (rev xs, c') \<and> dll (hp c') (heads c' i) (xs @ ys) \<and> tails c' i = last_ptr (xs @ ys) None \<and> only_links it (set (xs @ ys)) c c'"
  using assms
proof (induction xs arbitrary: ys c rule: rev_induct)
  case Nil
  obtain c1 c2 where e: "do_item_crawl_q it c = Some (None, c1)" "do_item_unlinktail_q it (upd_it it (\<lambda>i. i\<lparr>it_flags := 0\<rparr>) c1) = Some c2"
    "dll (hp c2) (heads c2 i) ys" "tails c2 i = last_ptr ys None" "list_frame i (set (it # ys)) c c1" "list_frame i (set (it # ys)) (upd_it it (\<lambda>i. i\<lparr>it_flags := 0\<rparr>) c1) c2"
    using crawl_end [OF Nil] by blast
  have "only_links it (set ys) c1 (upd_it it (\<lambda>i. i\<lparr>it_flags := 0\<rparr>) c1)" by (simp add: only_links_def upd_it_def)
  then have "only_links it (set ys) c c2"
    by (rule only_links_trans [OF only_links_frame [OF e(5) subset_refl] only_links_trans [OF _ only_links_frame [OF e(6) subset_refl]]])
  moreover have "crawl_lru it c = Some ([], c2)" by (subst crawl_lru.simps) (simp add: e)
  ultimately show ?case using e by simp
next
  case (snoc p xs)
  obtain c1 where a: "do_item_crawl_q it c = Some (Some p, c1)" "crawling i it xs (p # ys) c1" "list_frame i (set (xs @ p # it # ys)) c c1"
    using crawl_step [OF snoc.prems] by blast
  obtain c' where b: "crawl_lru it c1 = Some (rev xs, c')" "dll (hp c') (heads c' i) (xs @ p # ys)" "tails c' i = last_ptr (xs @ p # ys) None" "only_links it (set (xs @ p # ys)) c1 c'"
    using snoc.IH [OF a(2)] by blast
  have "set (xs @ p # it # ys) = set (it # xs @ p # ys)" by auto
  then have "only_links it (set (xs @ p # ys)) c c1" using a(3) only_links_frame [of i it "xs @ p # ys" c c1 "set (xs @ p # ys)"] by simp
  then have "only_links it (set (xs @ p # ys)) c c'" using b(4) only_links_trans by blast
  moreover have "crawl_lru it c = Some (p # rev xs, c')" by (subst crawl_lru.simps) (simp add: a(1) b(1))
  ultimately show ?case using b by simp
qed

lemma linktail_crawling:
  assumes d: "dll (hp c) (heads c i) xs" "tails c i = last_ptr xs None" and it: "it \<notin> set xs" "it_flags (hp c it) = 1" "nbytes (hp c it) = 0" "slabs_clsid (hp c it) = i"
  shows "\<exists>c'. do_item_linktail_q it c = Some c' \<and> crawling i it xs [] c' \<and> list_frame i (set (it # xs)) c c'"
proof -
  have hd: "heads c i = first_ptr xs None" and l: "dls (hp c) None xs None" "distinct xs" using d(1) by (auto simp: dll_def)
  let ?t = "last_ptr xs None" let ?h = "(hp c)(it := (hp c it)\<lparr>prv := ?t, nxt := None\<rparr>)"
  let ?c = "c\<lparr>hp := set_nxt ?t (Some it) ?h, heads := (heads c)(i := (if heads c i = None then Some it else heads c i)), tails := (tails c)(i := Some it)\<rparr>"
  have tn: "?t \<noteq> Some it" using it(1) last_ptr_in by blast
  have lh: "dls ?h None xs None" using l(1) by (rule dls_cong) (use it(1) in auto)
  have ln: "nxt (?h z) = None" if z: "?t = Some z" for z using lh z by (cases xs rule: rev_cases) auto
  have e: "do_item_linktail_q it c = Some ?c"
    unfolding do_item_linktail_q_def it(4) Let_def using it tn hd d(2) ln by (auto split: option.splits)
  have h: "set_nxt ?t (Some it) ?h it = ?h it" by (rule set_nxt_other [OF tn])
  have "dls (set_nxt ?t (Some it) ?h) None xs (Some it)" by (rule dls_set_nxt_last [OF lh l(2)])
  then have "dll (hp ?c) (heads ?c i) (xs @ [it])" using it(1) l(2) h hd by (cases xs) (auto simp: dll_def)
  moreover have "same_nodes (hp c) (set_nxt ?t (Some it) ?h)" by (rule same_nodes_trans [OF same_nodes_upd same_nodes_set(2)])
  then have sn: "same_nodes (hp c) (hp ?c)" by simp
  ultimately have "crawling i it xs [] ?c" using it same_nodesD [OF sn] by (simp add: crawling_def)
  moreover have "list_frame i (set (it # xs)) c ?c" unfolding list_frame_def
  proof (intro conjI)
    show "\<forall>y. y \<notin> set (it # xs) \<longrightarrow> hp ?c y = hp c y"
    proof (intro allI impI)
      fix y assume "y \<notin> set (it # xs)"
      then have "?t \<noteq> Some y" "y \<noteq> it" using last_ptr_in by auto
      then show "hp ?c y = hp c y" by (simp add: set_nxt_other)
    qed
  qed (use sn in blast)+
  ultimately show ?thesis using e by blast
qed

section \<open>Properties of the crawler\<close>


text \<open>Two items in LRU 1 and an idle crawler.\<close>

definition crawl_item :: "ptr \<Rightarrow> ptr \<Rightarrow> item" where
  "crawl_item n p = \<lparr>nxt = n, prv = p, h_next = None, time = 5, exptime = 0, nbytes = 2, refcount = 1, it_flags = 1, slabs_clsid = 1, nkey = 1, ikey = [7],
     cas = 0, cflags = 0, idata = [], sch_next = None, sch_orig_clsid = 0\<rparr>"


lemma crawl_wait_le: "crawl_wait s wt \<le> 3600"
  by (simp add: crawl_wait_def Let_def not_less split: prod.splits)

text \<open>Between 5 and 3605 seconds.\<close>

definition ahead :: "u32 \<Rightarrow> bool" where
  "ahead t \<longleftrightarrow> 5 \<le> t \<and> t \<le> 3605"

lemma wait_after: "wt \<le> 3600 \<Longrightarrow> ahead (now + wt + 5 - now)"
  by (simp add: ahead_def word_le_nat_alt unat_word_ariths)

lemma check_todo_mono: "todo p i \<and> do_run p \<Longrightarrow> todo (crawler_check_class g c k p) i \<and> do_run (crawler_check_class g c k p)"
  by (auto simp: crawler_check_class_def Let_def)

lemma fold_todo_mono: "todo p i \<and> do_run p \<Longrightarrow> todo (fold (crawler_check_class g c) ks p) i \<and> do_run (fold (crawler_check_class g c) ks p)"
proof (induction ks arbitrary: p)
  case (Cons k ks)
  show ?case using Cons.IH [OF check_todo_mono [OF Cons.prems]] by simp
qed simp

lemma check_due:
  "i \<in> set ks \<Longrightarrow> \<not> run_complete (plan_stats p i) \<Longrightarrow> current_time g > next_crawls p i
   \<Longrightarrow> todo (fold (crawler_check_class g c) ks p) i \<and> do_run (fold (crawler_check_class g c) ks p)"
proof (induction ks arbitrary: p)
  case (Cons k ks)
  show ?case
  proof (cases "k = i")
    case True
    then have "todo (crawler_check_class g c k p) i \<and> do_run (crawler_check_class g c k p)" using Cons.prems by (simp add: crawler_check_class_def Let_def)
    from fold_todo_mono [OF this] show ?thesis by simp
  next
    case False
    then have "plan_stats (crawler_check_class g c k p) i = plan_stats p i" "next_crawls (crawler_check_class g c k p) i = next_crawls p i"
      by (simp_all add: crawler_check_class_def Let_def)
    then show ?thesis using Cons False by simp
  qed
qed simp

text \<open>
  The crawler's schedule. However the crawls went, the waits the LRU maintainer computes stay at
  most an hour, and a new date for the next crawl of an LRU lies between 5 and 3605 seconds ahead. An
  LRU whose date has passed and for which no finished crawl has set a new one is crawled now.
\<close>

theorem crawler_plan_bounds:
  assumes "\<And>i. ncw i \<le> 3600"
  shows "(\<forall>i. next_crawl_wait (crawler_plan g c nc ncw st) i \<le> 3600)
    \<and> (\<forall>i. next_crawls (crawler_plan g c nc ncw st) i = nc i
          \<or> ahead (next_crawls (crawler_plan g c nc ncw st) i - current_time g))
    \<and> (\<forall>i. i \<noteq> 0 \<and> \<not> run_complete (st i) \<and> current_time g > nc i \<longrightarrow> todo (crawler_plan g c nc ncw st) i \<and> do_run (crawler_plan g c nc ncw st))"
proof -
  define J :: "crawl_plan \<Rightarrow> bool" where "J p \<longleftrightarrow> (\<forall>i. next_crawl_wait p i \<le> 3600) \<and> (\<forall>i. next_crawls p i = nc i \<or> ahead (next_crawls p i - current_time g))" for p
  have J: "J (crawler_check_class g c i p)" if "J p" for i p
    using that crawl_wait_le wait_after [of 0 "current_time g"] wait_after [OF crawl_wait_le, of "current_time g"]
    unfolding J_def crawler_check_class_def by (simp add: Let_def)
  have "J (fold (crawler_check_class g c) is p)" if "J p" for "is" p using that by (induction "is" arbitrary: p) (simp_all add: J)
  then have "J (crawler_plan g c nc ncw st)" unfolding crawler_plan_def by (simp add: J_def assms)
  moreover have "todo (crawler_plan g c nc ncw st) i \<and> do_run (crawler_plan g c nc ncw st)" if i: "i \<noteq> 0" "\<not> run_complete (st i)" "current_time g > nc i" for i
  proof -
    have "0 < unat i" "unat i < 256" using i(1) unsigned_less [of i] by (simp_all add: unat_gt_0)
    then have "of_nat (unat i) \<in> (of_nat :: nat \<Rightarrow> u8) ` set [1..<256]" by (intro imageI) simp
    moreover have "(of_nat (unat i) :: u8) = i" by (simp add: word_unat_eq_iff unat_of_nat)
    ultimately have "i \<in> set (map of_nat [1..<256])" by simp
    then show ?thesis using check_due [of i "map of_nat [1..<256]"] i unfolding crawler_plan_def by simp
  qed
  ultimately show ?thesis unfolding J_def by blast
qed

theorem crawler_plan_bounds_witness:
  "\<exists>(g :: globals) (c :: cache). current_time g = 100 \<and> todo (crawler_plan g c (\<lambda>_. 0) (\<lambda>_. 3600) (\<lambda>_. zero_stats 0)) 7
     \<and> next_crawl_wait (crawler_plan g c (\<lambda>_. 0) (\<lambda>_. 3600) (\<lambda>_. zero_stats 0)) 7 \<le> 3600"
proof -
  let ?g = "(undefined :: globals)\<lparr>current_time := 100\<rparr>"
  have "\<not> run_complete (zero_stats 0)" "(7 :: u8) \<noteq> 0" "current_time ?g > 0" "current_time ?g = 100" by (simp_all add: zero_stats_def)
  then show ?thesis using crawler_plan_bounds [of "\<lambda>_. 3600" ?g undefined "\<lambda>_. 0" "\<lambda>_. zero_stats 0"] by (intro exI [of _ ?g] exI [of _ undefined]) blast
qed

end
