(* ===== verification/Numbers.thy ===== *)
theory Numbers
  imports Prelude "HOL-Library.Monad_Syntax"
begin

text \<open>
  Numbers in the text protocol: printing (\<open>src/mem/itoa_ljust.c\<close>) and parsing (the \<open>safe_strto*\<close> functions
  of \<open>src/mem/util.c\<close>), with the byte swap of the binary protocol. Printing writes into a buffer at an
  offset; \<open>None\<close> is a write outside the buffer or undefined behaviour. Parsing reads a list of bytes, the
  memory from the pointer on; \<open>None\<close> is a read past its end. The functions \<open>strtoull\<close> and \<open>strtoll\<close> of the C
  library are modelled in the C locale and base 10; on LP64 \<open>strtoul\<close> and \<open>strtol\<close> are the same functions.
  The theory shows that printing gives the shortest decimal numeral, that parsing inverts it, and where
  the parsers accept what their 32-bit result cannot hold.
\<close>

section \<open>Printing\<close>

text \<open>The output: a buffer and the offset of \<open>p\<close> in it.\<close>

type_synonym out = "byte list \<times> nat"

definition lut :: "byte list" where
  "lut = map of_char
     (''0001020304050607080910111213141516171819'' @
      ''2021222324252627282930313233343536373839'' @
      ''4041424344454647484950515253545556575859'' @
      ''6061626364656667686970717273747576777879'' @
      ''8081828384858687888990919293949596979899'') @ [0]"

definition out2 :: "int \<Rightarrow> out \<Rightarrow> out option" where
  "out2 d o2 =
     (case o2 of (buf, p) \<Rightarrow>
        if 0 \<le> d \<and> 2 * nat d + 2 \<le> length lut
        then map_option (\<lambda>buf. (buf, p + 2)) (memcpy_at buf p (seg (2 * nat d) (2 * nat d + 2) lut)) else None)"

definition out1 :: "byte \<Rightarrow> out \<Rightarrow> out option" where
  "out1 c o1 = (case o1 of (buf, p) \<Rightarrow> map_option (\<lambda>buf. (buf, p + 1)) (memcpy_at buf p [c]))"

definition digits :: "u32 \<Rightarrow> u32 \<Rightarrow> int \<Rightarrow> out \<Rightarrow> nat \<Rightarrow> (int \<times> out \<times> nat) option" where
  "digits u k d p n =
     (if u < k * 10 then let d = c_int (u div k) in do { p \<leftarrow> out1 (48 + word_of_int d) p; Some (d, p, n - 1) }
      else Some (d, p, n))"

text \<open>
  \<open>u -= d * k\<close>: the product is a signed \<open>int\<close>. Its overflow is undefined; \<open>wrapv\<close> says that the compiler
  lets it wrap.
\<close>

definition sub_mul :: "bool \<Rightarrow> u32 \<Rightarrow> int \<Rightarrow> int \<Rightarrow> u32 option" where
  "sub_mul wrapv u d k = (if wrapv \<or> - (2 ^ 31) \<le> d * k \<and> d * k < 2 ^ 31 then Some (u - word_of_int (d * k)) else None)"

text \<open>The cases \<open>m\<close> and \<open>m - 1\<close> of the \<open>switch\<close> on \<open>n\<close>, entered by falling through or at \<open>n\<close>.\<close>

definition itoa_case :: "bool \<Rightarrow> nat \<Rightarrow> nat \<Rightarrow> int \<Rightarrow> u32 \<times> int \<times> out \<Rightarrow> (u32 \<times> int \<times> out) option" where
  "itoa_case wrapv n m k st =
     (case st of (u, d, p) \<Rightarrow>
        do { (d, p) \<leftarrow> (if m \<le> n then let d = c_int (u div word_of_int k) in map_option (Pair d) (out2 d p) else Some (d, p));
             u \<leftarrow> (if m - 1 \<le> n then sub_mul wrapv u d k else Some u);
             Some (u, d, p) })"

fun itoa_switch :: "bool \<Rightarrow> nat \<Rightarrow> (nat \<times> int) list \<Rightarrow> u32 \<times> int \<times> out \<Rightarrow> out option" where
  "itoa_switch wrapv n [] (u, d, p) = (if 2 \<le> n then out2 (c_int (u div 1)) p else Some p)"
| "itoa_switch wrapv n ((m, k) # ms) st = do { st \<leftarrow> itoa_case wrapv n m k st; itoa_switch wrapv n ms st }"

definition itoa :: "bool \<Rightarrow> u32 \<Rightarrow> out \<Rightarrow> int \<Rightarrow> nat \<Rightarrow> out option" where
  "itoa wrapv u p d n =
     do { (buf, p) \<leftarrow> (if n \<le> 10 then itoa_switch wrapv n [(10, 100000000), (8, 1000000), (6, 10000), (4, 100)] (u, d, p) else Some p);
          buf \<leftarrow> memcpy_at buf p [0];
          Some (buf, p) }"

definition itoa_u32 :: "bool \<Rightarrow> u32 \<Rightarrow> out \<Rightarrow> out option" where
  "itoa_u32 wrapv u p =
     do { (d, p, n) \<leftarrow>
            (if u \<ge> 100000000 then digits u 100000000 0 p 10
             else if u < 100 then digits u 1 0 p 2
             else if u < 10000 then digits u 100 0 p 4
             else if u < 1000000 then digits u 10000 0 p 6
             else digits u 1000000 0 p 8);
          itoa wrapv u p d n }"

text \<open>The argument \<open>i\<close> is the signed value.\<close>

definition itoa_32 :: "bool \<Rightarrow> int \<Rightarrow> out \<Rightarrow> out option" where
  "itoa_32 wrapv i p =
     (let u = word_of_int i :: u32
      in if i < 0 then do { p \<leftarrow> out1 45 p; itoa_u32 wrapv (- u) p } else itoa_u32 wrapv u p)"

function itoa_u64 :: "bool \<Rightarrow> u64 \<Rightarrow> out \<Rightarrow> out option" where
  "itoa_u64 wrapv u p =
     (let lower = ucast u :: u32
      in if ucast lower = u then itoa_u32 wrapv lower p
         else let upper = u div 1000000000
              in do { p \<leftarrow> itoa_u64 wrapv upper p;
                      (let lower = ucast (u - upper * 1000000000) :: u32; d = c_int (lower div 100000000)
                       in do { p \<leftarrow> out1 (48 + word_of_int d) p; itoa wrapv lower p d 9 }) })"
  by pat_completeness auto
termination
proof (relation "measure (\<lambda>(w, u, p). unat u)")
  fix wrapv :: bool and u :: u64 and p :: out and lower :: u32 and upper :: u64
  assume "lower = ucast u" "ucast lower \<noteq> u" "upper = u div 1000000000"
  then have "u \<noteq> 0" by auto
  then have "0 < unat u" by (simp add: unat_gt_0)
  then show "((wrapv, upper, p), wrapv, u, p) \<in> measure (\<lambda>(w, u, p). unat u)"
    using \<open>upper = _\<close> by (simp add: unat_div)
qed simp

declare itoa_u64.simps [simp del]

definition itoa_64 :: "bool \<Rightarrow> int \<Rightarrow> out \<Rightarrow> out option" where
  "itoa_64 wrapv i p =
     (let u = word_of_int i :: u64
      in if i < 0 then do { p \<leftarrow> out1 45 p; itoa_u64 wrapv (- u) p } else itoa_u64 wrapv u p)"

section \<open>Parsing\<close>

text \<open>\<open>isspace\<close> and \<open>isdigit\<close> of the C locale.\<close>

definition isspace :: "byte \<Rightarrow> bool" where
  "isspace c \<longleftrightarrow> c = 32 \<or> 9 \<le> c \<and> c \<le> 13"

definition isdigit :: "byte \<Rightarrow> bool" where
  "isdigit c \<longleftrightarrow> 48 \<le> c \<and> c \<le> 57"

definition digits_value :: "byte list \<Rightarrow> nat" where
  "digits_value ds = foldl (\<lambda>n d. 10 * n + (unat d - 48)) 0 ds"

text \<open>
  What \<open>strtoull\<close> and \<open>strtoll\<close> scan: white space, a sign, the digits. The result: the sign, the value, and
  how many bytes \<open>endptr\<close> is past \<open>str\<close> (0 when there are no digits). The byte after the digits is read.
\<close>

definition strto_scan :: "byte list \<Rightarrow> (bool \<times> nat \<times> nat) option" where
  "strto_scan str =
     (let ws = takeWhile isspace str; r = dropWhile isspace str
      in case r of
           [] \<Rightarrow> None
         | c # cs \<Rightarrow>
             let sign = (c = 45 \<or> c = 43); r = (if sign then cs else r); ds = takeWhile isdigit r
             in if length ds = length r then None
                else if ds = [] then Some (False, 0, 0)
                else Some (c = 45, digits_value ds, length ws + (if sign then 1 else 0) + length ds))"

text \<open>The C library functions: the value, the offset of \<open>endptr\<close>, and whether \<open>errno\<close> is \<open>ERANGE\<close>.\<close>

definition strtoull :: "byte list \<Rightarrow> (u64 \<times> nat \<times> bool) option" where
  "strtoull str =
     map_option (\<lambda>(neg, v, e). if 2 ^ 64 \<le> v then (- 1, e, True) else (if neg then - of_nat v else of_nat v, e, False)) (strto_scan str)"

definition strtoll :: "byte list \<Rightarrow> (int \<times> nat \<times> bool) option" where
  "strtoll str =
     map_option (\<lambda>(neg, v, e). if neg then (if 2 ^ 63 < v then (- (2 ^ 63), e, True) else (- int v, e, False))
                               else if 2 ^ 63 \<le> v then (2 ^ 63 - 1, e, True) else (int v, e, False)) (strto_scan str)"

fun strchr :: "byte list \<Rightarrow> byte \<Rightarrow> bool option" where
  "strchr [] c = None"
| "strchr (b # bs) c = (if b = c then Some True else if b = 0 then Some False else strchr bs c)"

text \<open>The test of \<open>*endptr\<close> that the four functions share.\<close>

definition number_ends :: "byte list \<Rightarrow> nat \<Rightarrow> bool" where
  "number_ends str e \<longleftrightarrow> isspace (str ! e) \<or> str ! e = 0 \<and> e \<noteq> 0"

text \<open>The result and \<open>*out\<close>.\<close>

definition safe_strtoull :: "byte list \<Rightarrow> (bool \<times> u64) option" where
  "safe_strtoull str =
     do { (ull, e, erange) \<leftarrow> strtoull str;
          if erange \<or> e = 0 then Some (False, 0)
          else if number_ends str e
          then (if sint ull < 0 then do { minus \<leftarrow> strchr str 45; Some (if minus then (False, 0) else (True, ull)) }
                else Some (True, ull))
          else Some (False, 0) }"

definition safe_strtoll :: "byte list \<Rightarrow> (bool \<times> int) option" where
  "safe_strtoll str =
     do { (ll, e, erange) \<leftarrow> strtoll str;
          if erange \<or> e = 0 then Some (False, 0)
          else Some (if number_ends str e then (True, ll) else (False, 0)) }"

definition safe_strtoul :: "byte list \<Rightarrow> (bool \<times> u32) option" where
  "safe_strtoul str =
     do { (l, e, erange) \<leftarrow> strtoull str;
          if erange \<or> e = 0 then Some (False, 0)
          else if number_ends str e
          then (if sint l < 0 then do { minus \<leftarrow> strchr str 45; Some (if minus then (False, 0) else (True, ucast l)) }
                else Some (True, ucast l))
          else Some (False, 0) }"

definition safe_strtol :: "byte list \<Rightarrow> (bool \<times> int) option" where
  "safe_strtol str =
     do { (l, e, erange) \<leftarrow> strtoll str;
          if erange \<or> e = 0 then Some (False, 0)
          else Some (if number_ends str e then (True, c_int (word_of_int l :: u64)) else (False, 0)) }"

text \<open>The byte swap of the binary protocol; \<open>little\<close> is \<open>ENDIAN_LITTLE\<close>.\<close>

fun swap_bytes :: "nat \<Rightarrow> u64 \<Rightarrow> u64 \<Rightarrow> u64" where
  "swap_bytes 0 rv v = rv"
| "swap_bytes (Suc n) rv v = swap_bytes n (push_bit 8 rv OR (v AND 0xff)) (drop_bit 8 v)"

definition mc_swap64 :: "bool \<Rightarrow> u64 \<Rightarrow> u64" where
  "mc_swap64 little v = (if little then swap_bytes 8 0 v else v)"

definition ntohll :: "bool \<Rightarrow> u64 \<Rightarrow> u64" where
  "ntohll little v = mc_swap64 little v"

definition htonll :: "bool \<Rightarrow> u64 \<Rightarrow> u64" where
  "htonll little v = mc_swap64 little v"

text \<open>Percent encoding: the table of \<open>uriencode_init\<close> and the encoder; \<open>None\<close> for a write outside \<open>dst\<close>.\<close>

definition isalnum :: "byte \<Rightarrow> bool" where
  "isalnum c \<longleftrightarrow> isdigit c \<or> 65 \<le> c \<and> c \<le> 90 \<or> 97 \<le> c \<and> c \<le> 122"

definition hex_digit :: "byte \<Rightarrow> byte" where
  "hex_digit n = (if n < 10 then 48 + n else 55 + n)"

definition uriencode_map :: "byte \<Rightarrow> byte list option" where
  "uriencode_map x =
     (if isalnum x \<or> x = 45 \<or> x = 46 \<or> x = 95 \<or> x = 126 then None else Some [37, hex_digit (drop_bit 4 x), hex_digit (x AND 15)])"

fun uriencode_loop :: "byte list \<Rightarrow> byte list \<Rightarrow> nat \<Rightarrow> u64 \<Rightarrow> (bool \<times> byte list \<times> nat) option" where
  "uriencode_loop [] dst d dstlen = Some (True, dst, d)"
| "uriencode_loop (x # xs) dst d dstlen =
     (if of_nat d + 4 > dstlen then Some (False, dst, d)
      else do { dst \<leftarrow> memcpy_at dst d (case uriencode_map x of Some e \<Rightarrow> e | None \<Rightarrow> [x]);
                uriencode_loop xs dst (d + (if uriencode_map x = None then 1 else 3)) dstlen })"

definition uriencode :: "byte list \<Rightarrow> byte list \<Rightarrow> u64 \<Rightarrow> (bool \<times> byte list) option" where
  "uriencode src dst dstlen =
     do { (ok, dst, d) \<leftarrow> uriencode_loop src dst 0 dstlen;
          if ok then map_option (Pair True) (memcpy_at dst d [0]) else Some (False, dst) }"

section \<open>Decimal numerals\<close>

definition digit :: "nat \<Rightarrow> byte" where
  "digit n = 48 + of_nat n"

fun decimal :: "nat \<Rightarrow> byte list" where
  "decimal n = (if n < 10 then [digit n] else decimal (n div 10) @ [digit (n mod 10)])"

declare decimal.simps [simp del]

text \<open>The last \<open>k\<close> digits, with leading zeros.\<close>

fun fixed :: "nat \<Rightarrow> nat \<Rightarrow> byte list" where
  "fixed 0 n = []"
| "fixed (Suc k) n = fixed k (n div 10) @ [digit (n mod 10)]"

lemma length_fixed [simp]: "length (fixed k n) = k"
  by (induction k arbitrary: n) auto

lemma fixed_split: "fixed (j + k) n = fixed j (n div 10 ^ k) @ fixed k (n mod 10 ^ k)"
proof (induction k arbitrary: n)
  case (Suc k)
  have "n mod 10 ^ Suc k div 10 = n div 10 mod 10 ^ k"
    by (simp add: mod_mult2_eq)
  moreover have "n mod 10 ^ Suc k mod 10 = n mod 10" by (simp add: mod_mod_cancel)
  moreover have "n div 10 div 10 ^ k = n div 10 ^ Suc k" by (simp add: div_mult2_eq)
  ultimately show ?case by (simp add: Suc)
qed simp

lemma decimal_fixed: "10 ^ k \<le> n \<Longrightarrow> n < 10 ^ Suc k \<Longrightarrow> decimal n = fixed (Suc k) n"
proof (induction k arbitrary: n)
  case 0
  then show ?case by (simp add: decimal.simps)
next
  case (Suc k)
  then have "decimal (n div 10) = fixed (Suc k) (n div 10)" by (intro Suc.IH) auto
  moreover have "\<not> n < 10" using Suc.prems(1) by (simp add: not_less) (metis le_trans mult.right_neutral mult_le_mono2 one_le_numeral one_le_power)
  ultimately show ?case by (subst decimal.simps) simp
qed

lemma decimal_small: "n < 10 \<Longrightarrow> decimal n = fixed 1 n"
  by (simp add: decimal.simps)

lemma decimal_split: "0 < n div 10 ^ k \<Longrightarrow> decimal n = decimal (n div 10 ^ k) @ fixed k (n mod 10 ^ k)"
proof (induction k arbitrary: n)
  case (Suc k)
  have "n div 10 div 10 ^ k = n div 10 ^ Suc k" by (simp add: div_mult2_eq)
  moreover have "0 < n div 10" using Suc.prems by (metis calculation div_0 gr0I less_numeral_extra(3))
  moreover have "n mod 10 ^ Suc k div 10 = n div 10 mod 10 ^ k" by (simp add: mod_mult2_eq)
  moreover have "n mod 10 ^ Suc k mod 10 = n mod 10" by (simp add: mod_mod_cancel)
  moreover have "\<not> n < 10" using \<open>0 < n div 10\<close> by simp
  ultimately show ?case using Suc.prems Suc.IH [of "n div 10"] by (subst decimal.simps) simp
qed simp

section \<open>What printing writes\<close>

definition put :: "byte list \<Rightarrow> nat \<Rightarrow> byte list \<Rightarrow> byte list" where
  "put buf p bs = take p buf @ bs @ drop (p + length bs) buf"

lemma length_put [simp]: "p + length bs \<le> length buf \<Longrightarrow> length (put buf p bs) = length buf"
  by (simp add: put_def)

lemma memcpy_put: "p + length bs \<le> length buf \<Longrightarrow> memcpy_at buf p bs = Some (put buf p bs)"
  by (simp add: memcpy_at_def put_def)

lemma put_put:
  assumes "p + length as + length bs \<le> length buf"
  shows "put (put buf p as) (p + length as) bs = put buf p (as @ bs)"
  using assms by (simp add: put_def min_absorb2 ac_simps)

lemma put_over:
  assumes "p + length as + 1 + length bs \<le> length buf"
  shows "put (put buf p (as @ [z])) (p + length as) (b # bs) = put buf p (as @ b # bs)"
  using assms by (simp add: put_def min_absorb2 ac_simps)

lemma length_lut [simp]: "length lut = 201"
  by (simp add: lut_def)

lemma lut_pair: "d < 100 \<Longrightarrow> seg (2 * d) (2 * d + 2) lut = fixed 2 d"
proof -
  assume "d < 100"
  have "\<forall>d\<in>set [0..<100]. seg (2 * d) (2 * d + 2) lut = fixed 2 d" by code_simp
  with \<open>d < 100\<close> show ?thesis by simp
qed

lemma out2_put: "d < 100 \<Longrightarrow> p + 2 \<le> length buf \<Longrightarrow> out2 (int d) (buf, p) = Some (put buf p (fixed 2 d), p + 2)"
  using lut_pair [of d] by (simp add: out2_def memcpy_put)

lemma out1_put: "p + 1 \<le> length buf \<Longrightarrow> out1 c (buf, p) = Some (put buf p [c], p + 1)"
  by (simp add: out1_def memcpy_put)

text \<open>The cases of the switch, from the one for \<open>2 * j\<close> digits down.\<close>

fun stages :: "nat \<Rightarrow> (nat \<times> int) list" where
  "stages 0 = []"
| "stages (Suc 0) = []"
| "stages (Suc (Suc j)) = (2 * (j + 2), 10 ^ (2 * (j + 1))) # stages (Suc j)"

lemma stages_itoa: "[(10, 100000000), (8, 1000000), (6, 10000), (4, 100)] = stages 5"
  by (simp add: eval_nat_numeral)

lemma c_int_of_nat: "n < 2 ^ 31 \<Longrightarrow> c_int (of_nat n :: u32) = int n"
  by (subst c_int_small) (simp_all add: unat_of_nat)

lemma div_u32: "unat (u div word_of_int (int k) :: u32) = unat u div k" if "k < 2 ^ 32"
proof -
  have "unat (word_of_int (int k) :: u32) = k" using that by (simp add: unat_of_nat)
  then show ?thesis by (simp add: unat_div)
qed

lemma unat_mod_u32: "unat (of_nat (unat u mod k) :: u32) = unat (u :: u32) mod k"
  using le_less_trans [OF mod_less_eq_dividend unat_lt_size(1), of u k] by (simp add: unat_of_nat)

lemma sub_mul_mod: "wrapv \<or> unat u div k * k < 2 ^ 31 \<Longrightarrow> sub_mul wrapv u (int (unat u div k)) (int k) = Some (of_nat (unat u mod k))"
proof -
  assume a: "wrapv \<or> unat u div k * k < 2 ^ 31"
  have "u = of_nat (unat u div k * k + unat u mod k)" by (simp add: of_nat_unat)
  then have "u - of_nat (unat u div k * k) = of_nat (unat u mod k)" by (metis add_diff_cancel_left' of_nat_add)
  moreover have "int (unat u div k) * int k = int (unat u div k * k)" by simp
  moreover have "unat u div k * k < 2 ^ 31 \<longleftrightarrow> int (unat u div k * k) < 2 ^ 31" by (metis of_nat_less_iff of_nat_numeral of_nat_power)
  moreover have "- (2 ^ 31) \<le> int (unat u div k * k)" by (rule order_trans [of _ 0]) simp_all
  ultimately show ?thesis using a unfolding sub_mul_def by auto
qed

lemma itoa_case_enter:
  assumes "m \<le> n" "unat u < 100 * k" "k < 2 ^ 32" "p + 2 \<le> length buf" "wrapv \<or> unat u div k * k < 2 ^ 31"
  shows "itoa_case wrapv n m (int k) (u, d, buf, p) = Some (of_nat (unat u mod k), int (unat u div k), put buf p (fixed 2 (unat u div k)), p + 2)"
proof -
  have d: "unat u div k < 100" using assms(2) by (simp add: less_mult_imp_div_less mult.commute)
  then have "c_int (u div word_of_int (int k)) = int (unat u div k)"
    using div_u32 [OF assms(3), of u] by (subst c_int_small) simp_all
  moreover have "m - 1 \<le> n" using assms(1) by simp
  ultimately show ?thesis using assms d by (simp add: itoa_case_def out2_put sub_mul_mod)
qed

lemma itoa_case_mid:
  assumes "n < m" "m - 1 \<le> n" "wrapv \<or> unat u div k * k < 2 ^ 31"
  shows "itoa_case wrapv n m (int k) (u, int (unat u div k), o1) = Some (of_nat (unat u mod k), int (unat u div k), o1)"
  using assms by (simp add: itoa_case_def sub_mul_mod)

lemma itoa_case_skip: "n < m - 1 \<Longrightarrow> itoa_case wrapv n m k st = Some st"
  by (cases st) (auto simp: itoa_case_def)

text \<open>The product stays in an \<open>int\<close> when \<open>d\<close> has one digit, or at most 21.\<close>

lemma product_fits:
  assumes "wrapv \<or> v < 2200000000" "v < 10 ^ (2 * Suc (Suc j))" "j \<le> 3"
  shows "wrapv \<or> v div 10 ^ (2 * Suc j) * 10 ^ (2 * Suc j) < (2 :: nat) ^ 31"
proof (cases "wrapv \<or> j = 3")
  case True
  have "v < 2200000000 \<Longrightarrow> v div 100000000 < 22" by simp
  with True assms(1) show ?thesis by auto
next
  case False
  then have "(10 :: nat) ^ (2 * Suc (Suc j)) \<le> 10 ^ 8" using assms(3) by (intro power_increasing) simp_all
  then have "v < 2 ^ 31" using assms(2) by simp
  then have "v div 10 ^ (2 * Suc j) * 10 ^ (2 * Suc j) < 2 ^ 31" using div_times_less_eq_dividend le_less_trans by blast
  then show ?thesis ..
qed

lemma switch_even:
  assumes "2 * Suc j \<le> n" "unat u < 10 ^ (2 * Suc j)" "j \<le> 4" "p + 2 * Suc j \<le> length buf" "wrapv \<or> unat u < 2200000000"
  shows "itoa_switch wrapv n (stages (Suc j)) (u, d, buf, p) = Some (put buf p (fixed (2 * Suc j) (unat u)), p + 2 * Suc j)"
  using assms
proof (induction j arbitrary: u d buf p)
  case 0
  then have "c_int u = int (unat u)" by (intro c_int_small) simp
  with 0 show ?case by (simp add: out2_put)
next
  case (Suc j)
  let ?k = "10 ^ (2 * Suc j) :: nat"
  have k: "?k < 2 ^ 32" using power_increasing [of "2 * Suc j" 8 "10 :: nat"] Suc.prems(3) by simp
  have v: "unat (of_nat (unat u mod ?k) :: u32) = unat u mod ?k" by (rule unat_mod_u32)
  have less: "unat u mod ?k < ?k" by simp
  have safe: "wrapv \<or> unat u div ?k * ?k < 2 ^ 31" using Suc.prems by (intro product_fits) simp_all
  have "itoa_case wrapv n (2 * (j + 2)) (int ?k) (u, d, buf, p) = Some (of_nat (unat u mod ?k), int (unat u div ?k), put buf p (fixed 2 (unat u div ?k)), p + 2)"
    using Suc.prems safe k by (intro itoa_case_enter) simp_all
  moreover have "wrapv \<or> unat u mod ?k < 2200000000" using Suc.prems(5) le_less_trans [OF mod_less_eq_dividend [of "unat u" ?k]] by blast
  then have "itoa_switch wrapv n (stages (Suc j)) (of_nat (unat u mod ?k), int (unat u div ?k), put buf p (fixed 2 (unat u div ?k)), p + 2)
      = Some (put (put buf p (fixed 2 (unat u div ?k))) (p + 2) (fixed (2 * Suc j) (unat u mod ?k)), p + 2 + 2 * Suc j)"
    using Suc.prems v less by (subst Suc.IH) simp_all
  ultimately show ?case using Suc.prems(4) put_put [of p "fixed 2 (unat u div ?k)" "fixed (2 * Suc j) (unat u mod ?k)" buf] fixed_split [of 2 "2 * Suc j" "unat u"]
    by simp
qed

lemma switch_skip: "n < 2 * j + 3 \<Longrightarrow> itoa_switch wrapv n (stages (Suc (Suc j))) st = itoa_switch wrapv n (stages (Suc j)) st"
  by (simp add: itoa_case_skip)

lemma switch_odd:
  assumes "n = 2 * j + 3" "d = int (unat u div 10 ^ (2 * j + 2))" "unat u < 2 ^ 31" "j \<le> 3" "p + 2 * j + 2 \<le> length buf"
  shows "itoa_switch wrapv n (stages (Suc (Suc j))) (u, d, buf, p) = Some (put buf p (fixed (2 * j + 2) (unat u mod 10 ^ (2 * j + 2))), p + 2 * j + 2)"
proof -
  let ?k = "10 ^ (2 * Suc j) :: nat"
  have k: "?k < 2 ^ 32" using power_increasing [of "2 * Suc j" 8 "10 :: nat"] assms(4) by simp
  have v: "unat (of_nat (unat u mod ?k) :: u32) = unat u mod ?k" by (rule unat_mod_u32)
  have less: "unat u mod ?k < ?k" by simp
  have le: "wrapv \<or> unat u div ?k * ?k < 2 ^ 31" using assms(3) div_times_less_eq_dividend le_less_trans by blast
  have "itoa_case wrapv n (2 * (j + 2)) (int ?k) (u, int (unat u div ?k), buf, p) = Some (of_nat (unat u mod ?k), int (unat u div ?k), buf, p)"
    using assms(1) le by (intro itoa_case_mid) simp_all
  moreover have "itoa_switch wrapv n (stages (Suc j)) (of_nat (unat u mod ?k), int (unat u div ?k), buf, p)
      = Some (put buf p (fixed (2 * Suc j) (unat u mod ?k)), p + 2 * Suc j)"
    using assms v less le_less_trans [OF mod_less_eq_dividend [of "unat u" ?k]] by (subst switch_even) simp_all
  ultimately show ?thesis using assms(2) by simp
qed

lemma itoa_ends:
  assumes "n \<le> 10" "p + length bs + 1 \<le> length buf" "itoa_switch wrapv n (stages 5) (u, d, buf, p) = Some (put buf p bs, p + length bs)"
  shows "itoa wrapv u (buf, p) d n = Some (put buf p (bs @ [0]), p + length bs)"
  using assms put_put [of p bs "[0]" buf] by (simp add: itoa_def stages_itoa memcpy_put)

lemma switch_from: "Suc j \<le> i \<Longrightarrow> i \<le> 5 \<Longrightarrow> n \<le> 2 * Suc j \<Longrightarrow> itoa_switch wrapv n (stages i) st = itoa_switch wrapv n (stages (Suc j)) st"
proof (induction i)
  case (Suc i)
  show ?case
  proof (cases "i = j")
    case False
    with Suc.prems(1) obtain i' where "i = Suc i'" "Suc j \<le> i" by (cases i) auto
    then show ?thesis using Suc switch_skip [of n i' wrapv st] by simp
  qed simp
qed simp

lemma itoa_even:
  assumes "j \<le> 4" "unat u < 10 ^ (2 * Suc j)" "wrapv \<or> unat u < 2200000000" "p + 2 * Suc j + 1 \<le> length buf"
  shows "itoa wrapv u (buf, p) d (2 * Suc j) = Some (put buf p (fixed (2 * Suc j) (unat u) @ [0]), p + 2 * Suc j)"
proof -
  have "itoa_switch wrapv (2 * Suc j) (stages 5) (u, d, buf, p) = Some (put buf p (fixed (2 * Suc j) (unat u)), p + 2 * Suc j)"
    using assms by (subst switch_from [of j]) (simp_all del: stages.simps itoa_switch.simps mult_Suc_right add: switch_even)
  then show ?thesis using assms itoa_ends [of "2 * Suc j" p "fixed (2 * Suc j) (unat u)" buf wrapv u d] by simp
qed

lemma itoa_odd:
  assumes "j \<le> 4" "d = int (unat u div 10 ^ (2 * j))" "unat u < 2 ^ 31" "p + 2 * j + 1 \<le> length buf"
  shows "itoa wrapv u (buf, p) d (2 * j + 1) = Some (put buf p (fixed (2 * j) (unat u mod 10 ^ (2 * j)) @ [0]), p + 2 * j)"
proof -
  have "itoa_switch wrapv (2 * j + 1) (stages 5) (u, d, buf, p) = Some (put buf p (fixed (2 * j) (unat u mod 10 ^ (2 * j))), p + 2 * j)"
  proof (cases j)
    case 0
    then show ?thesis using switch_from [of 0 5 1 wrapv "(u, d, buf, p)"] by (simp add: put_def)
  next
    case (Suc i)
    then show ?thesis using assms switch_from [of j 5 "2 * j + 1" wrapv "(u, d, buf, p)"] switch_odd [of "2 * j + 1" i d u p buf wrapv]
      by (simp del: stages.simps itoa_switch.simps)
  qed
  then show ?thesis using assms itoa_ends [of "2 * j + 1" p "fixed (2 * j) (unat u mod 10 ^ (2 * j))" buf wrapv u d] by simp
qed

lemma unat_numeral_power: "j \<le> 4 \<Longrightarrow> unat (of_nat (10 ^ (2 * j)) * 10 :: u32) = 10 ^ (2 * j + 1)" "j \<le> 4 \<Longrightarrow> unat (of_nat (10 ^ (2 * j)) :: u32) = 10 ^ (2 * j)"
proof -
  assume "j \<le> 4"
  then have "(10 :: nat) ^ (2 * j) \<le> 10 ^ 8" by (intro power_increasing) simp_all
  then show u: "unat (of_nat (10 ^ (2 * j)) :: u32) = 10 ^ (2 * j)" by (simp add: unat_of_nat del: of_nat_power)
  with \<open>_ \<le> 10 ^ 8\<close> show "unat (of_nat (10 ^ (2 * j)) * 10 :: u32) = 10 ^ (2 * j + 1)"
    by (simp add: unat_word_ariths del: of_nat_power)
qed

text \<open>A branch of \<open>itoa_u32\<close>: the first digit alone when the number of digits is odd.\<close>

lemma digits_itoa:
  assumes "j \<le> 4" "j = 0 \<or> 10 ^ (2 * j) \<le> unat u" "unat u < 10 ^ (2 * j + 2)" "wrapv \<or> unat u < 2200000000" "p + length (decimal (unat u)) + 1 \<le> length buf"
  shows "do { (d, p, n) \<leftarrow> digits u (of_nat (10 ^ (2 * j))) 0 (buf, p) (2 * j + 2); itoa wrapv u p d n }
    = Some (put buf p (decimal (unat u) @ [0]), p + length (decimal (unat u)))"
proof (cases "unat u < 10 ^ (2 * j + 1)")
  case True
  let ?k = "10 ^ (2 * j) :: nat"
  have d: "unat u div ?k < 10" using True by (simp add: less_mult_imp_div_less mult.commute)
  have c: "c_int (u div of_nat ?k) = int (unat u div ?k)"
    using d by (subst c_int_small) (simp_all add: unat_div unat_numeral_power [OF assms(1)] del: of_nat_power)
  have s: "decimal (unat u) = digit (unat u div ?k) # fixed (2 * j) (unat u mod ?k)"
  proof (cases "j = 0")
    case True
    then show ?thesis using \<open>unat u < 10 ^ (2 * j + 1)\<close> by (simp add: decimal_small)
  next
    case False
    then have "0 < unat u div ?k" using assms(2) by (simp add: div_greater_zero_iff)
    then show ?thesis using decimal_split [of "unat u" "2 * j"] d by (simp add: decimal_small [of "unat u div ?k"])
  qed
  have "u < of_nat ?k * 10" using True unat_numeral_power [OF assms(1)] by (simp add: word_less_nat_alt del: of_nat_power)
  then have "digits u (of_nat ?k) 0 (buf, p) (2 * j + 2) = Some (int (unat u div ?k), (put buf p [digit (unat u div ?k)], p + 1), 2 * j + 1)"
    using assms(5) s unfolding digits_def by (simp add: c digit_def out1_put del: of_nat_power)
  moreover have "unat u < 2 ^ 31"
    using True power_increasing [of "2 * j + 1" 9 "10 :: nat"] assms(1) by simp
  ultimately show ?thesis
    using itoa_odd [of j "int (unat u div ?k)" u "p + 1" "put buf p [digit (unat u div ?k)]" wrapv] assms(1,5) s
      put_put [of p "[digit (unat u div ?k)]" "fixed (2 * j) (unat u mod ?k) @ [0]" buf]
    by (simp del: of_nat_power)
next
  case False
  then have s: "decimal (unat u) = fixed (2 * Suc j) (unat u)" using decimal_fixed [of "2 * j + 1" "unat u"] assms(3) by simp
  have "\<not> u < of_nat (10 ^ (2 * j)) * 10" using False unat_numeral_power [OF assms(1)] by (simp add: word_less_nat_alt del: of_nat_power)
  then have "digits u (of_nat (10 ^ (2 * j))) 0 (buf, p) (2 * j + 2) = Some (0, (buf, p), 2 * Suc j)"
    unfolding digits_def by (simp del: of_nat_power)
  then show ?thesis using itoa_even [of j u wrapv p buf 0] assms s by (simp del: of_nat_power)
qed

lemma itoa_u32_decimal:
  assumes "wrapv \<or> unat u < 2200000000" "p + length (decimal (unat u)) + 1 \<le> length buf"
  shows "itoa_u32 wrapv u (buf, p) = Some (put buf p (decimal (unat u) @ [0]), p + length (decimal (unat u)))"
proof -
  note step = digits_itoa [where u = u and wrapv = wrapv and p = p and buf = buf]
  consider "100000000 \<le> unat u" | "unat u < 100" | "100 \<le> unat u" "unat u < 10000" | "10000 \<le> unat u" "unat u < 1000000"
    | "1000000 \<le> unat u" "unat u < 100000000" by linarith
  then show ?thesis
  proof cases
    case 1
    have "unat u < 10 ^ 10" by (rule less_trans [OF unat_lt_size(1)]) simp
    then show ?thesis using 1 step [of 4] assms by (simp add: itoa_u32_def word_le_nat_alt)
  next
    case 2
    then show ?thesis using step [of 0] assms by (simp add: itoa_u32_def word_le_nat_alt word_less_nat_alt numeral_2_eq_2 [symmetric])
  next
    case 3
    then show ?thesis using step [of 1] assms by (simp add: itoa_u32_def word_le_nat_alt word_less_nat_alt)
  next
    case 4
    then show ?thesis using step [of 2] assms by (simp add: itoa_u32_def word_le_nat_alt word_less_nat_alt)
  next
    case 5
    then show ?thesis using step [of 3] assms by (simp add: itoa_u32_def word_le_nat_alt word_less_nat_alt)
  qed
qed

lemma fixed_9: "n < 1000000000 \<Longrightarrow> fixed 9 n = digit (n div 100000000) # fixed 8 (n mod 100000000)"
  using fixed_split [of 1 8 n] by (simp add: less_mult_imp_div_less)

lemma itoa_u64_decimal:
  assumes "wrapv \<or> unat u < 2200000000" "p + length (decimal (unat u)) + 1 \<le> length buf"
  shows "itoa_u64 wrapv u (buf, p) = Some (put buf p (decimal (unat u) @ [0]), p + length (decimal (unat u)))"
  using assms
proof (induction "unat u" arbitrary: u rule: less_induct)
  case less
  show ?case
  proof (cases "unat u < 2 ^ 32")
    case True
    then have l: "unat (ucast u :: u32) = unat u" by (simp add: unat_ucast_mod)
    then have "ucast (ucast u :: u32) = u" by (metis unat_ucast_up_u32_u64 word_unat_eq_iff)
    then show ?thesis using itoa_u32_decimal [of wrapv "ucast u" p buf] l less.prems by (subst itoa_u64.simps) (simp add: Let_def)
  next
    case False
    define up where "up = u div 1000000000"
    define lo where "lo = (ucast (u - up * 1000000000) :: u32)"
    have wv: wrapv using less.prems(1) False by auto
    have up: "unat up = unat u div 1000000000" by (simp add: up_def unat_div)
    have "u - up * 1000000000 = u mod 1000000000" unfolding up_def by (metis minus_div_mult_eq_mod)
    then have lo: "unat lo = unat u mod 1000000000" by (simp add: lo_def unat_ucast_mod unat_mod)
    have split: "decimal (unat u) = decimal (unat up) @ digit (unat lo div 100000000) # fixed 8 (unat lo mod 100000000)"
      using decimal_split [of "unat u" 9] False fixed_9 [of "unat lo"] by (simp add: up lo)
    have "unat (ucast (ucast u :: u32) :: u64) < 2 ^ 32" by simp
    then have "ucast (ucast u :: u32) \<noteq> u" using False by metis
    moreover have "itoa_u64 wrapv up (buf, p) = Some (put buf p (decimal (unat up) @ [0]), p + length (decimal (unat up)))"
      using less.hyps [of up] less.prems wv False split by (simp add: up)
    moreover have "unat lo div 100000000 < 10" by (simp add: lo less_mult_imp_div_less)
    then have "c_int (lo div 100000000) = int (unat lo div 100000000)" by (subst c_int_small) (simp_all add: unat_div)
    moreover have "unat lo < 2 ^ 31" using mod_less_divisor [of 1000000000 "unat u"] unfolding lo by (rule less_trans) simp_all
    ultimately show ?thesis using less.prems(2) split
        itoa_odd [of 4 "int (unat lo div 100000000)" lo "p + length (decimal (unat up)) + 1" "put buf p (decimal (unat up) @ [digit (unat lo div 100000000)])" wrapv]
        put_over [of p "decimal (unat up)" "[]" buf 0 "digit (unat lo div 100000000)"]
        put_put [of p "decimal (unat up) @ [digit (unat lo div 100000000)]" "fixed 8 (unat lo mod 100000000) @ [0]" buf]
      by (subst itoa_u64.simps) (simp add: Let_def out1_put up_def [symmetric] lo_def [symmetric] digit_def)
  qed
qed

text \<open>The strict reading of \<open>d * 100000000\<close>: ten-digit numbers from 2200000000 on overflow an \<open>int\<close>.\<close>

lemma itoa_u32_overflow:
  assumes "2200000000 \<le> unat u"
  shows "itoa_u32 False u o1 = None"
proof (cases o1)
  case (Pair buf p)
  have d: "22 \<le> unat u div 100000000" using assms by simp
  have c: "c_int (u div 100000000) = int (unat u div 100000000)"
    using less_mult_imp_div_less [of "unat u" 43 100000000] less_trans [OF unat_lt_size(1), of "43 * 100000000" u] by (subst c_int_small) (simp_all add: unat_div)
  have "sub_mul False u (int (unat u div 100000000)) 100000000 = None"
    using d by (simp add: sub_mul_def)
  then have "itoa_case False 10 10 100000000 (u, 0, o1) = None"
    by (cases "out2 (int (unat u div 100000000)) o1") (simp_all add: itoa_case_def c Let_def Pair)
  then have "itoa False u o1 0 10 = None" by (simp add: itoa_def Pair)
  moreover have "digits u 100000000 0 o1 10 = Some (0, o1, 10)"
    using assms by (simp add: digits_def word_less_nat_alt)
  moreover have "100000000 \<le> u" using assms by (simp add: word_le_nat_alt)
  ultimately show ?thesis by (simp add: itoa_u32_def)
qed

section \<open>Parsing what was printed\<close>

lemma unat_digit: "n < 10 \<Longrightarrow> unat (digit n) = 48 + n"
  by (simp add: digit_def unat_word_ariths unat_of_nat)

lemma isdigit_digit: "n < 10 \<Longrightarrow> isdigit (digit n)"
  by (simp add: isdigit_def word_le_nat_alt unat_digit)

lemma decimal_digits: "\<forall>b\<in>set (decimal n). isdigit b"
proof (induction n rule: decimal.induct)
  case (1 n)
  show ?case by (subst decimal.simps) (use 1 in \<open>auto simp: isdigit_digit\<close>)
qed

lemma decimal_not_Nil [simp]: "decimal n \<noteq> []"
  by (subst decimal.simps) simp

lemma digits_value_snoc: "digits_value (ds @ [d]) = 10 * digits_value ds + (unat d - 48)"
  by (simp add: digits_value_def)

lemma digits_value_decimal: "digits_value (decimal n) = n"
proof (induction n rule: decimal.induct)
  case (1 n)
  show ?case
  proof (cases "n < 10")
    case True
    then show ?thesis using digits_value_snoc [of "[]" "digit n"] by (subst decimal.simps) (simp add: unat_digit digits_value_def)
  next
    case False
    then show ?thesis using 1 by (subst decimal.simps) (simp add: digits_value_snoc unat_digit)
  qed
qed

lemma isdigit_not: "isdigit b \<Longrightarrow> \<not> isspace b \<and> b \<noteq> 45 \<and> b \<noteq> 43 \<and> b \<noteq> 0"
  by (auto simp: isdigit_def isspace_def word_le_nat_alt word_unat_eq_iff)

lemma takeWhile_digits: "\<not> isdigit c \<Longrightarrow> takeWhile isdigit (decimal n @ c # r) = decimal n"
  using decimal_digits [of n] by (simp add: takeWhile_append)

lemma decimal_Cons: "\<exists>d ds. decimal n = d # ds \<and> isdigit d"
  using decimal_digits [of n] by (cases "decimal n") auto

text \<open>A numeral, with a minus sign or without, and the byte that stops it.\<close>

lemma strto_scan_decimal:
  assumes "\<not> isdigit c"
  shows "strto_scan (decimal n @ c # r) = Some (False, n, length (decimal n))"
    and "strto_scan (45 # decimal n @ c # r) = Some (True, n, length (decimal n) + 1)"
proof -
  obtain d ds where d: "decimal n = d # ds" "isdigit d" using decimal_Cons by blast
  show "strto_scan (decimal n @ c # r) = Some (False, n, length (decimal n))"
    using takeWhile_digits [OF assms, of n r] isdigit_not [OF d(2)] d digits_value_decimal [of n]
    by (simp add: strto_scan_def Let_def)
  have "\<not> isspace 45" by (simp add: isspace_def)
  then show "strto_scan (45 # decimal n @ c # r) = Some (True, n, length (decimal n) + 1)"
    using takeWhile_digits [OF assms, of n r] digits_value_decimal [of n] by (simp add: strto_scan_def Let_def)
qed

lemma stops: "isspace c \<or> c = 0 \<Longrightarrow> \<not> isdigit c"
  using isdigit_not by blast

lemma number_ends_decimal:
  assumes "isspace c \<or> c = 0"
  shows "number_ends (decimal n @ c # r) (length (decimal n))" "number_ends (45 # decimal n @ c # r) (length (decimal n) + 1)"
  using assms by (auto simp: number_ends_def nth_append)

lemma strchr_digits: "\<forall>b\<in>set ds. isdigit b \<Longrightarrow> strchr (ds @ bs) 45 = strchr bs 45"
  by (induction ds) (auto dest: isdigit_not)

lemma sint_neg_u64: "sint (u :: u64) < 0 \<longleftrightarrow> \<not> unat u < 2 ^ 63"
proof -
  have "sint u < 0 \<longleftrightarrow> odd (unat u div 2 ^ 63)"
    using bit_last_iff [of u] bit_iff_odd [of "unat u" 63] by (simp add: bit_unsigned_iff)
  moreover have "unat u div 2 ^ 63 < 2" using less_mult_imp_div_less [of "unat u" 2 "2 ^ 63"] by simp
  ultimately show ?thesis by (auto simp: less_2_cases_iff div_eq_0_iff)
qed

text \<open>The value of a numeral of 64 bits; only from 2^63 on is the text after it looked at.\<close>

lemma safe_strtoull_decimal:
  assumes "isspace c \<or> c = 0"
  shows "safe_strtoull (decimal (unat u) @ c # r) =
    (if unat u < 2 ^ 63 then Some (True, u) else do { minus \<leftarrow> strchr (c # r) 45; Some (if minus then (False, 0) else (True, u)) })"
proof -
  note sint_neg_u64 [of u]
  moreover have "strtoull (decimal (unat u) @ c # r) = Some (u, length (decimal (unat u)), False)"
    using strto_scan_decimal(1) [OF stops [OF assms], of "unat u" r]
    by (simp add: strtoull_def of_nat_unat linorder_not_le)
  ultimately show ?thesis
    using number_ends_decimal(1) [OF assms, of "unat u" r] strchr_digits [OF decimal_digits, of "unat u" "c # r"]
    by (simp add: safe_strtoull_def)
qed

lemma safe_strtoul_decimal:
  fixes u :: u64
  assumes "isspace c \<or> c = 0"
  shows "safe_strtoul (decimal (unat u) @ c # r) =
    (if unat u < 2 ^ 63 then Some (True, ucast u) else do { minus \<leftarrow> strchr (c # r) 45; Some (if minus then (False, 0) else (True, ucast u)) })"
proof -
  have "strtoull (decimal (unat u) @ c # r) = Some (u, length (decimal (unat u)), False)"
    using strto_scan_decimal(1) [OF stops [OF assms], of "unat u" r] by (simp add: strtoull_def of_nat_unat linorder_not_le)
  then show ?thesis
    using number_ends_decimal(1) [OF assms, of "unat u" r] strchr_digits [OF decimal_digits, of "unat u" "c # r"] sint_neg_u64 [of u]
    by (simp add: safe_strtoul_def)
qed

definition signed_decimal :: "int \<Rightarrow> byte list" where
  "signed_decimal i = (if i < 0 then 45 # decimal (nat (- i)) else decimal (nat i))"

lemma safe_strtoll_decimal:
  assumes "isspace c \<or> c = 0" "- (2 ^ 63) \<le> i" "i < 2 ^ 63"
  shows "safe_strtoll (signed_decimal i @ c # r) = Some (True, i)"
  using assms strto_scan_decimal [OF stops [OF assms(1)]] number_ends_decimal [OF assms(1)]
  by (auto simp: safe_strtoll_def strtoll_def signed_decimal_def)

lemma itoa_64_decimal:
  assumes "wrapv \<or> \<bar>i\<bar> < 2200000000" "- (2 ^ 63) \<le> i" "i < 2 ^ 63" "p + length (signed_decimal i) + 1 \<le> length buf"
  shows "itoa_64 wrapv i (buf, p) = Some (put buf p (signed_decimal i @ [0]), p + length (signed_decimal i))"
proof (cases "i < 0")
  case True
  have u: "unat (- word_of_int i :: u64) = nat (- i)" using unat_word_of_int [of "- i", where 'a = 64] assms(2) True by simp
  have "nat (- i) < 2200000000" if "\<not> wrapv" using assms(1) that True by simp
  then show ?thesis
    using True assms(4) itoa_u64_decimal [of wrapv "- word_of_int i" "p + 1" "put buf p [45]"] put_put [of p "[45]" "decimal (nat (- i)) @ [0]" buf]
    by (auto simp: itoa_64_def signed_decimal_def out1_put u Let_def)
next
  case False
  then have u: "unat (word_of_int i :: u64) = nat i" using assms(3) by (simp add: unat_word_of_int)
  have "nat i < 2200000000" if "\<not> wrapv" using assms(1) that False by simp
  then show ?thesis using False assms(4) itoa_u64_decimal [of wrapv "word_of_int i" p buf] by (auto simp: itoa_64_def signed_decimal_def u)
qed

lemma drop_put: "p \<le> length buf \<Longrightarrow> drop p (put buf p bs) = bs @ drop (p + length bs) buf"
  by (simp add: put_def)

lemma length_decimal_le: "n < 10 ^ Suc k \<Longrightarrow> length (decimal n) \<le> Suc k"
proof (induction k arbitrary: n)
  case 0
  then show ?case by (simp add: decimal.simps)
next
  case (Suc k)
  then have "length (decimal (n div 10)) \<le> Suc k" by (intro Suc.IH) auto
  then show ?case by (subst decimal.simps) simp
qed

lemma length_decimal_u32: "length (decimal (unat (u :: u32))) \<le> 10"
  using less_trans [OF unat_lt_size(1) [of u], of "10 ^ 10"] length_decimal_le [of "unat u" 9] by simp

lemma length_decimal_u64: "length (decimal (unat (u :: u64))) \<le> 20"
  using less_trans [OF unat_lt_size(2) [of u], of "10 ^ 20"] length_decimal_le [of "unat u" 19] by simp

lemma length_signed_decimal: "- (2 ^ 63) \<le> i \<Longrightarrow> i < 2 ^ 63 \<Longrightarrow> length (signed_decimal i) \<le> 20"
  using length_decimal_le [of "nat (- i)" 18] length_decimal_le [of "nat i" 18] by (auto simp: signed_decimal_def nat_less_iff)

section \<open>Percent encoding\<close>

definition uri_text :: "byte list \<Rightarrow> byte list" where
  "uri_text src = concat (map (\<lambda>x. case uriencode_map x of Some e \<Rightarrow> e | None \<Rightarrow> [x]) src)"

lemma uri_code: "length (case uriencode_map x of Some e \<Rightarrow> e | None \<Rightarrow> [x]) = (if uriencode_map x = None then 1 else 3)"
  by (simp add: uriencode_map_def)

text \<open>The loop either has no room for the next byte or has written the text; there is always room for the zero.\<close>

lemma uriencode_loop_ok:
  assumes "d + 1 \<le> unat dstlen" "unat dstlen \<le> length dst" "unat dstlen + 4 < 2 ^ 64"
  shows "\<exists>ok bs. uriencode_loop src dst d dstlen = Some (ok, put dst d bs, d + length bs) \<and> d + length bs + 1 \<le> unat dstlen
    \<and> (ok \<longrightarrow> bs = uri_text src) \<and> (d + length (uri_text src) + 4 \<le> unat dstlen \<longrightarrow> ok)"
  using assms
proof (induction src arbitrary: d dst)
  case Nil
  then show ?case by (intro exI [of _ True] exI [of _ "[]"]) (simp add: put_def uri_text_def)
next
  case (Cons x xs)
  define e where "e = (case uriencode_map x of Some e \<Rightarrow> e | None \<Rightarrow> [x])"
  have e: "length e = (if uriencode_map x = None then 1 else 3)" unfolding e_def by (rule uri_code)
  have w: "unat (of_nat d + 4 :: u64) = d + 4" using Cons.prems by (simp add: unat_word_ariths unat_of_nat)
  show ?case
  proof (cases "dstlen < of_nat d + 4")
    case True
    then have "unat dstlen < d + 4" using w by (simp add: word_less_nat_alt)
    with True Cons.prems show ?thesis by (intro exI [of _ False] exI [of _ "[]"]) (simp add: put_def)
  next
    case False
    then have le: "d + 4 \<le> unat dstlen" using w by (simp add: word_less_nat_alt)
    then have "d + length e + 1 \<le> unat dstlen" using e by (auto split: if_splits)
    moreover from this have "length (put dst d e) = length dst" using Cons.prems by simp
    ultimately obtain ok bs where IH: "uriencode_loop xs (put dst d e) (d + length e) dstlen = Some (ok, put (put dst d e) (d + length e) bs, d + length e + length bs)"
        "d + length e + length bs + 1 \<le> unat dstlen" "ok \<longrightarrow> bs = uri_text xs" "d + length e + length (uri_text xs) + 4 \<le> unat dstlen \<longrightarrow> ok"
      using Cons.IH [of "d + length e" "put dst d e"] Cons.prems by auto
    have "memcpy_at dst d e = Some (put dst d e)" using \<open>d + length e + 1 \<le> _\<close> Cons.prems by (intro memcpy_put) simp
    moreover have "put (put dst d e) (d + length e) bs = put dst d (e @ bs)" using IH(2) Cons.prems by (intro put_put) simp
    ultimately show ?thesis using False IH e
      by (intro exI [of _ ok] exI [of _ "e @ bs"]) (auto simp: e_def [symmetric] uri_text_def add.assoc)
  qed
qed

text \<open>Encoded text can be decoded: \<open>uri_text\<close> is injective.\<close>

definition unhex :: "byte \<Rightarrow> byte" where
  "unhex c = (if c < 58 then c - 48 else c - 55)"

fun uri_decode :: "byte list \<Rightarrow> byte list" where
  "uri_decode (a # b # c # cs) = (if a = 37 then (16 * unhex b + unhex c) # uri_decode cs else a # uri_decode (b # c # cs))"
| "uri_decode bs = bs"

lemma uri_decode_plain: "a \<noteq> 37 \<Longrightarrow> uri_decode (a # bs) = a # uri_decode bs"
  by (cases bs; cases "tl bs") auto

lemma unhex_hex: "n < 16 \<Longrightarrow> unhex (hex_digit n) = n"
proof -
  assume "n < 16"
  then have "unat n < 16" by (simp add: word_less_nat_alt)
  moreover have "\<forall>n\<in>set [0..<16]. unhex (hex_digit (of_nat n)) = of_nat n" by code_simp
  moreover have "n = of_nat (unat n)" by (simp add: of_nat_unat)
  ultimately show ?thesis by (metis atLeastLessThan_iff le0 set_upt)
qed

lemma unhex_code: "16 * unhex (hex_digit (drop_bit 4 x)) + unhex (hex_digit (x AND 15)) = x"
proof -
  have d: "drop_bit 4 x = x div 16" by (simp add: drop_bit_eq_div)
  have "x AND 15 = take_bit 4 x" by (simp add: take_bit_eq_mask mask_eq_exp_minus_1)
  then have m: "x AND 15 = x mod 16" by (simp add: take_bit_eq_mod)
  have "x mod 16 < 16" by (simp add: word_less_nat_alt unat_mod)
  moreover have "x div 16 < 16" using less_mult_imp_div_less [of "unat x" 16 16] by (simp add: word_less_nat_alt unat_div)
  ultimately show ?thesis unfolding d m by (simp add: unhex_hex mult_div_mod_eq)
qed

lemma uri_decode_text: "uri_decode (uri_text src) = src"
proof (induction src)
  case (Cons x xs)
  show ?case
  proof (cases "uriencode_map x")
    case None
    then have "x \<noteq> 37" by (auto simp: uriencode_map_def isalnum_def isdigit_def)
    with None Cons show ?thesis by (simp add: uri_text_def uri_decode_plain)
  next
    case (Some e)
    then have "e = [37, hex_digit (drop_bit 4 x), hex_digit (x AND 15)]" by (simp add: uriencode_map_def split: if_splits)
    with Some Cons show ?thesis by (simp add: uri_text_def unhex_code)
  qed
qed (simp add: uri_text_def)

section \<open>Properties\<close>

text \<open>
  \<open>itoa_64\<close> writes the shortest decimal numeral of every 64-bit signed number, the least one included, and a
  terminating zero, changes nothing else in the buffer and returns the position of the zero, given 21 bytes
  (and a compiler that lets the signed product wrap, or a number below 2200000000).
\<close>

theorem itoa_64_prints:
  assumes "wrapv \<or> \<bar>i\<bar> < 2200000000" "- (2 ^ 63) \<le> i" "i < 2 ^ 63" "p + 21 \<le> length buf"
  shows "itoa_64 wrapv i (buf, p) =
    Some (take p buf @ signed_decimal i @ [0] @ drop (p + length (signed_decimal i) + 1) buf, p + length (signed_decimal i))"
  using itoa_64_decimal [OF assms(1-3)] length_signed_decimal [OF assms(2,3)] assms(4) by (simp add: put_def)

theorem itoa_64_prints_witness:
  "itoa_64 True (-9223372036854775808) (replicate 24 7, 2) =
    Some (replicate 2 7 @ (45 # decimal 9223372036854775808) @ [0] @ replicate 1 7, 22)"
proof -
  have "length (decimal 9223372036854775808) = 19" by (simp add: decimal.simps)
  then show ?thesis using itoa_64_prints [of True "-9223372036854775808" 2 "replicate 24 7"] by (simp add: signed_decimal_def)
qed



text \<open>
  C38. With signed overflow undefined, as in the C standard, \<open>itoa_u32\<close> is defined exactly for the numbers below
  2200000000: from there on the product of the two leading digits and 100000000 leaves the type \<open>int\<close>.
\<close>

theorem itoa_u32_int_overflow:
  assumes "p + 11 \<le> length buf"
  shows "itoa_u32 False u (buf, p) = None \<longleftrightarrow> 2200000000 \<le> unat u"
proof (cases "2200000000 \<le> unat u")
  case False
  then show ?thesis using itoa_u32_decimal [of False u p buf] length_decimal_u32 [of u] assms by simp
qed (simp add: itoa_u32_overflow)

theorem itoa_u32_int_overflow_witness:
  "itoa_u32 False 2200000000 (replicate 11 0, 0) = None"
  using itoa_u32_int_overflow [of 0 "replicate 11 0" 2200000000] by simp

text \<open>
  \<open>safe_strtoul\<close> accepts numbers that do not fit its 32-bit result and stores their low 32 bits (on LP64,
  where \<open>strtoul\<close> has 64 bits).
\<close>

theorem safe_strtoul_truncates:
  fixes u :: u64
  assumes "2 ^ 32 \<le> unat u" "unat u < 2 ^ 63" "isspace c \<or> c = 0"
  shows "\<exists>v. safe_strtoul (decimal (unat u) @ c # r) = Some (True, v) \<and> unat v = unat u mod 2 ^ 32 \<and> unat v \<noteq> unat u"
proof -
  have "unat (ucast u :: u32) = unat u mod 2 ^ 32" by (simp add: unat_ucast_mod)
  moreover have "unat u mod 2 ^ 32 < 2 ^ 32" by simp
  ultimately show ?thesis using assms safe_strtoul_decimal [OF assms(3), of u r] by simp
qed

theorem safe_strtoul_truncates_witness:
  "\<exists>v. safe_strtoul (decimal (unat (4294967296 :: u64)) @ [0]) = Some (True, v) \<and> unat v = 0"
  using safe_strtoul_truncates [of 4294967296 0 "[]"] by (auto simp: isspace_def)

text \<open>
  C39. \<open>safe_strtoull\<close> looks for a minus sign up to the next zero byte. A number from 2^63 on that ends with CR LF,
  as in an item, is therefore accepted or refused by what lies behind it in memory.
\<close>

theorem safe_strtoull_reads_on:
  assumes "2 ^ 63 \<le> unat u" "0 \<notin> set pad" "45 \<notin> set pad"
  shows "safe_strtoull (decimal (unat u) @ [13, 10] @ pad @ 0 # r) = Some (True, u)
    \<and> safe_strtoull (decimal (unat u) @ [13, 10] @ pad @ 45 # r) = Some (False, 0)
    \<and> safe_strtoull (decimal (unat u) @ [13, 10] @ pad) = None"
proof -
  have s: "isspace 13 \<or> (13 :: byte) = 0" by (simp add: isspace_def)
  have "strchr (pad @ bs) 45 = strchr bs 45" for bs
    using assms(2,3) by (induction pad) auto
  from this [of "[]"] this show ?thesis using assms(1) safe_strtoull_decimal [OF s, of u] by simp
qed

theorem safe_strtoull_reads_on_witness:
  "safe_strtoull (decimal (unat (18446744073709551615 :: u64)) @ [13, 10] @ [120] @ 0 # []) = Some (True, 18446744073709551615)
    \<and> safe_strtoull (decimal (unat (18446744073709551615 :: u64)) @ [13, 10] @ [120] @ 45 # []) = Some (False, 0)"
  using safe_strtoull_reads_on [of 18446744073709551615 "[120]" "[]"] by simp

text \<open>
  C28. \<open>uriencode\<close> stays inside the destination, of at least one byte. When it returns true, it has written the
  percent encoding of the source and a zero, from which the source can be decoded, and it does return true
  whenever the encoding and four bytes fit.
\<close>

theorem uriencode_ok:
  assumes "0 < dstlen" "unat dstlen \<le> length dst" "unat dstlen + 4 < 2 ^ 64"
  shows "\<exists>ok dst' bs. uriencode src dst dstlen = Some (ok, dst') \<and> length dst' = length dst
    \<and> (ok \<longrightarrow> (\<exists>tail. dst' = bs @ 0 # tail) \<and> uri_decode bs = src) \<and> (length (uri_text src) + 4 \<le> unat dstlen \<longrightarrow> ok)"
proof -
  have "0 + 1 \<le> unat dstlen" using assms(1) by (simp add: word_less_nat_alt)
  from uriencode_loop_ok [OF this assms(2,3), of src] obtain ok bs where
    l: "uriencode_loop src dst 0 dstlen = Some (ok, put dst 0 bs, length bs)" "length bs + 1 \<le> unat dstlen"
       "ok \<longrightarrow> bs = uri_text src" "length (uri_text src) + 4 \<le> unat dstlen \<longrightarrow> ok" by auto
  have p: "put (put dst 0 bs) (length bs) [0] = bs @ 0 # drop (length bs + 1) dst"
    using put_put [of 0 bs "[0]" dst] l(2) assms(2) by (simp add: put_def)
  have m: "memcpy_at (put dst 0 bs) (length bs) [0] = Some (bs @ 0 # drop (length bs + 1) dst)"
    using l(2) assms(2) by (subst memcpy_put) (simp_all add: p)
  show ?thesis using l m assms(2) uri_decode_text
    by (intro exI [of _ ok] exI [of _ "if ok then bs @ 0 # drop (length bs + 1) dst else put dst 0 bs"] exI [of _ bs]) (auto simp: uriencode_def)
qed

theorem uriencode_ok_witness:
  "\<exists>ok dst' bs. uriencode [47, 97] (replicate 16 0) 16 = Some (ok, dst') \<and> length dst' = 16
    \<and> (ok \<longrightarrow> (\<exists>tail. dst' = bs @ 0 # tail) \<and> uri_decode bs = [47, 97]) \<and> ok"
proof -
  have "length (uri_text [47, 97]) = 4" by code_simp
  then show ?thesis using uriencode_ok [of 16 "replicate 16 0" "[47, 97]"] by auto
qed

end
