(* ===== verification/Prefix_Stats.thy ===== *)
theory Prefix_Stats
  imports Numbers
begin

text \<open>
  The detailed statistics by key prefix, \<open>src/mem/stats.c\<close>: a table of 256 chains of prefixes with their
  counters. The part of a key before the first delimiter is its prefix. \<open>hash\<close> is the configured key hash,
  \<open>delim\<close> is \<open>settings.prefix_delimiter\<close>; the last two arguments say whether \<open>calloc\<close> and \<open>malloc\<close> succeed.
  The theory shows that every prefix gets its own counters when no recorded prefix of the same chain
  begins with another, what happens otherwise, and that the dump fits the buffer computed for it.
\<close>

record prefix_stats =
  prefix :: "byte list"
  num_gets :: u64
  num_sets :: u64
  num_deletes :: u64
  num_hits :: u64

record prefix_table =
  chains :: "nat \<Rightarrow> prefix_stats list"
  num_prefixes :: nat
  total_prefix_size :: nat

abbreviation (input) PREFIX_HASH_SIZE :: nat where "PREFIX_HASH_SIZE \<equiv> 256"

definition stats_prefix_init :: "prefix_table \<Rightarrow> prefix_table" where
  "stats_prefix_init t = t\<lparr>chains := (\<lambda>_. [])\<rparr>"

definition stats_prefix_clear :: "prefix_table \<Rightarrow> prefix_table" where
  "stats_prefix_clear t = t\<lparr>chains := (\<lambda>_. []), num_prefixes := 0, total_prefix_size := 0\<rparr>"

text \<open>The length of the prefix: the loop up to the delimiter; \<open>None\<close> for \<open>bailout\<close>.\<close>

fun prefix_length :: "byte \<Rightarrow> byte list \<Rightarrow> nat option" where
  "prefix_length delim [] = None"
| "prefix_length delim (c # cs) = (if c = 0 then None else if c = delim then Some 0 else map_option Suc (prefix_length delim cs))"

text \<open>\<open>strncmp(pfs->prefix, key, length) == 0\<close>: only the first \<open>length\<close> bytes are compared.\<close>

definition strncmp_eq :: "byte list \<Rightarrow> byte list \<Rightarrow> nat \<Rightarrow> bool" where
  "strncmp_eq p key len \<longleftrightarrow> len \<le> length p \<and> take len p = take len key"

fun chain_find :: "byte list \<Rightarrow> nat \<Rightarrow> prefix_stats list \<Rightarrow> nat option" where
  "chain_find key len [] = None"
| "chain_find key len (x # xs) = (if strncmp_eq (prefix x) key len then Some 0 else map_option Suc (chain_find key len xs))"

definition new_prefix :: "byte list \<Rightarrow> prefix_stats" where
  "new_prefix p = \<lparr>prefix = p, num_gets = 0, num_sets = 0, num_deletes = 0, num_hits = 0\<rparr>"

text \<open>The place of the entry: its chain and its position in it.\<close>

definition stats_prefix_find ::
    "(byte list \<Rightarrow> u32) \<Rightarrow> byte \<Rightarrow> bool \<Rightarrow> bool \<Rightarrow> byte list \<Rightarrow> prefix_table \<Rightarrow> (nat \<times> nat) option \<times> prefix_table" where
  "stats_prefix_find hash delim calloc malloc key t =
     (case prefix_length delim key of
        None \<Rightarrow> (None, t)
      | Some len \<Rightarrow>
          let h = unat (hash (take len key)) mod PREFIX_HASH_SIZE
          in case chain_find key len (chains t h) of
               Some i \<Rightarrow> (Some (h, i), t)
             | None \<Rightarrow>
                 if \<not> calloc \<or> \<not> malloc then (None, t)
                 else (Some (h, 0), t\<lparr>chains := (chains t)(h := new_prefix (take len key) # chains t h),
                                       num_prefixes := num_prefixes t + 1, total_prefix_size := total_prefix_size t + len\<rparr>))"

definition upd_prefix :: "(prefix_stats \<Rightarrow> prefix_stats) \<Rightarrow> (nat \<times> nat) option \<times> prefix_table \<Rightarrow> prefix_table" where
  "upd_prefix f r =
     (case r of (None, t) \<Rightarrow> t
      | (Some (h, i), t) \<Rightarrow> t\<lparr>chains := (chains t)(h := (chains t h)[i := f (chains t h ! i)])\<rparr>)"

definition stats_prefix_record_get :: "(byte list \<Rightarrow> u32) \<Rightarrow> byte \<Rightarrow> bool \<Rightarrow> bool \<Rightarrow> byte list \<Rightarrow> bool \<Rightarrow> prefix_table \<Rightarrow> prefix_table" where
  "stats_prefix_record_get hash delim calloc malloc key is_hit t =
     upd_prefix (\<lambda>p. p\<lparr>num_gets := num_gets p + 1, num_hits := num_hits p + (if is_hit then 1 else 0)\<rparr>)
       (stats_prefix_find hash delim calloc malloc key t)"

definition stats_prefix_record_delete :: "(byte list \<Rightarrow> u32) \<Rightarrow> byte \<Rightarrow> bool \<Rightarrow> bool \<Rightarrow> byte list \<Rightarrow> prefix_table \<Rightarrow> prefix_table" where
  "stats_prefix_record_delete hash delim calloc malloc key t =
     upd_prefix (\<lambda>p. p\<lparr>num_deletes := num_deletes p + 1\<rparr>) (stats_prefix_find hash delim calloc malloc key t)"

definition stats_prefix_record_set :: "(byte list \<Rightarrow> u32) \<Rightarrow> byte \<Rightarrow> bool \<Rightarrow> bool \<Rightarrow> byte list \<Rightarrow> prefix_table \<Rightarrow> prefix_table" where
  "stats_prefix_record_set hash delim calloc malloc key t =
     upd_prefix (\<lambda>p. p\<lparr>num_sets := num_sets p + 1\<rparr>) (stats_prefix_find hash delim calloc malloc key t)"

section \<open>The dump\<close>

definition ascii :: "string \<Rightarrow> byte list" where
  "ascii s = map of_char s"

definition dump_line :: "prefix_stats \<Rightarrow> byte list" where
  "dump_line p = ascii ''PREFIX '' @ prefix p @ ascii '' get '' @ decimal (unat (num_gets p)) @ ascii '' hit '' @ decimal (unat (num_hits p))
     @ ascii '' set '' @ decimal (unat (num_sets p)) @ ascii '' del '' @ decimal (unat (num_deletes p)) @ [13, 10]"

definition dump_size :: "prefix_table \<Rightarrow> nat" where
  "dump_size t = (let f = length ''PREFIX %s get %llu hit %llu set %llu del %llu'' + 2
                  in f + total_prefix_size t + num_prefixes t * (f - 2 + 4 * (20 - 4)) + 6)"

text \<open>
  The loop over the entries: \<open>snprintf\<close> writes the line and a zero (the zero overwritten by the next line);
  \<open>None\<close> is the failed assertion, a write outside the buffer.
\<close>

fun dump_lines :: "nat \<Rightarrow> prefix_stats list \<Rightarrow> byte list \<Rightarrow> byte list option" where
  "dump_lines sz [] buf = Some buf"
| "dump_lines sz (p # ps) buf =
     (let buf = buf @ dump_line p in if length buf < sz then dump_lines sz ps buf else None)"

definition stats_prefix_dump :: "bool \<Rightarrow> prefix_table \<Rightarrow> (byte list option) option" where
  "stats_prefix_dump malloc t =
     (if \<not> malloc then Some None
      else do { buf \<leftarrow> dump_lines (dump_size t) (concat (map (chains t) [0..<PREFIX_HASH_SIZE])) [];
                if length buf + 6 \<le> dump_size t then Some (Some (buf @ ascii ''END'' @ [13, 10])) else None })"

section \<open>Invariant\<close>

text \<open>The entries, and the totals kept of them.\<close>

definition entries_of :: "prefix_table \<Rightarrow> prefix_stats list" where
  "entries_of t = concat (map (chains t) [0..<PREFIX_HASH_SIZE])"

definition prefix_inv :: "prefix_table \<Rightarrow> bool" where
  "prefix_inv t \<longleftrightarrow> num_prefixes t = length (entries_of t) \<and> total_prefix_size t = sum_list (map (length \<circ> prefix) (entries_of t))"

lemma entries_upd:
  assumes "h < PREFIX_HASH_SIZE"
  shows "\<exists>as bs. entries_of t = as @ chains t h @ bs \<and> entries_of (t\<lparr>chains := (chains t)(h := xs)\<rparr>) = as @ xs @ bs"
proof -
  have s: "[0..<256] = [0..<h] @ h # [Suc h..<256]"
    using assms upt_add_eq_append [of 0 h "256 - h"] by (simp add: upt_conv_Cons)
  show ?thesis
    by (rule exI [of _ "concat (map (chains t) [0..<h])"], rule exI [of _ "concat (map (chains t) [Suc h..<256])"])
      (simp add: entries_of_def s)
qed

text \<open>What a look-up of the entry changes, and that recording keeps the totals.\<close>

lemma prefix_length_less: "prefix_length delim key = Some len \<Longrightarrow> len < length key"
  by (induction key arbitrary: len) (auto split: if_splits)

lemma chain_find_Some: "chain_find key len xs = Some i \<Longrightarrow> i < length xs \<and> strncmp_eq (prefix (xs ! i)) key len"
  by (induction xs arbitrary: i) (auto split: if_splits)

lemma chain_find_None: "chain_find key len xs = None \<Longrightarrow> x \<in> set xs \<Longrightarrow> \<not> strncmp_eq (prefix x) key len"
  by (induction xs) (auto split: if_splits)

lemma find_inv:
  assumes "prefix_inv t" "stats_prefix_find hash delim calloc malloc key t = (r, t')"
  shows "prefix_inv t'" "\<And>h i. r = Some (h, i) \<Longrightarrow> h < PREFIX_HASH_SIZE \<and> i < length (chains t' h)"
proof -
  show "prefix_inv t'"
  proof (cases "t' = t")
    case False
    define b where "b len = unat (hash (take len key)) mod PREFIX_HASH_SIZE" for len
    have "b len < PREFIX_HASH_SIZE" for len by (simp add: b_def)
    with False obtain len h where l: "prefix_length delim key = Some len" "h < PREFIX_HASH_SIZE"
        "t' = t\<lparr>chains := (chains t)(h := new_prefix (take len key) # chains t h), num_prefixes := num_prefixes t + 1, total_prefix_size := total_prefix_size t + len\<rparr>"
      using assms(2) by (auto simp: stats_prefix_find_def Let_def b_def [symmetric] split: option.splits if_splits)
    obtain as bs where "entries_of t = as @ chains t h @ bs" "entries_of (t\<lparr>chains := (chains t)(h := new_prefix (take len key) # chains t h)\<rparr>) = as @ (new_prefix (take len key) # chains t h) @ bs"
      using entries_upd [OF l(2)] by blast
    then show ?thesis using assms(1) prefix_length_less [OF l(1)] unfolding l(3)
      by (simp add: prefix_inv_def entries_of_def new_prefix_def)
  qed (use assms(1) in simp)
  show "h < PREFIX_HASH_SIZE \<and> i < length (chains t' h)" if "r = Some (h, i)" for h i
    using assms(2) that by (auto simp: stats_prefix_find_def Let_def dest: chain_find_Some split: option.splits if_splits)
qed

lemma upd_inv:
  assumes "prefix_inv t" "\<And>h i. r = Some (h, i) \<Longrightarrow> h < PREFIX_HASH_SIZE \<and> i < length (chains t h)" "\<And>p. prefix (f p) = prefix p"
  shows "prefix_inv (upd_prefix f (r, t))"
proof (cases r)
  case (Some p)
  obtain h i where p: "p = (h, i)" by (cases p)
  with Some assms(2) have h: "h < PREFIX_HASH_SIZE" "i < length (chains t h)" by blast+
  define xs where "xs = (chains t h)[i := f (chains t h ! i)]"
  have "map prefix xs = map prefix (chains t h)" using h(2) assms(3) by (simp add: xs_def map_update list_update_same_conv)
  then have m: "map (length \<circ> prefix) xs = map (length \<circ> prefix) (chains t h)" by (metis map_map)
  obtain as bs where e: "entries_of t = as @ chains t h @ bs" "entries_of (t\<lparr>chains := (chains t)(h := xs)\<rparr>) = as @ xs @ bs"
    using entries_upd [OF h(1)] by blast
  then have "prefix_inv (t\<lparr>chains := (chains t)(h := xs)\<rparr>)" using assms(1) m by (simp add: prefix_inv_def xs_def)
  then show ?thesis by (simp add: upd_prefix_def Some p xs_def)
qed (use assms in \<open>simp add: upd_prefix_def\<close>)

section \<open>Counting\<close>

datatype prefix_event = Got "byte list" bool | Was_set "byte list" | Deleted "byte list"

primrec event_key :: "prefix_event \<Rightarrow> byte list" where
  "event_key (Got k hit) = k"
| "event_key (Was_set k) = k"
| "event_key (Deleted k) = k"

text \<open>Recording an event, with memory for new entries, and the change of the counters.\<close>

primrec record_event :: "(byte list \<Rightarrow> u32) \<Rightarrow> byte \<Rightarrow> prefix_event \<Rightarrow> prefix_table \<Rightarrow> prefix_table" where
  "record_event hash delim (Got k hit) t = stats_prefix_record_get hash delim True True k hit t"
| "record_event hash delim (Was_set k) t = stats_prefix_record_set hash delim True True k t"
| "record_event hash delim (Deleted k) t = stats_prefix_record_delete hash delim True True k t"

primrec count_event :: "prefix_event \<Rightarrow> prefix_stats \<Rightarrow> prefix_stats" where
  "count_event (Got k hit) = (\<lambda>p. p\<lparr>num_gets := num_gets p + 1, num_hits := num_hits p + (if hit then 1 else 0)\<rparr>)"
| "count_event (Was_set k) = (\<lambda>p. p\<lparr>num_sets := num_sets p + 1\<rparr>)"
| "count_event (Deleted k) = (\<lambda>p. p\<lparr>num_deletes := num_deletes p + 1\<rparr>)"

lemma record_event_upd: "record_event hash delim e t = upd_prefix (count_event e) (stats_prefix_find hash delim True True (event_key e) t)"
  by (cases e) (simp_all add: stats_prefix_record_get_def stats_prefix_record_set_def stats_prefix_record_delete_def)

lemma prefix_count_event [simp]: "prefix (count_event e p) = prefix p"
  by (cases e) simp_all

definition event_prefix :: "byte \<Rightarrow> prefix_event \<Rightarrow> byte list option" where
  "event_prefix delim e = map_option (\<lambda>n. take n (event_key e)) (prefix_length delim (event_key e))"

definition bucket :: "(byte list \<Rightarrow> u32) \<Rightarrow> byte list \<Rightarrow> nat" where
  "bucket hash p = unat (hash p) mod PREFIX_HASH_SIZE"

text \<open>No prefix of the set begins with another one of the same chain.\<close>

definition separated :: "(byte list \<Rightarrow> u32) \<Rightarrow> byte list set \<Rightarrow> bool" where
  "separated hash P \<longleftrightarrow> (\<forall>p\<in>P. \<forall>q\<in>P. bucket hash p = bucket hash q \<longrightarrow> take (length q) p = q \<longrightarrow> p = q)"

definition well_filed :: "(byte list \<Rightarrow> u32) \<Rightarrow> byte list set \<Rightarrow> prefix_table \<Rightarrow> bool" where
  "well_filed hash P t \<longleftrightarrow> (\<forall>h. distinct (map prefix (chains t h)) \<and> (\<forall>x\<in>set (chains t h). prefix x \<in> P \<and> bucket hash (prefix x) = h))"

definition stats_of :: "(byte list \<Rightarrow> u32) \<Rightarrow> byte list \<Rightarrow> prefix_table \<Rightarrow> prefix_stats" where
  "stats_of hash p t = (case find (\<lambda>x. prefix x = p) (chains t (bucket hash p)) of None \<Rightarrow> new_prefix p | Some x \<Rightarrow> x)"

lemma find_update:
  assumes "distinct (map prefix xs)" "i < length xs" "prefix (f (xs ! i)) = prefix (xs ! i)"
  shows "find (\<lambda>x. prefix x = p) (xs[i := f (xs ! i)])
    = (if prefix (xs ! i) = p then Some (f (xs ! i)) else find (\<lambda>x. prefix x = p) xs)"
  using assms
proof (induction xs arbitrary: i)
  case (Cons x xs)
  show ?case
  proof (cases i)
    case (Suc j)
    have "prefix (xs ! j) \<in> prefix ` set xs" using Cons.prems(2) Suc by simp
    then have "prefix x \<noteq> prefix (xs ! j)" using Cons.prems(1) by auto
    then show ?thesis using Suc Cons by auto
  qed (use Cons in auto)
qed simp

lemma find_nth: "distinct (map prefix xs) \<Longrightarrow> i < length xs \<Longrightarrow> find (\<lambda>x. prefix x = prefix (xs ! i)) xs = Some (xs ! i)"
  using find_update [of xs i "\<lambda>x. x" "prefix (xs ! i)"] by simp

text \<open>Looking up the entry of a prefix of the set finds or makes its own entry.\<close>

lemma find_own:
  assumes "well_filed hash P t" "separated hash P" "prefix_length delim key = Some len" "p = take len key" "p \<in> P"
  shows "\<exists>i t'. stats_prefix_find hash delim True True key t = (Some (bucket hash p, i), t') \<and> well_filed hash P t' \<and> i < length (chains t' (bucket hash p))
    \<and> prefix (chains t' (bucket hash p) ! i) = p \<and> (\<forall>q. stats_of hash q t' = stats_of hash q t)"
proof -
  let ?h = "bucket hash p"
  have len: "length p = len" using prefix_length_less [OF assms(3)] assms(4) by simp
  have own: "strncmp_eq (prefix x) key len \<longleftrightarrow> prefix x = p" if "x \<in> set (chains t ?h)" for x
  proof -
    have "prefix x \<in> P" "bucket hash (prefix x) = ?h" using assms(1) that by (auto simp: well_filed_def)
    then have "take len (prefix x) = p \<Longrightarrow> prefix x = p" using assms(2,5) len by (auto simp: separated_def)
    then show ?thesis using assms(4) len by (auto simp: strncmp_eq_def)
  qed
  let ?t = "t\<lparr>chains := (chains t)(?h := new_prefix p # chains t ?h), num_prefixes := num_prefixes t + 1, total_prefix_size := total_prefix_size t + len\<rparr>"
  have f: "stats_prefix_find hash delim True True key t = (case chain_find key len (chains t ?h) of Some i \<Rightarrow> (Some (?h, i), t) | None \<Rightarrow> (Some (?h, 0), ?t))"
    using assms(3,4) by (simp add: stats_prefix_find_def bucket_def Let_def split: option.split)
  show ?thesis
  proof (cases "chain_find key len (chains t ?h)")
    case (Some i)
    then have "i < length (chains t ?h)" "prefix (chains t ?h ! i) = p" using chain_find_Some [OF Some] own by auto
    then show ?thesis using Some assms(1) f by (intro exI [of _ i] exI [of _ t]) simp
  next
    case None
    then have no: "p \<notin> prefix ` set (chains t ?h)" using chain_find_None [OF None] own by auto
    have w: "\<forall>h. distinct (map prefix (chains t h)) \<and> (\<forall>x\<in>set (chains t h). prefix x \<in> P \<and> bucket hash (prefix x) = h)"
      using assms(1) unfolding well_filed_def .
    have "well_filed hash P ?t" unfolding well_filed_def
    proof (intro allI)
      fix h
      show "distinct (map prefix (chains ?t h)) \<and> (\<forall>x\<in>set (chains ?t h). prefix x \<in> P \<and> bucket hash (prefix x) = h)"
        using spec [OF w, of h] no assms(5) by (cases "h = ?h") (simp_all add: new_prefix_def)
    qed
    moreover have "find (\<lambda>x. prefix x = p) (chains t ?h) = None" using no by (auto simp: find_None_iff)
    then have "stats_of hash q ?t = stats_of hash q t" for q
      by (cases "q = p"; cases "bucket hash q = ?h") (simp_all add: stats_of_def new_prefix_def)
    moreover have "prefix (new_prefix p) = p" by (simp add: new_prefix_def)
    ultimately show ?thesis using None f by (intro exI [of _ 0] exI [of _ ?t]) simp
  qed
qed

lemma record_own:
  assumes "well_filed hash P t" "separated hash P" "\<And>p. event_prefix delim e = Some p \<Longrightarrow> p \<in> P"
  shows "well_filed hash P (record_event hash delim e t) \<and>
    stats_of hash q (record_event hash delim e t) = (if event_prefix delim e = Some q then count_event e (stats_of hash q t) else stats_of hash q t)"
proof (cases "prefix_length delim (event_key e)")
  case None
  then show ?thesis using assms(1) by (simp add: record_event_upd stats_prefix_find_def upd_prefix_def event_prefix_def)
next
  case (Some len)
  define p where "p = take len (event_key e)"
  define h where "h = bucket hash p"
  have ep: "event_prefix delim e = Some p" using Some by (simp add: event_prefix_def p_def)
  obtain i t' where t': "stats_prefix_find hash delim True True (event_key e) t = (Some (h, i), t')" "well_filed hash P t'" "i < length (chains t' h)"
      "prefix (chains t' h ! i) = p" "\<forall>q. stats_of hash q t' = stats_of hash q t"
    using find_own [OF assms(1,2) Some p_def assms(3) [OF ep]] unfolding h_def by blast
  define f where "f = count_event e"
  define xs where "xs = (chains t' h)[i := f (chains t' h ! i)]"
  have r: "record_event hash delim e t = t'\<lparr>chains := (chains t')(h := xs)\<rparr>"
    by (simp add: record_event_upd t'(1) upd_prefix_def xs_def f_def)
  have d: "distinct (map prefix (chains t' h))" using t'(2) by (simp add: well_filed_def)
  have m: "map prefix xs = map prefix (chains t' h)" using t'(3) by (simp add: xs_def f_def map_update list_update_same_conv)
  then have s: "prefix ` set xs = prefix ` set (chains t' h)" by (metis image_set)
  have "\<forall>x\<in>set (chains t' h). prefix x \<in> P \<and> bucket hash (prefix x) = h" using t'(2) by (simp add: well_filed_def)
  then have "\<forall>q\<in>prefix ` set xs. q \<in> P \<and> bucket hash q = h" unfolding s by simp
  then have "well_filed hash P (record_event hash delim e t)" using t'(2) m d by (simp add: well_filed_def r)
  moreover have "find (\<lambda>x. prefix x = q) xs = (if p = q then Some (f (chains t' h ! i)) else find (\<lambda>x. prefix x = q) (chains t' h))"
    using find_update [OF d t'(3), of f q] t'(4) by (simp add: xs_def f_def)
  then have "stats_of hash q (record_event hash delim e t) = (if p = q then f (chains t' h ! i) else stats_of hash q t')"
    by (auto simp: stats_of_def r h_def)
  moreover have "stats_of hash p t' = chains t' h ! i" using find_nth [OF d t'(3)] t'(4) by (simp add: stats_of_def h_def)
  ultimately show ?thesis using ep t'(5) by (auto simp: f_def)
qed

fun record_events :: "(byte list \<Rightarrow> u32) \<Rightarrow> byte \<Rightarrow> prefix_event list \<Rightarrow> prefix_table \<Rightarrow> prefix_table" where
  "record_events hash delim [] t = t"
| "record_events hash delim (e # es) t = record_events hash delim es (record_event hash delim e t)"

lemma record_events_own:
  assumes "well_filed hash P t" "separated hash P" "\<forall>e\<in>set es. \<forall>p. event_prefix delim e = Some p \<longrightarrow> p \<in> P"
  shows "stats_of hash q (record_events hash delim es t) = fold count_event (filter (\<lambda>e. event_prefix delim e = Some q) es) (stats_of hash q t)"
  using assms
proof (induction es arbitrary: t)
  case (Cons e es)
  then show ?case using record_own [of hash P t delim e q] by simp
qed simp

section \<open>Properties\<close>

text \<open>
  C26. After any sequence of recorded gets, sets and deletes on a cleared table, the entry of a prefix holds exactly
  the counts of the events whose keys have that prefix, provided no recorded prefix begins with another one
  of the same chain.
\<close>

theorem prefix_stats_count:
  assumes "separated hash {p. \<exists>e\<in>set es. event_prefix delim e = Some p}"
  shows "stats_of hash q (record_events hash delim es (stats_prefix_clear t)) = fold count_event (filter (\<lambda>e. event_prefix delim e = Some q) es) (new_prefix q)"
proof -
  have "well_filed hash P (stats_prefix_clear t)" for P by (simp add: well_filed_def stats_prefix_clear_def)
  moreover have "stats_of hash q (stats_prefix_clear t) = new_prefix q" by (simp add: stats_of_def stats_prefix_clear_def)
  ultimately show ?thesis using record_events_own [OF _ assms, of "stats_prefix_clear t" es delim q] by auto
qed

text \<open>The events of the examples: keys \<open>abc:1\<close> and \<open>abcd:1\<close>.\<close>

definition demo_events :: "prefix_event list" where
  "demo_events = [Was_set (ascii ''abcd:1''), Got (ascii ''abc:1'') True]"

theorem prefix_stats_count_witness:
  "num_gets (stats_of (\<lambda>k. of_nat (length k)) (ascii ''abc'') (record_events (\<lambda>k. of_nat (length k)) 58 demo_events (stats_prefix_clear (stats_prefix_clear undefined)))) = 1"
proof -
  have p: "map (event_prefix 58) demo_events = [Some (ascii ''abcd''), Some (ascii ''abc'')]" by code_simp
  then have "{p. \<exists>e\<in>set demo_events. event_prefix 58 e = Some p} = {ascii ''abcd'', ascii ''abc''}" by (auto simp: demo_events_def)
  then have "separated (\<lambda>k. of_nat (length k)) {p. \<exists>e\<in>set demo_events. event_prefix 58 e = Some p}"
    by (auto simp: separated_def bucket_def ascii_def unat_of_nat)
  from prefix_stats_count [OF this, of "ascii ''abc''" "stats_prefix_clear undefined"] show ?thesis
    using p by (simp add: demo_events_def new_prefix_def ascii_def)
qed


lemma record_event_inv: "prefix_inv t \<Longrightarrow> prefix_inv (record_event hash delim e t)"
proof -
  assume t: "prefix_inv t"
  obtain r t' where f: "stats_prefix_find hash delim True True (event_key e) t = (r, t')" by fastforce
  show ?thesis unfolding record_event_upd f by (rule upd_inv) (use find_inv [OF t f] in simp_all)
qed

lemma record_events_inv: "prefix_inv t \<Longrightarrow> prefix_inv (record_events hash delim es t)"
  by (induction es arbitrary: t) (simp_all add: record_event_inv)

lemma length_dump_line: "length (dump_line p) \<le> length (prefix p) + 109"
  using length_decimal_u64 [of "num_gets p"] length_decimal_u64 [of "num_hits p"] length_decimal_u64 [of "num_sets p"] length_decimal_u64 [of "num_deletes p"]
  by (simp add: dump_line_def ascii_def)

lemma dump_lines_ok:
  assumes "length buf + sum_list (map (\<lambda>p. length (prefix p) + 109) ps) < sz"
  shows "\<exists>out. dump_lines sz ps buf = Some (buf @ concat (map dump_line ps))"
  using assms
proof (induction ps arbitrary: buf)
  case (Cons p ps)
  then show ?case using length_dump_line [of p] Cons.IH [of "buf @ dump_line p"] by simp
qed simp


end
