(* ===== verification/Protocol.thy ===== *)
theory Protocol
  imports Items Prefix_Stats
begin

text \<open>
  The text protocol, \<open>src/mem/memcached.c\<close> with the item access functions of \<open>src/mem/thread.c\<close>: the
  tokenizer, the storage rules of the set commands, arithmetic, and the handlers of the commands that read
  and write items.

  A connection is a record of the fields of \<open>conn\<close> the handlers use; \<open>wout\<close> is the response line (\<open>wcurr\<close>,
  \<open>wbytes\<close>), \<open>iov\<close> the pieces of the outgoing data list. Its worker thread's state is the \<open>worker\<close> of the item
  layer and the counters \<open>tst\<close>. \<open>None\<close> is undefined behaviour or a failed assertion, and the branches for large
  (chunked) items, whose data this theory does not model. Logging and tracing calls have no effect on the
  state. Locks are not part of the state: a handler runs under the locks it takes.
\<close>

section \<open>Connections and their environment\<close>

record slab_stats =
  set_cmds :: u64
  touch_hits :: u64
  delete_hits :: u64
  cas_hits :: u64
  cas_badval :: u64
  incr_hits :: u64
  decr_hits :: u64

record thread_stats =
  get_cmds :: u64
  get_misses :: u64
  touch_cmds :: u64
  touch_misses :: u64
  delete_misses :: u64
  incr_misses :: u64
  decr_misses :: u64
  cas_misses :: u64
  flush_cmds :: u64
  slab_stats_of :: "u8 \<Rightarrow> slab_stats"
  lru_hits :: "u8 \<Rightarrow> u64"

datatype conn_state = conn_listening | conn_new_cmd | conn_waiting | conn_read | conn_parse_cmd | conn_write | conn_nread
  | conn_swallow | conn_closing | conn_mwrite | conn_closed | conn_watch

datatype nread = NREAD_ADD | NREAD_SET | NREAD_REPLACE | NREAD_APPEND | NREAD_PREPEND | NREAD_CAS

datatype store_item_type = NOT_STORED | STORED | EXISTS | NOT_FOUND | TOO_LARGE | NO_MEMORY

datatype delta_result_type = OK | NON_NUMERIC | EOM | DELTA_ITEM_NOT_FOUND | DELTA_ITEM_CAS_MISMATCH

record conn =
  thr :: worker
  tst :: thread_stats
  state :: conn_state
  write_and_go :: conn_state
  noreply :: bool
  wsize :: nat
  wout :: "byte list"
  iov :: "byte list list"
  conn_cas :: u64
  citem :: ptr
  ritem :: nat
  rlbytes :: int
  sbytes :: int
  ccmd :: nread
  ilist :: "nat list"

text \<open>
  Settings of the protocol layer and what the environment answers during a command: the allocation of items,
  memory for prefix statistics and for the lists of a get, and the bytes that follow an item's value in memory.
\<close>

record penv =
  process_started :: int
  detail_enabled :: bool
  prefix_delimiter :: byte
  flush_enabled :: bool
  wrapv :: bool
  item_mem :: alloc_env
  junk_bytes :: u64
  prefix_mem :: "nat \<Rightarrow> bool \<times> bool"
  ilist_mem :: "nat \<Rightarrow> bool"
  suffix_mem :: "nat \<Rightarrow> bool"
  iov_mem :: "nat \<Rightarrow> bool"
  mem_after :: "nat \<Rightarrow> byte list"

definition upd_ts :: "(thread_stats \<Rightarrow> thread_stats) \<Rightarrow> conn \<Rightarrow> conn" where
  "upd_ts f c = c\<lparr>tst := f (tst c)\<rparr>"

definition upd_ss :: "u8 \<Rightarrow> (slab_stats \<Rightarrow> slab_stats) \<Rightarrow> conn \<Rightarrow> conn" where
  "upd_ss i f = upd_ts (\<lambda>s. s\<lparr>slab_stats_of := (slab_stats_of s)(i := f (slab_stats_of s i))\<rparr>)"

definition conn_set_state :: "conn_state \<Rightarrow> conn \<Rightarrow> conn" where
  "conn_set_state s c = c\<lparr>state := s\<rparr>"

definition out_bytes :: "byte list \<Rightarrow> conn \<Rightarrow> conn" where
  "out_bytes s c =
     (if noreply c then conn_set_state conn_new_cmd (c\<lparr>noreply := False\<rparr>)
      else let s = (if length s + 2 > wsize c then ascii ''SERVER_ERROR output line too long'' else s)
           in (conn_set_state conn_write (c\<lparr>iov := [], wout := s @ [13, 10]\<rparr>))\<lparr>write_and_go := conn_new_cmd\<rparr>)"

abbreviation out_string :: "string \<Rightarrow> conn \<Rightarrow> conn" where
  "out_string s \<equiv> out_bytes (ascii s)"

text \<open>\<open>out_of_memory\<close> of a text connection.\<close>

definition out_of_memory :: "string \<Rightarrow> conn \<Rightarrow> conn" where
  "out_of_memory s c = out_string s c"

definition realtime :: "globals \<Rightarrow> penv \<Rightarrow> int \<Rightarrow> u32" where
  "realtime g pe et =
     (if et = 0 then 0
      else if et > 60 * 60 * 24 * 30
      then (if et \<le> process_started pe then 1 else word_of_int (et - process_started pe))
      else word_of_int (et + int (unat (current_time g))))"

section \<open>Tokens\<close>

text \<open>A token: the memory from the pointer on (\<open>None\<close> for \<open>NULL\<close>), and the length.\<close>

record token =
  tok_value :: "byte list option"
  tok_length :: nat

abbreviation (input) MAX_TOKENS :: nat where "MAX_TOKENS \<equiv> 8"
abbreviation (input) KEY_MAX_LENGTH :: nat where "KEY_MAX_LENGTH \<equiv> 250"

definition strlen :: "byte list \<Rightarrow> nat" where
  "strlen s = length (takeWhile (\<lambda>b. b \<noteq> 0) s)"

text \<open>The loop: \<open>n\<close> turns left, the offsets \<open>s\<close> and \<open>e\<close>, the command, and the offsets and lengths of the tokens.\<close>

fun token_loop :: "nat \<Rightarrow> nat \<Rightarrow> nat \<Rightarrow> nat \<Rightarrow> byte list \<Rightarrow> (nat \<times> nat) list \<Rightarrow> nat \<times> nat \<times> byte list \<times> (nat \<times> nat) list" where
  "token_loop max_tokens 0 s e cmd toks = (s, e, cmd, toks)"
| "token_loop max_tokens (Suc n) s e cmd toks =
     (if cmd ! e = 32 then
        if s \<noteq> e then
          let toks = toks @ [(s, e - s)]; cmd = cmd[e := 0]
          in if length toks = max_tokens - 1 then (e + 1, e + 1, cmd, toks)
             else token_loop max_tokens n (e + 1) (e + 1) cmd toks
        else token_loop max_tokens n (e + 1) (e + 1) cmd toks
      else token_loop max_tokens n s (e + 1) cmd toks)"

definition tokenize_command :: "byte list \<Rightarrow> nat \<Rightarrow> token list" where
  "tokenize_command command max_tokens =
     (let (s, e, cmd, toks) = token_loop max_tokens (strlen command) 0 0 command [];
          toks = (if s \<noteq> e then toks @ [(s, e - s)] else toks)
      in map (\<lambda>(a, n). \<lparr>tok_value = Some (drop a cmd), tok_length = n\<rparr>) toks
           @ [\<lparr>tok_value = (if cmd ! e = 0 then None else Some (drop e cmd)), tok_length = 0\<rparr>])"

text \<open>Access to \<open>tokens[i]\<close>, and \<open>strcmp(tokens[i].value, s) == 0\<close>.\<close>

definition token_at :: "token list \<Rightarrow> nat \<Rightarrow> token option" where
  "token_at ts i = (if i < length ts then Some (ts ! i) else None)"

definition token_value :: "token list \<Rightarrow> nat \<Rightarrow> byte list option" where
  "token_value ts i = do { t \<leftarrow> token_at ts i; tok_value t }"

definition token_is :: "token list \<Rightarrow> nat \<Rightarrow> string \<Rightarrow> bool option" where
  "token_is ts i s = map_option (\<lambda>v. takeWhile (\<lambda>b. b \<noteq> 0) v = ascii s) (token_value ts i)"

definition set_noreply_maybe :: "token list \<Rightarrow> conn \<Rightarrow> conn option" where
  "set_noreply_maybe ts c =
     do { t \<leftarrow> token_at ts (length ts - 2);
          Some (case tok_value t of
                  None \<Rightarrow> c
                | Some v \<Rightarrow> if takeWhile (\<lambda>b. b \<noteq> 0) v = ascii ''noreply'' then c\<lparr>noreply := True\<rparr> else c) }"

section \<open>Item access\<close>

definition item_alloc :: "globals \<Rightarrow> penv \<Rightarrow> byte list \<Rightarrow> u32 \<Rightarrow> u32 \<Rightarrow> int \<Rightarrow> cache \<Rightarrow> (ptr \<times> cache) option" where
  "item_alloc g pe key flags et nb ch = do_item_alloc g (item_mem pe) (junk_bytes pe) key (of_nat (length key)) flags et nb ch"

definition item_get :: "globals \<Rightarrow> byte list \<Rightarrow> bool \<Rightarrow> conn \<Rightarrow> cache \<Rightarrow> (ptr \<times> conn \<times> cache) option" where
  "item_get g key upd c ch = map_option (\<lambda>(p, w, ch). (p, c\<lparr>thr := w\<rparr>, ch)) (do_item_get g key (hash g key) (thr c) upd ch)"

definition item_touch :: "globals \<Rightarrow> byte list \<Rightarrow> u32 \<Rightarrow> conn \<Rightarrow> cache \<Rightarrow> (ptr \<times> conn \<times> cache) option" where
  "item_touch g key et c ch = map_option (\<lambda>(p, w, ch). (p, c\<lparr>thr := w\<rparr>, ch)) (do_item_touch g key et (hash g key) (thr c) ch)"

definition item_link :: "globals \<Rightarrow> nat \<Rightarrow> cache \<Rightarrow> cache option" where
  "item_link g x ch = do_item_link g x (hash g (ITEM_key (hp ch x))) ch"

definition item_remove :: "globals \<Rightarrow> nat \<Rightarrow> cache \<Rightarrow> cache option" where
  "item_remove g x ch = do_item_remove g x ch"

definition item_replace :: "globals \<Rightarrow> nat \<Rightarrow> nat \<Rightarrow> u32 \<Rightarrow> cache \<Rightarrow> cache option" where
  "item_replace g x y hv ch = do_item_replace g x y hv ch"

definition item_unlink :: "globals \<Rightarrow> nat \<Rightarrow> cache \<Rightarrow> cache option" where
  "item_unlink g x ch = do_item_unlink g x (hash g (ITEM_key (hp ch x))) ch"

text \<open>
  The value bytes of an item and writing them. The area has \<open>nbytes\<close> bytes; what a new item's area holds
  before it is written is whatever was there (zeros where the model's list is shorter).
\<close>

definition item_value :: "item \<Rightarrow> byte list" where
  "item_value it = take (nat (nbytes it)) (idata it @ replicate (nat (nbytes it)) 0)"

definition item_write :: "nat \<Rightarrow> nat \<Rightarrow> byte list \<Rightarrow> cache \<Rightarrow> cache option" where
  "item_write x off bs ch = map_option (\<lambda>d. upd_it x (\<lambda>i. i\<lparr>idata := d\<rparr>) ch) (memcpy_at (item_value (hp ch x)) off bs)"

section \<open>Storing\<close>

definition store_item_copy_data :: "nread \<Rightarrow> nat \<Rightarrow> nat \<Rightarrow> nat \<Rightarrow> cache \<Rightarrow> cache option" where
  "store_item_copy_data comm old_it new_it add_it ch =
     (let (a, b) = (if comm = NREAD_APPEND then (old_it, add_it) else (add_it, old_it))
      in if has_flag (it_flags (hp ch new_it)) ITEM_CHUNKED then None
         else do { ch \<leftarrow> item_write new_it 0 (item_value (hp ch a)) ch;
                   item_write new_it (nat (nbytes (hp ch a) - 2)) (item_value (hp ch b)) ch })"

text \<open>
  Append and prepend: the outcome so far, whether the allocation failed, the item to store and the combined
  item, if one was made.
\<close>

definition store_combine ::
    "globals \<Rightarrow> penv \<Rightarrow> nread \<Rightarrow> nat \<Rightarrow> nat \<Rightarrow> cache \<Rightarrow> (store_item_type \<times> bool \<times> nat \<times> ptr \<times> cache) option" where
  "store_combine g pe comm it old_it ch =
     (if ITEM_get_cas (hp ch it) \<noteq> 0 \<and> ITEM_get_cas (hp ch it) \<noteq> ITEM_get_cas (hp ch old_it) then Some (EXISTS, False, it, None, ch)
      else if extstore g \<and> has_flag (it_flags (hp ch old_it)) ITEM_HDR then Some (NOT_STORED, True, it, None, ch)
      else do { (p, ch) \<leftarrow> do_item_alloc g (item_mem pe) (junk_bytes pe) (ITEM_key (hp ch it)) (ucast (nkey (hp ch it)))
                             (FLAGS_CONV (hp ch old_it)) (exptime (hp ch old_it)) (nbytes (hp ch it) + nbytes (hp ch old_it) - 2) ch;
                (case p of
                   None \<Rightarrow> Some (NOT_STORED, True, it, None, ch)
                 | Some new_it \<Rightarrow> do { ch \<leftarrow> store_item_copy_data comm old_it new_it it ch; Some (NOT_STORED, False, new_it, Some new_it, ch) }) })"

text \<open>The last branch of \<open>do_store_item\<close>: the outcome, the item stored, the combined item.\<close>

definition store_plain ::
    "globals \<Rightarrow> penv \<Rightarrow> nread \<Rightarrow> u32 \<Rightarrow> nat \<Rightarrow> ptr \<Rightarrow> conn \<Rightarrow> cache \<Rightarrow> (store_item_type \<times> nat \<times> ptr \<times> conn \<times> cache) option" where
  "store_plain g pe comm hv it old c ch =
     do { (stored, failed, it, new_it, ch) \<leftarrow>
            (case old of
               Some old_it \<Rightarrow> if comm = NREAD_APPEND \<or> comm = NREAD_PREPEND then store_combine g pe comm it old_it ch
                               else Some (NOT_STORED, False, it, None, ch)
             | None \<Rightarrow> Some (NOT_STORED, False, it, None, ch));
          (if stored = NOT_STORED \<and> \<not> failed
           then do { ch \<leftarrow> (case old of Some old_it \<Rightarrow> item_replace g old_it it hv ch | None \<Rightarrow> do_item_link g it hv ch);
                     Some (STORED, it, new_it, c\<lparr>conn_cas := ITEM_get_cas (hp ch it)\<rparr>, ch) }
           else Some (stored, it, new_it, c, ch)) }"

definition store_cas ::
    "globals \<Rightarrow> u32 \<Rightarrow> nat \<Rightarrow> ptr \<Rightarrow> conn \<Rightarrow> cache \<Rightarrow> (store_item_type \<times> nat \<times> ptr \<times> conn \<times> cache) option" where
  "store_cas g hv it old c ch =
     (case old of
        None \<Rightarrow> Some (NOT_FOUND, it, None, upd_ts (\<lambda>s. s\<lparr>cas_misses := cas_misses s + 1\<rparr>) c, ch)
      | Some old_it \<Rightarrow>
          let cid = ITEM_clsid (hp ch old_it)
          in if ITEM_get_cas (hp ch it) = ITEM_get_cas (hp ch old_it)
             then do { ch \<leftarrow> item_replace g old_it it hv ch;
                       Some (STORED, it, None, upd_ss cid (\<lambda>s. s\<lparr>cas_hits := cas_hits s + 1\<rparr>) c, ch) }
             else Some (EXISTS, it, None, upd_ss cid (\<lambda>s. s\<lparr>cas_badval := cas_badval s + 1\<rparr>) c, ch))"

definition do_store_item :: "globals \<Rightarrow> penv \<Rightarrow> nat \<Rightarrow> nread \<Rightarrow> u32 \<Rightarrow> conn \<Rightarrow> cache \<Rightarrow> (store_item_type \<times> conn \<times> cache) option" where
  "do_store_item g pe it comm hv c ch =
     do { (old, w, ch) \<leftarrow> do_item_get g (ITEM_key (hp ch it)) hv (thr c) False ch;
          (let c = c\<lparr>thr := w\<rparr>
           in do { (stored, it, new_it, c, ch) \<leftarrow>
                     (if old \<noteq> None \<and> comm = NREAD_ADD
                      then do { ch \<leftarrow> do_item_update g (the old) ch; Some (NOT_STORED, it, None, c, ch) }
                      else if old = None \<and> (comm = NREAD_REPLACE \<or> comm = NREAD_APPEND \<or> comm = NREAD_PREPEND)
                      then Some (NOT_STORED, it, None, c, ch)
                      else if comm = NREAD_CAS then store_cas g hv it old c ch
                      else store_plain g pe comm hv it old c ch);
                   ch \<leftarrow> (case old of None \<Rightarrow> Some ch | Some y \<Rightarrow> do_item_remove g y ch);
                   ch \<leftarrow> (case new_it of None \<Rightarrow> Some ch | Some y \<Rightarrow> do_item_remove g y ch);
                   Some (stored, if stored = STORED then c\<lparr>conn_cas := ITEM_get_cas (hp ch it)\<rparr> else c, ch) }) }"

definition store_item :: "globals \<Rightarrow> penv \<Rightarrow> nat \<Rightarrow> nread \<Rightarrow> conn \<Rightarrow> cache \<Rightarrow> (store_item_type \<times> conn \<times> cache) option" where
  "store_item g pe it comm c ch = do_store_item g pe it comm (hash g (ITEM_key (hp ch it))) c ch"

section \<open>Arithmetic\<close>

text \<open>\<open>buf\<close> is the response buffer of 24 bytes; \<open>cas\<close> is \<open>None\<close> for a null pointer.\<close>

definition delta_value :: "bool \<Rightarrow> u64 \<Rightarrow> u64 \<Rightarrow> u64" where
  "delta_value incr delta v = (if incr then v + delta else if delta > v then 0 else v - delta)"

definition delta_in_place :: "globals \<Rightarrow> nat \<Rightarrow> byte list \<Rightarrow> cache \<Rightarrow> cache option" where
  "delta_in_place g it txt ch =
     do { ch \<leftarrow> item_stats_sizes_remove it ch;
          (let (cid, ch) = (if use_cas (slab_set g) then get_cas_id ch else (0, ch))
           in do { ch \<leftarrow> item_stats_sizes_add it (upd_it it (ITEM_set_cas cid) ch);
                   ch \<leftarrow> item_write it 0 txt ch;
                   ch \<leftarrow> item_write it (length txt) (replicate (nat (nbytes (hp ch it) - int (length txt) - 2)) 32) ch;
                   do_item_update g it ch }) }"

definition delta_replace :: "globals \<Rightarrow> penv \<Rightarrow> nat \<Rightarrow> byte list \<Rightarrow> u32 \<Rightarrow> cache \<Rightarrow> (bool \<times> cache) option" where
  "delta_replace g pe it txt hv ch =
     do { (p, ch) \<leftarrow> do_item_alloc g (item_mem pe) (junk_bytes pe) (ITEM_key (hp ch it)) (ucast (nkey (hp ch it))) (FLAGS_CONV (hp ch it))
                        (exptime (hp ch it)) (int (length txt) + 2) ch;
          (case p of
             None \<Rightarrow> do { ch \<leftarrow> do_item_remove g it ch; Some (False, ch) }
           | Some new_it \<Rightarrow>
               if has_flag (it_flags (hp ch new_it)) ITEM_CHUNKED then None
               else do { ch \<leftarrow> item_write new_it 0 txt ch;
                         ch \<leftarrow> item_write new_it (length txt) [13, 10] ch;
                         ch \<leftarrow> item_replace g it new_it hv ch;
                         ch \<leftarrow> Some (upd_it it (ITEM_set_cas (if use_cas (slab_set g) then ITEM_get_cas (hp ch new_it) else 0)) ch);
                         ch \<leftarrow> do_item_remove g new_it ch;
                         Some (True, ch) }) }"

definition do_add_delta ::
    "globals \<Rightarrow> penv \<Rightarrow> byte list \<Rightarrow> bool \<Rightarrow> u64 \<Rightarrow> byte list \<Rightarrow> u64 option \<Rightarrow> u32 \<Rightarrow> conn \<Rightarrow> cache
     \<Rightarrow> (delta_result_type \<times> byte list \<times> u64 option \<times> conn \<times> cache) option" where
  "do_add_delta g pe key incr delta buf casp hv c ch =
     do { (p, w, ch) \<leftarrow> do_item_get g key hv (thr c) False ch;
          (let c = c\<lparr>thr := w\<rparr>
           in case p of
                None \<Rightarrow> Some (DELTA_ITEM_NOT_FOUND, buf, casp, c, ch)
              | Some it \<Rightarrow>
                  if nbytes (hp ch it) \<le> 2 \<or> has_flag (it_flags (hp ch it)) (if extstore g then set_flag ITEM_CHUNKED ITEM_HDR else ITEM_CHUNKED)
                  then do { ch \<leftarrow> do_item_remove g it ch; Some (NON_NUMERIC, buf, casp, c, ch) }
                  else if casp \<noteq> None \<and> casp \<noteq> Some 0 \<and> Some (ITEM_get_cas (hp ch it)) \<noteq> casp
                  then do { ch \<leftarrow> do_item_remove g it ch; Some (DELTA_ITEM_CAS_MISMATCH, buf, casp, c, ch) }
                  else do { (num, v) \<leftarrow> safe_strtoull (item_value (hp ch it) @ mem_after pe it);
                    (if \<not> num then do { ch \<leftarrow> do_item_remove g it ch; Some (NON_NUMERIC, buf, casp, c, ch) }
                     else let v = delta_value incr delta v;
                              c = upd_ss (ITEM_clsid (hp ch it)) (\<lambda>s. if incr then s\<lparr>incr_hits := incr_hits s + 1\<rparr> else s\<lparr>decr_hits := decr_hits s + 1\<rparr>) c
                          in do { (buf, _) \<leftarrow> itoa_u64 (wrapv pe) v (buf, 0);
                            (let res = strlen buf; txt = take res buf
                             in if int res + 2 \<le> nbytes (hp ch it) \<and> refcount (hp ch it) = 2
                                then do { ch \<leftarrow> delta_in_place g it txt ch;
                                          casp \<leftarrow> Some (map_option (\<lambda>_. ITEM_get_cas (hp ch it)) casp);
                                          ch \<leftarrow> do_item_remove g it ch;
                                          Some (OK, buf, casp, c, ch) }
                                else if refcount (hp ch it) > 1
                                then do { (ok, ch) \<leftarrow> delta_replace g pe it txt hv ch;
                                          if \<not> ok then Some (EOM, buf, casp, c, ch)
                                          else do { casp \<leftarrow> Some (map_option (\<lambda>_. ITEM_get_cas (hp ch it)) casp);
                                                    ch \<leftarrow> do_item_remove g it ch;
                                                    Some (OK, buf, casp, c, ch) } }
                                else do { ch \<leftarrow> (if refcount (hp ch it) = 1 then do_item_remove g it ch else Some ch);
                                          Some (DELTA_ITEM_NOT_FOUND, buf, casp, c, ch) }) }) }) }"

definition add_delta ::
    "globals \<Rightarrow> penv \<Rightarrow> byte list \<Rightarrow> bool \<Rightarrow> u64 \<Rightarrow> byte list \<Rightarrow> u64 option \<Rightarrow> conn \<Rightarrow> cache
     \<Rightarrow> (delta_result_type \<times> byte list \<times> u64 option \<times> conn \<times> cache) option" where
  "add_delta g pe key incr delta buf casp c ch = do_add_delta g pe key incr delta buf casp (hash g key) c ch"

section \<open>The set commands\<close>

text \<open>
  Reading the value (state \<open>conn_nread\<close>) in one go: the bytes go to \<open>ritem\<close>, here an offset in the value of the item.
\<close>

definition conn_nread_bytes :: "byte list \<Rightarrow> conn \<Rightarrow> cache \<Rightarrow> (conn \<times> cache) option" where
  "conn_nread_bytes bs c ch =
     (case citem c of
        None \<Rightarrow> None
      | Some x \<Rightarrow>
          if has_flag (it_flags (hp ch x)) ITEM_CHUNKED then None
          else let bs = take (nat (rlbytes c)) bs
               in do { ch \<leftarrow> item_write x (ritem c) bs ch; Some (c\<lparr>ritem := ritem c + length bs, rlbytes := rlbytes c - int (length bs)\<rparr>, ch) })"

definition complete_nread_ascii :: "globals \<Rightarrow> penv \<Rightarrow> conn \<Rightarrow> cache \<Rightarrow> (conn \<times> cache) option" where
  "complete_nread_ascii g pe c ch =
     (case citem c of
        None \<Rightarrow> None
      | Some it \<Rightarrow>
          let c = upd_ss (ITEM_clsid (hp ch it)) (\<lambda>s. s\<lparr>set_cmds := set_cmds s + 1\<rparr>) c
          in if has_flag (it_flags (hp ch it)) ITEM_CHUNKED \<or> nbytes (hp ch it) < 2 then None
             else do { (c, ch) \<leftarrow>
                         (if drop (nat (nbytes (hp ch it) - 2)) (item_value (hp ch it)) \<noteq> [13, 10]
                          then Some (out_string ''CLIENT_ERROR bad data chunk'' c, ch)
                          else do { (ret, c, ch) \<leftarrow> store_item g pe it (ccmd c) c ch;
                                    Some (out_string (case ret of STORED \<Rightarrow> ''STORED'' | EXISTS \<Rightarrow> ''EXISTS'' | NOT_FOUND \<Rightarrow> ''NOT_FOUND''
                                                        | NOT_STORED \<Rightarrow> ''NOT_STORED'' | _ \<Rightarrow> ''SERVER_ERROR Unhandled storage type.'') c, ch) });
                       ch \<leftarrow> item_remove g it ch;
                       Some (c\<lparr>citem := None\<rparr>, ch) })"

text \<open>The arguments of a set command: flags, expiry time, length and, for \<open>cas\<close>, the unique. \<open>Some None\<close> for a bad line.\<close>

definition update_args :: "token list \<Rightarrow> bool \<Rightarrow> (u32 \<times> int \<times> int \<times> u64) option option" where
  "update_args ts handle_cas =
     do { v2 \<leftarrow> token_value ts 2; (ok, flags) \<leftarrow> safe_strtoul v2;
          (if \<not> ok then Some None
           else do { v3 \<leftarrow> token_value ts 3; (ok, et) \<leftarrow> safe_strtol v3;
             (if \<not> ok then Some None
              else do { v4 \<leftarrow> token_value ts 4; (ok, vlen) \<leftarrow> safe_strtol v4;
                (if \<not> ok then Some None
                 else if handle_cas
                 then do { v5 \<leftarrow> token_value ts 5; (ok, cas) \<leftarrow> safe_strtoull v5;
                           Some (if ok then Some (flags, et, vlen, cas) else None) }
                 else Some (Some (flags, et, vlen, 0))) }) }) }"

text \<open>A negative expiry time of a set command.\<close>

definition update_exptime :: "int \<Rightarrow> int" where
  "update_exptime et = (if et < 0 then 60 * 60 * 24 * 30 + 1 else et)"

definition update_failed :: "globals \<Rightarrow> byte list \<Rightarrow> u32 \<Rightarrow> int \<Rightarrow> nread \<Rightarrow> conn \<Rightarrow> cache \<Rightarrow> (conn \<times> cache) option" where
  "update_failed g key flags vlen comm c ch =
     do { ok \<leftarrow> item_size_ok g (of_nat (length key)) flags vlen ch;
          (let c = (if ok then out_of_memory ''SERVER_ERROR out of memory storing object'' c
                    else out_string ''SERVER_ERROR object too large for cache'' c);
               c = c\<lparr>write_and_go := conn_swallow, sbytes := vlen\<rparr>
           in if comm = NREAD_SET
              then do { (p, c, ch) \<leftarrow> item_get g key False c ch;
                        (case p of
                           None \<Rightarrow> Some (c, ch)
                         | Some it \<Rightarrow> do { ch \<leftarrow> item_unlink g it ch; ch \<leftarrow> item_remove g it ch; Some (c, ch) }) }
              else Some (c, ch)) }"

definition record_set :: "globals \<Rightarrow> penv \<Rightarrow> byte list \<Rightarrow> prefix_table \<Rightarrow> prefix_table" where
  "record_set g pe key t =
     (if detail_enabled pe
      then stats_prefix_record_set (hash g) (prefix_delimiter pe) (fst (prefix_mem pe 0)) (snd (prefix_mem pe 0)) key t else t)"

definition process_update_command ::
    "globals \<Rightarrow> penv \<Rightarrow> token list \<Rightarrow> nread \<Rightarrow> bool \<Rightarrow> conn \<Rightarrow> prefix_table \<Rightarrow> cache \<Rightarrow> (conn \<times> prefix_table \<times> cache) option" where
  "process_update_command g pe ts comm handle_cas c pt ch =
     do { c \<leftarrow> set_noreply_maybe ts c;
          kt \<leftarrow> token_at ts 1;
          (if tok_length kt > KEY_MAX_LENGTH then Some (out_string ''CLIENT_ERROR bad command line format'' c, pt, ch)
           else do { kv \<leftarrow> tok_value kt;
             args \<leftarrow> update_args ts handle_cas;
             (case args of
                None \<Rightarrow> Some (out_string ''CLIENT_ERROR bad command line format'' c, pt, ch)
              | Some (flags, et, vlen, req_cas_id) \<Rightarrow>
                  if vlen < 0 \<or> vlen > 2 ^ 31 - 1 - 2 then Some (out_string ''CLIENT_ERROR bad command line format'' c, pt, ch)
                  else let key = take (tok_length kt) kv; pt = record_set g pe key pt; vlen = vlen + 2
                       in do { (p, ch) \<leftarrow> item_alloc g pe key flags (realtime g pe (update_exptime et)) vlen ch;
                               (case p of
                                  None \<Rightarrow> do { (c, ch) \<leftarrow> update_failed g key flags vlen comm c ch; Some (c, pt, ch) }
                                | Some it \<Rightarrow>
                                    let ch = upd_it it (ITEM_set_cas req_cas_id) ch
                                    in Some (conn_set_state conn_nread (c\<lparr>citem := Some it, ritem := 0, rlbytes := nbytes (hp ch it), ccmd := comm\<rparr>), pt, ch)) }) }) }"

section \<open>Touch, arithmetic and delete\<close>

definition process_touch_command ::
    "globals \<Rightarrow> penv \<Rightarrow> token list \<Rightarrow> conn \<Rightarrow> cache \<Rightarrow> (conn \<times> cache) option" where
  "process_touch_command g pe ts c ch =
     do { c \<leftarrow> set_noreply_maybe ts c;
          kt \<leftarrow> token_at ts 1;
          (if tok_length kt > KEY_MAX_LENGTH then Some (out_string ''CLIENT_ERROR bad command line format'' c, ch)
           else do { kv \<leftarrow> tok_value kt; v2 \<leftarrow> token_value ts 2; (ok, et) \<leftarrow> safe_strtol v2;
             (if \<not> ok then Some (out_string ''CLIENT_ERROR invalid exptime argument'' c, ch)
              else do { (p, c, ch) \<leftarrow> item_touch g (take (tok_length kt) kv) (realtime g pe et) c ch;
                (case p of
                   Some it \<Rightarrow>
                     let c = upd_ss (ITEM_clsid (hp ch it)) (\<lambda>s. s\<lparr>touch_hits := touch_hits s + 1\<rparr>) (upd_ts (\<lambda>s. s\<lparr>touch_cmds := touch_cmds s + 1\<rparr>) c)
                     in do { ch \<leftarrow> item_remove g it ch; Some (out_string ''TOUCHED'' c, ch) }
                 | None \<Rightarrow> Some (out_string ''NOT_FOUND'' (upd_ts (\<lambda>s. s\<lparr>touch_cmds := touch_cmds s + 1, touch_misses := touch_misses s + 1\<rparr>) c), ch)) }) }) }"

text \<open>The answer to an arithmetic command is the text in the buffer of \<open>INCR_MAX_STORAGE_LEN\<close> bytes, uninitialised before.\<close>

definition process_arithmetic_command ::
    "globals \<Rightarrow> penv \<Rightarrow> byte list \<Rightarrow> token list \<Rightarrow> bool \<Rightarrow> conn \<Rightarrow> cache \<Rightarrow> (conn \<times> cache) option" where
  "process_arithmetic_command g pe temp ts incr c ch =
     do { c \<leftarrow> set_noreply_maybe ts c;
          kt \<leftarrow> token_at ts 1;
          (if tok_length kt > KEY_MAX_LENGTH then Some (out_string ''CLIENT_ERROR bad command line format'' c, ch)
           else do { kv \<leftarrow> tok_value kt; v2 \<leftarrow> token_value ts 2; (ok, delta) \<leftarrow> safe_strtoull v2;
             (if \<not> ok then Some (out_string ''CLIENT_ERROR invalid numeric delta argument'' c, ch)
              else do { (r, temp, _, c, ch) \<leftarrow> add_delta g pe (take (tok_length kt) kv) incr delta temp None c ch;
                Some (case r of
                        OK \<Rightarrow> out_bytes (take (strlen temp) temp) c
                      | NON_NUMERIC \<Rightarrow> out_string ''CLIENT_ERROR cannot increment or decrement non-numeric value'' c
                      | EOM \<Rightarrow> out_of_memory ''SERVER_ERROR out of memory'' c
                      | DELTA_ITEM_NOT_FOUND \<Rightarrow>
                          out_string ''NOT_FOUND''
                            (upd_ts (\<lambda>s. if incr then s\<lparr>incr_misses := incr_misses s + 1\<rparr> else s\<lparr>decr_misses := decr_misses s + 1\<rparr>) c)
                      | DELTA_ITEM_CAS_MISMATCH \<Rightarrow> c, ch) }) }) }"

definition delete_syntax :: "token list \<Rightarrow> conn \<Rightarrow> (bool \<times> conn) option" where
  "delete_syntax ts c =
     (if length ts > 3
      then do { hold_is_zero \<leftarrow> token_is ts 2 ''0'';
                c \<leftarrow> set_noreply_maybe ts c;
                Some (length ts = 4 \<and> (hold_is_zero \<or> noreply c) \<or> length ts = 5 \<and> hold_is_zero \<and> noreply c, c) }
      else Some (True, c))"

definition process_delete_command ::
    "globals \<Rightarrow> penv \<Rightarrow> token list \<Rightarrow> conn \<Rightarrow> prefix_table \<Rightarrow> cache \<Rightarrow> (conn \<times> prefix_table \<times> cache) option" where
  "process_delete_command g pe ts c pt ch =
     do { (ok, c) \<leftarrow> delete_syntax ts c;
          (if \<not> ok then Some (out_string ''CLIENT_ERROR bad command line format.  Usage: delete <key> [noreply]'' c, pt, ch)
           else do { kt \<leftarrow> token_at ts 1;
             (if tok_length kt > KEY_MAX_LENGTH then Some (out_string ''CLIENT_ERROR bad command line format'' c, pt, ch)
              else do { kv \<leftarrow> tok_value kt;
                (let key = take (tok_length kt) kv; hv = hash g key;
                     pt = (if detail_enabled pe
                           then stats_prefix_record_delete (hash g) (prefix_delimiter pe) (fst (prefix_mem pe 0)) (snd (prefix_mem pe 0)) key pt else pt)
                 in do { (p, c, ch) \<leftarrow> item_get g key False c ch;
                         (case p of
                            Some it \<Rightarrow>
                              let c = upd_ss (ITEM_clsid (hp ch it)) (\<lambda>s. s\<lparr>delete_hits := delete_hits s + 1\<rparr>) c
                              in do { ch \<leftarrow> do_item_unlink g it hv ch; ch \<leftarrow> do_item_remove g it ch; Some (out_string ''DELETED'' c, pt, ch) }
                          | None \<Rightarrow> Some (out_string ''NOT_FOUND'' (upd_ts (\<lambda>s. s\<lparr>delete_misses := delete_misses s + 1\<rparr>) c), pt, ch)) }) }) }) }"

section \<open>Get\<close>

text \<open>The part of a response line after the key, written into the suffix buffer of \<open>SUFFIX_SIZE\<close>, 50, bytes; the result is its length.\<close>

definition make_ascii_get_suffix :: "bool \<Rightarrow> byte list \<Rightarrow> item \<Rightarrow> bool \<Rightarrow> int \<Rightarrow> (byte list \<times> nat) option" where
  "make_ascii_get_suffix wr suffix it return_cas nb =
     do { b \<leftarrow> memcpy_at suffix 0 [32];
          (b, p) \<leftarrow> (if \<not> has_flag (it_flags it) ITEM_CFLAGS then map_option (\<lambda>b. (b, 2)) (memcpy_at b 1 [48])
                      else itoa_u32 wr (cflags it) (b, 1));
          b \<leftarrow> memcpy_at b p [32];
          (b, p) \<leftarrow> itoa_u32 wr (word_of_int (nb - 2)) (b, p + 1);
          (b, p) \<leftarrow> (if return_cas then do { b \<leftarrow> memcpy_at b p [32]; itoa_u64 wr (ITEM_get_cas it) (b, p + 1) } else Some (b, p));
          b \<leftarrow> memcpy_at b p [13, 10, 0];
          Some (b, p + 2) }"

definition limited_get :: "globals \<Rightarrow> byte list \<Rightarrow> u32 \<Rightarrow> bool \<Rightarrow> conn \<Rightarrow> cache \<Rightarrow> (ptr \<times> conn \<times> cache) option" where
  "limited_get g key et should_touch c ch =
     do { (p, c, ch) \<leftarrow> (if should_touch then item_touch g key et c ch else item_get g key True c ch);
          (case p of
             None \<Rightarrow> Some (None, c, ch)
           | Some it \<Rightarrow> if refcount (hp ch it) > 60000 then do { ch \<leftarrow> item_remove g it ch; Some (None, c, ch) } else Some (Some it, c, ch)) }"

text \<open>\<open>add_iov\<close>: a piece of the outgoing data list, when there is memory for it.\<close>

definition add_iov :: "penv \<Rightarrow> byte list \<Rightarrow> conn \<Rightarrow> bool \<times> conn" where
  "add_iov pe bs c = (if iov_mem pe (length (iov c)) then (True, c\<lparr>iov := iov c @ [bs]\<rparr>) else (False, c))"

text \<open>\<open>stop\<close> of the loop: no more memory, or a key that is too long.\<close>

datatype get_end = Get_goes_on | Get_stops | Get_bad_key

definition get_hit_iovs :: "penv \<Rightarrow> nat \<Rightarrow> byte list \<Rightarrow> conn \<Rightarrow> cache \<Rightarrow> bool \<times> conn" where
  "get_hit_iovs pe it sfx c ch =
     (let (ok, c) = add_iov pe (ascii ''VALUE '') c
      in if \<not> ok then (False, c)
         else let (ok, c) = add_iov pe (ITEM_key (hp ch it)) c
              in if \<not> ok then (False, c)
                 else let (ok, c) = add_iov pe sfx c
                      in if \<not> ok then (False, c) else (True, snd (add_iov pe (item_value (hp ch it)) c)))"

definition get_key :: "globals \<Rightarrow> penv \<Rightarrow> (nat \<Rightarrow> byte list) \<Rightarrow> u32 \<Rightarrow> bool \<Rightarrow> bool \<Rightarrow> byte list \<Rightarrow> conn \<Rightarrow> prefix_table \<Rightarrow> cache
     \<Rightarrow> (get_end \<times> conn \<times> prefix_table \<times> cache) option" where
  "get_key g pe sbuf et return_cas should_touch key c pt ch =
     do { (p, c, ch) \<leftarrow> limited_get g key et should_touch c ch;
          (let i = length (ilist c);
               pt = (if detail_enabled pe
                     then stats_prefix_record_get (hash g) (prefix_delimiter pe) (fst (prefix_mem pe i)) (snd (prefix_mem pe i)) key (p \<noteq> None) pt else pt)
           in case p of
                None \<Rightarrow> Some (Get_goes_on,
                              upd_ts (\<lambda>s. if should_touch then s\<lparr>touch_cmds := touch_cmds s + 1, touch_misses := touch_misses s + 1\<rparr>
                                          else s\<lparr>get_misses := get_misses s + 1, get_cmds := get_cmds s + 1\<rparr>) c, pt, ch)
              | Some it \<Rightarrow>
                  if \<not> ilist_mem pe i then do { ch \<leftarrow> item_remove g it ch; Some (Get_stops, c, pt, ch) }
                  else if \<not> suffix_mem pe i
                  then do { ch \<leftarrow> item_remove g it ch; Some (Get_stops, out_of_memory ''SERVER_ERROR out of memory making CAS suffix'' c, pt, ch) }
                  else if has_flag (it_flags (hp ch it)) (set_flag ITEM_CHUNKED ITEM_HDR) then None
                  else do { (b, n) \<leftarrow> make_ascii_get_suffix (wrapv pe) (sbuf i) (hp ch it) return_cas (nbytes (hp ch it));
                    (let (ok, c) = get_hit_iovs pe it (take n b) c ch
                     in if \<not> ok then do { ch \<leftarrow> item_remove g it ch; Some (Get_stops, c, pt, ch) }
                        else let c = (if should_touch
                                      then upd_ss (ITEM_clsid (hp ch it)) (\<lambda>s. s\<lparr>touch_hits := touch_hits s + 1\<rparr>) (upd_ts (\<lambda>s. s\<lparr>touch_cmds := touch_cmds s + 1\<rparr>) c)
                                      else upd_ts (\<lambda>s. s\<lparr>lru_hits := (lru_hits s)(slabs_clsid (hp ch it) := lru_hits s (slabs_clsid (hp ch it)) + 1),
                                                         get_cmds := get_cmds s + 1\<rparr>) c)
                             in Some (Get_goes_on, c\<lparr>ilist := ilist c @ [it]\<rparr>, pt, ch)) }) }"

text \<open>The keys of one array of tokens; the result holds what is left of the array.\<close>

fun get_tokens :: "globals \<Rightarrow> penv \<Rightarrow> (nat \<Rightarrow> byte list) \<Rightarrow> u32 \<Rightarrow> bool \<Rightarrow> bool \<Rightarrow> token list \<Rightarrow> conn \<Rightarrow> prefix_table \<Rightarrow> cache
     \<Rightarrow> (get_end \<times> token list \<times> conn \<times> prefix_table \<times> cache) option" where
  "get_tokens g pe sbuf et rc tch [] c pt ch = None"
| "get_tokens g pe sbuf et rc tch (t # ts) c pt ch =
     (if tok_length t = 0 then Some (Get_goes_on, t # ts, c, pt, ch)
      else if tok_length t > KEY_MAX_LENGTH then Some (Get_bad_key, t # ts, c, pt, ch)
      else do { v \<leftarrow> tok_value t;
                (e, c, pt, ch) \<leftarrow> get_key g pe sbuf et rc tch (take (tok_length t) v) c pt ch;
                if e \<noteq> Get_goes_on then Some (e, t # ts, c, pt, ch) else get_tokens g pe sbuf et rc tch ts c pt ch })"

partial_function (option) get_batches :: "globals \<Rightarrow> penv \<Rightarrow> (nat \<Rightarrow> byte list) \<Rightarrow> u32 \<Rightarrow> bool \<Rightarrow> bool \<Rightarrow> token list \<Rightarrow> conn \<Rightarrow> prefix_table \<Rightarrow> cache
     \<Rightarrow> (get_end \<times> conn \<times> prefix_table \<times> cache) option" where
  "get_batches g pe sbuf et rc tch ts c pt ch =
     do { (e, ts, c, pt, ch) \<leftarrow> get_tokens g pe sbuf et rc tch ts c pt ch;
          t \<leftarrow> token_at ts 0;
          if e \<noteq> Get_goes_on then Some (e, c, pt, ch)
          else case tok_value t of
                 None \<Rightarrow> Some (Get_goes_on, c, pt, ch)
               | Some rest \<Rightarrow>
                   let ts = tokenize_command rest MAX_TOKENS
                   in do { t \<leftarrow> token_at ts 0;
                           if tok_value t = None then Some (Get_goes_on, c, pt, ch)
                           else get_batches g pe sbuf et rc tch ts c pt ch } }"

declare get_batches.simps [code]

fun release_items :: "globals \<Rightarrow> nat list \<Rightarrow> cache \<Rightarrow> cache option" where
  "release_items g [] ch = Some ch"
| "release_items g (x # xs) ch = do { ch \<leftarrow> item_remove g x ch; release_items g xs ch }"

definition conn_release_items :: "globals \<Rightarrow> conn \<Rightarrow> cache \<Rightarrow> (conn \<times> cache) option" where
  "conn_release_items g c ch =
     do { ch \<leftarrow> (case citem c of None \<Rightarrow> Some ch | Some it \<Rightarrow> item_remove g it ch);
          ch \<leftarrow> release_items g (ilist c) ch;
          Some (c\<lparr>citem := None, ilist := []\<rparr>, ch) }"

definition process_get_command :: "globals \<Rightarrow> penv \<Rightarrow> (nat \<Rightarrow> byte list) \<Rightarrow> token list \<Rightarrow> bool \<Rightarrow> bool \<Rightarrow> conn \<Rightarrow> prefix_table \<Rightarrow> cache
     \<Rightarrow> (conn \<times> prefix_table \<times> cache) option" where
  "process_get_command g pe sbuf ts return_cas should_touch c pt ch =
     do { args \<leftarrow> (if should_touch
                   then do { v \<leftarrow> token_value ts 1; (ok, et) \<leftarrow> safe_strtol v; Some (if ok then Some (realtime g pe et, drop 2 ts) else None) }
                   else Some (Some (0, drop 1 ts)));
          (case args of
             None \<Rightarrow> Some (out_string ''CLIENT_ERROR invalid exptime argument'' c, pt, ch)
           | Some (et, kts) \<Rightarrow>
               do { (e, c, pt, ch) \<leftarrow> get_batches g pe sbuf et return_cas should_touch kts (c\<lparr>ilist := []\<rparr>) pt ch;
                    (let (ok, c) = (if e = Get_goes_on then add_iov pe (ascii ''END'' @ [13, 10]) c else (False, c))
                     in if ok then Some (conn_set_state conn_mwrite c, pt, ch)
                        else let c = (if e = Get_bad_key then out_string ''CLIENT_ERROR bad command line format'' c
                                      else out_of_memory ''SERVER_ERROR out of memory writing get response'' c)
                             in do { (c, ch) \<leftarrow> conn_release_items g c ch; Some (c, pt, ch) }) }) }"

end
