(* ===== verification/Tokenizer.thy ===== *)
theory Tokenizer
  imports Protocol
begin

text \<open>
  The tokenizer of the text protocol splits a command line into its words: \<open>tokenize_command\<close> against the
  reference definition \<open>words\<close>.
\<close>

section \<open>Words\<close>

text \<open>The words of a line: its maximal runs of bytes other than spaces. \<open>w\<close> is the word being read.\<close>

fun split_words :: "byte list \<Rightarrow> byte list \<Rightarrow> byte list list" where
  "split_words w [] = (if w = [] then [] else [w])"
| "split_words w (b # bs) = (if b = 32 then (if w = [] then [] else [w]) @ split_words [] bs else split_words (w @ [b]) bs)"

definition words :: "byte list \<Rightarrow> byte list list" where
  "words s = split_words [] s"

lemma split_words_append: "32 \<notin> set v \<Longrightarrow> split_words w (v @ t) = split_words (w @ v) t"
  by (induction v arbitrary: w) auto

lemma words_Nil [simp]: "words [] = []"
  by (simp add: words_def)

lemma words_space [simp]: "words (32 # s) = words s"
  by (simp add: words_def)

lemma words_word:
  assumes "32 \<notin> set w" "w \<noteq> []"
  shows "words (w @ 32 # s) = w # words s" "words w = [w]"
  using assms split_words_append [OF assms(1), of "[]" "[]"] by (simp_all add: words_def split_words_append)

section \<open>The loop\<close>

definition token_text :: "byte list \<Rightarrow> nat \<times> nat \<Rightarrow> byte list" where
  "token_text str t = take (snd t) (drop (fst t) str)"

text \<open>The tokens after the last one is added.\<close>

definition closed :: "nat \<times> nat \<times> byte list \<times> (nat \<times> nat) list \<Rightarrow> (nat \<times> nat) list" where
  "closed r = (case r of (s, e, cmd, toks) \<Rightarrow> if s \<noteq> e then toks @ [(s, e - s)] else toks)"

text \<open>
  In every turn: the pending word starts at \<open>s\<close> and has no space, and the command is unchanged from \<open>s\<close> on.
  At the end: the tokens are words, as many as there is room for, the rest starts at \<open>e\<close>, and every token is
  followed by a zero.
\<close>

lemma pending_word:
  assumes "s \<le> e" "e < length str" "str ! e = 32"
  shows "drop s str = seg s e str @ 32 # drop (e + 1) str"
proof -
  have "drop s str = take (e - s) (drop s str) @ drop (e - s) (drop s str)" by (rule append_take_drop_id [symmetric])
  also have "drop (e - s) (drop s str) = drop e str" using assms(1) by simp
  also have "drop e str = 32 # drop (e + 1) str" using assms(2,3) by (metis Cons_nth_drop_Suc Suc_eq_plus1)
  finally show ?thesis by (simp add: seg_def)
qed

lemma token_loop_words:
  assumes "e + n = length str" "s \<le> e" "32 \<notin> set (seg s e str)" "\<And>i. s \<le> i \<Longrightarrow> i < length cmd \<Longrightarrow> cmd ! i = (str @ 0 # r) ! i" "length cmd = length (str @ 0 # r)"
    "length toks < m - 1" "token_loop m n s e cmd toks = (s', e', cmd', toks')"
  shows "map (token_text str) (closed (s', e', cmd', toks')) = map (token_text str) toks @ take (m - 1 - length toks) (words (drop s str))
    \<and> e' \<le> length str \<and> words (drop e' str) = drop (m - 1 - length toks) (words (drop s str))"
  using assms
proof (induction n arbitrary: s e cmd toks)
  case 0
  then have e: "s' = s" "e' = length str" "toks' = toks" "e = length str" by auto
  have w: "seg s e str = drop s str" by (simp add: seg_def e)
  show ?case
  proof (cases "s = e")
    case False
    then have "drop s str \<noteq> []" using 0 by simp
    then have "words (drop s str) = [drop s str]" using 0(3) w by (intro words_word) simp_all
    then show ?thesis using False e 0(6) by (simp add: closed_def token_text_def)
  qed (simp add: e closed_def)
next
  case (Suc n)
  have el: "e < length str" using Suc.prems(1) by simp
  have ce: "cmd ! e = str ! e" using Suc.prems(2,4,5) el by (simp add: nth_append)
  show ?case
  proof (cases "str ! e = 32")
    case False
    have "seg s (e + 1) str = seg s e str @ [str ! e]" using Suc.prems(2) el
      by (simp add: seg_def Suc_diff_le take_Suc_conv_app_nth)
    then show ?thesis using Suc.IH [of "e + 1" s cmd toks] Suc.prems False ce by simp
  next
    case True
    note p = pending_word [OF Suc.prems(2) el True]
    show ?thesis
    proof (cases "s = e")
      case True
      then have "words (drop s str) = words (drop (e + 1) str)" using p by simp
      then show ?thesis using Suc.IH [of "e + 1" "e + 1" cmd toks] Suc.prems \<open>str ! e = 32\<close> True ce by simp
    next
      case False
      then have "seg s e str \<noteq> []" using Suc.prems(2) el by (simp add: seg_def)
      then have w: "words (drop s str) = seg s e str # words (drop (e + 1) str)" using Suc.prems(3) words_word(1) p by simp
      have tt: "token_text str (s, e - s) = seg s e str" by (simp add: token_text_def seg_def)
      show ?thesis
      proof (cases "length toks + 1 = m - 1")
        case True
        then have "s' = e + 1" "e' = e + 1" "toks' = toks @ [(s, e - s)]" using Suc.prems(7) False \<open>str ! e = 32\<close> ce by auto
        moreover have "m - 1 - length toks = 1" using True by simp
        ultimately show ?thesis using w tt el by (simp add: closed_def)
      next
        case more: False
        have l: "m - 1 - length toks = Suc (m - 1 - length (toks @ [(s, e - s)]))" using Suc.prems(6) by simp
        have run: "token_loop m n (e + 1) (e + 1) (cmd[e := 0]) (toks @ [(s, e - s)]) = (s', e', cmd', toks')"
          using Suc.prems(7) False \<open>str ! e = 32\<close> ce more by (simp add: Let_def)
        have c2: "(cmd[e := 0]) ! i = (str @ 0 # r) ! i" if "e + 1 \<le> i" "i < length (cmd[e := 0])" for i
          using Suc.prems(4) [of i] that Suc.prems(2) by simp
        have "map (token_text str) (closed (s', e', cmd', toks')) = map (token_text str) (toks @ [(s, e - s)]) @ take (m - 1 - length (toks @ [(s, e - s)])) (words (drop (e + 1) str))
            \<and> e' \<le> length str \<and> words (drop e' str) = drop (m - 1 - length (toks @ [(s, e - s)])) (words (drop (e + 1) str))"
          by (rule Suc.IH [OF _ _ _ c2 _ _ run]) (use Suc.prems more in simp_all)
        then show ?thesis unfolding w l using tt by simp
      qed
    qed
  qed
qed

text \<open>What the loop has written: a zero behind every token, nothing from the pending word on.\<close>

definition cut_off :: "byte list \<Rightarrow> byte list \<Rightarrow> nat \<Rightarrow> nat \<times> nat \<Rightarrow> bool" where
  "cut_off str cmd s t \<longleftrightarrow> (case t of (a, l) \<Rightarrow> 0 < l \<and> a + l < s \<and> cmd ! (a + l) = 0 \<and> (\<forall>i<l. cmd ! (a + i) = str ! (a + i)))"

definition intact :: "byte list \<Rightarrow> byte list \<Rightarrow> nat \<Rightarrow> bool" where
  "intact mem cmd s \<longleftrightarrow> length cmd = length mem \<and> (\<forall>i. s \<le> i \<longrightarrow> i < length mem \<longrightarrow> cmd ! i = mem ! i)"

lemma cut_off_mono: "cut_off str cmd s t \<Longrightarrow> s \<le> s' \<Longrightarrow> cut_off str cmd s' t"
  by (auto simp: cut_off_def)

lemma cut_off_upd: "cut_off str cmd s t \<Longrightarrow> s \<le> e \<Longrightarrow> cut_off str (cmd[e := v]) s t"
  by (auto simp: cut_off_def)

lemma token_loop_memory:
  assumes "e + n = length str" "s \<le> e" "intact (str @ 0 # r) cmd s" "\<forall>t\<in>set toks. cut_off str cmd s t" "token_loop m n s e cmd toks = (s', e', cmd', toks')"
  shows "e \<le> e' \<and> (0 < n \<longrightarrow> e < e') \<and> s' \<le> e' \<and> e' \<le> length str \<and> (s' \<noteq> e' \<longrightarrow> e' = length str) \<and> intact (str @ 0 # r) cmd' s' \<and> (\<forall>t\<in>set toks'. cut_off str cmd' s' t)"
  using assms
proof (induction n arbitrary: s e cmd toks)
  case (Suc n)
  have el: "e < length str" using Suc.prems(1) by simp
  have "intact (str @ 0 # r) cmd (e + 1)" using Suc.prems(2,3) by (auto simp: intact_def)
  have ce: "cmd ! e = str ! e" using Suc.prems(2,3) el by (simp add: intact_def nth_append)
  consider "cmd ! e \<noteq> 32" | "cmd ! e = 32" "s = e" | "cmd ! e = 32" "s \<noteq> e" by blast
  then show ?case
  proof cases
    case 1
    then show ?thesis using Suc.IH [of "e + 1" s cmd toks] Suc.prems by simp
  next
    case 2
    have "\<forall>t\<in>set toks. cut_off str cmd (e + 1) t" using Suc.prems(4) 2 cut_off_mono by auto
    then show ?thesis using Suc.IH [of "e + 1" "e + 1" cmd toks] Suc.prems(1,5) 2 \<open>intact _ cmd (e + 1)\<close> by simp
  next
    case 3
    define T where "T = toks @ [(s, e - s)]"
    define C where "C = cmd[e := 0]"
    have len: "length cmd = length str + 1 + length r" using Suc.prems(3) by (simp add: intact_def)
    have I: "intact (str @ 0 # r) C (e + 1)" using \<open>intact _ cmd (e + 1)\<close> by (simp add: C_def intact_def)
    have "\<forall>i. i < e - s \<longrightarrow> cmd ! (s + i) = str ! (s + i)" using Suc.prems(3) el by (auto simp: intact_def nth_append)
    then have "cut_off str C (e + 1) (s, e - s)" using 3(2) Suc.prems(2) len el by (auto simp: cut_off_def C_def)
    moreover have "\<forall>t\<in>set toks. cut_off str C (e + 1) t"
      using Suc.prems(2,4) cut_off_mono [OF cut_off_upd, of str cmd s _ e "e + 1" 0] by (auto simp: C_def)
    ultimately have K: "\<forall>t\<in>set T. cut_off str C (e + 1) t" by (auto simp: T_def)
    show ?thesis
    proof (cases "length T = m - 1")
      case True
      then have "s' = e + 1" "e' = e + 1" "cmd' = C" "toks' = T" using Suc.prems(5) 3 by (auto simp: T_def C_def)
      then show ?thesis using I K el by simp
    next
      case False
      then have "token_loop m n (e + 1) (e + 1) C T = (s', e', cmd', toks')" using Suc.prems(5) 3 by (auto simp: T_def C_def Let_def)
      then show ?thesis using Suc.IH [of "e + 1" "e + 1" C T] Suc.prems(1) I K by simp
    qed
  qed
qed auto

lemma cut_off_token:
  assumes "cut_off str cmd s (a, l)" "s \<le> length cmd" "0 \<notin> set str" "s \<le> length str + 1"
  shows "take l (drop a cmd) = token_text str (a, l)" "takeWhile (\<lambda>b. b \<noteq> 0) (drop a cmd) = token_text str (a, l)"
proof -
  have c: "0 < l" "a + l < s" "cmd ! (a + l) = 0" "\<forall>i<l. cmd ! (a + i) = str ! (a + i)" using assms(1) by (auto simp: cut_off_def)
  show t: "take l (drop a cmd) = token_text str (a, l)"
    by (rule nth_equalityI) (use c assms(2,4) in \<open>simp_all add: token_text_def\<close>)
  have "0 \<notin> set (token_text str (a, l))" using assms(3) by (auto simp: token_text_def dest: in_set_takeD in_set_dropD)
  moreover have "drop a cmd = take l (drop a cmd) @ 0 # drop (a + l + 1) cmd"
    using c assms(2) id_take_nth_drop [of l "drop a cmd"] by (simp add: add.commute)
  ultimately show "takeWhile (\<lambda>b. b \<noteq> 0) (drop a cmd) = token_text str (a, l)"
    unfolding t by (metis (mono_tags, lifting) append_Nil2 takeWhile.simps(2) takeWhile_append2)
qed

section \<open>Properties\<close>

text \<open>The text of a token, by its length.\<close>

definition text_of :: "token \<Rightarrow> byte list" where
  "text_of t = (case tok_value t of None \<Rightarrow> [] | Some v \<Rightarrow> take (tok_length t) v)"

lemma tokenize_ok:
  assumes "0 \<notin> set str" "1 < m"
  shows "\<exists>ts t. tokenize_command (str @ 0 # r) m = ts @ [t] \<and> length ts < m \<and> map text_of ts = take (m - 1) (words str)
    \<and> (\<forall>u\<in>set ts. 0 < tok_length u \<and> (\<exists>v. tok_value u = Some v \<and> takeWhile (\<lambda>b. b \<noteq> 0) v = text_of u))
    \<and> tok_length t = 0
    \<and> (case tok_value t of None \<Rightarrow> drop (m - 1) (words str) = []
       | Some v \<Rightarrow> \<exists>rest. v = rest @ 0 # r \<and> 0 \<notin> set rest \<and> length rest < length str \<and> words rest = drop (m - 1) (words str))"
proof -
  define mem where "mem = str @ 0 # r"
  obtain s e cmd toks where run: "token_loop m (length str) 0 0 mem [] = (s, e, cmd, toks)" by (metis prod_cases4)
  have sl: "strlen mem = length str" using assms(1) by (simp add: strlen_def mem_def takeWhile_append)
  have W: "map (token_text str) (closed (s, e, cmd, toks)) = take (m - 1) (words str)" "e \<le> length str" "words (drop e str) = drop (m - 1) (words str)"
    using token_loop_words [OF _ _ _ _ _ _ run [unfolded mem_def], where r = r] assms(2) by (simp_all add: mem_def)
  have "intact (str @ 0 # r) mem 0" by (simp add: intact_def mem_def)
  from token_loop_memory [OF _ _ this _ run] have M: "s \<le> e" "s \<noteq> e \<longrightarrow> e = length str" "intact mem cmd s" "\<forall>t\<in>set toks. cut_off str cmd s t"
      "str \<noteq> [] \<longrightarrow> 0 < e"
    by (simp_all add: mem_def)
  have len: "length cmd = length str + 1 + length r" using M(3) by (simp add: intact_def mem_def)
  define cl where "cl = closed (s, e, cmd, toks)"
  have de: "drop i cmd = drop i mem" if "s \<le> i" for i
    by (rule nth_equalityI) (use M(3) that in \<open>simp_all add: intact_def\<close>)
  have at: "cmd ! i = mem ! i" if "s \<le> i" "i < length mem" for i using M(3) that by (simp add: intact_def)
  have cut: "cut_off str cmd (e + 1) u" if "u \<in> set cl" for u
  proof (cases "u \<in> set toks")
    case True
    then have "cut_off str cmd s u" using M(4) by blast
    then show ?thesis by (rule cut_off_mono) (use M(1) in simp)
  next
    case False
    with that have u: "u = (s, e - s)" "s \<noteq> e" by (auto simp: cl_def closed_def split: if_splits)
    with M(1,2) show ?thesis using at [of e] at by (auto simp: cut_off_def mem_def nth_append)
  qed
  let ?mk = "\<lambda>(a, n). \<lparr>tok_value = Some (drop a cmd), tok_length = n\<rparr>"
  have tx: "text_of (?mk u) = token_text str u" "takeWhile (\<lambda>b. b \<noteq> 0) (drop (fst u) cmd) = token_text str u" "0 < snd u" if "u \<in> set cl" for u
    using cut_off_token [of str cmd "e + 1" "fst u" "snd u"] cut [OF that] len W(2) assms(1) by (auto simp: text_of_def cut_off_def split: prod.splits)
  let ?t = "\<lparr>tok_value = (if cmd ! e = 0 then None else Some (drop e cmd)), tok_length = 0\<rparr>"
  have tc: "tokenize_command mem m = map ?mk cl @ [?t]" unfolding tokenize_command_def sl run cl_def closed_def by simp
  have txs: "map text_of (map ?mk cl) = take (m - 1) (words str)" unfolding W(1) [symmetric] cl_def [symmetric] using tx(1) by simp
  then have "length cl = length (take (m - 1) (words str))" by (metis length_map)
  then have "length cl < m" using assms(2) by simp
  moreover have "\<forall>u\<in>set (map ?mk cl). 0 < tok_length u \<and> (\<exists>v. tok_value u = Some v \<and> takeWhile (\<lambda>b. b \<noteq> 0) v = text_of u)"
    using tx by (auto simp: split_beta)
  moreover have "case tok_value ?t of None \<Rightarrow> drop (m - 1) (words str) = []
      | Some v \<Rightarrow> \<exists>rest. v = rest @ 0 # r \<and> 0 \<notin> set rest \<and> length rest < length str \<and> words rest = drop (m - 1) (words str)"
  proof (cases "e = length str")
    case True
    then show ?thesis using W(3) at [of e] M(1) by (simp add: mem_def)
  next
    case False
    then have "e < length str" using W(2) by simp
    from nth_mem [OF this] have "str ! e \<noteq> 0" using assms(1) by metis
    moreover have "cmd ! e = str ! e" using at [of e] M(1) \<open>e < length str\<close> by (simp add: mem_def nth_append)
    ultimately show ?thesis using False de [of e] M(1,5) W(2,3) assms(1)
      by (auto simp: mem_def intro!: exI [of _ "drop e str"] dest: in_set_dropD)
  qed
  ultimately show ?thesis using tc txs unfolding mem_def [symmetric] by (intro exI [of _ "map ?mk cl"] exI [of _ ?t]) simp
qed

text \<open>
  C23. The tokens of a command line are its words, as many as the array holds with one place for the terminal token;
  each is a zero-terminated string in the command buffer. The terminal token is null when there are no more
  words, and otherwise points to a shorter line whose words are exactly the remaining ones, so that repeating
  the call reads every word.
\<close>

theorem tokenize_command_words:
  assumes "0 \<notin> set str" "1 < m"
  shows "\<exists>ts t. tokenize_command (str @ 0 # r) m = ts @ [t] \<and> length (ts @ [t]) \<le> m \<and> map text_of ts = take (m - 1) (words str)
    \<and> (\<forall>u\<in>set ts. 0 < tok_length u \<and> (\<exists>v. tok_value u = Some v \<and> takeWhile (\<lambda>b. b \<noteq> 0) v = text_of u))
    \<and> tok_length t = 0
    \<and> (case tok_value t of None \<Rightarrow> drop (m - 1) (words str) = []
       | Some v \<Rightarrow> \<exists>rest. v = rest @ 0 # r \<and> length rest < length str \<and> words rest = drop (m - 1) (words str))"
proof -
  obtain ts t where T: "tokenize_command (str @ 0 # r) m = ts @ [t]" "length ts < m" "map text_of ts = take (m - 1) (words str)"
      "\<forall>u\<in>set ts. 0 < tok_length u \<and> (\<exists>v. tok_value u = Some v \<and> takeWhile (\<lambda>b. b \<noteq> 0) v = text_of u)" "tok_length t = 0"
      "case tok_value t of None \<Rightarrow> drop (m - 1) (words str) = []
       | Some v \<Rightarrow> \<exists>rest. v = rest @ 0 # r \<and> 0 \<notin> set rest \<and> length rest < length str \<and> words rest = drop (m - 1) (words str)"
    using tokenize_ok [OF assms] by blast
  from T(6) have "case tok_value t of None \<Rightarrow> drop (m - 1) (words str) = []
       | Some v \<Rightarrow> \<exists>rest. v = rest @ 0 # r \<and> length rest < length str \<and> words rest = drop (m - 1) (words str)"
    by (cases "tok_value t") auto
  with T show ?thesis by (intro exI [of _ ts] exI [of _ t]) simp
qed

theorem tokenize_command_words_witness:
  "\<exists>ts t. tokenize_command (ascii ''get  a b '' @ 0 # []) 3 = ts @ [t] \<and> map text_of ts = [ascii ''get'', ascii ''a'']"
proof -
  have "take (3 - 1) (words (ascii ''get  a b '')) = [ascii ''get'', ascii ''a'']" by code_simp
  moreover have "0 \<notin> set (ascii ''get  a b '')" by code_simp
  ultimately show ?thesis using tokenize_command_words [of "ascii ''get  a b ''" 3 "[]"] by auto
qed

end
