(* ===== verification/Storage.thy ===== *)
theory Storage
  imports Cache_Refine Tokenizer
begin

text \<open>
  The storage commands on the cache. The item operations a handler calls are steps of the system of
  \<open>Cache_System\<close>, so each keeps the simulation with the abstract store; here they are composed to the rules of
  set, add, replace, cas, append, prepend, incr and decr.
\<close>

section \<open>The steps of a handler\<close>

text \<open>The reference counters leave room for the references a handler takes itself.\<close>

definition ample :: "sys \<Rightarrow> bool" where
  "ample s \<longleftrightarrow> (\<forall>x\<in>set (references s). count_list (references s) x < 65500)"

definition nearly_ample :: "nat \<Rightarrow> sys \<Rightarrow> bool" where
  "nearly_ample n s \<longleftrightarrow> (\<forall>x. count_list (references s) x < 65500 + n)"

lemma ample_nearly: "ample s \<Longrightarrow> nearly_ample 0 s"
proof -
  assume a: "ample s"
  have "count_list (references s) x < 65500" for x by (cases "x \<in> set (references s)") (use a in \<open>auto simp: ample_def count_notin\<close>)
  then show ?thesis by (simp add: nearly_ample_def)
qed

lemma nearly_room: "nearly_ample n s \<Longrightarrow> n \<le> 33 \<Longrightarrow> room s"
  by (auto simp: nearly_ample_def room_def intro: order_less_le_trans)

lemma sim_linked_held:
  assumes "sim g K s S" "x \<in># refs S"
  shows "x \<in> set (held s)" "has_flag (it_flags (hp (cch s) x)) ITEM_LINKED \<longleftrightarrow> x \<in> linked S"
proof -
  show h: "x \<in> set (held s)" using assms by (auto simp: sim_def)
  obtain L where "sys_inv g K s (linked S) L" by (rule simE [OF assms(1)])
  then show "has_flag (it_flags (hp (cch s) x)) ITEM_LINKED \<longleftrightarrow> x \<in> linked S" using linked_iff_flag(2) h by blast
qed

lemma sim_entry: "sim g K s S \<Longrightarrow> in_store S x \<Longrightarrow> ent S x = entry_of (hp (cch s) x)"
  by (simp add: sim_def)

lemma refs_in_store: "x \<in># refs S \<Longrightarrow> in_store S x" "x \<in> linked S \<Longrightarrow> in_store S x"
  by (simp_all add: in_store_def)

lemma sim_key: "sim g K s S \<Longrightarrow> in_store S x \<Longrightarrow> ITEM_key (hp (cch s) x) = e_key (ent S x)"
  using sim_entry [of g K s S x] by simp

lemma sim_unique:
  assumes "sim g K s S" "x \<in> linked S" "y \<in> linked S" "e_key (ent S x) = e_key (ent S y)"
  shows "x = y"
proof -
  obtain L where "sys_inv g K s (linked S) L" by (rule simE [OF assms(1)])
  then have "inj_on (\<lambda>x. ITEM_key (hp (cch s) x)) (linked S)" using table_inj cache_invD(1) sys_invD(1) by blast
  moreover have "ITEM_key (hp (cch s) x) = ITEM_key (hp (cch s) y)" using assms refs_in_store(2) sim_key [OF assms(1)] by metis
  ultimately show ?thesis using assms(2,3) by (auto simp: inj_on_def)
qed

lemma get_step:
  assumes "sim g K s S" "i < length (wks s)" "room s"
  shows "\<exists>p w ch S'. do_item_get g k (hash g k) (wks s ! i) u (cch s) = Some (p, w, ch)
    \<and> sim g K (s\<lparr>cch := ch, wks := (wks s)[i := w], held := (case p of None \<Rightarrow> [] | Some x \<Rightarrow> [x]) @ held s\<rparr>) S' \<and> finds g k S p S' \<and> keeps S S'"
proof -
  obtain p s' S' where e: "exec g (Get k u i) s = Some (p, s')" "allowed g (Get k u i) S p S'" "sim (next_g (Get k u i) g) K s' S'"
    using step_get [OF assms] unfolding simulates_def by blast
  then obtain w ch where "do_item_get g k (hash g k) (wks s ! i) u (cch s) = Some (p, w, ch)"
      "s' = s\<lparr>cch := ch, wks := (wks s)[i := w], held := (case p of None \<Rightarrow> [] | Some x \<Rightarrow> [x]) @ held s\<rparr>"
    by (auto split: Option.bind_splits)
  with e(2,3) show ?thesis by auto
qed

lemma touch_step:
  assumes "sim g K s S" "i < length (wks s)" "room s"
  shows "\<exists>p w ch S'. do_item_touch g k et (hash g k) (wks s ! i) (cch s) = Some (p, w, ch)
    \<and> sim g K (s\<lparr>cch := ch, wks := (wks s)[i := w], held := (case p of None \<Rightarrow> [] | Some x \<Rightarrow> [x]) @ held s\<rparr>) S' \<and> allowed g (Touch k et i) S p S'"
proof -
  obtain p s' S' where e: "exec g (Touch k et i) s = Some (p, s')" "allowed g (Touch k et i) S p S'" "sim (next_g (Touch k et i) g) K s' S'"
    using step_touch [OF assms] unfolding simulates_def by blast
  then obtain w ch where "do_item_touch g k et (hash g k) (wks s ! i) (cch s) = Some (p, w, ch)"
      "s' = s\<lparr>cch := ch, wks := (wks s)[i := w], held := (case p of None \<Rightarrow> [] | Some x \<Rightarrow> [x]) @ held s\<rparr>"
    by (auto split: Option.bind_splits)
  with e(2,3) show ?thesis by (auto simp del: allowed.simps)
qed

lemma remove_step:
  assumes "sim g K s S" "x \<in># refs S"
  shows "\<exists>ch S'. do_item_remove g x (cch s) = Some ch \<and> sim g K (s\<lparr>cch := ch, held := remove1 x (held s)\<rparr>) S'
    \<and> linked S' = linked S \<and> refs S' = refs S - {#x#} \<and> keeps S S'"
  using step_remove [OF assms(1) sim_linked_held(1) [OF assms]] unfolding simulates_def by auto

lemma update_step:
  assumes "sim g K s S" "x \<in># refs S"
  shows "\<exists>ch S'. do_item_update g x (cch s) = Some ch \<and> sim g K (s\<lparr>cch := ch\<rparr>) S' \<and> linked S' = linked S \<and> refs S' = refs S \<and> keeps S S'"
  using step_update [OF assms(1) sim_linked_held(1) [OF assms]] unfolding simulates_def by auto

lemma unlink_step:
  assumes "sim g K s S" "x \<in># refs S"
  shows "\<exists>ch S'. do_item_unlink g x (key_hash g s x) (cch s) = Some ch \<and> sim g K (s\<lparr>cch := ch\<rparr>) S'
    \<and> linked S' = linked S - {x} \<and> refs S' = refs S \<and> keeps S S'"
  using step_unlink [OF assms(1) sim_linked_held(1) [OF assms]] unfolding simulates_def by auto

text \<open>Everything still in the store is as before, but for the CAS unique of one entry.\<close>

definition same_but_cas :: "nat \<Rightarrow> store \<Rightarrow> store \<Rightarrow> bool" where
  "same_but_cas x S S' \<longleftrightarrow> (\<forall>y. in_store S' y \<longrightarrow> in_store S y \<and> (\<exists>v. ent S' y = (if y = x then (ent S y)\<lparr>e_cas := v\<rparr> else ent S y)))"

lemma same_but_cas_trans:
  assumes "keeps S S1" "same_but_cas x S1 S2" "keeps S2 S3"
  shows "same_but_cas x S S3"
  unfolding same_but_cas_def
proof (intro allI impI)
  fix y
  assume "in_store S3 y"
  then have "in_store S2 y" "ent S3 y = ent S2 y" using assms(3) by (auto simp: keeps_def)
  moreover from this obtain v where "in_store S1 y" "ent S2 y = (if y = x then (ent S1 y)\<lparr>e_cas := v\<rparr> else ent S1 y)" using assms(2) by (auto simp: same_but_cas_def)
  moreover from this have "in_store S y" "ent S1 y = ent S y" using assms(1) by (auto simp: keeps_def)
  ultimately show "in_store S y \<and> (\<exists>v. ent S3 y = (if y = x then (ent S y)\<lparr>e_cas := v\<rparr> else ent S y))" by auto
qed

lemma keeps_same_but_cas: "keeps (S\<lparr>ent := (ent S)(x := (ent S x)\<lparr>e_cas := v\<rparr>)\<rparr>) S' \<Longrightarrow> same_but_cas x S S'"
  by (auto simp: keeps_def same_but_cas_def in_store_def)

lemma keeps_trans: "keeps S S1 \<Longrightarrow> keeps S1 S2 \<Longrightarrow> keeps S S2"
  by (auto simp: keeps_def)

lemma link_step:
  assumes "sim g K s S" "x \<in># refs S" "room s" "x \<notin> linked S" "\<And>y. y \<in> linked S \<Longrightarrow> e_key (ent S y) \<noteq> e_key (ent S x)"
  shows "\<exists>ch S'. do_item_link g x (key_hash g s x) (cch s) = Some ch \<and> sim g K (s\<lparr>cch := ch\<rparr>) S'
    \<and> linked S' = insert x (linked S) \<and> refs S' = refs S \<and> same_but_cas x S S'"
proof -
  obtain L where L: "sys_inv g K s (linked S) L" by (rule simE [OF assms(1)])
  have "ITEM_key (hp (cch s) y) \<noteq> ITEM_key (hp (cch s) x)" if "y \<in> linked S" for y
    using assms(5) [OF that] sim_key [OF assms(1)] refs_in_store that assms(2) by metis
  then have "assoc_find (ITEM_key (hp (cch s) x)) (key_hash g s x) (hp (cch s)) (tab (cch s)) = Some None"
    using cache_find [OF sys_invD(1) [OF L], of "ITEM_key (hp (cch s) x)"] by (auto simp: key_hash_def) (metis option.exhaust)
  then have "legal g (Link x) s" using sim_linked_held [OF assms(1,2)] assms(3,4) by simp
  then show ?thesis using step_link [OF assms(1)] keeps_same_but_cas unfolding simulates_def by fastforce
qed

lemma replace_step:
  assumes "sim g K s S" "y \<in># refs S" "x \<in># refs S" "room s" "y \<in> linked S" "x \<notin> linked S" "e_key (ent S x) = e_key (ent S y)"
  shows "\<exists>ch S'. do_item_replace g y x (key_hash g s y) (cch s) = Some ch \<and> sim g K (s\<lparr>cch := ch\<rparr>) S'
    \<and> linked S' = insert x (linked S - {y}) \<and> refs S' = refs S \<and> same_but_cas x S S'"
proof -
  have "ITEM_key (hp (cch s) x) = ITEM_key (hp (cch s) y)" using assms(7) sim_key [OF assms(1)] refs_in_store assms(2,3) by metis
  then have "legal g (Replace y x) s" using sim_linked_held [OF assms(1)] assms(2-6) by simp
  then show ?thesis using step_replace [OF assms(1)] keeps_same_but_cas unfolding simulates_def by fastforce
qed

section \<open>Storing\<close>

text \<open>What looking up a key for storing it gives: the item found and the items linked afterwards.\<close>

definition looks_up :: "globals \<Rightarrow> byte list \<Rightarrow> store \<Rightarrow> ptr \<Rightarrow> nat set \<Rightarrow> bool" where
  "looks_up g k S p C \<longleftrightarrow>
     (case p of
        Some y \<Rightarrow> y \<in> linked S \<and> e_key (ent S y) = k \<and> \<not> out_of_date g (ent S y) \<and> C = linked S
      | None \<Rightarrow> (\<forall>y\<in>linked S. e_key (ent S y) \<noteq> k) \<and> C = linked S
          \<or> (\<exists>y\<in>linked S. e_key (ent S y) = k \<and> (out_of_date g (ent S y) \<or> flushing g) \<and> C = linked S - {y}))"

lemma finds_looks_up: "finds g k S p S1 \<Longrightarrow> looks_up g k S p (linked S1) \<and> refs S1 = (case p of None \<Rightarrow> {#} | Some y \<Rightarrow> {#y#}) + refs S"
  by (auto simp: finds_def looks_up_def split: option.splits)

lemma looks_up_subset: "looks_up g k S p C \<Longrightarrow> C \<subseteq> linked S"
  by (auto simp: looks_up_def split: option.splits)

lemma looks_up_none:
  assumes "looks_up g k S None C" "sim g K s S" "y \<in> C"
  shows "e_key (ent S y) \<noteq> k"
proof
  assume k: "e_key (ent S y) = k"
  have y: "y \<in> linked S" using looks_up_subset [OF assms(1)] assms(3) by blast
  with assms(1) k obtain z where z: "z \<in> linked S" "e_key (ent S z) = k" "C = linked S - {z}" by (auto simp: looks_up_def)
  then have "y = z" using sim_unique [OF assms(2) y z(1)] k by simp
  with z(3) assms(3) show False by simp
qed

text \<open>
  The outcome of a set command other than append and prepend: \<open>found\<close> says whether the key was found, \<open>same\<close>
  whether the CAS unique is that of the item found.
\<close>

primrec outcome :: "nread \<Rightarrow> bool \<Rightarrow> bool \<Rightarrow> store_item_type" where
  "outcome NREAD_SET found same = STORED"
| "outcome NREAD_ADD found same = (if found then NOT_STORED else STORED)"
| "outcome NREAD_REPLACE found same = (if found then STORED else NOT_STORED)"
| "outcome NREAD_CAS found same = (if \<not> found then NOT_FOUND else if same then STORED else EXISTS)"
| "outcome NREAD_APPEND found same = NOT_STORED"
| "outcome NREAD_PREPEND found same = NOT_STORED"

text \<open>A store after such a command on the item \<open>x\<close>.\<close>

definition stored_in :: "nat \<Rightarrow> ptr \<Rightarrow> nat set \<Rightarrow> store_item_type \<Rightarrow> store \<Rightarrow> store \<Rightarrow> bool" where
  "stored_in x p C ret S S' \<longleftrightarrow> refs S' = refs S \<and>
     (if ret = STORED then linked S' = insert x (C - set_option p) \<and> same_but_cas x S S' else linked S' = C \<and> keeps S S')"

lemma get_no_update:
  "do_item_get g k hv w False ch = Some (Some y, w', ch') \<Longrightarrow> w' = w \<and> ch' = upd_it y (\<lambda>i. i\<lparr>refcount := refcount i + 1\<rparr>) ch"
  by (auto simp: do_item_get_def Let_def split: Option.bind_splits option.splits if_splits)

lemma get_no_update_bumps: "do_item_get g k hv w False ch = Some (p, w', ch') \<Longrightarrow> bumps w' = bumps w"
  by (auto simp: do_item_get_def Let_def split: Option.bind_splits option.splits if_splits)

text \<open>The system after a look-up that takes a reference, and after its release.\<close>

definition upd_sys :: "sys \<Rightarrow> nat \<Rightarrow> worker \<Rightarrow> cache \<Rightarrow> sys" where
  "upd_sys s i w ch = s\<lparr>cch := ch, wks := (wks s)[i := w]\<rparr>"

definition with_found :: "sys \<Rightarrow> nat \<Rightarrow> ptr \<Rightarrow> worker \<Rightarrow> cache \<Rightarrow> sys" where
  "with_found s i p w ch = s\<lparr>cch := ch, wks := (wks s)[i := w], held := (case p of None \<Rightarrow> [] | Some x \<Rightarrow> [x]) @ held s\<rparr>"

lemma with_found_simps [simp]: "cch (with_found s i p w ch) = ch" "wks (with_found s i p w ch) = (wks s)[i := w]"
  "held (with_found s i p w ch) = (case p of None \<Rightarrow> [] | Some x \<Rightarrow> [x]) @ held s" "(with_found s i p w ch)\<lparr>cch := ch'\<rparr> = with_found s i p w ch'"
  "with_found s i None w ch = upd_sys s i w ch"
  "(with_found s i (Some y) w ch)\<lparr>held := held s\<rparr> = upd_sys s i w ch"
  by (simp_all add: with_found_def upd_sys_def)

lemma upd_sys_simps [simp]: "cch (upd_sys s i w ch) = ch" "wks (upd_sys s i w ch) = (wks s)[i := w]" "held (upd_sys s i w ch) = held s"
  "(upd_sys s i w ch)\<lparr>cch := ch'\<rparr> = upd_sys s i w ch'"
  by (simp_all add: upd_sys_def)

lemma nearly_found:
  assumes "nearly_ample n s" "bumps w = bumps (wks s ! i)" "i < length (wks s)"
  shows "nearly_ample (n + 1) (with_found s i p w ch)"
proof -
  have "map bumps ((wks s)[i := w]) = map bumps (wks s)" using assms(2,3) by (simp add: map_update list_update_same_conv)
  then have "count_list (references (with_found s i p w ch)) y \<le> count_list (references s) y + 1" for y
    by (simp add: count_references split: option.split)
  then have "count_list (references (with_found s i p w ch)) y < 65500 + (n + 1)" for y
    using assms(1) unfolding nearly_ample_def by (metis add.assoc add_less_cancel_right le_less_trans)
  then show ?thesis by (simp add: nearly_ample_def)
qed

lemma nearly_cch [simp]: "nearly_ample n (s\<lparr>cch := ch\<rparr>) = nearly_ample n s"
  by (simp add: nearly_ample_def)

lemma thr_upd [simp]: "thr (upd_ts f c) = thr c" "thr (upd_ss j h c) = thr c"
  by (simp_all add: upd_ts_def upd_ss_def)

text \<open>The look-up at the start of a handler.\<close>

lemma handler_get:
  assumes "sim g K s S" "i < length (wks s)" "nearly_ample n s" "n < 30"
  shows "\<exists>p w ch S1. do_item_get g k (hash g k) (wks s ! i) False (cch s) = Some (p, w, ch) \<and> sim g K (with_found s i p w ch) S1
    \<and> looks_up g k S p (linked S1) \<and> refs S1 = (case p of None \<Rightarrow> {#} | Some y \<Rightarrow> {#y#}) + refs S \<and> keeps S S1 \<and> nearly_ample (n + 1) (with_found s i p w ch)
    \<and> (\<forall>y. p = Some y \<longrightarrow> w = wks s ! i \<and> ch = upd_it y (\<lambda>i. i\<lparr>refcount := refcount i + 1\<rparr>) (cch s))"
proof -
  have "room s" using nearly_room assms(3,4) by simp
  from get_step [OF assms(1,2) this] obtain p w ch S1 where
    e: "do_item_get g k (hash g k) (wks s ! i) False (cch s) = Some (p, w, ch)" "sim g K (with_found s i p w ch) S1" "finds g k S p S1" "keeps S S1"
    unfolding with_found_def by blast
  then show ?thesis using finds_looks_up [OF e(3)] nearly_found [OF assms(3) get_no_update_bumps [OF e(1)] assms(2)] get_no_update by blast
qed

text \<open>Giving back the reference of the look-up.\<close>

lemma handler_release:
  assumes "sim g K (with_found s i (Some y) w ch) S" "refs S = add_mset y R"
  shows "\<exists>ch' S'. do_item_remove g y ch = Some ch' \<and> sim g K (upd_sys s i w ch') S' \<and> linked S' = linked S \<and> refs S' = R \<and> keeps S S'"
  using remove_step [OF assms(1), of y] assms(2) by auto

lemma found_key:
  assumes "sim g K s S" "sim g K s1 S1" "keeps S S1" "x \<in># refs S1"
  shows "key_hash g s1 x = hash g (e_key (ent S x))" "ITEM_key (hp (cch s1) x) = e_key (ent S x)"
  using sim_key [OF assms(2) refs_in_store(1) [OF assms(4)]] assms(3) refs_in_store(1) [OF assms(4)] by (auto simp: key_hash_def keeps_def)

lemma store_miss:
  assumes s: "sim g K s S" and i: "i < length (wks s)" "thr c = wks s ! i" and a: "ample s" and x: "x \<in># refs S" "x \<notin> linked S"
    and comm: "comm \<noteq> NREAD_APPEND" "comm \<noteq> NREAD_PREPEND"
    and e: "do_item_get g (e_key (ent S x)) (hash g (e_key (ent S x))) (wks s ! i) False (cch s) = Some (None, w, ch)" "sim g K (with_found s i None w ch) S1"
      "looks_up g (e_key (ent S x)) S None (linked S1)" "refs S1 = refs S" "keeps S S1" "room (with_found s i None w ch)"
  shows "\<exists>c' ch' S'. store_item g pe x comm c (cch s) = Some (outcome comm False same, c', ch')
    \<and> sim g K (upd_sys s i (thr c') ch') S' \<and> stored_in x None (linked S1) (outcome comm False same) S S'"
proof -
  have k: "ITEM_key (hp (cch s) x) = e_key (ent S x)" using sim_key [OF s refs_in_store(1) [OF x(1)]] .
  note get = e(1) [folded i(2)]
  note hv = found_key(1) [OF s e(2,5)]
  show ?thesis
  proof (cases "comm = NREAD_SET \<or> comm = NREAD_ADD")
    case True
    have "e_key (ent S1 y) \<noteq> e_key (ent S1 x)" if "y \<in> linked S1" for y
      using looks_up_none [OF e(3) s that] e(4,5) x(1) that refs_in_store [of _ S1] by (metis keeps_def)
    moreover have "x \<notin> linked S1" using looks_up_subset [OF e(3)] x(2) by blast
    ultimately obtain ch' S' where l: "do_item_link g x (hash g (e_key (ent S x))) ch = Some ch'" "sim g K (upd_sys s i w ch') S'"
        "linked S' = insert x (linked S1)" "refs S' = refs S1" "same_but_cas x S1 S'"
      using link_step [OF e(2) _ e(6), of x] hv [of x] x(1) e(4) by auto
    have "store_item g pe x comm c (cch s) = Some (STORED, c\<lparr>thr := w, conn_cas := ITEM_get_cas (hp ch' x)\<rparr>, ch')"
      using True get l(1) by (auto simp: store_item_def do_store_item_def k store_plain_def)
    moreover have "stored_in x None (linked S1) STORED S S'"
      using l(3,4) e(4) same_but_cas_trans [OF e(5) l(5) keeps_refl] by (simp add: stored_in_def)
    moreover have "outcome comm False same = STORED" using True by auto
    ultimately show ?thesis using l(2) by auto
  next
    case False
    then have c: "comm = NREAD_REPLACE \<or> comm = NREAD_CAS" using comm by (cases comm) auto
    then obtain c' where "store_item g pe x comm c (cch s) = Some (outcome comm False same, c', ch)" "thr c' = w"
      using get by (auto simp: store_item_def do_store_item_def k store_cas_def)
    moreover have "stored_in x None (linked S1) (outcome comm False same) S S1" using e(4,5) c by (auto simp: stored_in_def)
    ultimately show ?thesis using e(2) by auto
  qed
qed

lemma store_hit:
  assumes s: "sim g K s S" and i: "i < length (wks s)" "thr c = wks s ! i" and a: "ample s" and x: "x \<in># refs S" "x \<notin> linked S"
    and comm: "comm \<noteq> NREAD_APPEND" "comm \<noteq> NREAD_PREPEND"
    and e: "do_item_get g (e_key (ent S x)) (hash g (e_key (ent S x))) (wks s ! i) False (cch s) = Some (Some y, w, ch)" "sim g K (with_found s i (Some y) w ch) S1"
      "looks_up g (e_key (ent S x)) S (Some y) (linked S1)" "refs S1 = add_mset y (refs S)" "keeps S S1" "room (with_found s i (Some y) w ch)"
      "ch = upd_it y (\<lambda>i. i\<lparr>refcount := refcount i + 1\<rparr>) (cch s)"
  shows "\<exists>c' ch' S'. store_item g pe x comm c (cch s) = Some (outcome comm True (ITEM_get_cas (hp (cch s) x) = ITEM_get_cas (hp (cch s) y)), c', ch')
    \<and> sim g K (upd_sys s i (thr c') ch') S' \<and> stored_in x (Some y) (linked S1) (outcome comm True (ITEM_get_cas (hp (cch s) x) = ITEM_get_cas (hp (cch s) y))) S S'"
proof -
  let ?same = "ITEM_get_cas (hp (cch s) x) = ITEM_get_cas (hp (cch s) y)" and ?s1 = "with_found s i (Some y) w ch"
  have k: "ITEM_key (hp (cch s) x) = e_key (ent S x)" using sim_key [OF s refs_in_store(1) [OF x(1)]] .
  note get = e(1) [folded i(2)]
  have r: "x \<in># refs S1" "y \<in># refs S1" using x(1) e(4) by simp_all
  have y: "y \<in> linked S1" "e_key (ent S y) = e_key (ent S x)" "x \<notin> linked S1" using e(3) x(2) by (auto simp: looks_up_def)
  have cas: "ITEM_get_cas (hp ch z) = ITEM_get_cas (hp (cch s) z)" for z by (simp add: e(7) ITEM_get_cas_def upd_it_def)
  show ?thesis
  proof (cases "outcome comm True ?same = STORED")
    case True
    have ky: "e_key (ent S1 x) = e_key (ent S1 y)" using y(2) e(5) r refs_in_store(1) by (metis keeps_def)
    obtain ch2 S2 where l: "do_item_replace g y x (hash g (e_key (ent S x))) ch = Some ch2" "sim g K (with_found s i (Some y) w ch2) S2"
        "linked S2 = insert x (linked S1 - {y})" "refs S2 = refs S1" "same_but_cas x S1 S2"
      using replace_step [OF e(2) r(2,1) e(6) y(1,3) ky] found_key(1) [OF s e(2,5) r(2)] y(2) by auto
    have "refs S2 = add_mset y (refs S)" using l(4) e(4) by simp
    from handler_release [OF l(2) this] obtain ch3 S3 where rel: "do_item_remove g y ch2 = Some ch3" "sim g K (upd_sys s i w ch3) S3" "linked S3 = linked S2" "refs S3 = refs S" "keeps S2 S3"
      by blast
    obtain c' where "store_item g pe x comm c (cch s) = Some (STORED, c', ch3)" "thr c' = w"
      using True get l(1) rel(1) cas comm by (cases comm) (auto simp: store_item_def do_store_item_def k store_plain_def store_cas_def item_replace_def Let_def split: if_splits)
    moreover have "stored_in x (Some y) (linked S1) STORED S S3"
      using l(3) rel(3,4) same_but_cas_trans [OF e(5) l(5) rel(5)] by (simp add: stored_in_def)
    ultimately show ?thesis using True rel(2) by auto
  next
    case False
    then have c: "comm = NREAD_ADD \<or> comm = NREAD_CAS \<and> \<not> ?same" using comm by (cases comm) (auto split: if_splits)
    obtain ch2 S2 where u: "(if comm = NREAD_ADD then do_item_update g y ch else Some ch) = Some ch2" "sim g K (with_found s i (Some y) w ch2) S2"
        "linked S2 = linked S1" "refs S2 = refs S1" "keeps S1 S2"
      using update_step [OF e(2) r(2)] e(2) keeps_refl by (cases "comm = NREAD_ADD") auto
    have "refs S2 = add_mset y (refs S)" using u(4) e(4) by simp
    from handler_release [OF u(2) this] obtain ch3 S3 where rel: "do_item_remove g y ch2 = Some ch3" "sim g K (upd_sys s i w ch3) S3" "linked S3 = linked S2" "refs S3 = refs S" "keeps S2 S3"
      by blast
    obtain c' where "store_item g pe x comm c (cch s) = Some (outcome comm True ?same, c', ch3)" "thr c' = w"
      using c get u(1) rel(1) cas by (auto simp: store_item_def do_store_item_def k store_cas_def Let_def split: if_splits)
    moreover have "stored_in x (Some y) (linked S1) (outcome comm True ?same) S S3"
      using False u(3) rel(3,4) keeps_trans [OF keeps_trans [OF e(5) u(5)] rel(5)] by (simp add: stored_in_def)
    ultimately show ?thesis using rel(2) by auto
  qed
qed

lemma store_item_ok:
  assumes s: "sim g K s S" and i: "i < length (wks s)" "thr c = wks s ! i" and a: "ample s" and x: "x \<in># refs S" "x \<notin> linked S"
    and comm: "comm \<noteq> NREAD_APPEND" "comm \<noteq> NREAD_PREPEND"
  shows "\<exists>p C ret c' ch' S'. store_item g pe x comm c (cch s) = Some (ret, c', ch') \<and> looks_up g (e_key (ent S x)) S p C
    \<and> ret = outcome comm (p \<noteq> None) (\<exists>y. p = Some y \<and> ITEM_get_cas (hp (cch s) x) = ITEM_get_cas (hp (cch s) y))
    \<and> sim g K (upd_sys s i (thr c') ch') S' \<and> stored_in x p C ret S S'"
proof -
  obtain p w ch S1 where e: "do_item_get g (e_key (ent S x)) (hash g (e_key (ent S x))) (wks s ! i) False (cch s) = Some (p, w, ch)" "sim g K (with_found s i p w ch) S1"
      "looks_up g (e_key (ent S x)) S p (linked S1)" "refs S1 = (case p of None \<Rightarrow> {#} | Some y \<Rightarrow> {#y#}) + refs S" "keeps S S1" "nearly_ample (0 + 1) (with_found s i p w ch)"
      "\<forall>y. p = Some y \<longrightarrow> ch = upd_it y (\<lambda>i. i\<lparr>refcount := refcount i + 1\<rparr>) (cch s)"
    using handler_get [OF s i(1) ample_nearly [OF a] zero_less_numeral, of "e_key (ent S x)"] by blast
  have rm: "room (with_found s i p w ch)" by (rule nearly_room [OF e(6)]) simp
  show ?thesis
  proof (cases p)
    case None
    then show ?thesis using store_miss [OF s i a x comm, of w ch S1 pe False] e rm by (intro exI [of _ None] exI [of _ "linked S1"]) auto
  next
    case (Some y)
    then show ?thesis using store_hit [OF s i a x comm, of y w ch S1 pe] e rm by (intro exI [of _ "Some y"] exI [of _ "linked S1"]) auto
  qed
qed

section \<open>Writing into an item\<close>

lemma sim_item:
  assumes "sim g K s S" "in_store S x"
  shows "plain (hp (cch s) x)" "wf_item (hp (cch s) x)" "2 \<le> nbytes (hp (cch s) x)" "\<not> has_flag (it_flags (hp (cch s) x)) ITEM_SLABBED"
proof -
  obtain L where L: "sys_inv g K s (linked S) L" by (rule simE [OF assms(1)])
  obtain l where "L x = Some l" using sim_live [OF assms(1) L assms(2)] by blast
  from cache_invD(6) [OF sys_invD(1) [OF L] this] show "plain (hp (cch s) x)" "wf_item (hp (cch s) x)" "2 \<le> nbytes (hp (cch s) x)" "\<not> has_flag (it_flags (hp (cch s) x)) ITEM_SLABBED"
    by (simp_all add: item_ok_def)
qed

lemma write_entry:
  assumes s: "sim g K s S" and x: "in_store S x"
    and f: "\<And>i. it_flags (f i) = it_flags i" "\<And>i. nkey (f i) = nkey i \<and> ikey (f i) = ikey i \<and> nbytes (f i) = nbytes i \<and> slabs_clsid (f i) = slabs_clsid i
      \<and> nxt (f i) = nxt i \<and> prv (f i) = prv i \<and> h_next (f i) = h_next i \<and> refcount (f i) = refcount i"
    and e: "entry_of (f (hp (cch s) x)) = e'"
  shows "sim g K (s\<lparr>cch := upd_it x f (cch s)\<rparr>) (S\<lparr>ent := (ent S)(x := e')\<rparr>)"
proof -
  obtain L where L: "sys_inv g K s (linked S) L" by (rule simE [OF s])
  have "cache_inv g K (upd_it x f (cch s)) (linked S) {} L (count_list (references s))"
    by (rule cache_inv_touch [OF sys_invD(1) [OF L] sim_live [OF s L x] _ f(2)]) (simp add: same_flags_def f(1))
  then have "sys_inv g K (s\<lparr>cch := upd_it x f (cch s)\<rparr>) (linked S) L" by (rule sys_inv_cch [OF L]) simp
  then show ?thesis using s e unfolding sim_def by (auto simp: in_store_def upd_it_def)
qed

text \<open>The value of an entry, and writing a part of it.\<close>

definition entry_value :: "entry \<Rightarrow> byte list" where
  "entry_value e = take (nat (e_bytes e)) (e_data e @ replicate (nat (e_bytes e)) 0)"

lemma entry_value_item [simp]: "entry_value (entry_of i) = item_value i"
  by (simp add: entry_value_def item_value_def entry_of_def)

lemma length_item_value [simp]: "length (item_value i) = nat (nbytes i)"
  by (simp add: item_value_def)

lemma write_step:
  assumes "sim g K s S" "in_store S x" "off + length bs \<le> nat (e_bytes (ent S x))"
  shows "\<exists>ch. item_write x off bs (cch s) = Some ch \<and> sim g K (s\<lparr>cch := ch\<rparr>) (S\<lparr>ent := (ent S)(x := (ent S x)\<lparr>e_data := put (entry_value (ent S x)) off bs\<rparr>)\<rparr>)"
proof -
  note e = sim_entry [OF assms(1,2)]
  have m: "memcpy_at (item_value (hp (cch s) x)) off bs = Some (put (item_value (hp (cch s) x)) off bs)"
    using assms(3) e by (intro memcpy_put) simp
  have "sim g K (s\<lparr>cch := upd_it x (\<lambda>i. i\<lparr>idata := put (item_value (hp (cch s) x)) off bs\<rparr>) (cch s)\<rparr>)
      (S\<lparr>ent := (ent S)(x := (ent S x)\<lparr>e_data := put (entry_value (ent S x)) off bs\<rparr>)\<rparr>)"
    by (rule write_entry [OF assms(1,2)]) (simp_all add: e, simp add: entry_of_def ITEM_key_def)
  then show ?thesis using m by (simp add: item_write_def)
qed

text \<open>Replacing an item that may have been unlinked meanwhile.\<close>

lemma swap_step:
  assumes s: "sim g K s S" and r: "y \<in># refs S" "x \<in># refs S" "room s" and x: "x \<notin> linked S" "e_key (ent S x) = e_key (ent S y)"
    and u: "\<And>z. z \<in> linked S \<Longrightarrow> z \<noteq> y \<Longrightarrow> e_key (ent S z) \<noteq> e_key (ent S y)"
  shows "\<exists>ch S'. do_item_replace g y x (key_hash g s y) (cch s) = Some ch \<and> sim g K (s\<lparr>cch := ch\<rparr>) S'
    \<and> linked S' = insert x (linked S - {y}) \<and> refs S' = refs S \<and> same_but_cas x S S'"
proof -
  obtain c1 S1 where u1: "do_item_unlink g y (key_hash g s y) (cch s) = Some c1" "sim g K (s\<lparr>cch := c1\<rparr>) S1" "linked S1 = linked S - {y}" "refs S1 = refs S" "keeps S S1"
    using unlink_step [OF s r(1)] by blast
  have k: "ent S1 z = ent S z" if "in_store S1 z" for z using u1(5) that by (simp add: keeps_def)
  have xs: "in_store S1 x" using r(2) u1(4) by (simp add: in_store_def)
  have "e_key (ent S1 z) \<noteq> e_key (ent S1 x)" if "z \<in> linked S1" for z
    using u [of z] that u1(3) k [of z] k [OF xs] x(2) by (auto simp: in_store_def)
  moreover have "room (s\<lparr>cch := c1\<rparr>)" using r(3) by (simp add: room_def)
  ultimately obtain c2 S2 where l: "do_item_link g x (key_hash g (s\<lparr>cch := c1\<rparr>) x) c1 = Some c2" "sim g K (s\<lparr>cch := c2\<rparr>) S2" "linked S2 = insert x (linked S1)" "refs S2 = refs S1" "same_but_cas x S1 S2"
    using link_step [OF u1(2), of x] r(2) u1(3,4) x(1) by auto
  have "key_hash g (s\<lparr>cch := c1\<rparr>) x = key_hash g s y"
    using sim_key [OF u1(2) xs] k [OF xs] x(2) sim_key [OF s refs_in_store(1) [OF r(1)]] by (simp add: key_hash_def)
  then have "do_item_replace g y x (key_hash g s y) (cch s) = Some c2"
    using sim_item(4) [OF s refs_in_store(1) [OF r(1)]] u1(1) l(1) by (simp add: do_item_replace_def)
  then show ?thesis using l(2-4) u1(3,4) same_but_cas_trans [OF u1(5) l(5) keeps_refl] by auto
qed

section \<open>New items\<close>

text \<open>The system with a fresh item.\<close>

definition with_new :: "sys \<Rightarrow> ptr \<Rightarrow> cache \<Rightarrow> sys" where
  "with_new s p ch = s\<lparr>cch := ch, held := (case p of None \<Rightarrow> [] | Some x \<Rightarrow> [x]) @ held s\<rparr>"

lemma with_new_simps [simp]: "cch (with_new s p ch) = ch" "held (with_new s p ch) = (case p of None \<Rightarrow> [] | Some x \<Rightarrow> [x]) @ held s" "wks (with_new s p ch) = wks s"
  "(with_new s p ch)\<lparr>cch := ch'\<rparr> = with_new s p ch'" "with_new s None ch = s\<lparr>cch := ch\<rparr>"
  by (simp_all add: with_new_def)

lemma nearly_new: "nearly_ample n s \<Longrightarrow> nearly_ample (n + 1) (with_new s p ch)"
proof -
  assume a: "nearly_ample n s"
  have "count_list (references (with_new s p ch)) y \<le> count_list (references s) y + 1" for y by (simp add: count_references split: option.split)
  then have "count_list (references (with_new s p ch)) y < 65500 + (n + 1)" for y
    using a unfolding nearly_ample_def by (metis add.assoc add_less_cancel_right le_less_trans)
  then show ?thesis by (simp add: nearly_ample_def)
qed

lemma new_step:
  assumes "sim g K s S" "config g K" "room s" "new_ok g e junk key flags et nb (cch s)"
  shows "\<exists>p ch S'. do_item_alloc g e junk key (of_nat (length key)) flags et nb (cch s) = Some (p, ch) \<and> sim g K (with_new s p ch) S'
    \<and> drops g (evict_to_free g) S S'
    \<and> (case p of None \<Rightarrow> refs S' = refs S \<and> keeps S S'
        | Some x \<Rightarrow> x \<notin># refs S \<and> x \<notin> linked S' \<and> refs S' = add_mset x (refs S) \<and> e_key (ent S' x) = key \<and> e_bytes (ent S' x) = nb \<and> e_exp (ent S' x) = et
            \<and> keeps S (S'\<lparr>refs := refs S\<rparr>))"
proof -
  have "legal g (New e junk key flags et nb) s" using assms(3,4) by simp
  from step_new [OF assms(1,2) this] obtain p s' S' where e: "exec g (New e junk key flags et nb) s = Some (p, s')"
      "allowed g (New e junk key flags et nb) S p S'" "sim (next_g (New e junk key flags et nb) g) K s' S'" unfolding simulates_def by blast
  from e(1) obtain ch where "do_item_alloc g e junk key (of_nat (length key)) flags et nb (cch s) = Some (p, ch)" "s' = with_new s p ch"
    by (auto simp: with_new_def split: Option.bind_splits)
  then show ?thesis using e(2,3) by auto
qed

section \<open>Appending\<close>

text \<open>The combined value, and the entry that holds it.\<close>

definition combined :: "nread \<Rightarrow> entry \<Rightarrow> entry \<Rightarrow> byte list" where
  "combined comm old add =
     (let (a, b) = (if comm = NREAD_APPEND then (old, add) else (add, old)) in take (nat (e_bytes a - 2)) (entry_value a) @ entry_value b)"

definition others_kept :: "nat \<Rightarrow> store \<Rightarrow> store \<Rightarrow> bool" where
  "others_kept z S S' \<longleftrightarrow> (\<forall>u. u \<noteq> z \<longrightarrow> in_store S' u \<longrightarrow> in_store S u \<and> ent S' u = ent S u)"

lemma others_kept_trans:
  "others_kept z S S1 \<Longrightarrow> keeps S1 S2 \<Longrightarrow> others_kept z S S2"
  "keeps S S1 \<Longrightarrow> others_kept z S1 S2 \<Longrightarrow> others_kept z S S2"
  "others_kept z S S1 \<Longrightarrow> same_but_cas z S1 S2 \<Longrightarrow> others_kept z S S2"
  by (auto simp: others_kept_def keeps_def same_but_cas_def)

lemma others_kept_upd: "others_kept z S S1 \<Longrightarrow> others_kept z S (S1\<lparr>ent := (ent S1)(z := v)\<rparr>)"
  by (auto simp: others_kept_def in_store_def)

lemma put_twice:
  assumes "2 \<le> length va" "2 \<le> length vb" "length old = length va - 2 + length vb"
  shows "put (put old 0 va) (length va - 2) vb = take (length va - 2) va @ vb"
  using assms by (simp add: put_def)

lemma length_entry_value: "length (entry_value e) = nat (e_bytes e)"
  by (simp add: entry_value_def)

text \<open>Copying both values into the new item.\<close>

lemma copy_step:
  assumes s: "sim g K s S" and z: "z \<in># refs S" "z \<noteq> x" "z \<noteq> y" and xy: "in_store S x" "in_store S y"
    and b: "e_bytes (ent S z) = e_bytes (ent S x) + e_bytes (ent S y) - 2"
  shows "\<exists>ch. store_item_copy_data comm y z x (cch s) = Some ch
    \<and> sim g K (s\<lparr>cch := ch\<rparr>) (S\<lparr>ent := (ent S)(z := (ent S z)\<lparr>e_data := combined comm (ent S y) (ent S x)\<rparr>)\<rparr>)"
proof -
  obtain a b' where ab: "(a, b') = (if comm = NREAD_APPEND then (y, x) else (x, y))" by (cases "comm = NREAD_APPEND") auto
  have i: "in_store S a" "in_store S b'" "z \<noteq> a" "z \<noteq> b'" "in_store S z" using ab xy z refs_in_store by (auto split: if_splits)
  have e: "e_bytes (ent S z) = e_bytes (ent S a) + e_bytes (ent S b') - 2" using ab b by (auto split: if_splits)
  have n: "2 \<le> e_bytes (ent S a)" "2 \<le> e_bytes (ent S b')" using sim_item(3) [OF s] sim_entry [OF s] i(1,2) by simp_all
  define va where "va = entry_value (ent S a)"
  define vb where "vb = entry_value (ent S b')"
  have l: "length va = nat (e_bytes (ent S a))" "length vb = nat (e_bytes (ent S b'))" by (simp_all add: va_def vb_def length_entry_value)
  have l2: "2 \<le> length va" "2 \<le> length vb" "nat (e_bytes (ent S z)) = length va - 2 + length vb" using l n e by arith+
  have f: "0 + length va \<le> nat (e_bytes (ent S z))" "length va - 2 + length vb \<le> nat (e_bytes (ent S z))" using l2 by linarith+
  have iv: "item_value (hp (cch s) a) = va" "item_value (hp (cch s) b') = vb" using sim_entry [OF s] i(1,2) by (simp_all add: va_def vb_def)
  let ?S1 = "S\<lparr>ent := (ent S)(z := (ent S z)\<lparr>e_data := put (entry_value (ent S z)) 0 va\<rparr>)\<rparr>"
  obtain c1 where w1: "item_write z 0 va (cch s) = Some c1" "sim g K (s\<lparr>cch := c1\<rparr>) ?S1"
    using write_step [OF s i(5) f(1)] by blast
  have st: "in_store ?S1 u = in_store S u" for u by (simp add: in_store_def)
  have iv2: "item_value (hp c1 b') = vb" "nbytes (hp c1 a) = e_bytes (ent S a)"
    using sim_entry [OF w1(2), of b'] sim_entry [OF w1(2), of a] i st by (simp_all add: vb_def)
  have off: "nat (e_bytes (ent S a) - 2) = length va - 2" using l n by simp
  obtain c2 where w2: "item_write z (length va - 2) vb c1 = Some c2"
      "sim g K (s\<lparr>cch := c2\<rparr>) (?S1\<lparr>ent := (ent ?S1)(z := (ent ?S1 z)\<lparr>e_data := put (entry_value (ent ?S1 z)) (length va - 2) vb\<rparr>)\<rparr>)"
    using write_step [OF w1(2), of z "length va - 2" vb] st i(5) f(2) by auto
  have "length (put (entry_value (ent S z)) 0 va) = nat (e_bytes (ent S z))" using f(1) by (simp add: length_entry_value)
  then have "entry_value (ent ?S1 z) = put (entry_value (ent S z)) 0 va" by (simp add: entry_value_def)
  moreover have "put (put (entry_value (ent S z)) 0 va) (length va - 2) vb = take (length va - 2) va @ vb"
    using l2 by (intro put_twice) (simp_all add: length_entry_value)
  moreover have "combined comm (ent S y) (ent S x) = take (length va - 2) va @ vb" using ab off by (auto simp: combined_def va_def vb_def split: if_splits)
  ultimately have fin: "sim g K (s\<lparr>cch := c2\<rparr>) (S\<lparr>ent := (ent S)(z := (ent S z)\<lparr>e_data := combined comm (ent S y) (ent S x)\<rparr>)\<rparr>)" using w2(2) by simp
  have "\<not> has_flag (it_flags (hp (cch s) z)) ITEM_CHUNKED" using sim_item(1) [OF s i(5)] by (simp add: plain_def)
  then have "store_item_copy_data comm y z x (cch s) = Some c2"
    using ab w1(1) w2(1) iv(1) iv2 off unfolding store_item_copy_data_def ab [symmetric] by simp
  then show ?thesis using fin by blast
qed

text \<open>Giving back the references of the look-up and of the new item.\<close>

lemma release_both:
  assumes "sim g K (with_new (with_found s i (Some y) w c0) (Some z) ch) S" "refs S = add_mset z (add_mset y R)" "z \<noteq> y"
  shows "\<exists>ch' ch'' S'. do_item_remove g y ch = Some ch' \<and> do_item_remove g z ch' = Some ch'' \<and> sim g K (upd_sys s i w ch'') S'
    \<and> linked S' = linked S \<and> refs S' = R \<and> keeps S S'"
proof -
  let ?s = "with_new (with_found s i (Some y) w c0) (Some z) ch"
  obtain c1 S1 where r1: "do_item_remove g y ch = Some c1" "sim g K (?s\<lparr>cch := c1, held := remove1 y (held ?s)\<rparr>) S1" "linked S1 = linked S" "refs S1 = add_mset z R" "keeps S S1"
    using remove_step [OF assms(1), of y] assms(2) by auto
  let ?s1 = "?s\<lparr>cch := c1, held := remove1 y (held ?s)\<rparr>"
  obtain c2 S2 where r2: "do_item_remove g z c1 = Some c2" "sim g K (?s1\<lparr>cch := c2, held := remove1 z (held ?s1)\<rparr>) S2" "linked S2 = linked S1" "refs S2 = R" "keeps S1 S2"
    using remove_step [OF r1(2), of z] r1(4) by auto
  have "?s1\<lparr>cch := c2, held := remove1 z (held ?s1)\<rparr> = upd_sys s i w c2" using assms(3) by (simp add: with_new_def with_found_def upd_sys_def)
  then show ?thesis using r1 r2 keeps_trans [OF r1(5) r2(5)] by auto
qed

text \<open>A store after a successful append or prepend of the item \<open>x\<close> to the item \<open>y\<close>.\<close>

definition appended_in :: "globals \<Rightarrow> nread \<Rightarrow> nat \<Rightarrow> nat \<Rightarrow> store \<Rightarrow> store \<Rightarrow> bool" where
  "appended_in g comm x y S S' \<longleftrightarrow> refs S' = refs S \<and>
     (\<exists>z C. C \<subseteq> linked S \<and> (\<forall>u\<in>linked S - C. out_of_date g (ent S u) \<or> flushing g \<or> evict_to_free g) \<and> z \<notin># refs S \<and> linked S' = insert z (C - {y})
        \<and> others_kept z S S' \<and> e_key (ent S' z) = e_key (ent S y) \<and> e_bytes (ent S' z) = e_bytes (ent S x) + e_bytes (ent S y) - 2
        \<and> e_data (ent S' z) = combined comm (ent S y) (ent S x) \<and> e_exp (ent S' z) = e_exp (ent S y))"

text \<open>From the allocation of the combined item to the end.\<close>

lemma append_step:
  assumes s1: "sim g K (with_found s i (Some y) w ch1) S1" and g: "config g K" and room: "nearly_ample 1 (with_found s i (Some y) w ch1)"
    and x: "x \<in># refs S1" "x \<notin> linked S1" and y: "refs S1 = add_mset y R" "y \<in> linked S1" "e_key (ent S1 x) = e_key (ent S1 y)"
    and mem: "new_ok g (item_mem pe) (junk_bytes pe) (e_key (ent S1 y)) flags (e_exp (ent S1 y)) (e_bytes (ent S1 x) + e_bytes (ent S1 y) - 2) ch1"
  shows "(\<exists>ch2 ch3 S2. do_item_alloc g (item_mem pe) (junk_bytes pe) (e_key (ent S1 y)) (of_nat (length (e_key (ent S1 y)))) flags (e_exp (ent S1 y)) (e_bytes (ent S1 x) + e_bytes (ent S1 y) - 2) ch1 = Some (None, ch2)
      \<and> do_item_remove g y ch2 = Some ch3 \<and> sim g K (upd_sys s i w ch3) S2 \<and> drops g (evict_to_free g) S1 S2 \<and> refs S2 = R \<and> keeps S1 S2)
    \<or> (\<exists>z ch2 ch3 ch4 ch5 ch6 S2. do_item_alloc g (item_mem pe) (junk_bytes pe) (e_key (ent S1 y)) (of_nat (length (e_key (ent S1 y)))) flags (e_exp (ent S1 y)) (e_bytes (ent S1 x) + e_bytes (ent S1 y) - 2) ch1 = Some (Some z, ch2)
      \<and> store_item_copy_data comm y z x ch2 = Some ch3 \<and> do_item_replace g y z (hash g (e_key (ent S1 y))) ch3 = Some ch4
      \<and> do_item_remove g y ch4 = Some ch5 \<and> do_item_remove g z ch5 = Some ch6 \<and> sim g K (upd_sys s i w ch6) S2
      \<and> refs S2 = R \<and> z \<notin># refs S1 \<and> others_kept z S1 S2
      \<and> (\<exists>C. C \<subseteq> linked S1 \<and> (\<forall>u\<in>linked S1 - C. out_of_date g (ent S1 u) \<or> flushing g \<or> evict_to_free g) \<and> linked S2 = insert z (C - {y}))
      \<and> (\<exists>v. ent S2 z = \<lparr>e_key = e_key (ent S1 y), e_bytes = e_bytes (ent S1 x) + e_bytes (ent S1 y) - 2, e_flags = e_flags (ent S2 z),
            e_data = combined comm (ent S1 y) (ent S1 x), e_cas = v, e_exp = e_exp (ent S1 y)\<rparr>))"
proof -
  let ?s1 = "with_found s i (Some y) w ch1"
  have "room ?s1" using nearly_room [OF room] by simp
  moreover have "new_ok g (item_mem pe) (junk_bytes pe) (e_key (ent S1 y)) flags (e_exp (ent S1 y)) (e_bytes (ent S1 x) + e_bytes (ent S1 y) - 2) (cch ?s1)" using mem by (simp add: with_found_def)
  ultimately have "\<exists>p ch S'. do_item_alloc g (item_mem pe) (junk_bytes pe) (e_key (ent S1 y)) (of_nat (length (e_key (ent S1 y)))) flags (e_exp (ent S1 y)) (e_bytes (ent S1 x) + e_bytes (ent S1 y) - 2) (cch ?s1) = Some (p, ch)
    \<and> sim g K (with_new ?s1 p ch) S' \<and> drops g (evict_to_free g) S1 S'
    \<and> (case p of None \<Rightarrow> refs S' = refs S1 \<and> keeps S1 S'
        | Some z \<Rightarrow> z \<notin># refs S1 \<and> z \<notin> linked S' \<and> refs S' = add_mset z (refs S1) \<and> e_key (ent S' z) = e_key (ent S1 y) \<and> e_bytes (ent S' z) = e_bytes (ent S1 x) + e_bytes (ent S1 y) - 2
            \<and> e_exp (ent S' z) = e_exp (ent S1 y) \<and> keeps S1 (S'\<lparr>refs := refs S1\<rparr>))" by (rule new_step [OF s1 g])
  then obtain p ch2 S2 where a: "do_item_alloc g (item_mem pe) (junk_bytes pe) (e_key (ent S1 y)) (of_nat (length (e_key (ent S1 y)))) flags (e_exp (ent S1 y)) (e_bytes (ent S1 x) + e_bytes (ent S1 y) - 2) (cch ?s1) = Some (p, ch2)"
      "sim g K (with_new ?s1 p ch2) S2" "drops g (evict_to_free g) S1 S2"
    and q: "case p of None \<Rightarrow> refs S2 = refs S1 \<and> keeps S1 S2
        | Some z \<Rightarrow> z \<notin># refs S1 \<and> z \<notin> linked S2 \<and> refs S2 = add_mset z (refs S1) \<and> e_key (ent S2 z) = e_key (ent S1 y) \<and> e_bytes (ent S2 z) = e_bytes (ent S1 x) + e_bytes (ent S1 y) - 2
            \<and> e_exp (ent S2 z) = e_exp (ent S1 y) \<and> keeps S1 (S2\<lparr>refs := refs S1\<rparr>)" by (elim exE conjE)
  have a1: "do_item_alloc g (item_mem pe) (junk_bytes pe) (e_key (ent S1 y)) (of_nat (length (e_key (ent S1 y)))) flags (e_exp (ent S1 y)) (e_bytes (ent S1 x) + e_bytes (ent S1 y) - 2) ch1 = Some (p, ch2)"
    using a(1) by (simp add: with_found_def)
  show ?thesis
  proof (cases p)
    case None
    then have n: "refs S2 = add_mset y R" "keeps S1 S2" "sim g K (with_found s i (Some y) w ch2) S2" using q y(1) a(2) by simp_all
    from handler_release [OF n(3,1)] obtain ch3 S3 where r: "do_item_remove g y ch2 = Some ch3" "sim g K (upd_sys s i w ch3) S3" "linked S3 = linked S2" "refs S3 = R" "keeps S2 S3" by blast
    have "drops g (evict_to_free g) S1 S3" using a(3) r(3) by (simp add: drops_def)
    then show ?thesis
      by (intro disjI1 exI [of _ ch2] exI [of _ ch3] exI [of _ S3] conjI a1 [unfolded None] r(1,2,4) keeps_trans [OF n(2) r(5)])
  next
    case (Some z)
    then have z: "z \<notin># refs S1" "z \<notin> linked S2" "refs S2 = add_mset z (refs S1)" "e_key (ent S2 z) = e_key (ent S1 y)" "e_bytes (ent S2 z) = e_bytes (ent S1 x) + e_bytes (ent S1 y) - 2"
        "e_exp (ent S2 z) = e_exp (ent S1 y)" "keeps S1 (S2\<lparr>refs := refs S1\<rparr>)" using q by simp_all
    have ne: "z \<noteq> x" "z \<noteq> y" using z(1) x(1) y(1) by auto
    have old: "in_store S1 u" "ent S2 u = ent S1 u" if "u \<in> linked S2 \<or> u \<in># refs S1" for u
      using z(7) that by (auto simp: keeps_def in_store_def)
    have yr: "y \<in># refs S1" using y(1) by simp
    have in2: "in_store S2 x" "in_store S2 y" "z \<in># refs S2" using x(1) yr z(3) by (auto simp: in_store_def)
    have exy: "ent S2 x = ent S1 x" "ent S2 y = ent S1 y" using old x(1) yr by auto
    let ?S3 = "S2\<lparr>ent := (ent S2)(z := (ent S2 z)\<lparr>e_data := combined comm (ent S1 y) (ent S1 x)\<rparr>)\<rparr>"
    obtain ch3 where c3: "store_item_copy_data comm y z x ch2 = Some ch3" "sim g K (with_new ?s1 (Some z) ch3) ?S3"
      using copy_step [OF a(2) in2(3) ne in2(1,2), of comm] z(5) exy Some by auto
    have rm: "room (with_new ?s1 (Some z) ch3)" using nearly_room [OF nearly_new [OF room]] by simp
    have sub: "linked S2 \<subseteq> linked S1" using a(3) by (simp add: drops_def)
    have uq: "e_key (ent ?S3 u) \<noteq> e_key (ent ?S3 y)" if "u \<in> linked ?S3" "u \<noteq> y" for u
      using sim_unique [OF s1, of u y] that sub y(2) old(2) [of u] exy(2) z(2) ne(2) by auto
    have kh: "key_hash g (with_new ?s1 (Some z) ch3) y = hash g (e_key (ent S1 y))"
      using sim_key [OF c3(2), of y] in2(2) exy(2) ne(2) by (simp add: key_hash_def in_store_def)
    obtain ch4 S4 where w: "do_item_replace g y z (hash g (e_key (ent S1 y))) ch3 = Some ch4" "sim g K (with_new ?s1 (Some z) ch4) S4" "linked S4 = insert z (linked S2 - {y})"
        "refs S4 = refs S2" "same_but_cas z ?S3 S4"
      using swap_step [OF c3(2) _ _ rm _ _ uq, of z] in2 z(2-4) yr exy(2) ne(2) kh by auto
    have "refs S4 = add_mset z (add_mset y R)" using w(4) z(3) y(1) by simp
    from release_both [OF w(2) this ne(2)] obtain ch5 ch6 S5 where r: "do_item_remove g y ch4 = Some ch5" "do_item_remove g z ch5 = Some ch6" "sim g K (upd_sys s i w ch6) S5"
        "linked S5 = linked S4" "refs S5 = R" "keeps S4 S5" by blast
    have "others_kept z S1 S2" using old z(3) by (auto simp: others_kept_def in_store_def)
    then have ok: "others_kept z S1 S5" using others_kept_upd others_kept_trans(1,3) w(5) r(6) by blast
    have zin: "in_store S5 z" "in_store S4 z" using r(4) w(3) by (auto simp: in_store_def)
    obtain v where "ent S4 z = (ent ?S3 z)\<lparr>e_cas := v\<rparr>" using w(5) zin(2) by (auto simp: same_but_cas_def)
    then have ez: "ent S5 z = (ent ?S3 z)\<lparr>e_cas := v\<rparr>" using r(6) zin(1) by (simp add: keeps_def)
    have "\<exists>v. ent S5 z = \<lparr>e_key = e_key (ent S1 y), e_bytes = e_bytes (ent S1 x) + e_bytes (ent S1 y) - 2, e_flags = e_flags (ent S5 z),
            e_data = combined comm (ent S1 y) (ent S1 x), e_cas = v, e_exp = e_exp (ent S1 y)\<rparr>"
      by (rule exI [of _ v]) (simp add: ez z(4-6))
    moreover have "\<exists>C. C \<subseteq> linked S1 \<and> (\<forall>u\<in>linked S1 - C. out_of_date g (ent S1 u) \<or> flushing g \<or> evict_to_free g) \<and> linked S5 = insert z (C - {y})"
      using a(3) r(4) w(3) by (intro exI [of _ "linked S2"]) (simp add: drops_def)
    ultimately show ?thesis
      by (intro disjI2 exI [of _ z] exI [of _ ch2] exI [of _ ch3] exI [of _ ch4] exI [of _ ch5] exI [of _ ch6] exI [of _ S5] conjI a1 [unfolded Some] c3(1) w(1) r(1-3,5) z(1) ok)
  qed
qed

end
