(* ===== verification/Storage_Append.thy ===== *)
theory Storage_Append
  imports Storage
begin

text \<open>
  Append and prepend refine the abstract store: the item of the key is replaced by a new one that holds both
  values.
\<close>

lemma keeps_linked: "keeps S S1 \<Longrightarrow> linked S1 = linked S \<Longrightarrow> u \<in> linked S \<Longrightarrow> ent S1 u = ent S u"
  by (auto simp: keeps_def in_store_def)

text \<open>What \<open>do_store_item\<close> does with the results of the steps of an append or prepend.\<close>

lemma append_code:
  assumes c: "comm = NREAD_APPEND \<or> comm = NREAD_PREPEND" and ext: "\<not> extstore g" and cas: "ITEM_get_cas (hp ch1 x) = 0"
    and get: "do_item_get g key (hash g key) (thr c) False ch = Some (Some y, w, ch1)" and k: "ITEM_key (hp ch x) = key" "ITEM_key (hp ch1 x) = key" "ucast (nkey (hp ch1 x)) = (of_nat (length key) :: u64)"
    and al: "do_item_alloc g (item_mem pe) (junk_bytes pe) key (of_nat (length key)) (FLAGS_CONV (hp ch1 y)) (exptime (hp ch1 y)) (nbytes (hp ch1 x) + nbytes (hp ch1 y) - 2) ch1 = Some (p, ch2)"
  shows "p = None \<Longrightarrow> do_item_remove g y ch2 = Some ch3 \<Longrightarrow> store_item g pe x comm c ch = Some (NOT_STORED, c\<lparr>thr := w\<rparr>, ch3)"
    and "p = Some z \<Longrightarrow> store_item_copy_data comm y z x ch2 = Some ch3 \<Longrightarrow> do_item_replace g y z (hash g key) ch3 = Some ch4 \<Longrightarrow> do_item_remove g y ch4 = Some ch5
      \<Longrightarrow> do_item_remove g z ch5 = Some ch6 \<Longrightarrow> store_item g pe x comm c ch = Some (STORED, c\<lparr>thr := w, conn_cas := ITEM_get_cas (hp ch6 z)\<rparr>, ch6)"
  using c ext cas get k al by (auto simp: store_item_def do_store_item_def store_plain_def store_combine_def item_replace_def)

lemma append_item_ok:
  assumes s: "sim g K s S" "config g K" and i: "i < length (wks s)" "thr c = wks s ! i" and a: "ample s" and x: "x \<in># refs S" "x \<notin> linked S"
    and comm: "comm = NREAD_APPEND \<or> comm = NREAD_PREPEND" and ext: "\<not> extstore g" and cas: "ITEM_get_cas (hp (cch s) x) = 0"
    and mem: "\<And>y. y \<in> linked S \<Longrightarrow> e_key (ent S y) = e_key (ent S x) \<Longrightarrow> new_ok g (item_mem pe) (junk_bytes pe) (e_key (ent S y)) (FLAGS_CONV (hp (cch s) y)) (e_exp (ent S y))
        (e_bytes (ent S x) + e_bytes (ent S y) - 2) (upd_it y (\<lambda>i. i\<lparr>refcount := refcount i + 1\<rparr>) (cch s))"
  shows "\<exists>p C ret c' ch' S'. store_item g pe x comm c (cch s) = Some (ret, c', ch') \<and> looks_up g (e_key (ent S x)) S p C \<and> sim g K (upd_sys s i (thr c') ch') S'
    \<and> (case p of None \<Rightarrow> ret = NOT_STORED \<and> stored_in x None C ret S S'
        | Some y \<Rightarrow> ret = NOT_STORED \<and> drops g (evict_to_free g) S S' \<and> refs S' = refs S \<and> keeps S S' \<or> ret = STORED \<and> appended_in g comm x y S S')"
proof -
  obtain p w ch S1 where e: "do_item_get g (e_key (ent S x)) (hash g (e_key (ent S x))) (wks s ! i) False (cch s) = Some (p, w, ch)" "sim g K (with_found s i p w ch) S1"
      "looks_up g (e_key (ent S x)) S p (linked S1)" "refs S1 = (case p of None \<Rightarrow> {#} | Some y \<Rightarrow> {#y#}) + refs S" "keeps S S1" "nearly_ample (0 + 1) (with_found s i p w ch)"
      "\<forall>y. p = Some y \<longrightarrow> ch = upd_it y (\<lambda>i. i\<lparr>refcount := refcount i + 1\<rparr>) (cch s)"
    using handler_get [OF s(1) i(1) ample_nearly [OF a] zero_less_numeral, of "e_key (ent S x)"] by blast
  have k: "ITEM_key (hp (cch s) x) = e_key (ent S x)" using sim_key [OF s(1) refs_in_store(1) [OF x(1)]] .
  note get = e(1) [folded i(2)]
  show ?thesis
  proof (cases p)
    case None
    have "store_item g pe x comm c (cch s) = Some (NOT_STORED, c\<lparr>thr := w\<rparr>, ch)" using comm get None by (auto simp: store_item_def do_store_item_def k)
    moreover have "stored_in x None (linked S1) NOT_STORED S S1" using e(4,5) None by (simp add: stored_in_def)
    ultimately show ?thesis using e(2,3) None by (intro exI [of _ None] exI [of _ "linked S1"] exI [of _ NOT_STORED] exI [of _ "c\<lparr>thr := w\<rparr>"] exI [of _ ch] exI [of _ S1]) simp
  next
    case (Some y)
    have lk: "y \<in> linked S" "e_key (ent S y) = e_key (ent S x)" "linked S1 = linked S" using e(3) Some by (simp_all add: looks_up_def)
    have ch: "ch = upd_it y (\<lambda>i. i\<lparr>refcount := refcount i + 1\<rparr>) (cch s)" using e(7) Some by simp
    have r: "refs S1 = add_mset y (refs S)" "x \<in># refs S1" "y \<in># refs S1" using e(4) Some x(1) by simp_all
    have en: "ent S1 x = ent S x" "ent S1 y = ent S y" using e(5) refs_in_store(1) [OF r(2)] refs_in_store(1) [OF r(3)] unfolding keeps_def by blast+
    note s1 = e(2) [unfolded Some]
    have hx: "ITEM_key (hp ch x) = e_key (ent S x)" "nbytes (hp ch x) = e_bytes (ent S x)" "nbytes (hp ch y) = e_bytes (ent S y)" "exptime (hp ch y) = e_exp (ent S y)"
      using sim_entry [OF s1 refs_in_store(1) [OF r(2)]] sim_entry [OF s1 refs_in_store(1) [OF r(3)]] en by (simp_all add: entry_of_def)
    have wf: "wf_item (hp ch x)" using sim_item(2) [OF s1 refs_in_store(1) [OF r(2)]] by simp
    then have "length (e_key (ent S x)) = unat (nkey (hp ch x))" unfolding hx(1) [symmetric] by (simp add: wf_item_def ITEM_key_def)
    then have nk: "ucast (nkey (hp ch x)) = (of_nat (length (e_key (ent S x))) :: u64)" by (simp only: of_nat_unat)
    have cs: "ITEM_get_cas (hp ch x) = 0" using cas by (auto simp: ch ITEM_get_cas_def upd_it_def split: if_splits)
    have fl: "FLAGS_CONV (hp ch y) = FLAGS_CONV (hp (cch s) y)" by (simp add: ch FLAGS_CONV_def upd_it_def)
    have m: "new_ok g (item_mem pe) (junk_bytes pe) (e_key (ent S1 y)) (FLAGS_CONV (hp ch y)) (e_exp (ent S1 y)) (e_bytes (ent S1 x) + e_bytes (ent S1 y) - 2) ch"
      using mem [OF lk(1,2)] unfolding en fl ch [symmetric] .
    have xl: "x \<notin> linked S1" "y \<in> linked S1" "e_key (ent S1 x) = e_key (ent S1 y)" using lk x(2) en by simp_all
    have rm: "nearly_ample 1 (with_found s i (Some y) w ch)" using e(6) Some by simp
    note code = append_code [OF comm ext cs get [unfolded Some] k hx(1) nk, of pe, unfolded hx(2-4)]
    note step = append_step [OF s1 s(2) rm r(2) xl(1) r(1) xl(2,3) m, of comm, unfolded en lk(2,3)]
    from step show ?thesis
    proof (elim disjE exE conjE, goal_cases)
      case (1 ch2 ch3 S2)
      have "drops g (evict_to_free g) S S2" using 1(4) lk(3) en keeps_linked [OF e(5) lk(3)] by (auto simp: drops_def)
      show ?thesis
        by (intro exI [of _ "Some y"] exI [of _ "linked S"] exI [of _ NOT_STORED] exI [of _ "c\<lparr>thr := w\<rparr>"] exI [of _ ch3] exI [of _ S2])
          (use code(1) [OF 1(1) refl 1(2)] e(3) Some lk(3) 1(3,5) \<open>drops g (evict_to_free g) S S2\<close> keeps_trans [OF e(5) 1(6)] in simp)
    next
      case (2 z ch2 ch3 ch4 ch5 ch6 S2 C v)
      have "z \<notin># refs S" using 2(8) r(1) by simp
      moreover have "others_kept z S S2" by (rule others_kept_trans(2) [OF e(5) 2(9)])
      moreover have "\<forall>u\<in>linked S - C. out_of_date g (ent S u) \<or> flushing g \<or> evict_to_free g" using 2(12) keeps_linked [OF e(5) lk(3)] by auto
      moreover have "e_key (ent S2 z) = e_key (ent S y)" "e_bytes (ent S2 z) = e_bytes (ent S x) + e_bytes (ent S y) - 2" "e_data (ent S2 z) = combined comm (ent S y) (ent S x)" "e_exp (ent S2 z) = e_exp (ent S y)"
        by (subst 2(10), simp add: lk(2))+
      ultimately have ap: "appended_in g comm x y S S2" unfolding appended_in_def by (intro conjI 2(7) exI [of _ z] exI [of _ C] 2(11,13))
      show ?thesis
        by (intro exI [of _ "Some y"] exI [of _ "linked S"] exI [of _ STORED] exI [of _ "c\<lparr>thr := w, conn_cas := ITEM_get_cas (hp ch6 z)\<rparr>"] exI [of _ ch6] exI [of _ S2])
          (use code(2) [OF 2(1) refl 2(2-5)] e(3) Some lk(3) 2(6) ap in simp)
    qed
  qed
qed

end
