(* ===== verification/Commands.thy ===== *)
theory Commands
  imports Storage_Append
begin

text \<open>
  The command handlers of the text protocol over the abstract store: what a get reports, what the end of a set
  command and a delete do to the store and which line they answer.
\<close>

section \<open>The line of a value\<close>

text \<open>The text after the key: flags, length without the line end, and the CAS unique where asked for.\<close>

definition value_suffix :: "u32 \<Rightarrow> int \<Rightarrow> u64 option \<Rightarrow> byte list" where
  "value_suffix flags nb uq =
     32 # decimal (unat flags) @ 32 # decimal (nat (nb - 2)) @ (case uq of None \<Rightarrow> [] | Some v \<Rightarrow> 32 # decimal (unat v)) @ [13, 10]"

lemma length_value_suffix: "nb < 2 ^ 32 \<Longrightarrow> length (value_suffix flags nb uq) \<le> 45"
proof -
  assume "nb < 2 ^ 32"
  then have "nat (nb - 2) < 10 ^ Suc 9" by simp
  from length_decimal_le [OF this] show ?thesis
    using length_decimal_u32 [of flags] length_decimal_u64 [of "the uq"] by (cases uq) (simp_all add: value_suffix_def)
qed

text \<open>Printing after a text that has been put into the buffer.\<close>

lemma then_copy: "n = length as \<Longrightarrow> n + length bs \<le> length buf \<Longrightarrow> memcpy_at (put buf 0 as) n bs = Some (put buf 0 (as @ bs))"
  using put_put [of 0 as bs buf] memcpy_put [of n bs "put buf 0 as"] by simp

lemma then_copy_over: "n = length as \<Longrightarrow> n + 1 + length bs \<le> length buf \<Longrightarrow> memcpy_at (put buf 0 (as @ [z])) n (b # bs) = Some (put buf 0 (as @ b # bs))"
  using put_over [of 0 as bs buf z b] memcpy_put [of n "b # bs" "put buf 0 (as @ [z])"] by simp

lemma then_u32:
  "n = length as \<Longrightarrow> n + length (decimal (unat u)) + 1 \<le> length buf
   \<Longrightarrow> itoa_u32 True u (put buf 0 as, n) = Some (put buf 0 (as @ decimal (unat u) @ [0]), n + length (decimal (unat u)))"
  using put_put [of 0 as "decimal (unat u) @ [0]" buf] itoa_u32_decimal [of True u n "put buf 0 as"] by simp

lemma then_u64:
  "n = length as \<Longrightarrow> n + length (decimal (unat u)) + 1 \<le> length buf
   \<Longrightarrow> itoa_u64 True u (put buf 0 as, n) = Some (put buf 0 (as @ decimal (unat u) @ [0]), n + length (decimal (unat u)))"
  using put_put [of 0 as "decimal (unat u) @ [0]" buf] itoa_u64_decimal [of True u n "put buf 0 as"] by simp

lemma take_put: "take (length as) (put buf 0 (as @ bs)) = as"
  by (simp add: put_def)

lemma suffix_text:
  assumes "length sfx = 50" "2 \<le> nb" "nb < 2 ^ 32"
  shows "\<exists>b n. make_ascii_get_suffix True sfx it rc nb = Some (b, n) \<and> n \<le> 45 \<and> length b = 50
    \<and> take n b = value_suffix (FLAGS_CONV it) nb (if rc then Some (ITEM_get_cas it) else None)"
proof -
  define f where "f = decimal (unat (FLAGS_CONV it))"
  define l where "l = decimal (unat (word_of_int (nb - 2) :: u32))"
  define v where "v = decimal (unat (ITEM_get_cas it))"
  have lf: "length f \<le> 10" "length l \<le> 10" "length v \<le> 20" unfolding f_def l_def v_def by (rule length_decimal_u32 length_decimal_u64)+
  have nb: "unat (word_of_int (nb - 2) :: u32) = nat (nb - 2)" unfolding unsigned_of_int using assms(2,3) by (subst take_bit_int_eq_self) simp_all
  have a: "memcpy_at sfx 0 [32] = Some (put sfx 0 [32])" using assms(1) by (intro memcpy_put) simp
  have z: "decimal 0 = [48]" by (simp add: decimal.simps digit_def)
  obtain t where b: "(if \<not> has_flag (it_flags it) ITEM_CFLAGS then map_option (\<lambda>b. (b, 2)) (memcpy_at (put sfx 0 [32]) 1 [48])
      else itoa_u32 True (cflags it) (put sfx 0 [32], 1)) = Some (put sfx 0 ((32 # f) @ t), 1 + length f)" "t = [] \<or> t = [0]"
    using then_copy [of 1 "[32]" "[48]" sfx] then_u32 [of 1 "[32]" "cflags it" sfx] lf(1) assms(1) z
    by (cases "has_flag (it_flags it) ITEM_CFLAGS") (auto simp: f_def FLAGS_CONV_def)
  have c: "memcpy_at (put sfx 0 ((32 # f) @ t)) (1 + length f) [32] = Some (put sfx 0 ((32 # f) @ [32]))"
    using b(2) then_copy [of "1 + length f" "32 # f" "[32]" sfx] then_copy_over [of "1 + length f" "32 # f" "[]" sfx 0 32] lf(1) assms(1) by auto
  have d: "itoa_u32 True (word_of_int (nb - 2)) (put sfx 0 ((32 # f) @ [32]), 1 + length f + 1) = Some (put sfx 0 (((32 # f) @ [32]) @ l @ [0]), 1 + length f + 1 + length l)"
    unfolding l_def by (rule then_u32) (use lf assms(1) in \<open>simp_all add: l_def\<close>)
  let ?t = "(32 # f) @ [32] @ l"
  have e: "memcpy_at (put sfx 0 (?t @ [0])) (1 + length f + 1 + length l) [32] = Some (put sfx 0 (?t @ [32]))"
    by (rule then_copy_over) (use lf assms(1) in simp_all)
  have g: "itoa_u64 True (ITEM_get_cas it) (put sfx 0 (?t @ [32]), 1 + length f + 1 + length l + 1) = Some (put sfx 0 ((?t @ [32]) @ v @ [0]), 1 + length f + 1 + length l + 1 + length v)"
    unfolding v_def by (rule then_u64) (use lf assms(1) in \<open>simp_all add: v_def\<close>)
  let ?u = "?t @ (if rc then 32 # v else [])"
  have h: "memcpy_at (put sfx 0 (?u @ [0])) (length ?u) [13, 10, 0] = Some (put sfx 0 (?u @ [13, 10, 0]))"
    by (rule then_copy_over) (use lf assms(1) in simp_all)
  have "make_ascii_get_suffix True sfx it rc nb = Some (put sfx 0 (?u @ [13, 10, 0]), length ?u + 2)"
    using h unfolding make_ascii_get_suffix_def a bind.bind_lunit b(1)
    by (cases rc) (simp_all add: c [simplified] d [simplified] e [simplified] g [simplified] add.assoc)
  moreover have "take (length ?u + 2) (put sfx 0 (?u @ [13, 10, 0])) = ?u @ [13, 10]" using take_put [of "?u @ [13, 10]" sfx "[0]"] by simp
  moreover have "?u @ [13, 10] = value_suffix (FLAGS_CONV it) nb (if rc then Some (ITEM_get_cas it) else None)"
    using nb by (simp add: value_suffix_def f_def l_def v_def)
  ultimately show ?thesis using lf assms(1) by (intro exI conjI) auto
qed

section \<open>Delete\<close>

text \<open>A delete command with its key: the rest of the line is well-formed and the key is not too long.\<close>

definition delete_line :: "token list \<Rightarrow> byte list \<Rightarrow> conn \<Rightarrow> conn \<Rightarrow> bool" where
  "delete_line ts key c c' \<longleftrightarrow> delete_syntax ts c = Some (True, c') \<and> (\<exists>kt kv. token_at ts 1 = Some kt \<and> tok_value kt = Some kv
     \<and> tok_length kt \<le> KEY_MAX_LENGTH \<and> key = take (tok_length kt) kv)"

definition replies :: "string \<Rightarrow> conn \<Rightarrow> bool" where
  "replies t c \<longleftrightarrow> wout c = ascii t @ [13, 10] \<and> state c = conn_write \<and> write_and_go c = conn_new_cmd"

lemma replies_out: "\<not> noreply c \<Longrightarrow> length (ascii t) + 2 \<le> wsize c \<Longrightarrow> replies t (out_string t c)"
  by (simp add: replies_def out_bytes_def conn_set_state_def Let_def)

lemma thr_out [simp]: "thr (out_bytes t c) = thr c"
  by (simp add: out_bytes_def conn_set_state_def Let_def)

lemma upd_stats_keep [simp]: "noreply (upd_ts f c) = noreply c" "wsize (upd_ts f c) = wsize c" "iov (upd_ts f c) = iov c" "ilist (upd_ts f c) = ilist c" "ccmd (upd_ts f c) = ccmd c" "citem (upd_ts f c) = citem c"
  "noreply (upd_ss j h c) = noreply c" "wsize (upd_ss j h c) = wsize c" "iov (upd_ss j h c) = iov c" "ilist (upd_ss j h c) = ilist c" "ccmd (upd_ss j h c) = ccmd c" "citem (upd_ss j h c) = citem c"
  by (simp_all add: upd_ts_def upd_ss_def)

lemma length_ascii [simp]: "length (ascii t) = length t"
  by (simp add: ascii_def)

lemma thr_delete_syntax: "delete_syntax ts c = Some (b, c') \<Longrightarrow> thr c' = thr c \<and> wsize c' = wsize c"
  by (auto simp: delete_syntax_def set_noreply_maybe_def split: if_splits option.splits Option.bind_splits)

lemma delete_ok:
  assumes s: "sim g K s S" and i: "i < length (wks s)" "thr c = wks s ! i" and a: "ample s" and l: "delete_line ts key c c1"
  shows "\<exists>p C c' pt' ch' S'. process_delete_command g pe ts c pt (cch s) = Some (c', pt', ch') \<and> looks_up g key S p C
    \<and> (\<not> noreply c1 \<longrightarrow> 11 \<le> wsize c \<longrightarrow> replies (if p = None then ''NOT_FOUND'' else ''DELETED'') c')
    \<and> sim g K (upd_sys s i (thr c') ch') S' \<and> linked S' = C - set_option p \<and> refs S' = refs S \<and> keeps S S'"
proof -
  obtain kt kv where kt: "delete_syntax ts c = Some (True, c1)" "token_at ts (Suc 0) = Some kt" "tok_value kt = Some kv" "\<not> KEY_MAX_LENGTH < tok_length kt" "key = take (tok_length kt) kv"
    using l unfolding delete_line_def by (auto simp: not_less)
  have t: "thr c1 = wks s ! i" "wsize c1 = wsize c" using thr_delete_syntax [OF kt(1)] i(2) by simp_all
  obtain p w ch S1 where e: "do_item_get g key (hash g key) (thr c1) False (cch s) = Some (p, w, ch)" "sim g K (with_found s i p w ch) S1"
      "looks_up g key S p (linked S1)" "refs S1 = (case p of None \<Rightarrow> {#} | Some y \<Rightarrow> {#y#}) + refs S" "keeps S S1"
    using handler_get [OF s i(1) ample_nearly [OF a] zero_less_numeral, of key] unfolding t(1) by blast
  note code = process_delete_command_def item_get_def kt(1-4) kt(5) [symmetric] e(1)
  show ?thesis
  proof (cases p)
    case None
    let ?c = "upd_ts (\<lambda>s. s\<lparr>delete_misses := delete_misses s + 1\<rparr>) (c1\<lparr>thr := w\<rparr>)"
    obtain pt' where "process_delete_command g pe ts c pt (cch s) = Some (out_string ''NOT_FOUND'' ?c, pt', ch)"
      by (simp add: code None Let_def)
    then show ?thesis using e(2-5) None t(2) replies_out [of ?c "''NOT_FOUND''"]
      by (intro exI [of _ None] exI [of _ "linked S1"] exI [of _ "out_string ''NOT_FOUND'' ?c"] exI [of _ pt'] exI [of _ ch] exI [of _ S1]) simp
  next
    case (Some y)
    have r: "refs S1 = add_mset y (refs S)" "y \<in># refs S1" using e(4) Some by simp_all
    have ky: "e_key (ent S y) = key" using e(3) Some by (simp add: looks_up_def)
    obtain ch2 S2 where u: "do_item_unlink g y (hash g key) ch = Some ch2" "sim g K (with_found s i (Some y) w ch2) S2" "linked S2 = linked S1 - {y}" "refs S2 = refs S1" "keeps S1 S2"
      using unlink_step [OF e(2) r(2)] found_key(1) [OF s e(2,5) r(2)] ky Some by auto
    from handler_release [OF u(2) u(4) [unfolded r(1)]] obtain ch3 S3 where rel: "do_item_remove g y ch2 = Some ch3" "sim g K (upd_sys s i w ch3) S3" "linked S3 = linked S2" "refs S3 = refs S" "keeps S2 S3" by blast
    let ?c = "upd_ss (ITEM_clsid (hp ch y)) (\<lambda>s. s\<lparr>delete_hits := delete_hits s + 1\<rparr>) (c1\<lparr>thr := w\<rparr>)"
    obtain pt' where "process_delete_command g pe ts c pt (cch s) = Some (out_string ''DELETED'' ?c, pt', ch3)"
      by (simp add: code Some Let_def u(1) rel(1))
    then show ?thesis using e(3) Some t(2) replies_out [of ?c "''DELETED''"] rel(2-4) u(3) keeps_trans [OF keeps_trans [OF e(5) u(5)] rel(5)]
      by (intro exI [of _ "Some y"] exI [of _ "linked S1"] exI [of _ "out_string ''DELETED'' ?c"] exI [of _ pt'] exI [of _ ch3] exI [of _ S3]) simp
  qed
qed

section \<open>Get\<close>

text \<open>
  What a get of one key adds to the response and to the list of items it holds, for the item \<open>p\<close> found
  in the cache \<open>ch\<close>: more than 60000 references count as a miss.
\<close>

definition hit_item :: "ptr \<Rightarrow> cache \<Rightarrow> ptr" where
  "hit_item p ch = (case p of None \<Rightarrow> None | Some y \<Rightarrow> if refcount (hp ch y) > 60000 then None else Some y)"

definition value_pieces :: "bool \<Rightarrow> item \<Rightarrow> byte list list" where
  "value_pieces rc it = [ascii ''VALUE '', ITEM_key it, value_suffix (FLAGS_CONV it) (nbytes it) (if rc then Some (ITEM_get_cas it) else None), item_value it]"

lemma has_flag_both: "has_flag s (set_flag a b) \<longleftrightarrow> has_flag s a \<or> has_flag s b"
  by (simp add: has_flag_def set_flag_def bit.conj_disj_distrib or_eq_0_iff)

lemma hit_iovs: "(\<And>n. iov_mem pe n) \<Longrightarrow> get_hit_iovs pe it sfx c ch = (True, c\<lparr>iov := iov c @ [ascii ''VALUE '', ITEM_key (hp ch it), sfx, item_value (hp ch it)]\<rparr>)"
  by (simp add: get_hit_iovs_def add_iov_def)

lemma get_key_ok:
  assumes s: "sim g K s S" and i: "i < length (wks s)" "thr c = wks s ! i" and rm: "room s" and fits: "\<And>y. y \<in> linked S \<Longrightarrow> e_bytes (ent S y) < 2 ^ 31"
    and mem: "ilist_mem pe (length (ilist c))" "suffix_mem pe (length (ilist c))" "\<And>n. iov_mem pe n" "wrapv pe" "\<And>n. length (sbuf n) = 50"
  shows "\<exists>p w ch c' pt' ch' S'. do_item_get g key (hash g key) (wks s ! i) True (cch s) = Some (p, w, ch) \<and> looks_up g key S p (linked S') \<and> keeps S S'
    \<and> get_key g pe sbuf et rc False key c pt (cch s) = Some (Get_goes_on, c', pt', ch') \<and> sim g K (with_found s i (hit_item p ch) (thr c') ch') S'
    \<and> iov c' = iov c @ (case hit_item p ch of None \<Rightarrow> [] | Some y \<Rightarrow> value_pieces rc (hp ch y)) \<and> ilist c' = ilist c @ (case hit_item p ch of None \<Rightarrow> [] | Some y \<Rightarrow> [y])
    \<and> (\<forall>y. hit_item p ch = Some y \<longrightarrow> ent S y = entry_of (hp ch y))"
proof -
  from get_step [OF s i(1) rm] obtain p w ch S1 where
    e: "do_item_get g key (hash g key) (wks s ! i) True (cch s) = Some (p, w, ch)" "sim g K (with_found s i p w ch) S1" "finds g key S p S1" "keeps S S1"
    unfolding with_found_def by blast
  have lk: "looks_up g key S p (linked S1)" "refs S1 = (case p of None \<Rightarrow> {#} | Some y \<Rightarrow> {#y#}) + refs S" using finds_looks_up [OF e(3)] by simp_all
  note code = get_key_def limited_get_def item_get_def i(2) e(1)
  show ?thesis
  proof (cases "hit_item p ch")
    case None
    obtain ch2 S2 where r: "(case p of None \<Rightarrow> Some ch | Some y \<Rightarrow> do_item_remove g y ch) = Some ch2" "sim g K (upd_sys s i w ch2) S2" "linked S2 = linked S1" "keeps S1 S2"
      using handler_release [of g K s i "the p" w ch S1 "refs S"] e(2) lk(2) keeps_refl by (cases p) auto
    let ?c = "upd_ts (\<lambda>s. s\<lparr>get_misses := get_misses s + 1, get_cmds := get_cmds s + 1\<rparr>) (c\<lparr>thr := w\<rparr>)"
    obtain pt' where "get_key g pe sbuf et rc False key c pt (cch s) = Some (Get_goes_on, ?c, pt', ch2)"
      using None r(1) by (cases p) (auto simp: code hit_item_def item_remove_def Let_def split: if_splits)
    then show ?thesis using None e(1) lk(1) r(2,3) keeps_trans [OF e(4) r(4)]
      by (intro exI [of _ p] exI [of _ w] exI [of _ ch] exI [of _ ?c] exI [of _ pt'] exI [of _ ch2] exI [of _ S2]) simp
  next
    case (Some y)
    then have y: "p = Some y" "\<not> 60000 < refcount (hp ch y)" by (auto simp: hit_item_def split: option.splits if_splits)
    have in1: "in_store S1 y" "y \<in> linked S" using lk y(1) by (auto simp: in_store_def looks_up_def)
    have en: "ent S y = entry_of (hp ch y)" using sim_entry [OF e(2) in1(1)] e(4) in1(1) by (simp add: keeps_def)
    have it: "plain (hp ch y)" "2 \<le> nbytes (hp ch y)" using sim_item(1,3) [OF e(2) in1(1)] by simp_all
    have "nbytes (hp ch y) < 2 ^ 32" using fits [OF in1(2)] en by simp
    from suffix_text [OF mem(5) it(2) this] obtain b n where sfx: "make_ascii_get_suffix True (sbuf (length (ilist c))) (hp ch y) rc (nbytes (hp ch y)) = Some (b, n)"
      "take n b = value_suffix (FLAGS_CONV (hp ch y)) (nbytes (hp ch y)) (if rc then Some (ITEM_get_cas (hp ch y)) else None)" by blast
    let ?c = "(upd_ts (\<lambda>s. s\<lparr>lru_hits := (lru_hits s)(slabs_clsid (hp ch y) := lru_hits s (slabs_clsid (hp ch y)) + 1), get_cmds := get_cmds s + 1\<rparr>)
      (c\<lparr>thr := w, iov := iov c @ value_pieces rc (hp ch y)\<rparr>))\<lparr>ilist := ilist c @ [y]\<rparr>"
    obtain pt' where "get_key g pe sbuf et rc False key c pt (cch s) = Some (Get_goes_on, ?c, pt', ch)"
      using y it(1) mem sfx by (simp add: code has_flag_both plain_def hit_iovs value_pieces_def Let_def)
    then show ?thesis using Some e(1,2,4) lk(1) en y(1)
      by (intro exI [of _ p] exI [of _ w] exI [of _ ch] exI [of _ ?c] exI [of _ pt'] exI [of _ ch] exI [of _ S1]) (simp add: upd_ts_def)
  qed
qed

section \<open>The end of a set command\<close>

lemma bind_1E: "Option.bind f h = Some z \<Longrightarrow> (\<And>a. f = Some a \<Longrightarrow> h a = Some z \<Longrightarrow> P) \<Longrightarrow> P"
  by (auto simp: bind_eq_Some_conv)

lemma bind_3E: "Option.bind f (\<lambda>(a, b, c). h a b c) = Some z \<Longrightarrow> (\<And>a b c. f = Some (a, b, c) \<Longrightarrow> h a b c = Some z \<Longrightarrow> P) \<Longrightarrow> P"
  by (auto simp: bind_eq_Some_conv)

lemma bind_5E: "Option.bind f (\<lambda>(a, b, c, d, e). h a b c d e) = Some z \<Longrightarrow> (\<And>a b c d e. f = Some (a, b, c, d, e) \<Longrightarrow> h a b c d e = Some z \<Longrightarrow> P) \<Longrightarrow> P"
  by (auto simp: bind_eq_Some_conv)

lemma store_conn:
  "store_cas g hv it old c ch = Some (r, it', n, c', ch') \<Longrightarrow> noreply c' = noreply c \<and> wsize c' = wsize c"
  "store_plain g pe comm hv it old c ch = Some (r, it', n, c', ch') \<Longrightarrow> noreply c' = noreply c \<and> wsize c' = wsize c"
  by (auto simp: store_cas_def store_plain_def Let_def bind_eq_Some_conv split: if_splits option.splits)

lemma store_item_conn: "store_item g pe x comm c ch = Some (r, c', ch') \<Longrightarrow> noreply c' = noreply c \<and> wsize c' = wsize c"
proof -
  assume a: "store_item g pe x comm c ch = Some (r, c', ch')"
  let ?k = "\<lambda>c' c :: conn. noreply c' = noreply c \<and> wsize c' = wsize c"
  have branch: "?k c2 c0" if "(if A then do { ch \<leftarrow> f; Some (NOT_STORED, it, None, c0, ch) } else if B then Some (NOT_STORED, it, None, c0, ch0)
      else if D then store_cas g hv it old c0 ch0 else store_plain g pe comm hv it old c0 ch0) = Some (r2, it2, n2, c2, ch2)" for A B D f it c0 ch0 hv old r2 it2 n2 c2 ch2
  proof (cases A)
    case True
    then show ?thesis using that by (cases f) simp_all
  next
    case False
    then show ?thesis using that by (cases B; cases D) (simp_all add: store_conn)
  qed
  have fin: "?k c' d" if "Some (q, if b then d\<lparr>conn_cas := v\<rparr> else d, e) = Some (r, c', ch')" for q b d v e using that by (cases b) auto
  from a obtain old w ch1 r2 it2 n2 c2 ch2 where
    b: "(if old \<noteq> None \<and> comm = NREAD_ADD then do { ch \<leftarrow> do_item_update g (the old) ch1; Some (NOT_STORED, x, None, c\<lparr>thr := w\<rparr>, ch) }
      else if old = None \<and> (comm = NREAD_REPLACE \<or> comm = NREAD_APPEND \<or> comm = NREAD_PREPEND) then Some (NOT_STORED, x, None, c\<lparr>thr := w\<rparr>, ch1)
      else if comm = NREAD_CAS then store_cas g (hash g (ITEM_key (hp ch x))) x old (c\<lparr>thr := w\<rparr>) ch1
      else store_plain g pe comm (hash g (ITEM_key (hp ch x))) x old (c\<lparr>thr := w\<rparr>) ch1) = Some (r2, it2, n2, c2, ch2)"
    and c: "?k c' c2"
    unfolding store_item_def do_store_item_def Let_def by (elim bind_5E bind_3E bind_1E) (rule that, assumption, erule fin)
  from branch [OF b] c show ?thesis by simp
qed

primrec store_reply :: "store_item_type \<Rightarrow> string" where
  "store_reply STORED = ''STORED''"
| "store_reply EXISTS = ''EXISTS''"
| "store_reply NOT_FOUND = ''NOT_FOUND''"
| "store_reply NOT_STORED = ''NOT_STORED''"
| "store_reply TOO_LARGE = ''SERVER_ERROR Unhandled storage type.''"
| "store_reply NO_MEMORY = ''SERVER_ERROR Unhandled storage type.''"

lemma length_store_reply: "length (store_reply r) \<le> 36"
  by (cases r) simp_all

definition released :: "sys \<Rightarrow> nat \<Rightarrow> worker \<Rightarrow> nat \<Rightarrow> cache \<Rightarrow> sys" where
  "released s i w x ch = (upd_sys s i w ch)\<lparr>held := remove1 x (held s)\<rparr>"

definition count_set :: "nat \<Rightarrow> cache \<Rightarrow> conn \<Rightarrow> conn" where
  "count_set x ch = upd_ss (ITEM_clsid (hp ch x)) (\<lambda>s. s\<lparr>set_cmds := set_cmds s + 1\<rparr>)"

lemma count_set_keep [simp]: "thr (count_set x ch c) = thr c" "noreply (count_set x ch c) = noreply c" "wsize (count_set x ch c) = wsize c" "ccmd (count_set x ch c) = ccmd c"
  by (simp_all add: count_set_def)

lemma nread_ends:
  assumes s: "sim g K s S" and x: "citem c = Some x" "x \<in># refs S" "drop (nat (e_bytes (ent S x) - 2)) (entry_value (ent S x)) = [13, 10]"
    and st: "store_item g pe x (ccmd c) (count_set x (cch s) c) (cch s) = Some (ret, c2, ch2)" "sim g K (upd_sys s i (thr c2) ch2) S2" "x \<in># refs S2"
  shows "\<exists>c' ch' S'. complete_nread_ascii g pe c (cch s) = Some (c', ch') \<and> citem c' = None \<and> thr c' = thr c2 \<and> (\<not> noreply c \<longrightarrow> 38 \<le> wsize c \<longrightarrow> replies (store_reply ret) c')
    \<and> sim g K (released s i (thr c2) x ch') S' \<and> linked S' = linked S2 \<and> refs S' = refs S2 - {#x#} \<and> keeps S2 S'"
proof -
  have it: "plain (hp (cch s) x)" "2 \<le> nbytes (hp (cch s) x)" using sim_item(1,3) [OF s refs_in_store(1) [OF x(2)]] by simp_all
  have en: "drop (nat (nbytes (hp (cch s) x) - 2)) (item_value (hp (cch s) x)) = [13, 10]" using x(3) sim_entry [OF s refs_in_store(1) [OF x(2)]] by simp
  have ts: "out_string (case ret of STORED \<Rightarrow> ''STORED'' | EXISTS \<Rightarrow> ''EXISTS'' | NOT_FOUND \<Rightarrow> ''NOT_FOUND'' | NOT_STORED \<Rightarrow> ''NOT_STORED'' | _ \<Rightarrow> ''SERVER_ERROR Unhandled storage type.'') c2
    = out_string (store_reply ret) c2" by (cases ret) simp_all
  from remove_step [OF st(2,3)] obtain ch3 S3 where r: "do_item_remove g x ch2 = Some ch3" "sim g K (released s i (thr c2) x ch3) S3" "linked S3 = linked S2" "refs S3 = refs S2 - {#x#}" "keeps S2 S3"
    by (auto simp: released_def)
  let ?c = "(out_string (store_reply ret) c2)\<lparr>citem := None\<rparr>"
  have "complete_nread_ascii g pe c (cch s) = Some (?c, ch3)"
    using x(1) it en st(1) r(1) ts by (simp add: complete_nread_ascii_def count_set_def [symmetric] Let_def plain_def item_remove_def)
  moreover have "replies (store_reply ret) ?c" if "\<not> noreply c" "38 \<le> wsize c"
    using store_item_conn [OF st(1)] that replies_out [of c2 "store_reply ret"] length_store_reply [of ret] by (simp add: replies_def)
  ultimately show ?thesis using r by (intro exI [of _ ?c] exI [of _ ch3] exI [of _ S3]) simp
qed

lemma set_ends_ok:
  assumes s: "sim g K s S" and i: "i < length (wks s)" "thr c = wks s ! i" and a: "ample s" and x: "x \<in># refs S" "x \<notin> linked S" "citem c = Some x"
    and comm: "ccmd c \<noteq> NREAD_APPEND" "ccmd c \<noteq> NREAD_PREPEND" and v: "drop (nat (e_bytes (ent S x) - 2)) (entry_value (ent S x)) = [13, 10]"
  shows "\<exists>p C ret c' ch' S' S''. complete_nread_ascii g pe c (cch s) = Some (c', ch') \<and> looks_up g (e_key (ent S x)) S p C
    \<and> ret = outcome (ccmd c) (p \<noteq> None) (\<exists>y. p = Some y \<and> ITEM_get_cas (hp (cch s) x) = ITEM_get_cas (hp (cch s) y))
    \<and> (\<not> noreply c \<longrightarrow> 38 \<le> wsize c \<longrightarrow> replies (store_reply ret) c') \<and> stored_in x p C ret S S'
    \<and> sim g K (released s i (thr c') x ch') S'' \<and> linked S'' = linked S' \<and> refs S'' = refs S - {#x#} \<and> keeps S' S''"
proof -
  have t: "thr (count_set x (cch s) c) = wks s ! i" using i(2) by simp
  obtain p C ret c2 ch2 S2 where st: "store_item g pe x (ccmd c) (count_set x (cch s) c) (cch s) = Some (ret, c2, ch2)" "looks_up g (e_key (ent S x)) S p C"
      "ret = outcome (ccmd c) (p \<noteq> None) (\<exists>y. p = Some y \<and> ITEM_get_cas (hp (cch s) x) = ITEM_get_cas (hp (cch s) y))"
      "sim g K (upd_sys s i (thr c2) ch2) S2" "stored_in x p C ret S S2"
    using store_item_ok [OF s i(1) t a x(1,2) comm, of pe] by blast
  have "refs S2 = refs S" using st(5) by (simp add: stored_in_def)
  with nread_ends [OF s x(3,1) v st(1,4)] x(1) obtain c' ch' S' where
    r: "complete_nread_ascii g pe c (cch s) = Some (c', ch')" "thr c' = thr c2" "\<not> noreply c \<longrightarrow> 38 \<le> wsize c \<longrightarrow> replies (store_reply ret) c'"
      "sim g K (released s i (thr c2) x ch') S'" "linked S' = linked S2" "refs S' = refs S - {#x#}" "keeps S2 S'" by auto
  show ?thesis
    by (intro exI [of _ p] exI [of _ C] exI [of _ ret] exI [of _ c'] exI [of _ ch'] exI [of _ S2] exI [of _ S'] conjI st(2,3,5) r(1,3) r(4) [folded r(2)] r(5-7))
qed

end
