(* ===== verification/Arithmetic.thy ===== *)
theory Arithmetic
  imports Commands
begin

text \<open>
  Increment and decrement over the abstract store. The value is rewritten in place only when the command holds
  the one reference to the linked item; otherwise a new item replaces it.
\<close>

section \<open>Changing an item in place\<close>

lemma sim_frame:
  assumes "sim g K s S" "hist_ok ((cch s)\<lparr>stats_sizes_hist := h\<rparr>)"
  shows "sim g K (s\<lparr>cch := (cch s)\<lparr>stats_sizes_hist := h\<rparr>\<rparr>) S"
proof -
  obtain L where L: "sys_inv g K s (linked S) L" by (rule simE [OF assms(1)])
  have "cache_inv g K ((cch s)\<lparr>stats_sizes_hist := h\<rparr>) (linked S) {} L (count_list (references s))"
    using sys_invD(1) [OF L] assms(2) by (simp add: cache_inv_def lru_ok_def)
  then have "sys_inv g K (s\<lparr>cch := (cch s)\<lparr>stats_sizes_hist := h\<rparr>\<rparr>) (linked S) L" by (rule sys_inv_cch [OF L]) simp
  then show ?thesis using assms(1) unfolding sim_def by auto
qed

lemma sim_cas_id:
  assumes "sim g K s S"
  shows "sim g K (s\<lparr>cch := (cch s)\<lparr>cas_id := v\<rparr>\<rparr>) S"
proof -
  obtain L where L: "sys_inv g K s (linked S) L" by (rule simE [OF assms(1)])
  have "cache_inv g K ((cch s)\<lparr>cas_id := v\<rparr>) (linked S) {} L (count_list (references s))"
    using sys_invD(1) [OF L] by (simp add: cache_inv_def lru_ok_def hist_ok_def)
  then have "sys_inv g K (s\<lparr>cch := (cch s)\<lparr>cas_id := v\<rparr>\<rparr>) (linked S) L" by (rule sys_inv_cch [OF L]) simp
  then show ?thesis using assms(1) unfolding sim_def by auto
qed

lemma sizes_step:
  assumes "sim g K s S" "in_store S x"
  shows "\<exists>ch. upd_sizes_hist d (hp (cch s) x) (cch s) = Some ch \<and> sim g K (s\<lparr>cch := ch\<rparr>) S \<and> hp ch = hp (cch s)"
proof -
  obtain L where L: "sys_inv g K s (linked S) L" by (rule simE [OF assms(1)])
  note inv = sys_invD(1) [OF L]
  have "unat (ITEM_ntotal (hp (cch s) x)) < 2 ^ 31" by (rule item_size [OF inv sim_live [OF assms(1) L assms(2)]])
  then obtain h where "upd_sizes_hist d (hp (cch s) x) (cch s) = Some ((cch s)\<lparr>stats_sizes_hist := h\<rparr>)" "hist_ok ((cch s)\<lparr>stats_sizes_hist := h\<rparr>)"
    using upd_sizes_hist_ok [OF cache_invD(10) [OF inv]] by blast
  then show ?thesis using sim_frame [OF assms(1)] by (intro exI [of _ "(cch s)\<lparr>stats_sizes_hist := h\<rparr>"]) simp
qed

lemma set_cas_step:
  assumes "sim g K s S" "in_store S x"
  shows "\<exists>v. sim g K (s\<lparr>cch := upd_it x (ITEM_set_cas u) (cch s)\<rparr>) (S\<lparr>ent := (ent S)(x := (ent S x)\<lparr>e_cas := v\<rparr>)\<rparr>)"
proof -
  have e: "entry_of (ITEM_set_cas u (hp (cch s) x)) = (ent S x)\<lparr>e_cas := cas (ITEM_set_cas u (hp (cch s) x))\<rparr>"
    unfolding sim_entry [OF assms] by (simp add: entry_of_def ITEM_set_cas_def ITEM_key_def)
  show ?thesis by (rule exI, rule write_entry [OF assms, where f = "ITEM_set_cas u", OF _ _ e]) (simp_all add: ITEM_set_cas_def)
qed

text \<open>The value after a number was written over it: the number, spaces, and the two bytes of the line end as they were.\<close>

definition overwritten :: "byte list \<Rightarrow> byte list \<Rightarrow> byte list" where
  "overwritten txt old = txt @ replicate (length old - length txt - 2) 32 @ drop (length old - 2) old"

lemma put_number:
  assumes "length txt + 2 \<le> length old"
  shows "put (put old 0 txt) (length txt) (replicate (length old - length txt - 2) 32) = overwritten txt old"
  using assms by (simp add: put_def overwritten_def)

lemma delta_in_place_ok:
  assumes s: "sim g K s S" and x: "x \<in># refs S" and n: "int (length txt) + 2 \<le> e_bytes (ent S x)"
  shows "\<exists>ch v S'. delta_in_place g x txt (cch s) = Some ch \<and> sim g K (s\<lparr>cch := ch\<rparr>) S' \<and> linked S' = linked S \<and> refs S' = refs S
    \<and> keeps (S\<lparr>ent := (ent S)(x := (ent S x)\<lparr>e_cas := v, e_data := overwritten txt (entry_value (ent S x))\<rparr>)\<rparr>) S'"
proof -
  have ix: "in_store S x" by (rule refs_in_store(1) [OF x])
  from sizes_step [OF s ix] obtain c1 where c1: "item_stats_sizes_remove x (cch s) = Some c1" "sim g K (s\<lparr>cch := c1\<rparr>) S" unfolding item_stats_sizes_remove_def by blast
  obtain u c2 where c2: "(if use_cas (slab_set g) then get_cas_id c1 else (0, c1)) = (u, c2)" "sim g K (s\<lparr>cch := c2\<rparr>) S"
    using sim_cas_id [OF c1(2), of "cas_id c1 + 1"] c1(2) by (cases "use_cas (slab_set g)") (auto simp: get_cas_id_def)
  obtain v where v: "sim g K (s\<lparr>cch := upd_it x (ITEM_set_cas u) c2\<rparr>) (S\<lparr>ent := (ent S)(x := (ent S x)\<lparr>e_cas := v\<rparr>)\<rparr>)" (is "sim g K _ ?S1")
    using set_cas_step [OF c2(2) ix, of u] by auto
  have i1: "in_store ?S1 y = in_store S y" for y by (simp add: in_store_def)
  from sizes_step [OF v, of x] ix i1 obtain c3 where c3: "item_stats_sizes_add x (upd_it x (ITEM_set_cas u) c2) = Some c3" "sim g K (s\<lparr>cch := c3\<rparr>) ?S1"
    unfolding item_stats_sizes_add_def by auto
  let ?old = "entry_value (ent S x)"
  have e1: "entry_value (ent ?S1 x) = ?old" "e_bytes (ent ?S1 x) = e_bytes (ent S x)" by (simp_all add: entry_value_def)
  have l: "length ?old = nat (e_bytes (ent S x))" by (simp add: length_entry_value)
  have b: "length txt + 2 \<le> length ?old" using n l by simp
  have t: "0 + length txt \<le> nat (e_bytes (ent ?S1 x))" using b l e1(2) by simp
  let ?S2 = "?S1\<lparr>ent := (ent ?S1)(x := (ent ?S1 x)\<lparr>e_data := put ?old 0 txt\<rparr>)\<rparr>"
  obtain c4 where c4: "item_write x 0 txt c3 = Some c4" "sim g K (s\<lparr>cch := c4\<rparr>) ?S2"
    using write_step [OF c3(2) _ t] ix i1 e1(1) by auto
  have i2: "in_store ?S2 x" using ix by (simp add: in_store_def)
  have "length (put ?old 0 txt) = length ?old" using b by simp
  then have e2: "entry_value (ent ?S2 x) = put ?old 0 txt" "e_bytes (ent ?S2 x) = e_bytes (ent S x)" using l by (simp_all add: entry_value_def)
  have nb: "nbytes (hp c4 x) = e_bytes (ent S x)" using sim_entry [OF c4(2) i2] e2(2) by simp
  let ?sp = "replicate (nat (nbytes (hp c4 x) - int (length txt) - 2)) (32 :: byte)"
  have sp: "?sp = replicate (length ?old - length txt - 2) 32" using nb l n by simp
  have t2: "length txt + length ?sp \<le> nat (e_bytes (ent ?S2 x))" using b l e2(2) unfolding sp by simp
  let ?S3 = "?S2\<lparr>ent := (ent ?S2)(x := (ent ?S2 x)\<lparr>e_data := put (put ?old 0 txt) (length txt) ?sp\<rparr>)\<rparr>"
  obtain c5 where c5: "item_write x (length txt) ?sp c4 = Some c5" "sim g K (s\<lparr>cch := c5\<rparr>) ?S3"
    using write_step [OF c4(2) i2 t2] unfolding e2(1) by auto
  have "x \<in># refs ?S3" using x by simp
  from update_step [OF c5(2) this] obtain c6 S6 where c6: "do_item_update g x c5 = Some c6" "sim g K (s\<lparr>cch := c6\<rparr>) S6" "linked S6 = linked S" "refs S6 = refs S" "keeps ?S3 S6" by auto
  have "?S3 = S\<lparr>ent := (ent S)(x := (ent S x)\<lparr>e_cas := v, e_data := overwritten txt ?old\<rparr>)\<rparr>" unfolding sp put_number [OF b] by simp
  moreover have "delta_in_place g x txt (cch s) = Some c6" using c1(1) c2(1) c3(1) c4(1) c5(1) c6(1) by (simp add: delta_in_place_def)
  ultimately show ?thesis using c6 by (intro exI [of _ c6] exI [of _ v] exI [of _ S6]) simp
qed

section \<open>Replacing an item by its new value\<close>

text \<open>A number and the line end written into a new item of that size.\<close>

lemma write_number:
  assumes s: "sim g K s S" and z: "in_store S z" "e_bytes (ent S z) = int (length txt) + 2"
  shows "\<exists>ch1 ch2. item_write z 0 txt (cch s) = Some ch1 \<and> item_write z (length txt) [13, 10] ch1 = Some ch2
    \<and> sim g K (s\<lparr>cch := ch2\<rparr>) (S\<lparr>ent := (ent S)(z := (ent S z)\<lparr>e_data := txt @ [13, 10]\<rparr>)\<rparr>)"
proof -
  let ?old = "entry_value (ent S z)"
  have l: "length ?old = length txt + 2" using z(2) by (simp add: length_entry_value)
  have t: "0 + length txt \<le> nat (e_bytes (ent S z))" using z(2) by simp
  let ?S1 = "S\<lparr>ent := (ent S)(z := (ent S z)\<lparr>e_data := put ?old 0 txt\<rparr>)\<rparr>"
  obtain c1 where c1: "item_write z 0 txt (cch s) = Some c1" "sim g K (s\<lparr>cch := c1\<rparr>) ?S1" using write_step [OF s z(1) t] by blast
  have i1: "in_store ?S1 z" using z(1) by (simp add: in_store_def)
  have "length (put ?old 0 txt) = length ?old" using l by simp
  then have e1: "entry_value (ent ?S1 z) = put ?old 0 txt" using l z(2) by (simp add: entry_value_def)
  have t1: "length txt + length [13, 10 :: byte] \<le> nat (e_bytes (ent ?S1 z))" using z(2) by simp
  have "put (put ?old 0 txt) (length txt) [13, 10] = txt @ [13, 10]" using l by (simp add: put_def)
  then show ?thesis using c1(1) write_step [OF c1(2) i1 t1] unfolding e1 by auto
qed

definition others_but :: "nat \<Rightarrow> nat \<Rightarrow> store \<Rightarrow> store \<Rightarrow> bool" where
  "others_but z y S S' \<longleftrightarrow> (\<forall>u. u \<noteq> z \<longrightarrow> in_store S' u \<longrightarrow> in_store S u \<and> (if u = y then \<exists>v. ent S' u = (ent S u)\<lparr>e_cas := v\<rparr> else ent S' u = ent S u))"

lemma others_but_keeps: "others_but z y S S1 \<Longrightarrow> keeps S1 S2 \<Longrightarrow> others_but z y S S2" "keeps S S1 \<Longrightarrow> others_but z y S1 S2 \<Longrightarrow> others_but z y S S2"
  by (auto simp: others_but_def keeps_def split: if_splits)

lemma others_but_cas: "others_kept z S S1 \<Longrightarrow> others_but z y S (S1\<lparr>ent := (ent S1)(y := (ent S1 y)\<lparr>e_cas := v\<rparr>)\<rparr>)"
  by (auto simp: others_kept_def others_but_def in_store_def)

text \<open>The store after the old item \<open>y\<close> has been replaced by one with the value \<open>val\<close>.\<close>

definition renewed :: "globals \<Rightarrow> nat \<Rightarrow> byte list \<Rightarrow> store \<Rightarrow> store \<Rightarrow> bool" where
  "renewed g y val S S' \<longleftrightarrow> (\<exists>z C. C \<subseteq> linked S \<and> (\<forall>u\<in>linked S - C. out_of_date g (ent S u) \<or> flushing g \<or> evict_to_free g) \<and> z \<notin># refs S \<and> linked S' = insert z (C - {y})
     \<and> others_but z y S S' \<and> e_key (ent S' z) = e_key (ent S y) \<and> e_exp (ent S' z) = e_exp (ent S y) \<and> e_bytes (ent S' z) = int (length val) \<and> e_data (ent S' z) = val)"

lemma delta_replace_ok:
  assumes s1: "sim g K (with_found s i (Some y) w ch1) S1" and g: "config g K" and room: "nearly_ample 1 (with_found s i (Some y) w ch1)"
    and y: "refs S1 = add_mset y R" "y \<in> linked S1"
    and mem: "new_ok g (item_mem pe) (junk_bytes pe) (e_key (ent S1 y)) (FLAGS_CONV (hp ch1 y)) (e_exp (ent S1 y)) (int (length txt) + 2) ch1"
  shows "\<exists>ok ch2 S2. delta_replace g pe y txt (hash g (e_key (ent S1 y))) ch1 = Some (ok, ch2)
    \<and> (if ok then sim g K (with_found s i (Some y) w ch2) S2 \<and> refs S2 = refs S1 \<and> renewed g y (txt @ [13, 10]) S1 S2
       else sim g K (upd_sys s i w ch2) S2 \<and> drops g (evict_to_free g) S1 S2 \<and> refs S2 = R \<and> keeps S1 S2)"
proof -
  let ?s1 = "with_found s i (Some y) w ch1" and ?k = "e_key (ent S1 y)" and ?n = "int (length txt) + 2"
  have yr: "y \<in># refs S1" using y(1) by simp
  have e1: "ITEM_key (hp ch1 y) = ?k" "exptime (hp ch1 y) = e_exp (ent S1 y)" using sim_entry [OF s1 refs_in_store(1) [OF yr]] by simp_all
  have wf: "wf_item (hp ch1 y)" using sim_item(2) [OF s1 refs_in_store(1) [OF yr]] by simp
  have "length ?k = unat (nkey (hp ch1 y))" using wf unfolding e1(1) [symmetric] by (simp add: wf_item_def ITEM_key_def)
  then have nk: "ucast (nkey (hp ch1 y)) = (of_nat (length ?k) :: u64)" by (simp only: of_nat_unat)
  have rm1: "room ?s1" using nearly_room [OF room] by simp
  have m: "new_ok g (item_mem pe) (junk_bytes pe) ?k (FLAGS_CONV (hp ch1 y)) (e_exp (ent S1 y)) ?n (cch ?s1)" using mem by simp
  from new_step [OF s1 g rm1 m] obtain p ch2 S2 where
    a: "do_item_alloc g (item_mem pe) (junk_bytes pe) ?k (of_nat (length ?k)) (FLAGS_CONV (hp ch1 y)) (e_exp (ent S1 y)) ?n ch1 = Some (p, ch2)"
      "sim g K (with_new ?s1 p ch2) S2" "drops g (evict_to_free g) S1 S2"
    and q: "case p of None \<Rightarrow> refs S2 = refs S1 \<and> keeps S1 S2
        | Some z \<Rightarrow> z \<notin># refs S1 \<and> z \<notin> linked S2 \<and> refs S2 = add_mset z (refs S1) \<and> e_key (ent S2 z) = ?k \<and> e_bytes (ent S2 z) = ?n \<and> e_exp (ent S2 z) = e_exp (ent S1 y) \<and> keeps S1 (S2\<lparr>refs := refs S1\<rparr>)"
    unfolding with_found_simps by (elim exE conjE)
  note code = delta_replace_def e1 nk a(1)
  show ?thesis
  proof (cases p)
    case None
    then have n: "refs S2 = add_mset y R" "keeps S1 S2" "sim g K (with_found s i (Some y) w ch2) S2" using q y(1) a(2) by simp_all
    from handler_release [OF n(3,1)] obtain ch3 S3 where r: "do_item_remove g y ch2 = Some ch3" "sim g K (upd_sys s i w ch3) S3" "linked S3 = linked S2" "refs S3 = R" "keeps S2 S3" by blast
    have "drops g (evict_to_free g) S1 S3" using a(3) r(3) by (simp add: drops_def)
    moreover have "delta_replace g pe y txt (hash g ?k) ch1 = Some (False, ch3)" using None r(1) by (simp add: code)
    ultimately show ?thesis using r(2,4) keeps_trans [OF n(2) r(5)] by (intro exI [of _ False] exI [of _ ch3] exI [of _ S3]) simp
  next
    case (Some z)
    then have z: "z \<notin># refs S1" "z \<notin> linked S2" "refs S2 = add_mset z (refs S1)" "e_key (ent S2 z) = ?k" "e_bytes (ent S2 z) = ?n" "e_exp (ent S2 z) = e_exp (ent S1 y)" "keeps S1 (S2\<lparr>refs := refs S1\<rparr>)"
      using q by simp_all
    note s2 = a(2) [unfolded Some]
    have zy: "z \<noteq> y" using z(1) yr by auto
    have old: "in_store S1 u" "ent S2 u = ent S1 u" if "u \<in> linked S2 \<or> u \<in># refs S1" for u using z(7) that by (auto simp: keeps_def in_store_def)
    have zi: "in_store S2 z" using z(3) by (simp add: in_store_def)
    let ?S3 = "S2\<lparr>ent := (ent S2)(z := (ent S2 z)\<lparr>e_data := txt @ [13, 10]\<rparr>)\<rparr>"
    obtain c3 c4 where w: "item_write z 0 txt ch2 = Some c3" "item_write z (length txt) [13, 10] c3 = Some c4" "sim g K (with_new ?s1 (Some z) c4) ?S3"
      using write_number [OF s2 zi z(5)] by auto
    have rm: "room (with_new ?s1 (Some z) c4)" using nearly_room [OF nearly_new [OF room]] by simp
    have sub: "linked S2 \<subseteq> linked S1" using a(3) by (simp add: drops_def)
    have ey: "ent S2 y = ent S1 y" using old(2) yr by blast
    have uq: "e_key (ent ?S3 u) \<noteq> e_key (ent ?S3 y)" if "u \<in> linked ?S3" "u \<noteq> y" for u
      using sim_unique [OF s1, of u y] that sub y(2) old(2) [of u] ey z(2) zy by auto
    have y3: "y \<in># refs ?S3" "z \<in># refs ?S3" "z \<notin> linked ?S3" "e_key (ent ?S3 z) = e_key (ent ?S3 y)" using yr z(2-4) ey zy by simp_all
    have kh: "key_hash g (with_new ?s1 (Some z) c4) y = hash g ?k"
      using sim_key [OF w(3) refs_in_store(1) [OF y3(1)]] ey zy by (simp add: key_hash_def)
    from swap_step [OF w(3) y3(1,2) rm y3(3,4) uq, unfolded kh] obtain c5 S4 where
      sw: "do_item_replace g y z (hash g ?k) c4 = Some c5" "sim g K (with_new ?s1 (Some z) c5) S4" "linked S4 = insert z (linked S2 - {y})" "refs S4 = refs S2" "same_but_cas z ?S3 S4" by auto
    have y4: "y \<in># refs S4" "in_store S4 y" "in_store S4 z" using sw(4) z(3) yr by (auto simp: in_store_def)
    let ?u = "if use_cas (slab_set g) then ITEM_get_cas (hp c5 z) else 0"
    obtain v where v: "sim g K (with_new ?s1 (Some z) (upd_it y (ITEM_set_cas ?u) c5)) (S4\<lparr>ent := (ent S4)(y := (ent S4 y)\<lparr>e_cas := v\<rparr>)\<rparr>)" (is "sim g K _ ?S5")
      using set_cas_step [OF sw(2) y4(2), of ?u] by auto
    have zr: "z \<in># refs ?S5" using sw(4) z(3) by simp
    have fx: "(with_new ?s1 (Some z) c)\<lparr>cch := c', held := remove1 z (held (with_new ?s1 (Some z) c))\<rparr> = with_found s i (Some y) w c'" for c c'
      by (simp add: with_new_def with_found_def)
    from remove_step [OF v zr, unfolded fx] obtain c6 S6 where r: "do_item_remove g z (upd_it y (ITEM_set_cas ?u) c5) = Some c6" "sim g K (with_found s i (Some y) w c6) S6" "linked S6 = linked S4" "refs S6 = refs S1" "keeps ?S5 S6"
      using sw(4) z(3) by (auto simp: with_new_def)
    have "others_kept z S1 S2" using old z(3) by (auto simp: others_kept_def in_store_def)
    then have "others_kept z S1 S4" using others_kept_upd others_kept_trans(3) sw(5) by blast
    then have ob: "others_but z y S1 S6" using others_but_cas others_but_keeps(1) r(5) by blast
    have z6: "in_store S6 z" using r(3) sw(3) by (simp add: in_store_def)
    obtain v4 where "ent S4 z = (ent ?S3 z)\<lparr>e_cas := v4\<rparr>" using sw(5) y4(3) by (auto simp: same_but_cas_def)
    then have ez: "ent S6 z = (ent ?S3 z)\<lparr>e_cas := v4\<rparr>" using r(5) z6 zy by (simp add: keeps_def)
    have cn: "linked S2 \<subseteq> linked S1 \<and> (\<forall>u\<in>linked S1 - linked S2. out_of_date g (ent S1 u) \<or> flushing g \<or> evict_to_free g) \<and> linked S6 = insert z (linked S2 - {y})"
      using a(3) r(3) sw(3) by (simp add: drops_def)
    have rn: "renewed g y (txt @ [13, 10]) S1 S6"
      unfolding renewed_def using cn ob z(1,4-6) ez by (intro exI [of _ z] exI [of _ "linked S2"]) simp
    have "\<not> has_flag (it_flags (hp ch2 z)) ITEM_CHUNKED" using sim_item(1) [OF s2 zi] by (simp add: plain_def)
    then have "delta_replace g pe y txt (hash g ?k) ch1 = Some (True, c6)" using Some w(1,2) sw(1) r(1) by (simp add: code item_replace_def)
    then show ?thesis using r(2,4) rn by (intro exI [of _ True] exI [of _ c6] exI [of _ S6]) simp
  qed
qed

section \<open>Increment and decrement\<close>

lemma renewed_before:
  assumes "renewed g y v S1 S'" "keeps S S1" "linked S1 = linked S" "y \<in> linked S" "refs S \<subseteq># refs S1"
  shows "renewed g y v S S'"
proof -
  have e: "ent S1 u = ent S u" if "u \<in> linked S" for u by (rule keeps_linked [OF assms(2,3) that])
  from assms(1) obtain z C where z: "C \<subseteq> linked S1" "\<forall>u\<in>linked S1 - C. out_of_date g (ent S1 u) \<or> flushing g \<or> evict_to_free g" "z \<notin># refs S1" "linked S' = insert z (C - {y})"
     "others_but z y S1 S'" "e_key (ent S' z) = e_key (ent S1 y)" "e_exp (ent S' z) = e_exp (ent S1 y)" "e_bytes (ent S' z) = int (length v)" "e_data (ent S' z) = v" unfolding renewed_def by blast
  have "z \<notin># refs S" using z(3) mset_subset_eqD [OF assms(5), of z] by (rule contrapos_nn)
  moreover have "\<forall>u\<in>linked S - C. out_of_date g (ent S u) \<or> flushing g \<or> evict_to_free g" using z(2) e assms(3) by auto
  ultimately show ?thesis unfolding renewed_def
    by (intro exI [of _ z] exI [of _ C] conjI z(1) [unfolded assms(3)] z(4,8,9) z(6,7) [unfolded e [OF assms(4)]] others_but_keeps(2) [OF assms(2) z(5)])
qed

lemma renewed_after:
  assumes "renewed g y v S S1" "keeps S1 S2" "linked S2 = linked S1"
  shows "renewed g y v S S2"
proof -
  from assms(1) obtain z C where z: "C \<subseteq> linked S" "\<forall>u\<in>linked S - C. out_of_date g (ent S u) \<or> flushing g \<or> evict_to_free g" "z \<notin># refs S" "linked S1 = insert z (C - {y})"
     "others_but z y S S1" "e_key (ent S1 z) = e_key (ent S y)" "e_exp (ent S1 z) = e_exp (ent S y)" "e_bytes (ent S1 z) = int (length v)" "e_data (ent S1 z) = v" unfolding renewed_def by blast
  have "ent S2 z = ent S1 z" by (rule keeps_linked [OF assms(2,3)]) (simp add: z(4))
  then have "e_key (ent S2 z) = e_key (ent S y)" "e_exp (ent S2 z) = e_exp (ent S y)" "e_bytes (ent S2 z) = int (length v)" "e_data (ent S2 z) = v" using z(6-9) by simp_all
  then show ?thesis unfolding renewed_def
    by (intro exI [of _ z] exI [of _ C] conjI z(1-3) z(4) [folded assms(3)] others_but_keeps(1) [OF z(5) assms(2)])
qed

lemma strlen_decimal:
  assumes "length (decimal n) + 1 \<le> length buf"
  shows "strlen (put buf 0 (decimal n @ [0])) = length (decimal n)" "take (length (decimal n)) (put buf 0 (decimal n @ [0])) = decimal n"
proof -
  have "takeWhile (\<lambda>b. b \<noteq> 0) (decimal n @ 0 # r) = decimal n" for r using decimal_digits [of n] isdigit_not by (simp add: takeWhile_tail)
  then show "strlen (put buf 0 (decimal n @ [0])) = length (decimal n)" by (simp add: strlen_def put_def)
  show "take (length (decimal n)) (put buf 0 (decimal n @ [0])) = decimal n" by (rule take_put)
qed

text \<open>The reference count of an item the command alone holds.\<close>

lemma refcount_found:
  assumes s1: "sim g K (with_found s i (Some y) w ch) S1" and y: "y \<in> linked S1" and i: "i < length (wks s)" and w: "w = wks s ! i"
  shows "1 < refcount (hp ch y)" "refcount (hp ch y) = 2 \<Longrightarrow> y \<notin> set (held s)"
proof -
  let ?s = "with_found s i (Some y) w ch"
  obtain L where L: "sys_inv g K ?s (linked S1) L" by (rule simE [OF s1])
  obtain l where "L y = Some l" using sim_live [OF s1 L refs_in_store(2) [OF y]] by blast
  from item_okD(6) [OF cache_invD(6) [OF sys_invD(1) [OF L] this]] y have u: "unat (refcount (hp ch y)) = 1 + count_list (references ?s) y" by simp
  have c: "count_list (references ?s) y = Suc (count_list (references s) y)" using i w by (simp add: references_def with_found_def)
  show "1 < refcount (hp ch y)" using u c by (simp add: word_less_nat_alt)
  assume "refcount (hp ch y) = 2"
  then have "count_list (references s) y = 0" using u c by simp
  then show "y \<notin> set (held s)" by (simp add: references_def count_list_0_iff)
qed

lemma keeps_rewritten: "keeps S S1 \<Longrightarrow> keeps (S1\<lparr>ent := (ent S1)(y := e)\<rparr>) S2 \<Longrightarrow> keeps (S\<lparr>ent := (ent S)(y := e)\<rparr>) S2"
  by (auto simp: keeps_def in_store_def)

text \<open>What \<open>do_add_delta\<close> does once the item was found and its number read.\<close>

definition count_delta :: "bool \<Rightarrow> cache \<Rightarrow> nat \<Rightarrow> conn \<Rightarrow> conn" where
  "count_delta incr ch it = upd_ss (ITEM_clsid (hp ch it)) (\<lambda>s. if incr then s\<lparr>incr_hits := incr_hits s + 1\<rparr> else s\<lparr>decr_hits := decr_hits s + 1\<rparr>)"

lemma thr_count_delta [simp]: "thr (count_delta incr ch it c) = thr c"
  by (simp add: count_delta_def)

lemma add_delta_code:
  assumes get: "do_item_get g key (hash g key) (thr c) False ch = Some (Some y, w, ch1)" and ext: "\<not> extstore g" and it: "\<not> has_flag (it_flags (hp ch1 y)) ITEM_CHUNKED"
    and rd: "safe_strtoull (item_value (hp ch1 y) @ mem_after pe y) = Some (num, v)" and buf: "length buf = 24" "wrapv pe" and rc: "1 < refcount (hp ch1 y)"
    and tx: "txt = decimal (unat (delta_value incr delta v))" "buf' = put buf 0 (txt @ [0])"
  shows "nbytes (hp ch1 y) \<le> 2 \<or> \<not> num \<Longrightarrow> do_item_remove g y ch1 = Some ch2 \<Longrightarrow> add_delta g pe key incr delta buf None c ch = Some (NON_NUMERIC, buf, None, c\<lparr>thr := w\<rparr>, ch2)"
    and "\<not> nbytes (hp ch1 y) \<le> 2 \<Longrightarrow> num \<Longrightarrow> int (length txt) + 2 \<le> nbytes (hp ch1 y) \<Longrightarrow> refcount (hp ch1 y) = 2 \<Longrightarrow> delta_in_place g y txt ch1 = Some ch2 \<Longrightarrow> do_item_remove g y ch2 = Some ch3
      \<Longrightarrow> add_delta g pe key incr delta buf None c ch = Some (OK, buf', None, count_delta incr ch1 y (c\<lparr>thr := w\<rparr>), ch3)"
    and "\<not> nbytes (hp ch1 y) \<le> 2 \<Longrightarrow> num \<Longrightarrow> \<not> (int (length txt) + 2 \<le> nbytes (hp ch1 y) \<and> refcount (hp ch1 y) = 2) \<Longrightarrow> delta_replace g pe y txt (hash g key) ch1 = Some (False, ch2)
      \<Longrightarrow> add_delta g pe key incr delta buf None c ch = Some (EOM, buf', None, count_delta incr ch1 y (c\<lparr>thr := w\<rparr>), ch2)"
    and "\<not> nbytes (hp ch1 y) \<le> 2 \<Longrightarrow> num \<Longrightarrow> \<not> (int (length txt) + 2 \<le> nbytes (hp ch1 y) \<and> refcount (hp ch1 y) = 2) \<Longrightarrow> delta_replace g pe y txt (hash g key) ch1 = Some (True, ch2) \<Longrightarrow> do_item_remove g y ch2 = Some ch3
      \<Longrightarrow> add_delta g pe key incr delta buf None c ch = Some (OK, buf', None, count_delta incr ch1 y (c\<lparr>thr := w\<rparr>), ch3)"
proof -
  have l: "length txt + 1 \<le> length buf" using length_decimal_u64 [of "delta_value incr delta v"] buf(1) tx(1) by simp
  have p: "itoa_u64 (wrapv pe) (delta_value incr delta v) (buf, 0) = Some (buf', length txt)"
    unfolding tx using itoa_u64_decimal [of "wrapv pe" "delta_value incr delta v" 0 buf] l buf(2) tx(1) by simp
  have n: "strlen buf' = length txt" "take (length txt) buf' = txt" unfolding tx by (rule strlen_decimal; use l tx(1) in simp)+
  note code = add_delta_def do_add_delta_def get ext it rd p n rc count_delta_def
  show "nbytes (hp ch1 y) \<le> 2 \<or> \<not> num \<Longrightarrow> do_item_remove g y ch1 = Some ch2 \<Longrightarrow> add_delta g pe key incr delta buf None c ch = Some (NON_NUMERIC, buf, None, c\<lparr>thr := w\<rparr>, ch2)"
    by (cases "nbytes (hp ch1 y) \<le> 2") (simp_all add: code)
  show "\<not> nbytes (hp ch1 y) \<le> 2 \<Longrightarrow> num \<Longrightarrow> int (length txt) + 2 \<le> nbytes (hp ch1 y) \<Longrightarrow> refcount (hp ch1 y) = 2 \<Longrightarrow> delta_in_place g y txt ch1 = Some ch2 \<Longrightarrow> do_item_remove g y ch2 = Some ch3
      \<Longrightarrow> add_delta g pe key incr delta buf None c ch = Some (OK, buf', None, count_delta incr ch1 y (c\<lparr>thr := w\<rparr>), ch3)"
    by (simp add: code Let_def)
  show "\<not> nbytes (hp ch1 y) \<le> 2 \<Longrightarrow> num \<Longrightarrow> \<not> (int (length txt) + 2 \<le> nbytes (hp ch1 y) \<and> refcount (hp ch1 y) = 2) \<Longrightarrow> delta_replace g pe y txt (hash g key) ch1 = Some (False, ch2)
      \<Longrightarrow> add_delta g pe key incr delta buf None c ch = Some (EOM, buf', None, count_delta incr ch1 y (c\<lparr>thr := w\<rparr>), ch2)"
    by (auto simp: code Let_def)
  show "\<not> nbytes (hp ch1 y) \<le> 2 \<Longrightarrow> num \<Longrightarrow> \<not> (int (length txt) + 2 \<le> nbytes (hp ch1 y) \<and> refcount (hp ch1 y) = 2) \<Longrightarrow> delta_replace g pe y txt (hash g key) ch1 = Some (True, ch2) \<Longrightarrow> do_item_remove g y ch2 = Some ch3
      \<Longrightarrow> add_delta g pe key incr delta buf None c ch = Some (OK, buf', None, count_delta incr ch1 y (c\<lparr>thr := w\<rparr>), ch3)"
    by (auto simp: code Let_def)
qed

text \<open>
  What an increment or decrement of the item \<open>y\<close> by which its number becomes \<open>txt\<close> leaves, with the result \<open>r\<close>:
  the value is changed in place, the item is replaced, or memory has run out.
\<close>

definition delta_done :: "globals \<Rightarrow> nat \<Rightarrow> byte list \<Rightarrow> delta_result_type \<Rightarrow> store \<Rightarrow> store \<Rightarrow> bool" where
  "delta_done g y txt r S S' \<longleftrightarrow>
     r = EOM \<and> drops g (evict_to_free g) S S' \<and> keeps S S'
     \<or> r = OK \<and> y \<notin># refs S \<and> linked S' = linked S \<and> (\<exists>v. keeps (S\<lparr>ent := (ent S)(y := (ent S y)\<lparr>e_cas := v, e_data := overwritten txt (entry_value (ent S y))\<rparr>)\<rparr>) S')
     \<or> r = OK \<and> renewed g y (txt @ [13, 10]) S S'"

lemma add_delta_hit:
  assumes s: "sim g K s S" "config g K" and i: "i < length (wks s)" "thr c = wks s ! i" and ext: "\<not> extstore g" and buf: "length buf = 24" "wrapv pe"
    and e: "do_item_get g key (hash g key) (wks s ! i) False (cch s) = Some (Some y, wks s ! i, ch)" "sim g K (with_found s i (Some y) (wks s ! i) ch) S1" "looks_up g key S (Some y) (linked S1)"
      "refs S1 = add_mset y (refs S)" "keeps S S1" "nearly_ample 1 (with_found s i (Some y) (wks s ! i) ch)" "ch = upd_it y (\<lambda>i. i\<lparr>refcount := refcount i + 1\<rparr>) (cch s)"
    and rd: "safe_strtoull (entry_value (ent S y) @ mem_after pe y) = Some (num, v)" and tx: "txt = decimal (unat (delta_value incr delta v))"
    and mem: "\<not> (int (length txt) + 2 \<le> e_bytes (ent S y) \<and> refcount (hp (cch s) y) = 1) \<Longrightarrow> new_ok g (item_mem pe) (junk_bytes pe) key (FLAGS_CONV (hp (cch s) y)) (e_exp (ent S y)) (int (length txt) + 2) ch"
  shows "\<exists>r buf' c' ch' S'. add_delta g pe key incr delta buf None c (cch s) = Some (r, buf', None, c', ch') \<and> sim g K (upd_sys s i (thr c') ch') S' \<and> refs S' = refs S
    \<and> (if e_bytes (ent S y) \<le> 2 \<or> \<not> num then r = NON_NUMERIC \<and> linked S' = linked S \<and> keeps S S' else delta_done g y txt r S S' \<and> take (strlen buf') buf' = txt)"
proof -
  let ?w = "wks s ! i"
  have lk: "y \<in> linked S" "e_key (ent S y) = key" "linked S1 = linked S" using e(3) by (simp_all add: looks_up_def)
  have yr: "y \<in># refs S1" using e(4) by simp
  have en: "ent S1 y = ent S y" by (rule keeps_linked [OF e(5) lk(3,1)])
  have hy: "entry_of (hp ch y) = ent S y" using sim_entry [OF e(2) refs_in_store(1) [OF yr]] en by simp
  have hv: "nbytes (hp ch y) = e_bytes (ent S y)" "item_value (hp ch y) = entry_value (ent S y)" unfolding hy [symmetric] by simp_all
  have ch: "\<not> has_flag (it_flags (hp ch y)) ITEM_CHUNKED" using sim_item(1) [OF e(2) refs_in_store(1) [OF yr]] by (simp add: plain_def)
  have fl: "FLAGS_CONV (hp ch y) = FLAGS_CONV (hp (cch s) y)" by (simp add: e(7) FLAGS_CONV_def upd_it_def)
  have y1: "y \<in> linked S1" using lk by simp
  note rc = refcount_found [OF e(2) y1 i(1) refl]
  define buf' where "buf' = put buf 0 (txt @ [0])"
  have lt: "length txt + 1 \<le> length buf" using length_decimal_u64 [of "delta_value incr delta v"] buf(1) tx by simp
  have out: "take (strlen buf') buf' = txt" using lt unfolding buf'_def tx by (simp add: strlen_decimal)
  have cc: "c\<lparr>thr := thr c\<rparr> = c" by simp
  note code = add_delta_code [OF e(1) [folded i(2)] ext ch rd [folded hv(2)] buf rc(1) tx buf'_def, unfolded hv(1) cc]
  consider "e_bytes (ent S y) \<le> 2 \<or> \<not> num" | "\<not> e_bytes (ent S y) \<le> 2" num "int (length txt) + 2 \<le> e_bytes (ent S y) \<and> refcount (hp ch y) = 2"
    | "\<not> e_bytes (ent S y) \<le> 2" num "\<not> (int (length txt) + 2 \<le> e_bytes (ent S y) \<and> refcount (hp ch y) = 2)" by blast
  then show ?thesis
  proof cases
    case 1
    from handler_release [OF e(2,4)] obtain ch2 S2 where r: "do_item_remove g y ch = Some ch2" "sim g K (upd_sys s i ?w ch2) S2" "linked S2 = linked S1" "refs S2 = refs S" "keeps S1 S2" by blast
    show ?thesis using 1 code(1) [OF 1 r(1)] r(2-4) lk(3) keeps_trans [OF e(5) r(5)] i(2)
      by (intro exI [of _ NON_NUMERIC] exI [of _ buf] exI [of _ c] exI [of _ ch2] exI [of _ S2]) simp
  next
    case 2
    let ?e = "\<lambda>v. (ent S y)\<lparr>e_cas := v, e_data := overwritten txt (entry_value (ent S y))\<rparr>"
    have n: "int (length txt) + 2 \<le> e_bytes (ent S1 y)" using 2(3) en by simp
    obtain ch2 u S2 where d: "delta_in_place g y txt ch = Some ch2" "sim g K (with_found s i (Some y) ?w ch2) S2" "linked S2 = linked S1" "refs S2 = add_mset y (refs S)"
        "keeps (S1\<lparr>ent := (ent S1)(y := ?e u)\<rparr>) S2" using delta_in_place_ok [OF e(2) yr n] en e(4) by auto
    from handler_release [OF d(2,4)] obtain ch3 S3 where r: "do_item_remove g y ch2 = Some ch3" "sim g K (upd_sys s i ?w ch3) S3" "linked S3 = linked S2" "refs S3 = refs S" "keeps S2 S3" by blast
    have "keeps (S\<lparr>ent := (ent S)(y := ?e u)\<rparr>) S3" by (rule keeps_trans [OF keeps_rewritten [OF e(5) d(5)] r(5)])
    moreover have "y \<notin># refs S" using rc(2) 2(3) s(1) by (simp add: sim_def)
    ultimately have dd: "delta_done g y txt OK S S3" unfolding delta_done_def using r(3) d(3) lk(3) by (intro disjI2 disjI1 conjI refl exI [of _ u]) simp_all
    show ?thesis using 2(1,2) code(2) [OF 2(1,2) conjunct1 [OF 2(3)] conjunct2 [OF 2(3)] d(1) r(1)] r(2,4) dd out i(2)
      by (intro exI [of _ OK] exI [of _ buf'] exI [of _ "count_delta incr ch y c"] exI [of _ ch3] exI [of _ S3]) simp
  next
    case 3
    let ?c = "count_delta incr ch y c"
    have "refcount (hp ch y) = refcount (hp (cch s) y) + 1" by (simp add: e(7) upd_it_def)
    then have "\<not> (int (length txt) + 2 \<le> e_bytes (ent S y) \<and> refcount (hp (cch s) y) = 1)" using 3(3) by auto
    note mem = mem [OF this]
    from delta_replace_ok [OF e(2) s(2) e(6,4) y1, of pe "txt"] mem obtain ok ch2 S2 where d: "delta_replace g pe y txt (hash g key) ch = Some (ok, ch2)"
      "if ok then sim g K (with_found s i (Some y) ?w ch2) S2 \<and> refs S2 = refs S1 \<and> renewed g y (txt @ [13, 10]) S1 S2
       else sim g K (upd_sys s i ?w ch2) S2 \<and> drops g (evict_to_free g) S1 S2 \<and> refs S2 = refs S \<and> keeps S1 S2" unfolding en lk(2) fl by blast
    show ?thesis
    proof (cases ok)
      case True
      then have d2: "sim g K (with_found s i (Some y) ?w ch2) S2" "refs S2 = add_mset y (refs S)" "renewed g y (txt @ [13, 10]) S1 S2" using d(2) e(4) by simp_all
      from handler_release [OF d2(1,2)] obtain ch3 S3 where r: "do_item_remove g y ch2 = Some ch3" "sim g K (upd_sys s i ?w ch3) S3" "linked S3 = linked S2" "refs S3 = refs S" "keeps S2 S3" by blast
      have "renewed g y (txt @ [13, 10]) S S3"
        by (rule renewed_after [OF renewed_before [OF d2(3) e(5) lk(3,1)] r(5,3)]) (simp add: e(4))
      then have "delta_done g y txt OK S S3" by (simp add: delta_done_def)
      then show ?thesis using 3(1,2) code(4) [OF 3 _ r(1)] d(1) True r(2,4) out i(2)
        by (intro exI [of _ OK] exI [of _ buf'] exI [of _ ?c] exI [of _ ch3] exI [of _ S3]) simp
    next
      case False
      then have d2: "sim g K (upd_sys s i ?w ch2) S2" "drops g (evict_to_free g) S1 S2" "refs S2 = refs S" "keeps S1 S2" using d(2) by simp_all
      have "drops g (evict_to_free g) S S2" using d2(2) lk(3) keeps_linked [OF e(5) lk(3)] by (auto simp: drops_def)
      then have "delta_done g y txt EOM S S2" using keeps_trans [OF e(5) d2(4)] by (simp add: delta_done_def)
      then show ?thesis using 3(1,2) code(3) [OF 3] d(1) False d2(1,3) out i(2)
        by (intro exI [of _ EOM] exI [of _ buf'] exI [of _ ?c] exI [of _ ch2] exI [of _ S2]) simp
    qed
  qed
qed

text \<open>The whole command: the item found, if any, and what becomes of it.\<close>

lemma add_delta_ok:
  assumes s: "sim g K s S" "config g K" and i: "i < length (wks s)" "thr c = wks s ! i" and a: "ample s" and ext: "\<not> extstore g" and buf: "length buf = 24" "wrapv pe"
    and rd: "\<And>y. y \<in> linked S \<Longrightarrow> e_key (ent S y) = key \<Longrightarrow> safe_strtoull (entry_value (ent S y) @ mem_after pe y) = Some (num y, val y)"
    and mem: "\<And>y n. y \<in> linked S \<Longrightarrow> e_key (ent S y) = key \<Longrightarrow> n = int (length (decimal (unat (delta_value incr delta (val y))))) + 2
        \<Longrightarrow> \<not> (n \<le> e_bytes (ent S y) \<and> refcount (hp (cch s) y) = 1)
        \<Longrightarrow> new_ok g (item_mem pe) (junk_bytes pe) key (FLAGS_CONV (hp (cch s) y)) (e_exp (ent S y)) n (upd_it y (\<lambda>i. i\<lparr>refcount := refcount i + 1\<rparr>) (cch s))"
  shows "\<exists>p C r buf' c' ch' S'. add_delta g pe key incr delta buf None c (cch s) = Some (r, buf', None, c', ch') \<and> looks_up g key S p C
    \<and> sim g K (upd_sys s i (thr c') ch') S' \<and> refs S' = refs S
    \<and> (case p of None \<Rightarrow> r = DELTA_ITEM_NOT_FOUND \<and> linked S' = C \<and> keeps S S'
        | Some y \<Rightarrow> if e_bytes (ent S y) \<le> 2 \<or> \<not> num y then r = NON_NUMERIC \<and> linked S' = linked S \<and> keeps S S'
            else delta_done g y (decimal (unat (delta_value incr delta (val y)))) r S S' \<and> take (strlen buf') buf' = decimal (unat (delta_value incr delta (val y))))"
proof -
  obtain p w ch S1 where e: "do_item_get g key (hash g key) (wks s ! i) False (cch s) = Some (p, w, ch)" "sim g K (with_found s i p w ch) S1" "looks_up g key S p (linked S1)"
      "refs S1 = (case p of None \<Rightarrow> {#} | Some y \<Rightarrow> {#y#}) + refs S" "keeps S S1" "nearly_ample (0 + 1) (with_found s i p w ch)"
      "\<forall>y. p = Some y \<longrightarrow> w = wks s ! i \<and> ch = upd_it y (\<lambda>i. i\<lparr>refcount := refcount i + 1\<rparr>) (cch s)"
    using handler_get [OF s(1) i(1) ample_nearly [OF a] zero_less_numeral, of key] by blast
  show ?thesis
  proof (cases p)
    case None
    have "add_delta g pe key incr delta buf None c (cch s) = Some (DELTA_ITEM_NOT_FOUND, buf, None, c\<lparr>thr := w\<rparr>, ch)"
      using e(1) None i(2) by (simp add: add_delta_def do_add_delta_def)
    then show ?thesis using e(2-5) None
      by (intro exI [of _ None] exI [of _ "linked S1"] exI [of _ DELTA_ITEM_NOT_FOUND] exI [of _ buf] exI [of _ "c\<lparr>thr := w\<rparr>"] exI [of _ ch] exI [of _ S1]) simp
  next
    case (Some y)
    have w: "w = wks s ! i" "ch = upd_it y (\<lambda>i. i\<lparr>refcount := refcount i + 1\<rparr>) (cch s)" using e(7) Some by simp_all
    have lk: "y \<in> linked S" "e_key (ent S y) = key" using e(3) Some by (simp_all add: looks_up_def)
    have m: "\<not> (int (length (decimal (unat (delta_value incr delta (val y))))) + 2 \<le> e_bytes (ent S y) \<and> refcount (hp (cch s) y) = 1)
        \<Longrightarrow> new_ok g (item_mem pe) (junk_bytes pe) key (FLAGS_CONV (hp (cch s) y)) (e_exp (ent S y)) (int (length (decimal (unat (delta_value incr delta (val y))))) + 2) ch"
      using mem [OF lk refl] unfolding w(2) [symmetric] .
    have r: "refs S1 = add_mset y (refs S)" "nearly_ample 1 (with_found s i (Some y) (wks s ! i) ch)" using e(4,6) Some w(1) by simp_all
    from add_delta_hit [OF s i ext buf e(1) [unfolded Some w(1)] e(2) [unfolded Some w(1)] e(3) [unfolded Some] r(1) e(5) r(2) w(2) rd [OF lk] refl m]
    obtain d buf' c' ch' S' where d: "add_delta g pe key incr delta buf None c (cch s) = Some (d, buf', None, c', ch')" "sim g K (upd_sys s i (thr c') ch') S'" "refs S' = refs S"
      "if e_bytes (ent S y) \<le> 2 \<or> \<not> num y then d = NON_NUMERIC \<and> linked S' = linked S \<and> keeps S S'
       else delta_done g y (decimal (unat (delta_value incr delta (val y)))) d S S' \<and> take (strlen buf') buf' = decimal (unat (delta_value incr delta (val y)))" by blast
    show ?thesis
      by (intro exI [of _ "Some y"] exI [of _ "linked S1"] exI [of _ d] exI [of _ buf'] exI [of _ c'] exI [of _ ch'] exI [of _ S'] conjI d(1-3) e(3) [unfolded Some]) (unfold option.case, rule d(4))
  qed
qed

end
