(* ===== verification/Protocol_Demo.thy ===== *)
theory Protocol_Demo
  imports Arithmetic Cache_Demo
begin

text \<open>
  A small server, evaluated: the properties of the command handlers are instantiated on it.
\<close>

section \<open>A server with items\<close>

text \<open>One item linked and held, and a second one of the same key that a set command has filled.\<close>

definition demo_conn :: "worker \<Rightarrow> conn" where
  "demo_conn w = \<lparr>thr = w,
     tst = \<lparr>get_cmds = 0, get_misses = 0, touch_cmds = 0, touch_misses = 0, delete_misses = 0, incr_misses = 0, decr_misses = 0, cas_misses = 0, flush_cmds = 0,
            slab_stats_of = (\<lambda>_. \<lparr>set_cmds = 0, touch_hits = 0, delete_hits = 0, cas_hits = 0, cas_badval = 0, incr_hits = 0, decr_hits = 0\<rparr>), lru_hits = (\<lambda>_. 0)\<rparr>,
     state = conn_parse_cmd, write_and_go = conn_new_cmd, noreply = False, wsize = 2048, wout = [], iov = [], conn_cas = 0, citem = Some 50000, ritem = 4, rlbytes = 0, sbytes = 0,
     ccmd = NREAD_SET, ilist = []\<rparr>"

lemma demo_conn_simps [simp]: "thr (demo_conn w) = w" "noreply (demo_conn w) = False" "wsize (demo_conn w) = 2048" "iov (demo_conn w) = []" "citem (demo_conn w) = Some 50000"
  "ccmd (demo_conn w) = NREAD_SET" "ilist (demo_conn w) = []"
  by (simp_all add: demo_conn_def)

definition demo_penv :: penv where
  "demo_penv = \<lparr>process_started = 0, detail_enabled = False, prefix_delimiter = 58, flush_enabled = True, wrapv = True, item_mem = demo_env 900000, junk_bytes = 0,
     prefix_mem = (\<lambda>_. (True, True)), ilist_mem = (\<lambda>_. True), suffix_mem = (\<lambda>_. True), iov_mem = (\<lambda>_. True), mem_after = (\<lambda>_. [0])\<rparr>"

lemma run_append: "run g (xs @ ys) s = do { (ps, g, s) \<leftarrow> run g xs s; (qs, g, s) \<leftarrow> run g ys s; Some (ps @ qs, g, s) }"
  by (induction xs arbitrary: g s) (auto split: Option.bind_splits)

lemma legal_append: "legal_ops g (xs @ ys) s \<longleftrightarrow> legal_ops g xs s \<and> (case run g xs s of None \<Rightarrow> True | Some (_, g, s) \<Rightarrow> legal_ops g ys s)"
  by (induction xs arbitrary: g s) (auto split: Option.bind_splits option.splits)

definition demo_two_ops :: "cache_op list" where
  "demo_two_ops = demo_mid_ops @ [New (demo_env 50000) 0 [1] 0 0 4]"

lemma demo_second_ok:
  "case run demo_globals demo_mid_ops demo_sys of None \<Rightarrow> True | Some (_, g, s) \<Rightarrow> legal_ops g [New (demo_env 50000) 0 [1] 0 0 4] s"
  by code_simp

text \<open>A second server: one linked item that nobody holds.\<close>

definition demo_one_ops :: "cache_op list" where
  "demo_one_ops = [New (demo_env 1000) 0 [1] 0 0 4, Link 1000, Remove 1000]"

lemma demo_one_legal: "legal_ops demo_globals demo_one_ops demo_sys"
  by code_simp

lemma demo_one_run:
  "case run demo_globals demo_one_ops demo_sys of None \<Rightarrow> False
   | Some (ps, g, s) \<Rightarrow> ps = [Some 1000, None, None] \<and> ample s \<and> length (wks s) = 1 \<and> held s = [] \<and> refcount (hp (cch s) 1000) = 1
       \<and> has_flag (it_flags (hp (cch s) 1000)) ITEM_LINKED \<and> entry_of (hp (cch s) 1000) = \<lparr>e_key = [1], e_bytes = 4, e_flags = 0, e_data = [], e_cas = 1, e_exp = 0\<rparr>"
  by code_simp

lemma demo_two_run:
  "case run demo_globals demo_two_ops demo_sys of None \<Rightarrow> False
   | Some (ps, g, s) \<Rightarrow> ps = [Some 1000, None, Some 50000] \<and> ample s \<and> length (wks s) = 1 \<and> held s = [50000, 1000] \<and> ITEM_get_cas (hp (cch s) 50000) = 0
       \<and> has_flag (it_flags (hp (cch s) 1000)) ITEM_LINKED \<and> \<not> has_flag (it_flags (hp (cch s) 50000)) ITEM_LINKED
       \<and> entry_of (hp (cch s) 1000) = \<lparr>e_key = [1], e_bytes = 2, e_flags = 0, e_data = [], e_cas = 1, e_exp = 0\<rparr>
       \<and> entry_of (hp (cch s) 50000) = \<lparr>e_key = [1], e_bytes = 4, e_flags = 0, e_data = [], e_cas = 0, e_exp = 0\<rparr>
       \<and> new_ok demo_globals (demo_env 900000) 0 [1] (FLAGS_CONV (hp (cch s) 1000)) 0 4 (upd_it 1000 (\<lambda>i. i\<lparr>refcount := refcount i + 1\<rparr>) (cch s))"
  by code_simp

lemma sim_linked_flag:
  assumes "sim g K s S" "in_store S x"
  shows "x \<in> linked S \<longleftrightarrow> has_flag (it_flags (hp (cch s) x)) ITEM_LINKED"
proof -
  obtain L where L: "sys_inv g K s (linked S) L" by (rule simE [OF assms(1)])
  obtain l where "L x = Some l" using sim_live [OF assms(1) L assms(2)] by blast
  from item_okD(1) [OF cache_invD(6) [OF sys_invD(1) [OF L] this]] show ?thesis by simp
qed

lemma demo_sim:
  assumes "legal_ops demo_globals ops demo_sys"
  obtains ps g s S K where "run demo_globals ops demo_sys = Some (ps, g, s)" "accepts demo_globals ops ps empty_store S" "sim g K s S" "config demo_globals K"
proof -
  from start_sim [OF demo_started demo_sane] obtain K where K: "sim demo_globals K demo_sys empty_store" "config demo_globals K" by blast
  from run_simulates [OF K assms] show thesis using K(2) that by blast
qed

lemma demo_two:
  obtains s S K where "sim demo_globals K s S" "config demo_globals K" "ample s" "length (wks s) = 1" "50000 \<in># refs S" "50000 \<notin> linked S" "linked S = {1000}" "ITEM_get_cas (hp (cch s) 50000) = 0"
    "ent S 1000 = \<lparr>e_key = [1], e_bytes = 2, e_flags = 0, e_data = [], e_cas = 1, e_exp = 0\<rparr>" "ent S 50000 = \<lparr>e_key = [1], e_bytes = 4, e_flags = 0, e_data = [], e_cas = 0, e_exp = 0\<rparr>"
    "new_ok demo_globals (demo_env 900000) 0 [1] (FLAGS_CONV (hp (cch s) 1000)) 0 4 (upd_it 1000 (\<lambda>i. i\<lparr>refcount := refcount i + 1\<rparr>) (cch s))"
proof -
  have "legal_ops demo_globals (demo_mid_ops @ [Get [1] True 0]) demo_sys" using demo_legal by (simp add: demo_cache_ops_def demo_mid_ops_def)
  then have l: "legal_ops demo_globals demo_two_ops demo_sys" unfolding demo_two_ops_def legal_append using demo_second_ok by simp
  obtain ps g s S K where r: "run demo_globals demo_two_ops demo_sys = Some (ps, g, s)" "accepts demo_globals demo_two_ops ps empty_store S" "sim g K s S" "config demo_globals K" by (rule demo_sim [OF l])
  note p = demo_two_run [unfolded r(1) option.case prod.case]
  have "g = demo_globals" using r(1) by (auto simp: demo_two_ops_def demo_mid_ops_def bind_eq_Some_conv)
  with r(3) have sm: "sim demo_globals K s S" by simp
  have h: "50000 \<in># refs S" "1000 \<in># refs S" using sm p by (simp_all add: sim_def)
  have i: "in_store S 50000" "in_store S 1000" by (rule refs_in_store(1) [OF h(1)], rule refs_in_store(1) [OF h(2)])
  have nl: "50000 \<notin> linked S" "1000 \<in> linked S" using sim_linked_flag [OF sm i(1)] sim_linked_flag [OF sm i(2)] p by simp_all
  have "linked S \<subseteq> {1000}" using r(2) p unfolding demo_two_ops_def demo_mid_ops_def by (auto simp: drops_def empty_store_def)
  with nl(2) have "linked S = {1000}" by blast
  with that [OF sm r(4)] p h(1) nl(1) sim_entry [OF sm i(1)] sim_entry [OF sm i(2)] show thesis by auto
qed

end
