(* ===== verification/Dispatch.thy ===== *)
theory Dispatch
  imports Protocol
begin

text \<open>
  \<open>process_command\<close> of \<open>src/mem/memcached.c\<close>: the dispatch of a command line to the handlers of the text protocol,
  and \<open>flush_all\<close>. The administrative commands (statistics, slab and LRU settings, the crawler, watchers,
  shutdown and so on) are recognised, but what they do is outside this model (\<open>Other_command\<close>).
\<close>

section \<open>Flushing\<close>

text \<open>\<open>erange\<close> says whether \<open>errno\<close> was already \<open>ERANGE\<close>: the code does not reset it before \<open>strtol\<close>.\<close>

definition flush_all :: "globals \<Rightarrow> penv \<Rightarrow> bool \<Rightarrow> token list \<Rightarrow> conn \<Rightarrow> cache \<Rightarrow> (conn \<times> globals \<times> cache) option" where
  "flush_all g pe erange ts c ch =
     do { c \<leftarrow> set_noreply_maybe ts c;
          (let c = upd_ts (\<lambda>s. s\<lparr>flush_cmds := flush_cmds s + 1\<rparr>) c
           in if \<not> flush_enabled pe then Some (out_string ''CLIENT_ERROR flush_all not allowed'' c, g, ch)
              else do { (et, bad) \<leftarrow> (if length ts \<noteq> (if noreply c then 3 else 2)
                                      then do { v \<leftarrow> token_value ts 1; (l, _, er) \<leftarrow> strtoll v; Some (l, erange \<or> er) }
                                      else Some (0, False));
                        if bad then Some (out_string ''CLIENT_ERROR bad command line format'' c, g, ch)
                        else let new_oldest = (if et > 0 then realtime g pe et else current_time g)
                             in if use_cas (slab_set g)
                                then let g = g\<lparr>oldest_live := new_oldest - 1\<rparr>
                                     in if oldest_live g \<le> current_time g
                                        then let (cid, ch) = get_cas_id ch in Some (out_string ''OK'' c, g\<lparr>oldest_cas := cid\<rparr>, ch)
                                        else Some (out_string ''OK'' c, g, ch)
                                else Some (out_string ''OK'' c, g\<lparr>oldest_live := new_oldest\<rparr>, ch) }) }"

section \<open>Dispatch\<close>

datatype answer = Answered conn globals prefix_table cache | Other_command

text \<open>The set commands, in the order of the comparisons.\<close>

definition set_command :: "token list \<Rightarrow> nread option" where
  "set_command ts =
     (if token_is ts 0 ''add'' = Some True then Some NREAD_ADD
      else if token_is ts 0 ''set'' = Some True then Some NREAD_SET
      else if token_is ts 0 ''replace'' = Some True then Some NREAD_REPLACE
      else if token_is ts 0 ''prepend'' = Some True then Some NREAD_PREPEND
      else if token_is ts 0 ''append'' = Some True then Some NREAD_APPEND
      else None)"

text \<open>The commands outside the model, with the numbers of tokens they are recognised for.\<close>

definition other_command :: "bool \<Rightarrow> token list \<Rightarrow> bool" where
  "other_command ext ts \<longleftrightarrow>
     (let n = length ts; is = (\<lambda>s. token_is ts 0 s = Some True)
      in n \<ge> 2 \<and> is ''stats'' \<or> n = 2 \<and> is ''shutdown'' \<or> n > 1 \<and> (is ''slabs'' \<or> is ''lru_crawler'' \<or> is ''watch'')
         \<or> (n = 3 \<or> n = 4) \<and> (is ''cache_memlimit'' \<or> is ''verbosity'') \<or> n \<ge> 3 \<and> is ''lru'' \<or> ext \<and> n \<ge> 3 \<and> is ''extstore'')"

text \<open>
  \<open>msg_mem\<close> is the result of \<open>add_msghdr\<close>, \<open>version\<close> the version string of the build, \<open>sbuf\<close> and \<open>temp\<close> the
  buffers of the get and arithmetic commands.
\<close>

definition process_command ::
    "globals \<Rightarrow> penv \<Rightarrow> bool \<Rightarrow> string \<Rightarrow> (nat \<Rightarrow> byte list) \<Rightarrow> byte list \<Rightarrow> bool \<Rightarrow> byte list \<Rightarrow> conn \<Rightarrow> prefix_table \<Rightarrow> cache \<Rightarrow> answer option" where
  "process_command g pe msg_mem version sbuf temp erange command c pt ch =
     (let c = c\<lparr>iov := []\<rparr>
      in if \<not> msg_mem then Some (Answered (out_of_memory ''SERVER_ERROR out of memory preparing response'' c) g pt ch)
         else
         let ts = tokenize_command command MAX_TOKENS; n = length ts; is = (\<lambda>s. token_is ts 0 s = Some True)
         in if n \<ge> 3 \<and> (is ''get'' \<or> is ''bget'')
            then do { (c, pt, ch) \<leftarrow> process_get_command g pe sbuf ts False False c pt ch; Some (Answered c g pt ch) }
            else if (n = 6 \<or> n = 7) \<and> set_command ts \<noteq> None
            then do { (c, pt, ch) \<leftarrow> process_update_command g pe ts (the (set_command ts)) False c pt ch; Some (Answered c g pt ch) }
            else if (n = 7 \<or> n = 8) \<and> is ''cas''
            then do { (c, pt, ch) \<leftarrow> process_update_command g pe ts NREAD_CAS True c pt ch; Some (Answered c g pt ch) }
            else if (n = 4 \<or> n = 5) \<and> is ''incr''
            then do { (c, ch) \<leftarrow> process_arithmetic_command g pe temp ts True c ch; Some (Answered c g pt ch) }
            else if n \<ge> 3 \<and> is ''gets''
            then do { (c, pt, ch) \<leftarrow> process_get_command g pe sbuf ts True False c pt ch; Some (Answered c g pt ch) }
            else if (n = 4 \<or> n = 5) \<and> is ''decr''
            then do { (c, ch) \<leftarrow> process_arithmetic_command g pe temp ts False c ch; Some (Answered c g pt ch) }
            else if n \<ge> 3 \<and> n \<le> 5 \<and> is ''delete''
            then do { (c, pt, ch) \<leftarrow> process_delete_command g pe ts c pt ch; Some (Answered c g pt ch) }
            else if (n = 4 \<or> n = 5) \<and> is ''touch''
            then do { (c, ch) \<leftarrow> process_touch_command g pe ts c ch; Some (Answered c g pt ch) }
            else if n \<ge> 4 \<and> is ''gat''
            then do { (c, pt, ch) \<leftarrow> process_get_command g pe sbuf ts False True c pt ch; Some (Answered c g pt ch) }
            else if n \<ge> 4 \<and> is ''gats''
            then do { (c, pt, ch) \<leftarrow> process_get_command g pe sbuf ts True True c pt ch; Some (Answered c g pt ch) }
            else if n \<ge> 2 \<and> n \<le> 4 \<and> is ''flush_all''
            then do { (c, g, ch) \<leftarrow> flush_all g pe erange ts c ch; Some (Answered c g pt ch) }
            else if n = 2 \<and> is ''version'' then Some (Answered (out_string (''VERSION '' @ version) c) g pt ch)
            else if n = 2 \<and> is ''quit'' then Some (Answered (conn_set_state conn_closing c) g pt ch)
            else if other_command (extstore g) ts then Some Other_command
            else if n \<ge> 2
            then do { v \<leftarrow> token_value ts (n - 2);
                      Some (Answered (if take 5 (takeWhile (\<lambda>b. b \<noteq> 0) v) = ascii ''HTTP/'' then conn_set_state conn_closing c else out_string ''ERROR'' c) g pt ch) }
            else Some (Answered (out_string ''ERROR'' c) g pt ch))"

end
