(* ===== verification/Protocol_Properties.thy ===== *)
theory Protocol_Properties
  imports Protocol_Demo Dispatch
begin

text \<open>The properties of the command handlers.\<close>

section \<open>A server with a number\<close>

lemma demo_number_get:
  "case do { (_, _, s) \<leftarrow> run demo_globals demo_one_ops demo_sys; ch \<leftarrow> item_write 1000 0 [49, 50, 13, 10] (cch s); do_item_get demo_globals [1] (hash demo_globals [1]) (wks s ! 0) True ch } of
     None \<Rightarrow> False | Some (p, _, ch) \<Rightarrow> hit_item p ch = Some 1000"
  by code_simp

text \<open>The second server, its item filled with the number 12.\<close>

lemma demo_number:
  obtains s S K where "sim demo_globals K s S" "config demo_globals K" "ample s" "length (wks s) = 1" "linked S = {1000}" "refcount (hp (cch s) 1000) = 1"
    "ent S 1000 = \<lparr>e_key = [1], e_bytes = 4, e_flags = 0, e_data = [49, 50, 13, 10], e_cas = 1, e_exp = 0\<rparr>"
    "\<forall>p w ch. do_item_get demo_globals [1] (hash demo_globals [1]) (wks s ! 0) True (cch s) = Some (p, w, ch) \<longrightarrow> hit_item p ch = Some 1000"
proof -
  obtain ps g s S K where r: "run demo_globals demo_one_ops demo_sys = Some (ps, g, s)" "accepts demo_globals demo_one_ops ps empty_store S" "sim g K s S" "config demo_globals K" by (rule demo_sim [OF demo_one_legal])
  note p = demo_one_run [unfolded r(1) option.case prod.case]
  have "g = demo_globals" using r(1) by (auto simp: demo_one_ops_def bind_eq_Some_conv)
  with r(3) have sm: "sim demo_globals K s S" by simp
  have l: "linked S = {1000}" using r(2) p unfolding demo_one_ops_def by (auto simp: drops_def empty_store_def)
  then have i: "in_store S 1000" by (simp add: in_store_def)
  have e: "ent S 1000 = \<lparr>e_key = [1], e_bytes = 4, e_flags = 0, e_data = [], e_cas = 1, e_exp = 0\<rparr>" using sim_entry [OF sm i] p by simp
  from write_step [OF sm i, of 0 "[49, 50, 13, 10]"] e obtain ch where
    w: "item_write 1000 0 [49, 50, 13, 10] (cch s) = Some ch" "sim demo_globals K (s\<lparr>cch := ch\<rparr>) (S\<lparr>ent := (ent S)(1000 := (ent S 1000)\<lparr>e_data := [49, 50, 13, 10]\<rparr>)\<rparr>)" (is "sim _ _ _ ?S")
    by (auto simp: entry_value_def put_def)
  have "refcount (hp ch 1000) = 1" using w(1) p by (auto simp: item_write_def upd_it_def)
  moreover have "references (s\<lparr>cch := ch\<rparr>) = references s" by (simp add: references_def)
  then have "ample (s\<lparr>cch := ch\<rparr>)" using p unfolding ample_def by simp
  moreover have "hit_item q ch2 = Some 1000" if "do_item_get demo_globals [1] (hash demo_globals [1]) (wks s ! 0) True ch = Some (q, u, ch2)" for q u ch2
    using demo_number_get that unfolding r(1) by (simp add: w(1))
  ultimately show thesis using that [OF w(2) r(4)] p l e by simp
qed

section \<open>Storing\<close>

text \<open>
  C2. \<open>store_item\<close> implements the abstract store for set, add, replace and cas: its result is the one the
  command has for the item its look-up finds, an item is stored in place of the one found exactly when the result is
  \<open>STORED\<close>, nothing else changes but the CAS unique of the item stored, and every reference taken is given back.
\<close>

theorem store_item_refines:
  assumes "sim g K s S" "i < length (wks s)" "thr c = wks s ! i" "ample s" "x \<in># refs S" "x \<notin> linked S" "comm \<noteq> NREAD_APPEND" "comm \<noteq> NREAD_PREPEND"
  shows "\<exists>p C ret c' ch' S'. store_item g pe x comm c (cch s) = Some (ret, c', ch') \<and> looks_up g (e_key (ent S x)) S p C
    \<and> ret = outcome comm (p \<noteq> None) (\<exists>y. p = Some y \<and> ITEM_get_cas (hp (cch s) x) = ITEM_get_cas (hp (cch s) y))
    \<and> sim g K (upd_sys s i (thr c') ch') S' \<and> stored_in x p C ret S S'"
  by (rule store_item_ok [OF assms])

theorem store_item_refines_witness:
  "\<exists>(s :: sys) c' ch' K S'. store_item demo_globals demo_penv 50000 NREAD_SET (demo_conn (wks s ! 0)) (cch s) = Some (STORED, c', ch')
     \<and> sim demo_globals K (upd_sys s 0 (thr c') ch') S' \<and> 50000 \<in> linked S'"
proof -
  obtain s S K where s: "sim demo_globals K s S" "ample s" "length (wks s) = 1" "50000 \<in># refs S" "50000 \<notin> linked S" by (rule demo_two)
  have "0 < length (wks s)" using s(3) by simp
  from store_item_refines [OF s(1) this demo_conn_simps(1) s(2,4,5), of NREAD_SET demo_penv] obtain c' ch' S' p C where
    "store_item demo_globals demo_penv 50000 NREAD_SET (demo_conn (wks s ! 0)) (cch s) = Some (STORED, c', ch')" "sim demo_globals K (upd_sys s 0 (thr c') ch') S'" "stored_in 50000 p C STORED S S'" by auto
  then show ?thesis by (intro exI [of _ s] exI [of _ c'] exI [of _ ch'] exI [of _ K] exI [of _ S']) (simp add: stored_in_def)
qed



text \<open>
  C11. At the end of a set, add, replace or cas command whose value ends with a line end, \<open>complete_nread_ascii\<close> stores the
  item, answers with the line of the result, and lets go of the item.
\<close>

theorem set_command_ends:
  assumes "sim g K s S" "i < length (wks s)" "thr c = wks s ! i" "ample s" "x \<in># refs S" "x \<notin> linked S" "citem c = Some x" "ccmd c \<noteq> NREAD_APPEND" "ccmd c \<noteq> NREAD_PREPEND"
    and "drop (nat (e_bytes (ent S x) - 2)) (entry_value (ent S x)) = [13, 10]"
  shows "\<exists>p C ret c' ch' S' S''. complete_nread_ascii g pe c (cch s) = Some (c', ch') \<and> looks_up g (e_key (ent S x)) S p C
    \<and> ret = outcome (ccmd c) (p \<noteq> None) (\<exists>y. p = Some y \<and> ITEM_get_cas (hp (cch s) x) = ITEM_get_cas (hp (cch s) y))
    \<and> (\<not> noreply c \<longrightarrow> 38 \<le> wsize c \<longrightarrow> replies (store_reply ret) c') \<and> stored_in x p C ret S S'
    \<and> sim g K (released s i (thr c') x ch') S'' \<and> linked S'' = linked S' \<and> refs S'' = refs S - {#x#} \<and> keeps S' S''"
  by (rule set_ends_ok [OF assms])

theorem set_command_ends_witness:
  "\<exists>(s :: sys) c' ch' K S'. complete_nread_ascii demo_globals demo_penv (demo_conn (wks s ! 0)) (cch s) = Some (c', ch') \<and> wout c' = ascii ''STORED'' @ [13, 10]
     \<and> sim demo_globals K (released s 0 (thr c') 50000 ch') S' \<and> 50000 \<in> linked S'"
proof -
  obtain s S K where s: "sim demo_globals K s S" "ample s" "length (wks s) = 1" "50000 \<in># refs S" "50000 \<notin> linked S" "linked S = {1000}"
    "ent S 50000 = \<lparr>e_key = [1], e_bytes = 4, e_flags = 0, e_data = [], e_cas = 0, e_exp = 0\<rparr>" by (rule demo_two)
  have i: "in_store S 50000" by (rule refs_in_store(1) [OF s(4)])
  from write_step [OF s(1) i, of 0 "[51, 52, 13, 10]"] s(7) obtain ch where
    w: "sim demo_globals K (s\<lparr>cch := ch\<rparr>) (S\<lparr>ent := (ent S)(50000 := (ent S 50000)\<lparr>e_data := [51, 52, 13, 10]\<rparr>)\<rparr>)" (is "sim _ _ ?s ?S") by (auto simp: entry_value_def put_def)
  have "references ?s = references s" by (simp add: references_def)
  then have a: "ample ?s" using s(2) unfolding ample_def by simp
  have x: "50000 \<in># refs ?S" "50000 \<notin> linked ?S" "0 < length (wks ?s)" "drop (nat (e_bytes (ent ?S 50000) - 2)) (entry_value (ent ?S 50000)) = [13, 10]"
    using s(3-5,7) by (simp_all add: entry_value_def)
  from set_command_ends [OF w x(3) demo_conn_simps(1) a x(1,2) demo_conn_simps(5) _ _ x(4), of demo_penv] obtain p C c' ch' S1 S2 where
    e: "complete_nread_ascii demo_globals demo_penv (demo_conn (wks ?s ! 0)) (cch ?s) = Some (c', ch')" "replies (store_reply STORED) c'" "stored_in 50000 p C STORED ?S S1"
      "sim demo_globals K (released ?s 0 (thr c') 50000 ch') S2" "linked S2 = linked S1" by auto
  then show ?thesis by (intro exI [of _ ?s] exI [of _ c'] exI [of _ ch'] exI [of _ K] exI [of _ S2]) (simp add: replies_def stored_in_def)
qed

section \<open>The other commands\<close>

text \<open>
  C10. A get of one key reports what the store holds: for the item its look-up finds, the line \<open>VALUE\<close> with the key, flags,
  length and, where asked for, the CAS unique of that item, and its value, whose reference the connection then holds;
  nothing for a key that is not there, or whose item has more than 60000 references.
\<close>

theorem get_reports_stored:
  assumes "sim g K s S" "i < length (wks s)" "thr c = wks s ! i" "room s" "\<And>y. y \<in> linked S \<Longrightarrow> e_bytes (ent S y) < 2 ^ 31"
    and "ilist_mem pe (length (ilist c))" "suffix_mem pe (length (ilist c))" "\<And>n. iov_mem pe n" "wrapv pe" "\<And>n. length (sbuf n) = 50"
  shows "\<exists>p w ch c' pt' ch' S'. do_item_get g key (hash g key) (wks s ! i) True (cch s) = Some (p, w, ch) \<and> looks_up g key S p (linked S') \<and> keeps S S'
    \<and> get_key g pe sbuf et rc False key c pt (cch s) = Some (Get_goes_on, c', pt', ch') \<and> sim g K (with_found s i (hit_item p ch) (thr c') ch') S'
    \<and> iov c' = iov c @ (case hit_item p ch of None \<Rightarrow> [] | Some y \<Rightarrow> value_pieces rc (hp ch y)) \<and> ilist c' = ilist c @ (case hit_item p ch of None \<Rightarrow> [] | Some y \<Rightarrow> [y])
    \<and> (\<forall>y. hit_item p ch = Some y \<longrightarrow> ent S y = entry_of (hp ch y))"
  by (rule get_key_ok [OF assms])

theorem get_reports_stored_witness:
  "\<exists>(s :: sys) (ch :: cache) c' pt' ch'. get_key demo_globals demo_penv (\<lambda>_. replicate 50 0) 0 True False [1] (demo_conn (wks s ! 0)) (stats_prefix_clear undefined) (cch s) = Some (Get_goes_on, c', pt', ch')
     \<and> iov c' = value_pieces True (hp ch 1000) \<and> ilist c' = [1000] \<and> ITEM_key (hp ch 1000) = [1] \<and> item_value (hp ch 1000) = [49, 50, 13, 10]"
proof -
  obtain s S K where s: "sim demo_globals K s S" "ample s" "length (wks s) = 1" "linked S = {1000}"
    "ent S 1000 = \<lparr>e_key = [1], e_bytes = 4, e_flags = 0, e_data = [49, 50, 13, 10], e_cas = 1, e_exp = 0\<rparr>"
    "\<forall>p w ch. do_item_get demo_globals [1] (hash demo_globals [1]) (wks s ! 0) True (cch s) = Some (p, w, ch) \<longrightarrow> hit_item p ch = Some 1000" by (rule demo_number)
  have i: "0 < length (wks s)" "room s" using s(3) nearly_room [OF ample_nearly [OF s(2)]] by simp_all
  have f: "e_bytes (ent S y) < 2 ^ 31" if "y \<in> linked S" for y using that s(4,5) by simp
  have m: "ilist_mem demo_penv n" "suffix_mem demo_penv n" "iov_mem demo_penv n" "wrapv demo_penv" for n by (simp_all add: demo_penv_def)
  have v: "entry_value \<lparr>e_key = [1], e_bytes = 4, e_flags = 0, e_data = [49, 50, 13, 10], e_cas = 1, e_exp = 0\<rparr> = [49, 50, 13, 10]" by (simp add: entry_value_def)
  from get_reports_stored [where key = "[1]" and et = 0 and rc = True and pt = "stats_prefix_clear undefined" and sbuf = "\<lambda>_. replicate 50 0", OF s(1) i(1) demo_conn_simps(1) i(2) f m length_replicate]
  obtain p w ch c' pt' ch' where
    e: "do_item_get demo_globals [1] (hash demo_globals [1]) (wks s ! 0) True (cch s) = Some (p, w, ch)"
      "get_key demo_globals demo_penv (\<lambda>_. replicate 50 0) 0 True False [1] (demo_conn (wks s ! 0)) (stats_prefix_clear undefined) (cch s) = Some (Get_goes_on, c', pt', ch')"
      "iov c' = iov (demo_conn (wks s ! 0)) @ (case hit_item p ch of None \<Rightarrow> [] | Some y \<Rightarrow> value_pieces True (hp ch y))"
      "ilist c' = ilist (demo_conn (wks s ! 0)) @ (case hit_item p ch of None \<Rightarrow> [] | Some y \<Rightarrow> [y])" "\<forall>y. hit_item p ch = Some y \<longrightarrow> ent S y = entry_of (hp ch y)" by blast
  have h: "hit_item p ch = Some 1000" using s(6) e(1) by blast
  have en: "entry_of (hp ch 1000) = \<lparr>e_key = [1], e_bytes = 4, e_flags = 0, e_data = [49, 50, 13, 10], e_cas = 1, e_exp = 0\<rparr>" using e(5) h s(5) by simp
  have "item_value (hp ch 1000) = [49, 50, 13, 10]" unfolding entry_value_item [symmetric] en by (rule v)
  moreover have "ITEM_key (hp ch 1000) = [1]" using arg_cong [OF en, of e_key] by (simp add: entry_of_def)
  ultimately show ?thesis using e(2-4) h by (intro exI [of _ s] exI [of _ ch] exI [of _ c'] exI [of _ pt'] exI [of _ ch']) simp
qed

text \<open>
  C12. A delete command unlinks the item its look-up finds and answers \<open>DELETED\<close>, or answers \<open>NOT_FOUND\<close>; nothing else
  changes, and whoever holds the item keeps it.
\<close>

theorem delete_command_refines:
  assumes "sim g K s S" "i < length (wks s)" "thr c = wks s ! i" "ample s" "delete_line ts key c c1"
  shows "\<exists>p C c' pt' ch' S'. process_delete_command g pe ts c pt (cch s) = Some (c', pt', ch') \<and> looks_up g key S p C
    \<and> (\<not> noreply c1 \<longrightarrow> 11 \<le> wsize c \<longrightarrow> replies (if p = None then ''NOT_FOUND'' else ''DELETED'') c')
    \<and> sim g K (upd_sys s i (thr c') ch') S' \<and> linked S' = C - set_option p \<and> refs S' = refs S \<and> keeps S S'"
  by (rule delete_ok [OF assms])

theorem delete_command_refines_witness:
  "\<exists>(s :: sys) c' pt' ch' K S'. process_delete_command demo_globals demo_penv (tokenize_command (ascii ''delete '' @ [1, 0]) MAX_TOKENS) (demo_conn (wks s ! 0)) (stats_prefix_clear undefined) (cch s) = Some (c', pt', ch')
     \<and> sim demo_globals K (upd_sys s 0 (thr c') ch') S' \<and> linked S' = {}"
proof -
  obtain s S K where s: "sim demo_globals K s S" "ample s" "length (wks s) = 1" "linked S = {1000}"
    "ent S 1000 = \<lparr>e_key = [1], e_bytes = 4, e_flags = 0, e_data = [49, 50, 13, 10], e_cas = 1, e_exp = 0\<rparr>" by (rule demo_number)
  let ?ts = "tokenize_command (ascii ''delete '' @ [1, 0]) MAX_TOKENS"
  have i: "0 < length (wks s)" using s(3) by simp
  have t: "length ?ts = 3" "token_at ?ts 1 = Some \<lparr>tok_value = Some [1, 0], tok_length = 1\<rparr>" by code_simp+
  have l: "delete_line ?ts [1] (demo_conn (wks s ! 0)) (demo_conn (wks s ! 0))" using t by (simp add: delete_line_def delete_syntax_def)
  from delete_command_refines [OF s(1) i demo_conn_simps(1) s(2) l, of demo_penv "stats_prefix_clear undefined"] obtain p C c' pt' ch' S' where
    d: "process_delete_command demo_globals demo_penv ?ts (demo_conn (wks s ! 0)) (stats_prefix_clear undefined) (cch s) = Some (c', pt', ch')" "looks_up demo_globals [1] S p C"
      "sim demo_globals K (upd_sys s 0 (thr c') ch') S'" "linked S' = C - set_option p" by blast
  have "linked S' = {}" using d(2,4) s(4,5) by (auto simp: looks_up_def split: option.splits)
  with d(1,3) show ?thesis by blast
qed



text \<open>
  C27. \<open>flush_all\<close> without a delay, in a server that keeps CAS uniques and has run for two seconds, marks every item that
  was stored before (its unique is at most the last one given out) or last used before the current second as
  flushed, and no item stored from now on.
\<close>

theorem flush_all_flushes:
  assumes "length ts = 2" "\<not> noreply c" "token_is ts 0 ''noreply'' = Some False" "flush_enabled pe" "use_cas (slab_set g)" "2 \<le> current_time g" "unat (cas_id ch) < 2 ^ 64 - 1"
  shows "\<exists>c' g' ch'. flush_all g pe erange ts c ch = Some (c', g', ch') \<and> current_time g' = current_time g
    \<and> (\<forall>it. ITEM_get_cas it \<noteq> 0 \<and> ITEM_get_cas it \<le> cas_id ch \<or> time it < current_time g \<longrightarrow> item_is_flushed g' it)
    \<and> (\<forall>it. cas_id ch' < ITEM_get_cas it \<and> current_time g \<le> time it \<longrightarrow> \<not> item_is_flushed g' it)"
proof -
  obtain t v where t: "token_at ts 0 = Some t" "tok_value t = Some v" "takeWhile (\<lambda>b. b \<noteq> 0) v \<noteq> ascii ''noreply''"
    using assms(3) by (auto simp: token_is_def token_value_def bind_eq_Some_conv)
  have s: "set_noreply_maybe ts c = Some c" using t assms(1) by (simp add: set_noreply_maybe_def)
  let ?t = "current_time g - 1" and ?i = "cas_id ch + 1"
  have u: "unat ?t = unat (current_time g) - 1" "0 < unat ?t" "unat ?i = unat (cas_id ch) + 1"
  proof -
    have "2 \<le> unat (current_time g)" using assms(6) by (simp add: word_le_nat_alt)
    then show "unat ?t = unat (current_time g) - 1" "0 < unat ?t" by (simp_all add: unat_sub word_le_nat_alt)
    show "unat ?i = unat (cas_id ch) + 1" using assms(7) by (subst unat_add_no_wrap) simp_all
  qed
  have le: "?t \<le> current_time g" "?t \<noteq> 0" "\<not> ?t > current_time g" using u(1,2) by (auto simp: word_le_nat_alt word_less_nat_alt)
  let ?g = "g\<lparr>oldest_live := ?t, oldest_cas := ?i\<rparr>"
  have f: "flush_all g pe erange ts c ch = Some (out_string ''OK'' (upd_ts (\<lambda>s. s\<lparr>flush_cmds := flush_cmds s + 1\<rparr>) c), ?g, ch\<lparr>cas_id := ?i\<rparr>)"
    using s assms le by (simp add: flush_all_def upd_ts_def get_cas_id_def Let_def)
  have i: "item_is_flushed ?g it \<longleftrightarrow> time it \<le> ?t \<or> ?i \<noteq> 0 \<and> ITEM_get_cas it \<noteq> 0 \<and> ITEM_get_cas it < ?i" for it
    using le by (simp add: item_is_flushed_def)
  have "item_is_flushed ?g it" if "ITEM_get_cas it \<noteq> 0 \<and> ITEM_get_cas it \<le> cas_id ch \<or> time it < current_time g" for it
    using that u unfolding i by (auto simp: word_le_nat_alt word_less_nat_alt unat_eq_zero)
  moreover have "\<not> item_is_flushed ?g it" if "?i < ITEM_get_cas it \<and> current_time g \<le> time it" for it
    using that u unfolding i by (auto simp: word_le_nat_alt word_less_nat_alt)
  ultimately show ?thesis unfolding f
    by (intro exI [of _ "out_string ''OK'' (upd_ts (\<lambda>s. s\<lparr>flush_cmds := flush_cmds s + 1\<rparr>) c)"] exI [of _ ?g] exI [of _ "ch\<lparr>cas_id := ?i\<rparr>"]) simp
qed

theorem flush_all_flushes_witness:
  "\<exists>c' g' ch'. flush_all demo_globals demo_penv True (tokenize_command (ascii ''flush_all'' @ [0]) MAX_TOKENS) (demo_conn demo_worker) (cch demo_sys) = Some (c', g', ch')
     \<and> current_time g' = 100 \<and> item_is_flushed g' (zero_item\<lparr>time := 99\<rparr>)"
proof -
  let ?ts = "tokenize_command (ascii ''flush_all'' @ [0]) MAX_TOKENS"
  have t: "length ?ts = 2" "token_is ?ts 0 ''noreply'' = Some False" "unat (cas_id (cch demo_sys)) < 2 ^ 64 - 1" by code_simp+
  have g: "use_cas (slab_set demo_globals)" "2 \<le> current_time demo_globals" "current_time demo_globals = 100" "flush_enabled demo_penv" "\<not> noreply (demo_conn demo_worker)"
    by (simp_all add: demo_globals_def demo_settings_def demo_penv_def)
  show ?thesis using flush_all_flushes [OF t(1) g(5) t(2) g(4,1,2) t(3), of True] g(3) by fastforce
qed

section \<open>Bounds and arguments\<close>

text \<open>
  C29. The text after the key in a \<open>VALUE\<close> line never overruns the suffix buffer of 50 bytes, for every item and
  every CAS unique: at most 45 bytes and a terminating zero are written.
\<close>

theorem get_suffix_fits:
  assumes "length sfx = 50" "2 \<le> nb" "nb < 2 ^ 32"
  shows "\<exists>b n. make_ascii_get_suffix True sfx it rc nb = Some (b, n) \<and> n \<le> 45 \<and> length b = 50
    \<and> take n b = value_suffix (FLAGS_CONV it) nb (if rc then Some (ITEM_get_cas it) else None)"
  by (rule suffix_text [OF assms])

theorem get_suffix_fits_witness:
  "\<exists>b n. make_ascii_get_suffix True (replicate 50 0) zero_item False 4294967295 = Some (b, n) \<and> n \<le> 45"
  using get_suffix_fits [of "replicate 50 0" 4294967295 zero_item False] by auto

lemma c_int_range: "- (2 ^ 31) \<le> c_int w" "c_int w < 2 ^ 31"
  using sint_greater_eq [of "ucast w :: 32 word"] sint_less [of "ucast w :: 32 word"] by (simp_all add: c_int_def)





end
