(* ===== verification/Spec2Isabelle.thy ===== *)
theory Spec2Isabelle
  imports Bipbuffer Hashing Evcompat Slab_Automove Assoc Cache_Properties Crawler_Proof Protocol_Properties
begin

text \<open>
  Verification of the C code of skq-bench: the memcached server patched for the SKQ event queue (\<open>src/mem\<close>) and the
  event library it runs on (\<open>src/evcompat\<close>).

  \<^bold>\<open>The program and its parts.\<close> A worker thread of the server runs the loop of \<open>evcompat/event.c\<close> on a kqueue
  that it may share with others. A ready connection leads to \<open>process_command\<close> of \<open>memcached.c\<close>, which cuts the line
  into tokens and calls a handler. The handlers reach items through the item access functions of \<open>thread.c\<close>, which take the lock of
  the key and call \<open>items.c\<close>. An item lives in a chunk of the slab allocator (\<open>slabs.c\<close>), in a chain of the
  hash table (\<open>assoc.c\<close>, keyed by \<open>hash.c\<close>) and in one of the LRU lists of its size class. Background threads move
  items between LRU lists, expand the table, move pages between size classes (on the proposals of \<open>slab_automove.c\<close>) and crawl the
  lists for expired items; workers report hits on items to the LRU maintainer through a bip buffer.

  \<^bold>\<open>The theories.\<close>

  \<^item> \<open>Prelude\<close>: machine integers at their C widths, flags, byte memory (\<open>memcpy_at\<close>, \<open>seg\<close>), monadic rules.
  \<^item> \<open>Bipbuffer\<close> (\<open>bipbuffer.c\<close>): the two-region byte queue. The locale \<open>byte_queue\<close> is its contract.
  \<^item> \<open>Hashing\<close> (\<open>jenkins_hash.c\<close>, \<open>murmur3_hash.c\<close>, \<open>hash.c\<close>): both hash functions over byte-addressed memory, with
    every read path of both byte orders. The locale \<open>key_hash\<close>: the hash depends on the bytes of the key alone.
  \<^item> \<open>Evcompat\<close> (\<open>evcompat/event.c\<close>): the API and the event loop as a step relation cut at the lock acquisitions, for any
    number of threads; the kernel is a parameter with the documented kqueue behaviour. Invariants by rule induction
    over the reachable states.
  \<^item> \<open>Slab_Automove\<close> (\<open>slab_automove.c\<close>, \<open>slab_automove_extstore.c\<close>): the policies, and their contract \<open>page_policy\<close>.
  \<^item> \<open>Item\<close>, \<open>Assoc\<close> (\<open>memcached.h\<close>, \<open>assoc.c\<close>): items in a heap (a map from addresses), the chained hash table
    with its incremental expansion. The locale \<open>item_table\<close> is the contract the cache relies on.
  \<^item> \<open>Slabs\<close>, \<open>Slabs_Proof\<close>, \<open>Slabs_Witness\<close> (\<open>slabs.c\<close>): size classes, pages, free lists, page moves; the invariant
    \<open>slabs_inv\<close> and the contract \<open>chunk_allocator\<close>.
  \<^item> \<open>Dll\<close>, \<open>Items\<close>, \<open>Items_Proof\<close>, \<open>Cache\<close>, \<open>Lookup\<close>, \<open>Alloc\<close>, \<open>Maintainer\<close> (\<open>items.c\<close>): doubly linked lists; allocation, link, unlink,
    replace, reference counts, lookup, touch, the segmented LRU, eviction, the maintainer's turn. \<open>cache_inv\<close> ties
    hash table, LRU lists, allocator, reference counts and statistics to one set of linked items.
  \<^item> \<open>Cache_System\<close>, \<open>Cache_Refine\<close>, \<open>Cache_Demo\<close>, \<open>Cache_Properties\<close>: workers, maintenance threads, clock and flush as one system;
    every run refines a key-value store (\<open>store\<close>: linked items, references held, entries) that loses entries only by
    expiry, flush or eviction. \<open>sim\<close> is the simulation relation.
  \<^item> \<open>Crawler\<close>, \<open>Crawler_Proof\<close> (\<open>crawler.c\<close>): the pseudo items that walk the LRU lists.
  \<^item> \<open>Numbers\<close> (\<open>itoa_ljust.c\<close>, \<open>util.c\<close>): printing and parsing of numbers, URI encoding, byte swaps.
  \<^item> \<open>Prefix_Stats\<close> (\<open>stats.c\<close>): counters per key prefix and their dump.
  \<^item> \<open>Protocol\<close>, \<open>Dispatch\<close> (\<open>memcached.c\<close>, item access of \<open>thread.c\<close>): connections, tokenizer, the handlers of the
    text protocol, storage rules, arithmetic, flush, dispatch. \<open>Tokenizer\<close> proves the tokenizer equal to a reference definition.
  \<^item> \<open>Storage\<close>, \<open>Storage_Append\<close>, \<open>Commands\<close>, \<open>Arithmetic\<close>, \<open>Protocol_Demo\<close>, \<open>Protocol_Properties\<close>: the handlers over the abstract store.
    Each step of a handler is a lemma on \<open>sim\<close> (\<open>get_step\<close>, \<open>link_step\<close>, \<open>replace_step\<close>, \<open>write_step\<close>, \<open>new_step\<close>, ...); the handlers
    compose them.

  \<^bold>\<open>Conventions.\<close> A function of the C code is a HOL function of the same name that takes and returns the state it uses.
  \<open>None\<close> is a failed assertion, an access outside an object or other undefined behaviour; theorems state \<open>Some\<close>
  results, so that returning and staying inside the bounds is part of them. Integers are words of their C width wherever they can
  wrap. Results of \<open>malloc\<close>, \<open>pthread_mutex_trylock\<close> and of the kernel are arguments. Loops over linked lists are
  \<open>partial_function\<close>s or carry the bound the code has (five tries in \<open>lru_pull_tail\<close>, ten rounds in \<open>do_item_alloc\<close>, 500 items per
  juggle); that they return is proved from the invariants. \<open>Protocol_Demo\<close> and \<open>Cache_Demo\<close> evaluate a small server with
  pages of 192 bytes, so that witnesses compute.

  \<^bold>\<open>What the theorems show.\<close> The cache refines the abstract store in every legal run and stays consistent; lookups,
  allocation, eviction and the maintainer do what their callers rely on; table and allocator meet their contracts; a crawl visits
  every item once. On top of that set, add, replace, cas, append, prepend, get, incr, decr, delete and flush_all have the effect of
  the protocol on the store, with the replies they send. The event loop handles each event in one thread at a time and fails no
  assertion. Printing and parsing round-trip; buffers of responses and dumps are large enough. A number of theorems record
  behaviour at odds with comments or intention: deadlock and a race of the event library, overflow of the automove window and of
  the hash power, tail repair freeing held items, counts of prefixes mixed, negative expiry times of touch, overflow in printing.

  \<^bold>\<open>Hypotheses that limit the runs.\<close> Callers pass references they hold; reference counts stay below the end of their 16 bits
  (\<open>room\<close>, \<open>ample\<close>); new pages are blocks outside those in use; tail repair is off (with it on, an item in use can be freed);
  items fit the largest chunk. Arithmetic and append are stated without external storage.

  \<^bold>\<open>Not modelled.\<close> The binary protocol and the administrative commands (\<open>Dispatch\<close> recognises the latter); the state machine that moves bytes
  between socket and buffers, UDP, connection queues and thread start-up (I/O); external storage (\<open>extstore.c\<close>, \<open>storage.c\<close>), the
  logger's formatting, TLS, SASL and privilege dropping (external libraries and the operating system); the text of statistics. Locks
  of the item cache are not part of the state: its operations are serialised, a trylock that fails is an argument. Large (chunked)
  items are modelled in the slab allocator but are outside the runs of the cache, and crawlers are verified on the
  lists apart from the runs. Of a page move the start and the finish are modelled, not \<open>slab_rebalance_move\<close>, which rescues the items of the page. \<open>src/memcached\<close> is
  the unpatched copy of the same server; \<open>src/scaled\<close>, \<open>src/mutilate\<close> and \<open>src/pingpong\<close> are measurement programs.
\<close>

end
